(* ===== verification/Rust_Prelude.thy ===== *)
theory Rust_Prelude
  imports Main "HOL-Library.Word" "HOL-Library.Monad_Syntax"
begin

text \<open>
  What the components share: the machine types of the Rust sources, the reading and writing
  of slices, and the generic lemmas on words, lists and options.

  \<^item> A value of type \<open>'a option\<close> returned by a definition that indexes slices is a \<^emph>\<open>panic
    monad\<close>: \<open>None\<close> is the panic that Rust raises for an index or a range out of bounds
    (\<open>idx\<close>, \<open>slice\<close>, \<open>slice_from\<close>, \<open>upd\<close>), and \<open>Some v\<close> is a normal return of \<open>v\<close>. A Rust
    \<open>Option\<close> is an \<open>option\<close> inside it.
  \<^item> Unsigned integers are words (\<open>u8\<close>, \<open>u16\<close>, \<open>u32\<close>, \<open>u64\<close>) with the release profile's
    wrap-around; \<open>usize\<close> is \<open>nat\<close>, since sums of buffer positions stay far below
    \<open>2 ^ 64\<close>, with the wrap-around of a subtraction below zero written out
    (\<open>usize_sub\<close>). Shift amounts are taken modulo the width, as the release profile does
    (\<open>shl64\<close>, \<open>shr64\<close>).
  \<^item> \<open>String\<close> and \<open>&str\<close> are their UTF-8 bytes.
\<close>

unbundle bit_operations_syntax

type_synonym u8 = "8 word"
type_synonym u16 = "16 word"
type_synonym u32 = "32 word"
type_synonym u64 = "64 word"
type_synonym usize = nat
type_synonym bytes = "u8 list"
type_synonym rstring = "u8 list"

named_theorems panic_defs \<open>definitions of the slice operations\<close>
named_theorems word_bits \<open>rules that decide a word equation bit by bit\<close>
named_theorems no_panic \<open>introduction rules that show that a computation does not panic\<close>
named_theorems post \<open>introduction rules for what holds of the result of a computation\<close>
named_theorems len_simps \<open>lengths of the byte lists the operations build\<close>

section \<open>Slices\<close>

definition idx :: "'a list \<Rightarrow> usize \<Rightarrow> 'a option" where [panic_defs]:
  "idx xs i = (if i < length xs then Some (xs ! i) else None)"

definition slice :: "'a list \<Rightarrow> usize \<Rightarrow> usize \<Rightarrow> 'a list option" where [panic_defs]:
  "slice xs a b = (if a \<le> b \<and> b \<le> length xs then Some (take (b - a) (drop a xs)) else None)"

definition slice_from :: "'a list \<Rightarrow> usize \<Rightarrow> 'a list option" where [panic_defs]:
  "slice_from xs a = (if a \<le> length xs then Some (drop a xs) else None)"

definition upd :: "'a list \<Rightarrow> usize \<Rightarrow> 'a \<Rightarrow> 'a list option" where [panic_defs]:
  "upd xs i v = (if i < length xs then Some (xs[i := v]) else None)"

text \<open>\<open>usize\<close> subtraction of the release profile.\<close>

definition usize_sub :: "usize \<Rightarrow> usize \<Rightarrow> usize" where
  "usize_sub a b = (if b \<le> a then a - b else 2 ^ 64 + a - b)"

lemma usize_sub_le [simp]: "b \<le> a \<Longrightarrow> usize_sub a b = a - b"
  by (simp add: usize_sub_def)

lemma idx_Some [simp]: "i < length xs \<Longrightarrow> idx xs i = Some (xs ! i)"
  by (simp add: idx_def)

lemma idx_None [simp]: "length xs \<le> i \<Longrightarrow> idx xs i = None"
  by (simp add: idx_def)

lemma idx_eq_Some_iff: "idx xs i = Some v \<longleftrightarrow> i < length xs \<and> xs ! i = v"
  by (auto simp: idx_def)

lemma idx_append1 [simp]: "i < length xs \<Longrightarrow> idx (xs @ ys) i = idx xs i"
  by (simp add: idx_def nth_append)

lemma idx_mid: "k < length es \<Longrightarrow> idx (xs @ es @ ys) (length xs + k) = Some (es ! k)"
  by (simp add: idx_def nth_append)

lemma idx_mid0: "es \<noteq> [] \<Longrightarrow> idx (xs @ es @ ys) (length xs) = Some (hd es)"
  using idx_mid [of 0 es xs ys] by (simp add: hd_conv_nth)

lemma slice_Some [simp]:
  "a \<le> b \<Longrightarrow> b \<le> length xs \<Longrightarrow> slice xs a b = Some (take (b - a) (drop a xs))"
  by (simp add: slice_def)

lemma slice_from_Some [simp]: "a \<le> length xs \<Longrightarrow> slice_from xs a = Some (drop a xs)"
  by (simp add: slice_from_def)

lemma upd_Some [simp]: "i < length xs \<Longrightarrow> upd xs i v = Some (xs[i := v])"
  by (simp add: upd_def)

lemma upd_eq_Some_iff: "upd xs i v = Some ys \<longleftrightarrow> i < length xs \<and> ys = xs[i := v]"
  by (auto simp: upd_def)

lemma slice_eq_Some_iff:
  "slice xs a b = Some ys \<longleftrightarrow> a \<le> b \<and> b \<le> length xs \<and> ys = take (b - a) (drop a xs)"
  by (auto simp: slice_def)

text \<open>A Rust \<open>for\<close> loop or an iterator with \<open>?\<close>-style early exit: a fold in the panic monad.\<close>

fun foldM :: "('s \<Rightarrow> 'a \<Rightarrow> 's option) \<Rightarrow> 's \<Rightarrow> 'a list \<Rightarrow> 's option" where
  "foldM f s [] = Some s"
| "foldM f s (x # xs) = do { s' \<leftarrow> f s x; foldM f s' xs }"

lemma foldM_append: "foldM f s (xs @ ys) = do { s' \<leftarrow> foldM f s xs; foldM f s' ys }"
  by (induction xs arbitrary: s) (auto split: Option.bind_splits)

lemma foldM_total:
  assumes "\<And>s x. x \<in> set xs \<Longrightarrow> I s \<Longrightarrow> \<exists>s'. f s x = Some s' \<and> I s'" and "I s"
  shows "\<exists>s'. foldM f s xs = Some s' \<and> I s'"
  using assms by (induction xs arbitrary: s) (fastforce)+

text \<open>
  That a computation does not panic is \<open>m \<noteq> None\<close>. The rules follow the shape of the
  definitions: \<open>intro no_panic\<close> leaves one goal for every slice operation, with the guards
  passed on the way as its assumptions.
\<close>

lemma no_panic_Some [no_panic]: "Some x \<noteq> None"
  by simp

lemma no_panic_bind [no_panic]:
  "m \<noteq> None \<Longrightarrow> (\<And>x. m = Some x \<Longrightarrow> f x \<noteq> None) \<Longrightarrow> m \<bind> f \<noteq> None"
  by (cases m) auto

lemma no_panic_if [no_panic]:
  "(c \<Longrightarrow> m \<noteq> None) \<Longrightarrow> (\<not> c \<Longrightarrow> n \<noteq> None) \<Longrightarrow> (if c then m else n) \<noteq> None"
  by simp

lemma no_panic_Let [no_panic]: "(\<And>x. x = e \<Longrightarrow> f x \<noteq> None) \<Longrightarrow> Let e f \<noteq> None"
  by (simp add: Let_def)

lemma no_panic_case_option [no_panic]:
  "(m = None \<Longrightarrow> a \<noteq> None) \<Longrightarrow> (\<And>x. m = Some x \<Longrightarrow> f x \<noteq> None) \<Longrightarrow>
   (case m of None \<Rightarrow> a | Some x \<Rightarrow> f x) \<noteq> None"
  by (cases m) auto

lemma no_panic_case_prod [no_panic]:
  "(\<And>x y. m = (x, y) \<Longrightarrow> f x y \<noteq> None) \<Longrightarrow> (case m of (x, y) \<Rightarrow> f x y) \<noteq> None"
  by (cases m) auto

lemma no_panic_idx [no_panic]: "i < length xs \<Longrightarrow> idx xs i \<noteq> None"
  by simp

lemma no_panic_upd [no_panic]: "i < length xs \<Longrightarrow> upd xs i v \<noteq> None"
  by simp

lemma no_panic_slice [no_panic]: "a \<le> b \<Longrightarrow> b \<le> length xs \<Longrightarrow> slice xs a b \<noteq> None"
  by simp

lemma no_panic_slice_from [no_panic]: "a \<le> length xs \<Longrightarrow> slice_from xs a \<noteq> None"
  by simp

text \<open>
  What holds of the result of a computation when it does not panic. \<open>intro post\<close> walks the
  definition and leaves one goal for every way through it.
\<close>

definition ensures :: "('a \<Rightarrow> bool) \<Rightarrow> 'a option \<Rightarrow> bool" where
  "ensures P m \<longleftrightarrow> (\<forall>y. m = Some y \<longrightarrow> P y)"

lemma ensuresD: "ensures P m \<Longrightarrow> m = Some y \<Longrightarrow> P y"
  by (simp add: ensures_def)

lemma post_Some [post]: "P y \<Longrightarrow> ensures P (Some y)"
  by (simp add: ensures_def)

lemma post_None [post]: "ensures P None"
  by (simp add: ensures_def)

lemma post_bind [post]: "(\<And>x. m = Some x \<Longrightarrow> ensures P (f x)) \<Longrightarrow> ensures P (m \<bind> f)"
  by (cases m) (auto simp: ensures_def)

lemma post_if [post]: "(c \<Longrightarrow> ensures P m) \<Longrightarrow> (\<not> c \<Longrightarrow> ensures P n) \<Longrightarrow> ensures P (if c then m else n)"
  by simp

lemma post_Let [post]: "(\<And>x. x = e \<Longrightarrow> ensures P (f x)) \<Longrightarrow> ensures P (Let e f)"
  by (simp add: Let_def)

lemma post_case_option [post]:
  "(m = None \<Longrightarrow> ensures P a) \<Longrightarrow> (\<And>x. m = Some x \<Longrightarrow> ensures P (f x)) \<Longrightarrow> ensures P (case m of None \<Rightarrow> a | Some x \<Rightarrow> f x)"
  by (cases m) auto

lemma post_case_prod [post]:
  "(\<And>x y. m = (x, y) \<Longrightarrow> ensures P (f x y)) \<Longrightarrow> ensures P (case m of (x, y) \<Rightarrow> f x y)"
  by (cases m) auto

section \<open>Words, bit by bit\<close>

lemma word_eq_bits:
  "list_all (\<lambda>n. bit a n \<longleftrightarrow> bit b n) [0..<LENGTH('a)] \<Longrightarrow> (a :: 'a::len word) = b"
  by (intro bit_word_eqI) (simp add: list_all_iff)

lemma upt8 [word_bits]: "[0..<8] = [0, 1, 2, 3, 4, 5, 6, 7 :: nat]"
  by code_simp

lemma upt16 [word_bits]:
  "[0..<16] = [0, 1, 2, 3, 4, 5, 6, 7, 8, 9, 10, 11, 12, 13, 14, 15 :: nat]"
  by code_simp

lemma upt32 [word_bits]:
  "[0..<32] = [0, 1, 2, 3, 4, 5, 6, 7, 8, 9, 10, 11, 12, 13, 14, 15, 16, 17, 18, 19, 20, 21,
     22, 23, 24, 25, 26, 27, 28, 29, 30, 31 :: nat]"
  by code_simp

lemma upt64 [word_bits]:
  "[0..<64] = [0, 1, 2, 3, 4, 5, 6, 7, 8, 9, 10, 11, 12, 13, 14, 15, 16, 17, 18, 19, 20, 21,
     22, 23, 24, 25, 26, 27, 28, 29, 30, 31, 32, 33, 34, 35, 36, 37, 38, 39, 40, 41, 42, 43,
     44, 45, 46, 47, 48, 49, 50, 51, 52, 53, 54, 55, 56, 57, 58, 59, 60, 61, 62, 63 :: nat]"
  by code_simp

lemma bit_beyond8 [word_bits]: "8 \<le> n \<Longrightarrow> bit (w :: u8) n = False"
  using bit_imp_le_length [of w n] by auto

lemma bit_beyond16 [word_bits]: "16 \<le> n \<Longrightarrow> bit (w :: u16) n = False"
  using bit_imp_le_length [of w n] by auto

lemma bit_beyond32 [word_bits]: "32 \<le> n \<Longrightarrow> bit (w :: u32) n = False"
  using bit_imp_le_length [of w n] by auto

lemma bit_one_word [word_bits]: "bit (1 :: 'a::len word) n \<longleftrightarrow> n = 0"
  by (auto simp: bit_1_iff)

declare bit_simps [word_bits]

lemma bit_at_one [word_bits]: "bit w (1 :: nat) \<longleftrightarrow> bit w (Suc 0)"
  by simp

lemma word_take_bit_self: "unat w < 2 ^ n \<Longrightarrow> take_bit n w = (w :: 'a::len word)"
  by (simp add: word_unat_eq_iff unsigned_take_bit_eq take_bit_nat_eq_self)

lemma unat_take_bit_less: "unat (take_bit n (w :: 'a::len word)) < 2 ^ n"
  by (simp add: unsigned_take_bit_eq)

lemma unat_lt_of_take_bit: "take_bit n w = w \<Longrightarrow> unat (w :: 'a::len word) < 2 ^ n"
  by (metis unat_take_bit_less)

lemma unat_and_0F: "unat (c AND 0x0F :: u8) = unat c mod 16"
proof -
  have "c AND 0x0F = take_bit 4 c"
    by (rule word_eq_bits) (simp add: word_bits)
  then show ?thesis
    by (simp add: take_bit_eq_mod unat_mod)
qed

lemma unat_u8_less [simp]: "unat (w :: u8) < 256"
  using unsigned_less [of w] by simp

lemma unat_u16_less [simp]: "unat (w :: u16) < 65536"
  using unsigned_less [of w] by simp

lemma unat_of_nat_u8: "n < 256 \<Longrightarrow> unat (of_nat n :: u8) = n"
  by (simp add: unat_of_nat take_bit_nat_eq_self)

lemma unat_of_nat_u16: "n < 65536 \<Longrightarrow> unat (of_nat n :: u16) = n"
  by (simp add: unat_of_nat take_bit_nat_eq_self)

lemma unat_ucast_u8_u16 [simp]: "unat (ucast (b :: u8) :: u16) = unat b"
  by (simp add: unsigned_ucast_eq take_bit_nat_eq_self less_trans [OF unat_u8_less])

lemma unat_ucast_u8_u64 [simp]: "unat (ucast (b :: u8) :: u64) = unat b"
  by (simp add: unsigned_ucast_eq take_bit_nat_eq_self less_trans [OF unat_u8_less])

text \<open>Two nibbles in a byte.\<close>

lemma unat_nibbles:
  assumes "i < 16" "l < 16"
  shows "unat (push_bit 4 (of_nat i) OR (of_nat l AND 0x0F) :: u8) = 16 * i + l"
proof -
  let ?a = "push_bit 4 (of_nat i) :: u8" and ?b = "of_nat l AND 0x0F :: u8"
  have z: "?a AND ?b = 0"
    by (rule word_eq_bits) (simp add: word_bits)
  have "unat ?a = 16 * i"
    using assms(1) by (simp add: push_bit_eq_mult unat_word_ariths unat_of_nat_u8)
  moreover have "unat ?b = l"
    using assms(2) by (simp add: unat_and_0F unat_of_nat_u8)
  ultimately show ?thesis
    using assms disjunctive_add_eq_or [OF z, symmetric] by (simp add: unat_word_ariths)
qed

text \<open>Shifts with a variable amount: the amount is reduced modulo the width.\<close>

definition shl64 :: "u64 \<Rightarrow> nat \<Rightarrow> u64" where
  "shl64 x n = push_bit (n mod 64) x"

definition shr64 :: "u64 \<Rightarrow> nat \<Rightarrow> u64" where
  "shr64 x n = drop_bit (n mod 64) x"

section \<open>Big-endian integers\<close>

definition be16 :: "u8 \<Rightarrow> u8 \<Rightarrow> u16" where
  "be16 hi lo = push_bit 8 (ucast hi) OR ucast lo"

definition be32 :: "u8 \<Rightarrow> u8 \<Rightarrow> u8 \<Rightarrow> u8 \<Rightarrow> u32" where
  "be32 a b c d = push_bit 24 (ucast a) OR push_bit 16 (ucast b) OR push_bit 8 (ucast c) OR ucast d"

definition to_be16 :: "u16 \<Rightarrow> bytes" where
  "to_be16 w = [ucast (drop_bit 8 w), ucast w]"

definition to_be32 :: "u32 \<Rightarrow> bytes" where
  "to_be32 w = [ucast (drop_bit 24 w), ucast (drop_bit 16 w), ucast (drop_bit 8 w), ucast w]"

text \<open>The 13-bit PID and the 12-bit length fields that every table parser reads.\<close>

definition pid13 :: "u8 \<Rightarrow> u8 \<Rightarrow> u16" where
  "pid13 hi lo = push_bit 8 (ucast hi AND 0x1F) OR ucast lo"

definition len12 :: "u8 \<Rightarrow> u8 \<Rightarrow> usize" where
  "len12 hi lo = unat (push_bit 8 (ucast hi AND 0x0F) OR ucast lo :: u16)"

lemma take_bit_pid13: "take_bit 13 (pid13 hi lo) = pid13 hi lo"
  unfolding pid13_def by (rule word_eq_bits) (simp add: word_bits)

lemma pid13_less: "unat (pid13 hi lo) < 8192"
  using unat_lt_of_take_bit [OF take_bit_pid13] by simp

lemma len12_less: "len12 hi lo < 4096"
proof -
  have "take_bit 12 (push_bit 8 (ucast hi AND 0x0F) OR ucast lo :: u16)
        = push_bit 8 (ucast hi AND 0x0F) OR ucast lo"
    by (rule word_eq_bits) (simp add: word_bits)
  from unat_lt_of_take_bit [OF this] show ?thesis
    by (simp add: len12_def)
qed

lemma pid13_ucast:
  "pid13 ((ucast (drop_bit 8 w) AND 0x1F) OR (f AND 0xE0)) (ucast w) = take_bit 13 w"
  unfolding pid13_def by (rule word_eq_bits) (simp add: word_bits)

lemma length_to_be16 [simp, len_simps]: "length (to_be16 w) = 2"
  by (simp add: to_be16_def)

lemma length_to_be32 [simp, len_simps]: "length (to_be32 w) = 4"
  by (simp add: to_be32_def)

lemma be16_to_be16 [simp]: "be16 (ucast (drop_bit 8 w)) (ucast w) = w"
  by (rule word_eq_bits) (simp add: be16_def word_bits)

lemma be32_to_be32 [simp]:
  "be32 (ucast (drop_bit 24 w)) (ucast (drop_bit 16 w)) (ucast (drop_bit 8 w)) (ucast w) = w"
  by (rule word_eq_bits) (simp add: be32_def word_bits)

section \<open>Fixed-length fields of a byte list\<close>

lemma nth_append_right': "length xs \<le> i \<Longrightarrow> (xs @ ys) ! i = ys ! (i - length xs)"
  by (simp add: nth_append)

end
