(* ===== verification/Ts_Packet.thy ===== *)
theory Ts_Packet
  imports Rust_Prelude
begin

text \<open>
  \<open>packet.rs\<close>: the 188-byte MPEG transport stream packet. Every operation reads or writes a
  byte slice; an index out of bounds is the panic \<open>None\<close>. The first section translates the
  functions, the second shows that none of them panics on a whole packet, that the PCR
  written by \<open>pkt_write_pcr\<close> is the one \<open>pkt_extract_pcr\<close> reads back, that the time stamps of
  a PES header are decoded field by field, and what each writer leaves alone.
\<close>

unbundle bit_operations_syntax

section \<open>Operations\<close>

definition TS_PACKET_SIZE :: usize where
  "TS_PACKET_SIZE = 188"

definition TS_SYNC_BYTE :: u8 where
  "TS_SYNC_BYTE = 0x47"

definition TS_NULL_PACKET :: bytes where
  "TS_NULL_PACKET =
     (replicate TS_PACKET_SIZE 0xFF)[0 := 0x47, 1 := 0x1F, 2 := 0xFF, 3 := 0x10]"

definition null_pkt :: bytes where
  "null_pkt = TS_NULL_PACKET"

definition pkt_pid :: "bytes \<Rightarrow> u16 option" where
  "pkt_pid pkt = do {
     b1 \<leftarrow> idx pkt 1;
     b2 \<leftarrow> idx pkt 2;
     Some (pid13 b1 b2) }"

text \<open>The five bytes of a 33-bit PTS or DTS field, decoded the way both fields are.\<close>

definition ts_bytes :: "u8 \<Rightarrow> u8 \<Rightarrow> u8 \<Rightarrow> u8 \<Rightarrow> u8 \<Rightarrow> u64" where
  "ts_bytes c0 c1 c2 c3 c4 =
        push_bit 29 (ucast c0 AND 0x0E)
     OR push_bit 22 (ucast c1)
     OR push_bit 14 (ucast c2 AND 0xFE)
     OR push_bit 7 (ucast c3)
     OR drop_bit 1 (ucast c4 AND 0xFE)"

definition ts_field :: "bytes \<Rightarrow> usize \<Rightarrow> u64 option" where
  "ts_field packet off = do {
     c0 \<leftarrow> idx packet off;
     c1 \<leftarrow> idx packet (off + 1);
     c2 \<leftarrow> idx packet (off + 2);
     c3 \<leftarrow> idx packet (off + 3);
     c4 \<leftarrow> idx packet (off + 4);
     Some (ts_bytes c0 c1 c2 c3 c4) }"

definition pkt_pts_dts :: "bytes \<Rightarrow> u16 \<Rightarrow> (u64 \<times> u64) option option" where
  "pkt_pts_dts packet check_pid =
    (if length packet < TS_PACKET_SIZE then Some None else do {
     b0 \<leftarrow> idx packet 0;
     if b0 \<noteq> TS_SYNC_BYTE then Some None else do {
     b1 \<leftarrow> idx packet 1;
     b2 \<leftarrow> idx packet 2;
     let pid = pid13 b1 b2;
     if pid \<noteq> check_pid then Some None
     else if b1 AND 0x40 = 0 then Some None
     else do {
     b3 \<leftarrow> idx packet 3;
     let af_control = drop_bit 4 b3 AND 0x03;
     if af_control = 0 then Some None
     else if af_control = 2 then Some None
     else do {
     offset \<leftarrow> (if af_control = 1 then Some 4
               else if af_control = 3 then do {
                 af_length \<leftarrow> idx packet 4;
                 Some (4 + (1 + unat af_length)) }
               else None);
     if offset + 14 > TS_PACKET_SIZE then Some None
     else do {
     prefix \<leftarrow> slice packet offset (offset + 3);
     if prefix \<noteq> [0x00, 0x00, 0x01] then Some None
     else do {
     stream_id \<leftarrow> idx packet (offset + 3);
     if \<not> (0xC0 \<le> stream_id \<and> stream_id \<le> 0xEF \<or> stream_id = 0xBD) then Some None
     else do {
     fl \<leftarrow> idx packet (offset + 7);
     let pts_dts_flags = drop_bit 6 (fl AND 0xC0);
     if pts_dts_flags < 2 then Some None
     else do {
     let off = offset + 9;
     if off + 4 \<ge> 188 then Some None
     else do {
     pts \<leftarrow> ts_field packet off;
     dts \<leftarrow> (if pts_dts_flags = 3 then
               let off_dts = offset + 14 in
               if off_dts + 4 \<ge> TS_PACKET_SIZE then Some pts
               else ts_field packet off_dts
             else Some pts);
     Some (Some (pts, dts)) }}}}}}}}})"

definition pkt_extract_pcr :: "bytes \<Rightarrow> u64 option option" where
  "pkt_extract_pcr packet = do {
     b3 \<leftarrow> idx packet 3;
     let af_control = drop_bit 4 b3 AND 0x03;
     if af_control < 2 then Some None else do {
     af_len \<leftarrow> idx packet 4;
     if unat af_len < 7 then Some None else do {
     b5 \<leftarrow> idx packet 5;
     if b5 AND 0x10 = 0 then Some None else do {
     b6 \<leftarrow> idx packet 6;
     b7 \<leftarrow> idx packet 7;
     b8 \<leftarrow> idx packet 8;
     b9 \<leftarrow> idx packet 9;
     b10 \<leftarrow> idx packet 10;
     b11 \<leftarrow> idx packet 11;
     let base = push_bit 25 (ucast b6) OR push_bit 17 (ucast b7) OR push_bit 9 (ucast b8)
              OR push_bit 1 (ucast b9) OR drop_bit 7 (ucast b10);
     let ext = push_bit 8 (ucast b10 AND 0x01) OR ucast b11;
     Some (Some (base * 300 + ext)) }}}}"

definition pkt_write_pcr :: "bytes \<Rightarrow> u64 \<Rightarrow> bytes option" where
  "pkt_write_pcr packet pcr = do {
     let base = pcr div 300;
     let ext = pcr mod 300;
     packet \<leftarrow> upd packet 6 (ucast (drop_bit 25 base));
     packet \<leftarrow> upd packet 7 (ucast (drop_bit 17 base));
     packet \<leftarrow> upd packet 8 (ucast (drop_bit 9 base));
     packet \<leftarrow> upd packet 9 (ucast (drop_bit 1 base));
     packet \<leftarrow> upd packet 10
       ((ucast (push_bit 7 base) AND 0x80) OR 0x7E OR (ucast (drop_bit 8 ext) AND 0x01));
     upd packet 11 (ucast (ext AND 0xFF)) }"

definition pkt_is_pcr_present :: "bytes \<Rightarrow> bool option" where
  "pkt_is_pcr_present packet = do {
     b3 \<leftarrow> idx packet 3;
     let af_control = drop_bit 4 b3 AND 0x03;
     if af_control < 2 then Some False else do {
     af_len \<leftarrow> idx packet 4;
     b5 \<leftarrow> idx packet 5;
     Some (b5 AND 0x10 \<noteq> 0 \<and> af_len \<ge> 7) }}"

definition pkt_has_payload :: "bytes \<Rightarrow> bool option" where
  "pkt_has_payload packet = do {
     b3 \<leftarrow> idx packet 3;
     let afc = drop_bit 4 b3 AND 0x03;
     if afc = 0 then Some False
     else if afc = 1 \<or> afc = 3 then Some True
     else if afc = 2 then Some False
     else None }"

definition pkt_get_discontinuity :: "bytes \<Rightarrow> bool option" where
  "pkt_get_discontinuity packet =
    (if length packet < 6 then Some False else do {
     b3 \<leftarrow> idx packet 3;
     let af_control = drop_bit 4 b3 AND 0x03;
     if af_control < 2 then Some False else do {
     af_len \<leftarrow> idx packet 4;
     if unat af_len < 1 then Some False else do {
     b5 \<leftarrow> idx packet 5;
     Some (b5 AND 0x80 \<noteq> 0) }}})"

definition pkt_set_discontinuity :: "bytes \<Rightarrow> (bytes \<times> bool) option" where
  "pkt_set_discontinuity packet =
    (if length packet < 6 then Some (packet, False) else do {
     b3 \<leftarrow> idx packet 3;
     let af_control = drop_bit 4 b3 AND 0x03;
     if af_control < 2 then Some (packet, False) else do {
     af_len \<leftarrow> idx packet 4;
     if unat af_len < 1 then Some (packet, False) else do {
     b5 \<leftarrow> idx packet 5;
     packet \<leftarrow> upd packet 5 (b5 OR 0x80);
     Some (packet, True) }}})"

definition pkt_next :: "bytes \<Rightarrow> bytes option" where
  "pkt_next packet = do {
     current_byte \<leftarrow> idx packet 3;
     let current_counter = current_byte AND 0x0F;
     let next_counter = (current_counter + 1) AND 0x0F;
     upd packet 3 ((current_byte AND 0xF0) OR next_counter) }"

definition pkt_scrambling_control :: "bytes \<Rightarrow> u8 option" where
  "pkt_scrambling_control packet = do {
     b3 \<leftarrow> idx packet 3;
     Some (drop_bit 6 b3 AND 0x03) }"

section \<open>No operation panics on a whole packet\<close>

lemma afc_cases: "(w AND 0x03 :: u8) = 0 \<or> w AND 0x03 = 1 \<or> w AND 0x03 = 2 \<or> w AND 0x03 = 3"
proof -
  have "unat (w AND 0x03) < 4"
    using unat_take_bit_less [of 2 w] by (simp add: take_bit_eq_mask mask_eq_exp_minus_1)
  then have "unat (w AND 0x03) \<in> {0, 1, 2, 3}"
    by auto
  then show ?thesis
    by (auto simp: word_unat_eq_iff)
qed

lemma pkt_pid_Some [simp]:
  "3 \<le> length p \<Longrightarrow> pkt_pid p = Some (pid13 (p ! 1) (p ! 2))"
  by (simp add: pkt_pid_def)

lemma ts_field_no_panic [no_panic]: "off + 5 \<le> length p \<Longrightarrow> ts_field p off \<noteq> None"
  by (simp add: ts_field_def)

lemma take_bit_ts_bytes: "take_bit 33 (ts_bytes c0 c1 c2 c3 c4) = ts_bytes c0 c1 c2 c3 c4"
  unfolding ts_bytes_def by (rule word_eq_bits) (simp add: word_bits del: One_nat_def)

lemma ts_field_less: "ts_field p off = Some v \<Longrightarrow> unat v < 2 ^ 33"
  using unat_lt_of_take_bit [OF take_bit_ts_bytes]
  by (auto simp: ts_field_def bind_eq_Some_conv)

lemma pkt_has_payload_no_panic [no_panic]: "4 \<le> length p \<Longrightarrow> pkt_has_payload p \<noteq> None"
  using afc_cases [of "drop_bit 4 (p ! 3)"] by (auto simp: pkt_has_payload_def Let_def)

lemma pkt_pid_no_panic [no_panic]: "3 \<le> length p \<Longrightarrow> pkt_pid p \<noteq> None"
  by simp

lemma pkt_extract_pcr_no_panic [no_panic]: "12 \<le> length p \<Longrightarrow> pkt_extract_pcr p \<noteq> None"
  by (simp add: pkt_extract_pcr_def Let_def)

lemma pkt_write_pcr_no_panic [no_panic]: "12 \<le> length p \<Longrightarrow> pkt_write_pcr p v \<noteq> None"
  by (simp add: pkt_write_pcr_def Let_def)

lemma pkt_is_pcr_present_no_panic [no_panic]: "6 \<le> length p \<Longrightarrow> pkt_is_pcr_present p \<noteq> None"
  unfolding pkt_is_pcr_present_def by (intro no_panic) auto

lemma pkt_get_discontinuity_no_panic [no_panic]: "pkt_get_discontinuity p \<noteq> None"
  unfolding pkt_get_discontinuity_def by (intro no_panic) auto

lemma pkt_set_discontinuity_no_panic [no_panic]: "pkt_set_discontinuity p \<noteq> None"
  unfolding pkt_set_discontinuity_def by (intro no_panic) auto

lemma pkt_next_no_panic [no_panic]: "4 \<le> length p \<Longrightarrow> pkt_next p \<noteq> None"
  by (simp add: pkt_next_def Let_def)

lemma pkt_scrambling_control_no_panic [no_panic]:
  "4 \<le> length p \<Longrightarrow> pkt_scrambling_control p \<noteq> None"
  by (simp add: pkt_scrambling_control_def)

lemma pkt_pts_dts_no_panic [no_panic]: "pkt_pts_dts p pid \<noteq> None"
  unfolding pkt_pts_dts_def TS_PACKET_SIZE_def
  using afc_cases [of "drop_bit 4 (p ! 3)"]
  by (intro no_panic) (auto simp: idx_eq_Some_iff)

lemma pkt_pts_dts_less:
  assumes "pkt_pts_dts p pid = Some (Some (pts, dts))"
  shows "unat pts < 2 ^ 33 \<and> unat dts < 2 ^ 33"
  using assms unfolding pkt_pts_dts_def Let_def
  by (auto simp: bind_eq_Some_conv dest: ts_field_less split: if_splits)

section \<open>PCR: writing and reading back\<close>

text \<open>The cycle of the program clock reference: a 33-bit base and an extension below 300.\<close>

lemma pcr_base_bytes:
  "push_bit 25 (ucast (ucast (drop_bit 25 base) :: u8))
     OR push_bit 17 (ucast (ucast (drop_bit 17 base) :: u8))
     OR push_bit 9 (ucast (ucast (drop_bit 9 base) :: u8))
     OR push_bit 1 (ucast (ucast (drop_bit 1 base) :: u8))
     OR drop_bit 7 (ucast ((ucast (push_bit 7 base) AND 0x80) OR 0x7E OR (z AND 0x01) :: u8))
   = take_bit 33 (base :: u64)"
  by (rule word_eq_bits) (simp add: word_bits del: One_nat_def)

lemma pcr_ext_bytes:
  "push_bit 8 (ucast ((b AND 0x80) OR 0x7E OR (ucast (drop_bit 8 ext) AND 0x01) :: u8) AND 0x01)
     OR ucast (ucast (ext AND 0xFF) :: u8)
   = take_bit 9 (ext :: u64)"
  by (rule word_eq_bits) (simp add: word_bits del: One_nat_def)

lemma pcr_base_less: "unat (pcr :: u64) < 2 ^ 33 * 300 \<Longrightarrow> take_bit 33 (pcr div 300) = pcr div 300"
  by (rule word_take_bit_self) (simp add: unat_div)

lemma pcr_ext_less: "take_bit 9 (pcr mod 300) = (pcr mod 300 :: u64)"
proof (rule word_take_bit_self)
  have "unat (pcr mod 300) < 300"
    by (simp add: unat_mod)
  then show "unat (pcr mod 300) < 2 ^ 9"
    by simp
qed

lemma pkt_write_pcr_eq:
  assumes "12 \<le> length p"
  shows "pkt_write_pcr p pcr = Some (p[6 := ucast (drop_bit 25 (pcr div 300)),
     7 := ucast (drop_bit 17 (pcr div 300)), 8 := ucast (drop_bit 9 (pcr div 300)),
     9 := ucast (drop_bit 1 (pcr div 300)),
     10 := (ucast (push_bit 7 (pcr div 300)) AND 0x80) OR 0x7E OR (ucast (drop_bit 8 (pcr mod 300)) AND 0x01),
     11 := ucast (pcr mod 300 AND 0xFF)])"
  using assms by (simp add: pkt_write_pcr_def Let_def)

text \<open>The adaptation field that makes room for a PCR: present, long enough and flagged.\<close>

definition has_pcr_field :: "bytes \<Rightarrow> bool" where
  "has_pcr_field p \<longleftrightarrow> 12 \<le> length p \<and> \<not> drop_bit 4 (p ! 3) AND 0x03 < 2 \<and> 7 \<le> unat (p ! 4)
     \<and> p ! 5 AND 0x10 \<noteq> 0"

lemma pkt_extract_pcr_has_field:
  assumes "has_pcr_field p"
  shows "pkt_extract_pcr p = Some (Some
    ((push_bit 25 (ucast (p ! 6)) OR push_bit 17 (ucast (p ! 7)) OR push_bit 9 (ucast (p ! 8))
      OR push_bit 1 (ucast (p ! 9)) OR drop_bit 7 (ucast (p ! 10))) * 300
     + (push_bit 8 (ucast (p ! 10) AND 0x01) OR ucast (p ! 11))))"
  using assms unfolding has_pcr_field_def pkt_extract_pcr_def Let_def
  by (simp del: One_nat_def)

lemma pkt_extract_pcr_None:
  "12 \<le> length p \<Longrightarrow> \<not> has_pcr_field p \<Longrightarrow> pkt_extract_pcr p = Some None"
  by (auto simp: has_pcr_field_def pkt_extract_pcr_def Let_def)

lemma pkt_is_pcr_present_eq:
  assumes "12 \<le> length p"
  shows "pkt_is_pcr_present p = Some (has_pcr_field p)"
  using assms by (auto simp: pkt_is_pcr_present_def has_pcr_field_def Let_def word_le_nat_alt)

text \<open>
  A PCR below the clock's cycle that \<open>pkt_write_pcr\<close> stores in a packet with a PCR field is
  the PCR that \<open>pkt_extract_pcr\<close> reads back; the bytes outside the field keep their values.
\<close>

theorem pcr_write_extract:
  assumes field: "has_pcr_field p" and range: "unat pcr < 2 ^ 33 * 300"
  shows "\<exists>q. pkt_write_pcr p pcr = Some q \<and> pkt_extract_pcr q = Some (Some pcr)
     \<and> length q = length p \<and> (\<forall>i. i < 6 \<or> 12 \<le> i \<longrightarrow> q ! i = p ! i)"
proof -
  from field have len: "12 \<le> length p"
    by (simp add: has_pcr_field_def)
  define q where "q = the (pkt_write_pcr p pcr)"
  then have q: "pkt_write_pcr p pcr = Some q"
    using len by (simp add: pkt_write_pcr_eq)
  have nth: "q ! i = p ! i" if "i < 6 \<or> 12 \<le> i" for i
    using q len that by (auto simp: pkt_write_pcr_eq)
  have "has_pcr_field q"
    using field q len by (auto simp: has_pcr_field_def nth pkt_write_pcr_eq)
  moreover have
    "q ! 6 = ucast (drop_bit 25 (pcr div 300))" "q ! 7 = ucast (drop_bit 17 (pcr div 300))"
    "q ! 8 = ucast (drop_bit 9 (pcr div 300))" "q ! 9 = ucast (drop_bit 1 (pcr div 300))"
    "q ! 10 = (ucast (push_bit 7 (pcr div 300)) AND 0x80) OR 0x7E
       OR (ucast (drop_bit 8 (pcr mod 300)) AND 0x01)"
    "q ! 11 = ucast (pcr mod 300 AND 0xFF)"
    using q len by (auto simp: pkt_write_pcr_eq)
  ultimately have
    "pkt_extract_pcr q = Some (Some (take_bit 33 (pcr div 300) * 300 + take_bit 9 (pcr mod 300)))"
    by (simp only: pkt_extract_pcr_has_field pcr_base_bytes pcr_ext_bytes)
  then have "pkt_extract_pcr q = Some (Some pcr)"
    by (simp add: pcr_base_less [OF range] pcr_ext_less word_mod_div_equality)
  moreover have "length q = length p"
    using q len by (auto simp: pkt_write_pcr_eq)
  ultimately show ?thesis
    using q nth by blast
qed

theorem pcr_write_extract_witness:
  "\<exists>q. pkt_write_pcr ([0x47, 0, 0, 0x20, 183, 0x10] @ replicate 182 0) 123456789 = Some q
     \<and> pkt_extract_pcr q = Some (Some 123456789)"
proof -
  have "has_pcr_field ([0x47, 0, 0, 0x20, 183, 0x10] @ replicate 182 0)"
    by (simp add: has_pcr_field_def)
  from pcr_write_extract [OF this, of 123456789] show ?thesis
    by auto
qed

section \<open>Continuity counter\<close>

lemma cc_nibbles: "((b AND 0xF0) OR (c AND 0x0F) :: u8) AND 0xF0 = b AND 0xF0"
  "((b AND 0xF0) OR (c AND 0x0F) :: u8) AND 0x0F = c AND 0x0F"
  by (rule word_eq_bits, simp add: word_bits)+

lemma pkt_next_eq:
  "4 \<le> length p \<Longrightarrow>
   pkt_next p = Some (p[3 := (p ! 3 AND 0xF0) OR ((p ! 3 AND 0x0F) + 1 AND 0x0F)])"
  by (simp add: pkt_next_def Let_def)

text \<open>The continuity counter of a packet, and the packet but for its counter.\<close>

definition pkt_cc :: "bytes \<Rightarrow> nat" where
  "pkt_cc p = unat (p ! 3 AND 0x0F)"

text \<open>
  \<open>pkt_next\<close> advances the 4-bit continuity counter by one modulo 16 and changes nothing
  else of the packet: the flags in the same byte, every other byte and the length stay.
\<close>

lemma pkt_next_counter:
  assumes "4 \<le> length p"
  shows "\<exists>q. pkt_next p = Some q \<and> pkt_cc q = (pkt_cc p + 1) mod 16
     \<and> q ! 3 AND 0xF0 = p ! 3 AND 0xF0 \<and> length q = length p \<and> (\<forall>i. i \<noteq> 3 \<longrightarrow> q ! i = p ! i)"
proof -
  have "unat ((p ! 3 AND 0x0F) + 1 AND 0x0F) = (unat (p ! 3 AND 0x0F) + 1) mod 16"
    by (simp add: unat_and_0F unat_word_ariths mod_simps mod_mod_cancel)
  then show ?thesis
    using assms by (simp add: pkt_next_eq pkt_cc_def cc_nibbles)
qed

section \<open>Time stamps of a PES header\<close>

text \<open>
  The reference encoder of ISO/IEC 13818-1: a 4-bit prefix, then 3, 15 and 15 bits of the
  time stamp, each followed by a marker bit.
\<close>

definition ts_field_enc :: "u8 \<Rightarrow> u64 \<Rightarrow> bytes" where
  "ts_field_enc prefix v =
     [push_bit 4 prefix OR (ucast (drop_bit 29 v) AND 0x0E) OR 1,
      ucast (drop_bit 22 v),
      (ucast (drop_bit 14 v) AND 0xFE) OR 1,
      ucast (drop_bit 7 v),
      push_bit 1 (ucast v) OR 1]"

lemma ts_bytes_enc:
  "ts_bytes (push_bit 4 prefix OR (ucast (drop_bit 29 v) AND 0x0E) OR 1) (ucast (drop_bit 22 v))
     ((ucast (drop_bit 14 v) AND 0xFE) OR 1) (ucast (drop_bit 7 v)) (push_bit 1 (ucast v) OR 1)
   = take_bit 33 v"
  unfolding ts_bytes_def by (rule word_eq_bits) (simp add: word_bits del: One_nat_def)

lemma ts_field_enc_decode:
  assumes "unat v < 2 ^ 33" and "off = length xs"
  shows "ts_field (xs @ ts_field_enc prefix v @ ys) off = Some v"
proof -
  let ?e = "ts_field_enc prefix v"
  have "?e \<noteq> []" "length ?e = 5" by (simp_all add: ts_field_enc_def)
  then have "ts_field (xs @ ?e @ ys) (length xs)
    = Some (ts_bytes (hd ?e) (?e ! 1) (?e ! 2) (?e ! 3) (?e ! 4))"
    by (simp add: ts_field_def idx_mid idx_mid0 del: One_nat_def idx_Some add_2_eq_Suc')
  also have "\<dots> = Some (take_bit 33 v)"
    unfolding ts_bytes_enc [of prefix v, symmetric] by (simp add: ts_field_enc_def)
  finally show ?thesis
    using assms by (simp add: word_take_bit_self)
qed

lemma length_ts_field_enc [simp, len_simps]: "length (ts_field_enc prefix v) = 5"
  by (simp add: ts_field_enc_def)

text \<open>
  A packet whose payload starts with a PES header that carries a PTS and perhaps a DTS, with any adaptation field that leaves
  room for the header or with none: \<open>b1\<close> and \<open>b3\<close> give the bits beside the PID and beside the adaptation field control (error
  indicator, priority, scrambling, counter), \<open>fl\<close> and \<open>fl2\<close> the flags of the PES header beside those of the time stamps.
\<close>

definition pes_start_packet ::
  "u16 \<Rightarrow> u8 \<Rightarrow> u8 \<Rightarrow> bytes option \<Rightarrow> u8 \<Rightarrow> u8 \<times> u8 \<Rightarrow> u8 \<Rightarrow> u8 \<Rightarrow> u8 \<Rightarrow> u64 \<Rightarrow> u64 option \<Rightarrow> bytes \<Rightarrow> bytes" where
  "pes_start_packet pid b1 b3 field stream_id len fl fl2 header_len pts dts payload =
     [0x47, (b1 AND 0xA0) OR 0x40 OR (ucast (drop_bit 8 pid) AND 0x1F), ucast pid,
        (b3 AND 0xCF) OR (if field = None then 0x10 else 0x30)]
     @ (case field of None \<Rightarrow> [] | Some af \<Rightarrow> of_nat (length af) # af)
     @ [0x00, 0x00, 0x01, stream_id, fst len, snd len, fl, (if dts = None then 0x80 else 0xC0) OR (fl2 AND 0x3F), header_len]
     @ ts_field_enc (if dts = None then 2 else 3) pts
     @ (case dts of None \<Rightarrow> [] | Some d \<Rightarrow> ts_field_enc 1 d) @ payload"

lemma pes_start_header:
  "pid13 ((b AND 0xA0) OR 0x40 OR (ucast (drop_bit 8 pid) AND 0x1F)) (ucast pid) = take_bit 13 pid"
  "((b AND 0xA0) OR 0x40 OR (h AND 0x1F)) AND 0x40 = (0x40 :: u8)"
  "drop_bit 4 ((b AND 0xCF) OR 0x10) AND 0x03 = (1 :: u8)" "drop_bit 4 ((b AND 0xCF) OR 0x30) AND 0x03 = (3 :: u8)"
  "drop_bit 6 ((0x80 OR (b AND 0x3F)) AND 0xC0) = (2 :: u8)" "drop_bit 6 ((0xC0 OR (b AND 0x3F)) AND 0xC0) = (3 :: u8)"
  unfolding pid13_def by (rule word_eq_bits, simp add: word_bits)+

lemma drop_at: "drop (length xs) (xs @ ys) = ys"
  by simp

lemma idx_at: "off = length xs + i \<Longrightarrow> idx (xs @ ys) off = idx ys i"
  by (simp add: idx_def nth_append)

text \<open>What the decoder needs to find in a packet, when the PES header begins at \<open>n\<close>.\<close>

lemma pkt_pts_dts_at:
  assumes "length q = 188" "idx q 0 = Some 0x47" "idx q 1 = Some c1" "idx q 2 = Some c2" "idx q 3 = Some c3"
    and "pid13 c1 c2 = pid" "c1 AND 0x40 = 0x40"
    and "drop_bit 4 c3 AND 0x03 = 1 \<and> n = 4 \<or> (\<exists>x. drop_bit 4 c3 AND 0x03 = 3 \<and> idx q 4 = Some x \<and> n = 5 + unat x)"
    and "n + 14 \<le> 188" "slice q n (n + 3) = Some [0, 0, 1]"
    and "idx q (n + 3) = Some stream_id" "0xC0 \<le> stream_id \<and> stream_id \<le> 0xEF \<or> stream_id = 0xBD"
    and "idx q (n + 7) = Some flags" "drop_bit 6 flags AND 3 = (if dts = None then 2 else 3)"
    and "ts_field q (n + 9) = Some pts" "\<And>d. dts = Some d \<Longrightarrow> n + 19 \<le> 188 \<and> ts_field q (n + 14) = Some d"
  shows "pkt_pts_dts q pid = Some (Some (pts, case dts of None \<Rightarrow> pts | Some d \<Rightarrow> d))"
  using assms(8)
proof (elim disjE conjE exE)
  assume "drop_bit 4 c3 AND 0x03 = 1" "n = 4"
  then show ?thesis
    using assms(1-7,9-)
    by (cases dts) (simp_all add: pkt_pts_dts_def Let_def TS_PACKET_SIZE_def TS_SYNC_BYTE_def del: idx_Some slice_Some)
next
  fix x assume "drop_bit 4 c3 AND 0x03 = 3" "idx q 4 = Some x" "n = 5 + unat x"
  then show ?thesis
    using assms(1-7,9-)
    by (cases dts) (simp_all add: pkt_pts_dts_def Let_def TS_PACKET_SIZE_def TS_SYNC_BYTE_def del: idx_Some slice_Some)
qed

text \<open>
  C34. The time stamps of a PES header are decoded exactly: in a packet of 188 bytes that starts a video, audio or private PES packet on the wanted
  PID, with no adaptation field or with one of any length that leaves room for the header, \<open>pkt_pts_dts\<close> returns the 33-bit PTS and
  DTS that the encoder of ISO/IEC 13818-1 put there; when the header has a PTS only, the DTS is the PTS. The other bits
  of the headers do not matter.
\<close>

theorem pkt_pts_dts_decodes:
  assumes "length (pes_start_packet pid b1 b3 field stream_id len fl fl2 header_len pts dts payload) = 188"
    and "unat pid < 8192" and "unat pts < 2 ^ 33" and "\<And>d. dts = Some d \<Longrightarrow> unat d < 2 ^ 33"
    and "0xC0 \<le> stream_id \<and> stream_id \<le> 0xEF \<or> stream_id = 0xBD"
  shows "pkt_pts_dts (pes_start_packet pid b1 b3 field stream_id len fl fl2 header_len pts dts payload) pid
    = Some (Some (pts, case dts of None \<Rightarrow> pts | Some d \<Rightarrow> d))"
proof -
  define q where "q = pes_start_packet pid b1 b3 field stream_id len fl fl2 header_len pts dts payload"
  have len: "length q = 188" using assms(1) by (simp add: q_def)
  define c1 where "c1 = (b1 AND 0xA0) OR 0x40 OR (ucast (drop_bit 8 pid) AND 0x1F)"
  define c3 where "c3 = (b3 AND 0xCF) OR (if field = None then 0x10 else 0x30)"
  define flags where "flags = (if dts = None then 0x80 else 0xC0) OR (fl2 AND 0x3F)"
  have c1: "pid13 c1 (ucast pid) = pid" "c1 AND 0x40 = 0x40"
    unfolding c1_def using assms(2) by (simp_all only: pes_start_header word_take_bit_self) (simp add: word_take_bit_self)
  have c3: "drop_bit 4 c3 AND 0x03 = (if field = None then 1 else 3)"
    unfolding c3_def by (cases field) (simp_all only: pes_start_header if_True if_False refl option.simps not_True_eq_False simp_thms)
  have flags: "drop_bit 6 (flags AND 0xC0) = (if dts = None then 2 else 3)"
    unfolding flags_def by (cases dts) (simp_all only: pes_start_header if_True if_False refl option.simps not_True_eq_False simp_thms)
  then have flags': "drop_bit 6 flags AND 3 = (if dts = None then 2 else 3)" by simp
  let ?ts = "[0x47, c1, ucast pid, c3]"
  let ?pes = "[0x00, 0x00, 0x01, stream_id, fst len, snd len, fl, flags, header_len]"
  let ?pts = "ts_field_enc (if dts = None then 2 else 3) pts"
  let ?dts = "case dts of None \<Rightarrow> [] | Some d \<Rightarrow> ts_field_enc 1 d"
  define af where "af = (case field of None \<Rightarrow> [] | Some af \<Rightarrow> of_nat (length af) # af)"
  define n where "n = 4 + length af"
  have p: "q = ?ts @ af @ ?pes @ ?pts @ ?dts @ payload"
    by (simp add: q_def pes_start_packet_def af_def c1_def c3_def flags_def)
  have room: "n + 14 + length ?dts \<le> 188"
    using len unfolding p n_def by simp
  have pts: "ts_field q (n + 9) = Some pts"
    unfolding p using ts_field_enc_decode [OF assms(3), of "n + 9" "?ts @ af @ ?pes"] by (simp add: n_def)
  have dts: "ts_field q (n + 14) = Some d" if "dts = Some d" for d
    unfolding p using ts_field_enc_decode [OF assms(4), of d "n + 14" "?ts @ af @ ?pes @ ?pts" 1 payload] that by (simp add: n_def)
  have hd: "idx q i = Some (?ts ! i)" if "i < 4" for i
    unfolding p using that by (subst idx_append1) (auto simp: idx_def)
  have pes: "idx q (n + i) = Some (?pes ! i)" if "i < 9" for i
  proof -
    have "idx q (n + i) = idx (?pes @ ?pts @ ?dts @ payload) i"
      unfolding p using idx_at [of "n + i" "?ts @ af" i] by (simp add: n_def)
    also have "\<dots> = Some (?pes ! i)" using that by (subst idx_append1) (auto simp: idx_def)
    finally show ?thesis .
  qed
  have drop: "drop n q = ?pes @ ?pts @ ?dts @ payload"
  proof -
    have "q = (?ts @ af) @ ?pes @ ?pts @ ?dts @ payload" and "n = length (?ts @ af)" by (simp_all only: p append_assoc) (simp add: n_def)
    then show ?thesis using drop_at [of "?ts @ af" "?pes @ ?pts @ ?dts @ payload"] by presburger
  qed
  have pre: "slice q n (n + 3) = Some [0, 0, 1]"
    using len room by (simp add: slice_def drop)
  have offset: "field = None \<and> n = 4 \<or> (\<exists>x af'. field = Some af' \<and> idx q 4 = Some x \<and> n = 5 + unat x)"
  proof (cases field)
    case None
    then show ?thesis by (simp add: n_def af_def)
  next
    case (Some x)
    have "idx q 4 = Some (of_nat (length x))"
      unfolding p using Some idx_at [of 4 ?ts 0] by (simp add: af_def idx_def)
    moreover have "length x < 256" using room Some by (simp add: n_def af_def)
    ultimately show ?thesis using Some by (simp add: n_def af_def unat_of_nat_u8)
  qed
  have "pkt_pts_dts q pid = Some (Some (pts, case dts of None \<Rightarrow> pts | Some d \<Rightarrow> d))"
    by (rule pkt_pts_dts_at [of q c1 "ucast pid" c3 pid n stream_id flags])
       (use len hd [of 0] hd [of 1] hd [of 2] hd [of 3] c1 c3 flags' offset pre pes [of 3] pes [of 7] pts dts room assms(5) in auto)
  then show ?thesis by (simp add: q_def)
qed

theorem pkt_pts_dts_decodes_witness:
  "pkt_pts_dts (pes_start_packet 0x101 0 7 (Some [0x10, 1, 2, 3, 4, 5, 6]) 0xE0 (0, 0) 0x80 0 10 8589934591 (Some 90000) (replicate 157 0)) 0x101
    = Some (Some (8589934591, 90000))"
  using pkt_pts_dts_decodes [of "0x101" 0 7 "Some [0x10, 1, 2, 3, 4, 5, 6]" "0xE0" "(0, 0)" "0x80" 0 10 8589934591 "Some 90000" "replicate 157 0"]
  by (simp add: pes_start_packet_def)

end
