(* ===== verification/Mux_Clock.thy ===== *)
theory Mux_Clock
  imports Ts_Packet
begin

text \<open>
  The clocks of \<open>mux.rs\<close>: time stamps that wrap (33 bits of 90 kHz for PTS and DTS, a 33-bit
  base times 300 of 27 MHz for the PCR) and the restamper that computes the PCR of a stream of
  constant bit rate from the number of packets sent. An \<open>i64\<close> is an \<open>int\<close>: the differences
  computed here are below \<open>2 ^ 42\<close>.
\<close>

unbundle bit_operations_syntax

section \<open>Constants\<close>

definition DTS_MASK :: u64 where
  "DTS_MASK = push_bit 33 1 - 1"

definition DTS_HALF :: u64 where
  "DTS_HALF = push_bit 32 1"

definition PCR_CYCLE :: u64 where
  "PCR_CYCLE = push_bit 33 1 * 300"

definition PCR_HALF :: u64 where
  "PCR_HALF = PCR_CYCLE div 2"

definition PCR_HZ :: nat where
  "PCR_HZ = 27000000"

section \<open>Decoding time stamps\<close>

definition dts_after :: "u64 \<Rightarrow> u64 \<Rightarrow> bool" where
  "dts_after a b = (let diff = (a - b) AND DTS_MASK in diff \<noteq> 0 \<and> diff < DTS_HALF)"

definition dts_before_or_equal :: "u64 \<Rightarrow> u64 \<Rightarrow> bool" where
  "dts_before_or_equal a b = (\<not> dts_after a b)"

definition dts_signed_delta :: "u64 \<Rightarrow> u64 \<Rightarrow> int" where
  "dts_signed_delta a b =
    (let delta = (a - b) AND DTS_MASK
     in if delta \<ge> DTS_HALF then uint delta - uint (DTS_MASK + 1) else uint delta)"

definition dts_forward_delta_ms :: "u64 \<Rightarrow> u64 \<Rightarrow> u64 option" where
  "dts_forward_delta_ms new_dts last_dts =
    (let diff = (new_dts - last_dts) AND DTS_MASK
     in if diff \<noteq> 0 \<and> diff < DTS_HALF then Some (diff div 90) else None)"

section \<open>Program clock references\<close>

definition pcr_normalize :: "u64 \<Rightarrow> u64" where
  "pcr_normalize pcr = pcr mod PCR_CYCLE"

definition pcr_after :: "u64 \<Rightarrow> u64 \<Rightarrow> bool" where
  "pcr_after a b =
    (let a = pcr_normalize a; b = pcr_normalize b;
         diff = (if a \<ge> b then a - b else PCR_CYCLE - (b - a))
     in diff \<noteq> 0 \<and> diff < PCR_HALF)"

definition pcr_add :: "u64 \<Rightarrow> u64 \<Rightarrow> u64" where
  "pcr_add a b = pcr_normalize (pcr_normalize a + pcr_normalize b)"

definition pcr_sub :: "u64 \<Rightarrow> u64 \<Rightarrow> u64" where
  "pcr_sub a b =
    (let a = pcr_normalize a; b = pcr_normalize b
     in if a \<ge> b then a - b else PCR_CYCLE - (b - a))"

definition pcr_signed_delta :: "u64 \<Rightarrow> u64 \<Rightarrow> int" where
  "pcr_signed_delta a b =
    (let delta = pcr_sub a b
     in if delta \<ge> PCR_HALF then uint delta - uint PCR_CYCLE else uint delta)"

section \<open>The restamper\<close>

record pcr_restamper =
  r_target_bitrate_bps :: u64
  r_total_packets_sent :: u64
  r_first_pcr_value :: "u64 option"

definition restamper_new :: "u64 \<Rightarrow> pcr_restamper" where
  "restamper_new bitrate_bps =
     \<lparr>r_target_bitrate_bps = bitrate_bps, r_total_packets_sent = 0, r_first_pcr_value = None\<rparr>"

definition restamper_resync :: "pcr_restamper \<Rightarrow> u64 \<Rightarrow> pcr_restamper" where
  "restamper_resync r dts_90k =
     r\<lparr>r_first_pcr_value := Some (pcr_normalize (dts_90k * 300)), r_total_packets_sent := 0\<rparr>"

text \<open>The product of \<open>u128\<close> stays below \<open>2 ^ 100\<close> and is computed in \<open>nat\<close>.\<close>

definition get_raw_pcr :: "pcr_restamper \<Rightarrow> u64 option" where
  "get_raw_pcr r = (case r_first_pcr_value r of None \<Rightarrow> None
     | Some last_pcr \<Rightarrow>
         if r_target_bitrate_bps r \<noteq> 0 then
           let bits_sent = unat (r_total_packets_sent r) * TS_PACKET_SIZE * 8;
               ticks = of_nat ((bits_sent * PCR_HZ) div unat (r_target_bitrate_bps r)) + last_pcr
           in Some ticks
         else r_first_pcr_value r)"

definition get_pcr :: "pcr_restamper \<Rightarrow> u64 option" where
  "get_pcr r = map_option pcr_normalize (get_raw_pcr r)"

definition extract_pcr_safe :: "pcr_restamper \<Rightarrow> bytes \<Rightarrow> u64 option option" where
  "extract_pcr_safe r packet = pkt_extract_pcr packet"

definition write_pcr_safe :: "pcr_restamper \<Rightarrow> bytes \<Rightarrow> u64 \<Rightarrow> bytes option" where
  "write_pcr_safe r packet pcr = pkt_write_pcr packet pcr"

definition restamper_process_packet ::
  "pcr_restamper \<Rightarrow> bytes \<Rightarrow> (pcr_restamper \<times> bytes \<times> u64 option) option" where
  "restamper_process_packet r packet = do {
     present \<leftarrow> pkt_is_pcr_present packet;
     if present then
       (case get_pcr r of None \<Rightarrow> Some (r, packet, None)
        | Some new_pcr \<Rightarrow> do {
            packet \<leftarrow> write_pcr_safe r packet new_pcr;
            Some (r\<lparr>r_total_packets_sent := 0, r_first_pcr_value := Some new_pcr\<rparr>, packet, Some new_pcr) })
     else Some (r, packet, None) }"

section \<open>Clocks that wrap\<close>

text \<open>
  What the multiplexer relies on in both clocks: \<open>after\<close> compares and \<open>delta\<close> subtracts two
  readings modulo the cycle, the shorter way round.
\<close>

locale cyclic_clock =
  fixes cycle :: int and after :: "u64 \<Rightarrow> u64 \<Rightarrow> bool" and delta :: "u64 \<Rightarrow> u64 \<Rightarrow> int"
  assumes cycle_even: "0 < cycle" "even cycle"
    and after_iff: "after a b \<longleftrightarrow> 0 < (uint a - uint b) mod cycle \<and> (uint a - uint b) mod cycle < cycle div 2"
    and delta_cong: "delta a b mod cycle = (uint a - uint b) mod cycle"
    and delta_range: "- (cycle div 2) \<le> delta a b" "delta a b < cycle div 2"
begin

lemma delta_unique:
  assumes "d mod cycle = (uint a - uint b) mod cycle" "- (cycle div 2) \<le> d" "d < cycle div 2"
  shows "delta a b = d"
proof -
  have "cycle dvd delta a b - d"
    using assms(1) delta_cong [of a b] by (metis mod_eq_dvd_iff)
  moreover have "\<bar>delta a b - d\<bar> < cycle"
    using assms(2,3) delta_range [of a b] cycle_even by linarith
  ultimately show ?thesis
    using dvd_imp_le_int [of "delta a b - d" cycle] cycle_even by fastforce
qed

lemma after_iff_delta: "after a b \<longleftrightarrow> 0 < delta a b"
proof
  assume "after a b"
  then have "delta a b = (uint a - uint b) mod cycle"
    using cycle_even by (intro delta_unique) (auto simp: after_iff)
  then show "0 < delta a b" using \<open>after a b\<close> by (simp add: after_iff)
next
  assume pos: "0 < delta a b"
  then have "delta a b mod cycle = delta a b"
    using delta_range [of a b] cycle_even by (intro mod_pos_pos_trivial) auto
  then show "after a b"
    using pos delta_range [of a b] delta_cong [of a b] by (simp add: after_iff)
qed

lemma after_irrefl: "\<not> after a a"
  by (simp add: after_iff)

lemma after_asym: "after a b \<Longrightarrow> \<not> after b a"
proof -
  have "(uint b - uint a) mod cycle = (- ((uint a - uint b) mod cycle)) mod cycle"
    by (simp add: mod_minus_eq)
  then show "after a b \<Longrightarrow> \<not> after b a"
    using cycle_even by (auto simp: after_iff zmod_zminus1_eq_if split: if_splits)
qed

lemma delta_add:
  assumes "- (cycle div 2) \<le> delta a b + delta b c" "delta a b + delta b c < cycle div 2"
  shows "delta a c = delta a b + delta b c"
  using assms delta_cong [of a b] delta_cong [of b c]
  by (intro delta_unique) (auto simp: mod_simps mod_add_eq [symmetric, of "delta a b"])

text \<open>Within half a cycle the comparison is transitive.\<close>

lemma after_trans:
  "after a b \<Longrightarrow> after b c \<Longrightarrow> delta a b + delta b c < cycle div 2 \<Longrightarrow> after a c"
  using delta_add [of a b c] cycle_even by (simp add: after_iff_delta)

text \<open>A reading taken \<open>d\<close> ticks later, on a clock that may have wrapped in between.\<close>

lemma after_later:
  assumes "(uint a - uint b) mod cycle = d mod cycle" "0 < d" "d < cycle div 2"
  shows "after a b" "\<not> after b a" "delta a b = d"
proof -
  have d: "d mod cycle = d" using assms cycle_even by (intro mod_pos_pos_trivial) auto
  then show "after a b" using assms by (simp add: after_iff)
  then show "\<not> after b a" by (rule after_asym)
  show "delta a b = d" using assms d cycle_even by (intro delta_unique) auto
qed

end

lemma DTS_values: "DTS_MASK = 0x1FFFFFFFF" "DTS_HALF = 0x100000000" "PCR_CYCLE = 2576980377600" "PCR_HALF = 1288490188800"
  by (simp_all add: DTS_MASK_def DTS_HALF_def PCR_CYCLE_def PCR_HALF_def)

lemma uint_dts_diff: "uint ((a - b) AND DTS_MASK) = (uint a - uint b) mod 2 ^ 33"
proof -
  have "(w AND DTS_MASK) = take_bit 33 w" for w :: u64
    unfolding DTS_values by (rule word_eq_bits) (simp add: word_bits)
  then show ?thesis
    by (simp add: unsigned_take_bit_eq take_bit_eq_mod uint_word_ariths uint_mod mod_mod_cancel)
qed

lemma uint_pcr_normalize: "uint (pcr_normalize a) = uint a mod 2576980377600"
  by (simp add: pcr_normalize_def DTS_values uint_mod)

lemma unat_pcr_normalize: "unat (pcr_normalize a) = unat a mod 2576980377600"
proof -
  have "nat (uint a mod 2576980377600) = nat (uint a) mod nat 2576980377600"
    by (rule nat_mod_distrib) simp_all
  then show ?thesis
    by (simp only: unat_eq_nat_uint uint_pcr_normalize nat_numeral)
qed

lemma wrapped_diff:
  fixes x y M :: int
  assumes "0 \<le> x" "x < M" "0 \<le> y" "y < M"
  shows "(x - y) mod M = (if y \<le> x then x - y else M - (y - x))"
proof (cases "y \<le> x")
  case False
  have "(x - y) mod M = (x - y + M) mod M" by simp
  also have "\<dots> = x - y + M" using False assms by (intro mod_pos_pos_trivial) auto
  finally show ?thesis using False by simp
qed (use assms in simp)

lemma uint_pcr_sub: "uint (pcr_sub a b) = (uint a - uint b) mod 2576980377600"
proof -
  let ?M = "2576980377600 :: int"
  let ?a = "uint a mod ?M" and ?b = "uint b mod ?M"
  have r: "0 \<le> ?a" "?a < ?M" "0 \<le> ?b" "?b < ?M" by simp_all
  have "uint (pcr_sub a b) = (if ?b \<le> ?a then ?a - ?b else ?M - (?b - ?a))"
    using r by (simp add: pcr_sub_def Let_def word_le_def uint_pcr_normalize uint_word_ariths DTS_values)
  also have "\<dots> = (?a - ?b) mod ?M"
    by (rule wrapped_diff [symmetric]) (use r in auto)
  also have "\<dots> = (uint a - uint b) mod ?M" by (simp add: mod_simps)
  finally show ?thesis .
qed


lemma signed_wrap:
  fixes d x y M :: int
  assumes "d = (x - y) mod M" "0 < M" "even M"
  defines "e \<equiv> (if M div 2 \<le> d then d - M else d)"
  shows "e mod M = (x - y) mod M" "- (M div 2) \<le> e" "e < M div 2"
proof -
  have d: "0 \<le> d" "d < M" using assms by simp_all
  show "e mod M = (x - y) mod M" using assms(1) by (auto simp: e_def)
  show "- (M div 2) \<le> e" "e < M div 2" using d assms(2,3) by (auto simp: e_def elim!: evenE)
qed

interpretation dts: cyclic_clock "2 ^ 33" dts_after dts_signed_delta
proof unfold_locales
  show "dts_after a b \<longleftrightarrow> 0 < (uint a - uint b) mod 2 ^ 33 \<and> (uint a - uint b) mod 2 ^ 33 < 2 ^ 33 div 2" for a b
    unfolding dts_after_def Let_def uint_dts_diff [symmetric]
    by (auto simp: word_less_def DTS_values(2) word_neq_0_conv)
  have eq: "dts_signed_delta a b = (if 2 ^ 33 div 2 \<le> uint ((a - b) AND DTS_MASK)
      then uint ((a - b) AND DTS_MASK) - 2 ^ 33 else uint ((a - b) AND DTS_MASK))" for a b
    by (simp add: dts_signed_delta_def Let_def word_le_def DTS_values)
  show "dts_signed_delta a b mod 2 ^ 33 = (uint a - uint b) mod 2 ^ 33" for a b
    unfolding eq by (rule signed_wrap(1) [OF uint_dts_diff]) auto
  show "- (2 ^ 33 div 2) \<le> dts_signed_delta a b" for a b
    unfolding eq by (rule signed_wrap(2) [OF uint_dts_diff]) auto
  show "dts_signed_delta a b < 2 ^ 33 div 2" for a b
    unfolding eq by (rule signed_wrap(3) [OF uint_dts_diff]) auto
qed simp_all

interpretation pcr: cyclic_clock "2576980377600" pcr_after pcr_signed_delta
proof unfold_locales
  have sub: "pcr_after a b \<longleftrightarrow> pcr_sub a b \<noteq> 0 \<and> pcr_sub a b < PCR_HALF" for a b
    by (simp add: pcr_after_def pcr_sub_def Let_def)
  show "pcr_after a b \<longleftrightarrow> 0 < (uint a - uint b) mod 2576980377600
      \<and> (uint a - uint b) mod 2576980377600 < 2576980377600 div 2" for a b
    unfolding sub uint_pcr_sub [symmetric] by (auto simp: word_less_def DTS_values word_neq_0_conv)
  have eq: "pcr_signed_delta a b = (if 2576980377600 div 2 \<le> uint (pcr_sub a b)
      then uint (pcr_sub a b) - 2576980377600 else uint (pcr_sub a b))" for a b
    by (simp add: pcr_signed_delta_def Let_def word_le_def DTS_values)
  show "pcr_signed_delta a b mod 2576980377600 = (uint a - uint b) mod 2576980377600" for a b
    unfolding eq by (rule signed_wrap(1) [OF uint_pcr_sub]) auto
  show "- (2576980377600 div 2) \<le> pcr_signed_delta a b" for a b
    unfolding eq by (rule signed_wrap(2) [OF uint_pcr_sub]) auto
  show "pcr_signed_delta a b < 2576980377600 div 2" for a b
    unfolding eq by (rule signed_wrap(3) [OF uint_pcr_sub]) auto
qed simp_all

text \<open>
  Decoding times are compared correctly across the wrap of the 33-bit counter: a time
  stamp \<open>d\<close> ticks later, with \<open>d\<close> below half the cycle, is after the earlier one and not before it,
  wherever the counter stands, and the differences computed are \<open>d\<close> ticks and \<open>d div 90\<close> ms.
\<close>

theorem dts_order_across_wrap:
  assumes "0 < uint d" "uint d < 2 ^ 32"
  shows "dts_after ((t + d) AND DTS_MASK) t \<and> dts_before_or_equal t ((t + d) AND DTS_MASK)
    \<and> dts_signed_delta ((t + d) AND DTS_MASK) t = uint d
    \<and> dts_forward_delta_ms ((t + d) AND DTS_MASK) t = Some (d div 90)
    \<and> dts_forward_delta_ms t ((t + d) AND DTS_MASK) = None"
proof -
  let ?l = "(t + d) AND DTS_MASK"
  have "uint ?l = (uint t + uint d) mod 2 ^ 33"
    using uint_dts_diff [of "t + d" 0] by (simp add: uint_word_ariths mod_mod_cancel)
  then have diff: "(uint ?l - uint t) mod 2 ^ 33 = uint d mod 2 ^ 33"
    by (simp add: mod_simps)
  have d: "uint d < 2 ^ 33 div 2" using assms by simp
  note L = dts.after_later [OF diff assms(1) d]
  have "uint ((?l - t) AND DTS_MASK) = uint d"
    unfolding uint_dts_diff diff using assms by simp
  then have "(?l - t) AND DTS_MASK = d" by (simp only: word_uint_eq_iff)
  then have fwd: "dts_forward_delta_ms ?l t = Some (d div 90)"
    using L(1) by (simp add: dts_forward_delta_ms_def dts_after_def Let_def)
  have "dts_forward_delta_ms t ?l = None"
    using L(2) by (simp add: dts_forward_delta_ms_def dts_after_def Let_def)
  then show ?thesis
    using L fwd by (simp add: dts_before_or_equal_def)
qed

theorem dts_order_across_wrap_witness:
  "dts_after 5 0x1FFFFFFFF \<and> dts_signed_delta 5 0x1FFFFFFFF = 6"
  using dts_order_across_wrap [of 6 "0x1FFFFFFFF"] by (simp add: DTS_values)

text \<open>The same for the PCR, whose cycle is no power of two.\<close>

lemma uint_pcr_add: "uint (pcr_add t d) = (uint t + uint d) mod 2576980377600"
proof -
  have "uint (pcr_normalize t + pcr_normalize d) = uint t mod 2576980377600 + uint d mod 2576980377600"
    using pos_mod_bound [of 2576980377600 "uint t"] pos_mod_bound [of 2576980377600 "uint d"]
    by (subst uint_plus_if') (simp add: uint_pcr_normalize)
  then show ?thesis by (simp add: pcr_add_def uint_pcr_normalize mod_simps)
qed

lemma pcr_order_across_wrap:
  assumes "0 < uint d" "uint d < 1288490188800"
  shows "pcr_after (pcr_add t d) t" "\<not> pcr_after t (pcr_add t d)" "pcr_signed_delta (pcr_add t d) t = uint d"
proof -
  have diff: "(uint (pcr_add t d) - uint t) mod 2576980377600 = uint d mod 2576980377600"
    by (simp add: uint_pcr_add mod_simps)
  have d: "uint d < 2576980377600 div 2" using assms by simp
  show "pcr_after (pcr_add t d) t" "\<not> pcr_after t (pcr_add t d)" "pcr_signed_delta (pcr_add t d) t = uint d"
    using pcr.after_later [OF diff assms(1) d] by simp_all
qed

section \<open>The restamped clock\<close>

lemma get_pcr_value:
  assumes "r_first_pcr_value r = Some p" "unat p < 2576980377600" "r_target_bitrate_bps r \<noteq> 0"
    and "unat (r_total_packets_sent r) < 2 ^ 28"
  obtains q where "get_pcr r = Some q"
    "unat q = (unat p + unat (r_total_packets_sent r) * (1504 * 27000000) div unat (r_target_bitrate_bps r)) mod 2576980377600"
proof -
  let ?n = "unat (r_total_packets_sent r)" and ?b = "unat (r_target_bitrate_bps r)"
  let ?k = "?n * (1504 * 27000000) div ?b"
  have "?k \<le> ?n * (1504 * 27000000)" by (rule div_le_dividend)
  also have "\<dots> < 2 ^ 28 * (1504 * 27000000)"
    using assms(4) by (intro mult_strict_right_mono) auto
  finally have k: "?k < 2 ^ 28 * (1504 * 27000000)" .
  have "unat (of_nat ?k + p :: u64) = ?k + unat p"
    using k assms(2) by (simp add: unat_word_ariths unat_of_nat take_bit_nat_eq_self)
  then have "unat (pcr_normalize (of_nat ?k + p)) = (unat p + ?k) mod 2576980377600"
    by (simp add: unat_pcr_normalize add.commute)
  then show thesis
    using assms(1,3) that
    by (simp add: get_pcr_def get_raw_pcr_def Let_def TS_PACKET_SIZE_def PCR_HZ_def mult.assoc)
qed

text \<open>
  A stretch of the output: \<open>n\<close> packets are counted, the last of which carries a PCR and is
  restamped.
\<close>

fun restamp_run :: "pcr_restamper \<Rightarrow> (u64 \<times> bytes) list \<Rightarrow> (pcr_restamper \<times> bytes list) option" where
  "restamp_run r [] = Some (r, [])"
| "restamp_run r ((n, packet) # rest) = do {
     (r', packet', stamp) \<leftarrow> restamper_process_packet
        (r\<lparr>r_total_packets_sent := r_total_packets_sent r + n\<rparr>) packet;
     (r'', packets) \<leftarrow> restamp_run r' rest;
     Some (r'', packet' # packets) }"

lemma restamp_one:
  assumes "r_first_pcr_value r = Some p" "unat p < 2576980377600" "r_target_bitrate_bps r \<noteq> 0"
    and "r_total_packets_sent r = 0" "unat n < 2 ^ 28" "has_pcr_field packet"
  obtains q packet' where
    "restamper_process_packet (r\<lparr>r_total_packets_sent := r_total_packets_sent r + n\<rparr>) packet
       = Some (r\<lparr>r_first_pcr_value := Some q\<rparr>, packet', Some q)"
    "unat q = (unat p + unat n * (1504 * 27000000) div unat (r_target_bitrate_bps r)) mod 2576980377600"
proof -
  let ?r = "r\<lparr>r_total_packets_sent := r_total_packets_sent r + n\<rparr>"
  obtain q where q: "get_pcr ?r = Some q"
      "unat q = (unat p + unat n * (1504 * 27000000) div unat (r_target_bitrate_bps r)) mod 2576980377600"
    by (rule get_pcr_value [of ?r p]) (use assms in auto)
  have len: "12 \<le> length packet" using assms(6) by (simp add: has_pcr_field_def)
  have "pkt_write_pcr packet q \<noteq> None" by (rule pkt_write_pcr_no_panic [OF len])
  then show thesis
    using q len assms(4,6) that
    by (auto simp: restamper_process_packet_def pkt_is_pcr_present_eq write_pcr_safe_def)
qed

definition packets_sent :: "(u64 \<times> bytes) list \<Rightarrow> nat" where
  "packets_sent run = sum_list (map (\<lambda>(n, _). unat n) run)"

lemma packets_sent_simps [simp]:
  "packets_sent [] = 0" "packets_sent ((n, packet) # run) = unat n + packets_sent run"
  by (simp_all add: packets_sent_def)

text \<open>
  C4. The restamped clock does not drift: after any number of PCRs, each written after up to
  \<open>2 ^ 28\<close> packets of 188 bytes, the last PCR is the first one advanced by the transmission time
  at the target bit rate, short by less than one tick of the 27 MHz clock per PCR.
\<close>

theorem restamp_run_no_drift:
  assumes "r_first_pcr_value r = Some p" "unat p < 2576980377600" "r_target_bitrate_bps r \<noteq> 0"
    and "r_total_packets_sent r = 0" "list_all (\<lambda>(n, packet). unat n < 2 ^ 28 \<and> has_pcr_field packet) run"
  shows "\<exists>r' packets q ticks. restamp_run r run = Some (r', packets) \<and> r_first_pcr_value r' = Some q
     \<and> unat q = (unat p + ticks) mod 2576980377600
     \<and> ticks * unat (r_target_bitrate_bps r) \<le> packets_sent run * (188 * 8 * 27000000)
     \<and> packets_sent run * (188 * 8 * 27000000)
          \<le> (ticks + length run) * unat (r_target_bitrate_bps r)"
  using assms
proof (induction run arbitrary: r p)
  case Nil
  then show ?case by (intro exI [of _ r] exI [of _ "[]"] exI [of _ p] exI [of _ 0]) simp
next
  case (Cons x run)
  obtain n packet where x: "x = (n, packet)" by fastforce
  define b where "b = unat (r_target_bitrate_bps r)"
  define K :: nat where "K = 188 * 8 * 27000000"
  define k where "k = unat n * K div b"
  have b: "0 < b" using Cons.prems(3) by (simp add: unat_gt_0 b_def)
  obtain q packet' where step:
      "restamper_process_packet (r\<lparr>r_total_packets_sent := r_total_packets_sent r + n\<rparr>) packet
        = Some (r\<lparr>r_first_pcr_value := Some q\<rparr>, packet', Some q)"
      and q: "unat q = (unat p + k) mod 2576980377600"
    by (rule restamp_one [OF Cons.prems(1-4), of n packet]) (use Cons.prems(5) x in \<open>auto simp: k_def K_def b_def\<close>)
  define r1 where "r1 = r\<lparr>r_first_pcr_value := Some q\<rparr>"
  have r1: "r_first_pcr_value r1 = Some q" "unat q < 2576980377600" "r_target_bitrate_bps r1 \<noteq> 0"
      "r_total_packets_sent r1 = 0" "unat (r_target_bitrate_bps r1) = b"
    using Cons.prems(3,4) q by (simp_all add: r1_def b_def)
  have ok: "list_all (\<lambda>(n, packet). unat n < 2 ^ 28 \<and> has_pcr_field packet) run"
    using Cons.prems(5) by simp
  obtain r' packets q' ticks where rest: "restamp_run r1 run = Some (r', packets)" "r_first_pcr_value r' = Some q'"
      "unat q' = (unat q + ticks) mod 2576980377600"
      and lo: "ticks * b \<le> packets_sent run * K" and hi: "packets_sent run * K \<le> (ticks + length run) * b"
    using Cons.IH [OF r1(1-4) ok] unfolding r1(5) K_def [symmetric] by blast
  have kb: "k * b \<le> unat n * K" unfolding k_def by (rule div_times_less_eq_dividend)
  have kb': "unat n * K \<le> (k + 1) * b"
    using div_mult_mod_eq [of "unat n * K" b] mod_less_divisor [OF b, of "unat n * K"]
    unfolding k_def [symmetric] add_mult_distrib by linarith
  have "restamp_run r (x # run) = Some (r', packet' # packets)"
    using step rest(1) by (simp add: x r1_def)
  moreover have "unat q' = (unat p + (k + ticks)) mod 2576980377600"
    unfolding rest(3) q by (simp add: mod_simps add.assoc)
  moreover have "(k + ticks) * b \<le> packets_sent (x # run) * K"
    using lo kb by (simp add: x add_mult_distrib)
  moreover have "packets_sent (x # run) * K \<le> (k + ticks + length (x # run)) * b"
    using hi kb' by (simp add: x add_mult_distrib)
  ultimately show ?case
    using rest(2) unfolding b_def K_def by blast
qed

theorem restamp_run_no_drift_witness:
  fixes packet :: bytes
  defines "packet \<equiv> [0x47, 0x01, 0x00, 0x30, 183, 0x10] @ replicate 182 0"
  shows "\<exists>r' packets q ticks. restamp_run \<lparr>r_target_bitrate_bps = 8000000, r_total_packets_sent = 0,
        r_first_pcr_value = Some 0\<rparr> [(100, packet), (50, packet)] = Some (r', packets)
     \<and> r_first_pcr_value r' = Some q \<and> unat q = ticks mod 2576980377600
     \<and> ticks * 8000000 \<le> 150 * 40608000000 \<and> 150 * 40608000000 \<le> (ticks + 2) * 8000000"
proof -
  have "has_pcr_field packet" by (simp add: packet_def has_pcr_field_def)
  then show ?thesis
    using restamp_run_no_drift [of "\<lparr>r_target_bitrate_bps = 8000000, r_total_packets_sent = 0,
        r_first_pcr_value = Some 0\<rparr>" 0 "[(100, packet), (50, packet)]"]
    by simp
qed

end
