(* ===== verification/Mux_Buffer.thy ===== *)
theory Mux_Buffer
  imports Mux_Clock
begin

text \<open>
  The output buffers of \<open>mux.rs\<close>: packets with their time stamps, in a queue that keeps count of
  the frames and of the PCRs it holds. The counts are kept by hand in the code; the invariant
  \<open>ob_inv\<close> says that they are right.
\<close>

record ts_packet =
  tp_data :: bytes
  tp_pid :: u16
  tp_pts :: u64
  tp_dts :: u64
  tp_pusi :: bool
  tp_discontinuity :: bool
  tp_pcr :: "u64 option"

definition ts_packet_new :: "bytes \<Rightarrow> u16 \<Rightarrow> u64 \<Rightarrow> u64 \<Rightarrow> bool \<Rightarrow> bool \<Rightarrow> ts_packet" where
  "ts_packet_new data pid pts dts pusi discontinuity =
     \<lparr>tp_data = data, tp_pid = pid, tp_pts = pts, tp_dts = dts, tp_pusi = pusi,
      tp_discontinuity = discontinuity, tp_pcr = None\<rparr>"

definition ts_packet_extract_pcr :: "ts_packet \<Rightarrow> ts_packet option" where
  "ts_packet_extract_pcr p = do {
     pcr \<leftarrow> pkt_extract_pcr (tp_data p);
     Some (p\<lparr>tp_pcr := pcr\<rparr>) }"

definition ts_packet_set_discontinuity :: "ts_packet \<Rightarrow> bool \<Rightarrow> ts_packet" where
  "ts_packet_set_discontinuity p discontinuity = p\<lparr>tp_discontinuity := discontinuity\<rparr>"

record out_buffer =
  ob_inner :: "ts_packet list"
  ob_unique_frames_count :: usize
  ob_pcr_count :: usize

definition ob_new :: out_buffer where
  "ob_new = \<lparr>ob_inner = [], ob_unique_frames_count = 0, ob_pcr_count = 0\<rparr>"

definition ob_clear :: "out_buffer \<Rightarrow> out_buffer" where
  "ob_clear b = b\<lparr>ob_inner := [], ob_unique_frames_count := 0, ob_pcr_count := 0\<rparr>"

definition ob_push_back :: "out_buffer \<Rightarrow> ts_packet \<Rightarrow> out_buffer" where
  "ob_push_back b pkt =
    (let b = (if tp_pusi pkt then b\<lparr>ob_unique_frames_count := ob_unique_frames_count b + 1\<rparr> else b);
         b = (if tp_pcr pkt \<noteq> None then b\<lparr>ob_pcr_count := ob_pcr_count b + 1\<rparr> else b)
     in b\<lparr>ob_inner := ob_inner b @ [pkt]\<rparr>)"

definition ob_pop_front :: "out_buffer \<Rightarrow> out_buffer \<times> ts_packet option" where
  "ob_pop_front b =
    (case ob_inner b of [] \<Rightarrow> (b, None)
     | current # rest \<Rightarrow>
         (let b = b\<lparr>ob_inner := rest\<rparr>;
              b = (if tp_pusi current then b\<lparr>ob_unique_frames_count := ob_unique_frames_count b - 1\<rparr> else b);
              b = (if tp_pcr current \<noteq> None then b\<lparr>ob_pcr_count := ob_pcr_count b - 1\<rparr> else b)
          in (b, Some current)))"

definition ob_front :: "out_buffer \<Rightarrow> ts_packet option" where
  "ob_front b = (case ob_inner b of [] \<Rightarrow> None | p # _ \<Rightarrow> Some p)"

definition ob_back :: "out_buffer \<Rightarrow> ts_packet option" where
  "ob_back b = (if ob_inner b = [] then None else Some (last (ob_inner b)))"

definition ob_len :: "out_buffer \<Rightarrow> usize" where
  "ob_len b = length (ob_inner b)"

definition ob_size :: "out_buffer \<Rightarrow> usize" where
  "ob_size b = length (ob_inner b) * TS_PACKET_SIZE"

definition ob_duration_ms :: "out_buffer \<Rightarrow> u64" where
  "ob_duration_ms b =
    (case (ob_front b, ob_back b) of
       (Some first, Some last_pkt) \<Rightarrow>
         (case dts_forward_delta_ms (tp_dts last_pkt) (tp_dts first) of None \<Rightarrow> 0 | Some ms \<Rightarrow> ms)
     | _ \<Rightarrow> 0)"

definition ob_is_dirty :: "out_buffer \<Rightarrow> bool" where
  "ob_is_dirty b \<longleftrightarrow> ob_duration_ms b = 0 \<and> ob_unique_frames_count b > 1"

section \<open>A queue\<close>

text \<open>A run of operations: \<open>Some x\<close> pushes \<open>x\<close>, \<open>None\<close> pops; the result has what was popped.\<close>

fun queue_run :: "('q \<Rightarrow> 'a \<Rightarrow> 'q) \<Rightarrow> ('q \<Rightarrow> 'q \<times> 'a option) \<Rightarrow> 'q \<Rightarrow> 'a option list \<Rightarrow> 'q \<times> 'a list" where
  "queue_run push pop q [] = (q, [])"
| "queue_run push pop q (Some x # ops) = queue_run push pop (push q x) ops"
| "queue_run push pop q (None # ops) = (let (q', r) = pop q; (q'', xs) = queue_run push pop q' ops
     in (q'', (case r of None \<Rightarrow> xs | Some x \<Rightarrow> x # xs)))"

text \<open>What the multiplexer relies on in a buffer: first in, first out.\<close>

locale fifo_queue =
  fixes new :: 'q and push :: "'q \<Rightarrow> 'a \<Rightarrow> 'q" and pop :: "'q \<Rightarrow> 'q \<times> 'a option"
    and front :: "'q \<Rightarrow> 'a option" and contents :: "'q \<Rightarrow> 'a list" and inv :: "'q \<Rightarrow> bool"
  assumes inv_new: "inv new" and contents_new: "contents new = []"
    and inv_push: "inv q \<Longrightarrow> inv (push q x)" and contents_push: "contents (push q x) = contents q @ [x]"
    and pop_empty: "contents q = [] \<Longrightarrow> pop q = (q, None)"
    and pop_cons: "contents q = x # xs \<Longrightarrow> \<exists>q'. pop q = (q', Some x) \<and> contents q' = xs \<and> (inv q \<longrightarrow> inv q')"
    and front_eq: "front q = (case contents q of [] \<Rightarrow> None | x # _ \<Rightarrow> Some x)"
begin

lemma run_fifo:
  "queue_run push pop q ops = (q', popped) \<Longrightarrow> popped @ contents q' = contents q @ List.map_filter (\<lambda>x. x) ops \<and> (inv q \<longrightarrow> inv q')"
proof (induction ops arbitrary: q q' popped)
  case (Cons oper ops)
  show ?case
  proof (cases oper)
    case (Some x)
    then show ?thesis
      using Cons.IH [of "push q x"] Cons.prems inv_push [of q x]
      by (auto simp: contents_push map_filter_simps)
  next
    case None
    obtain q1 r where p: "pop q = (q1, r)" by fastforce
    obtain q2 xs where run: "queue_run push pop q1 ops = (q2, xs)" by fastforce
    show ?thesis
      using Cons.prems Cons.IH [OF run] None p run pop_empty [of q] pop_cons [of q]
      by (cases "contents q") (auto simp: map_filter_simps)
  qed
qed (simp add: map_filter_simps)

lemma pop_decreases: "front q \<noteq> None \<Longrightarrow> length (contents (fst (pop q))) < length (contents q)"
  using pop_cons [of q] by (cases "contents q") (auto simp: front_eq)

end

definition ob_inv :: "out_buffer \<Rightarrow> bool" where
  "ob_inv b \<longleftrightarrow> ob_unique_frames_count b = length (filter tp_pusi (ob_inner b))
     \<and> ob_pcr_count b = length (filter (\<lambda>p. tp_pcr p \<noteq> None) (ob_inner b))"

interpretation ob: fifo_queue ob_new ob_push_back ob_pop_front ob_front ob_inner ob_inv
  by unfold_locales
     (auto simp: ob_new_def ob_inv_def ob_push_back_def ob_pop_front_def ob_front_def Let_def split: list.split)

lemma ob_inv_clear [simp]: "ob_inv (ob_clear b)"
  by (simp add: ob_inv_def ob_clear_def)

lemma ob_duration_nonempty: "ob_duration_ms b \<noteq> 0 \<Longrightarrow> ob_front b \<noteq> None"
  by (auto simp: ob_duration_ms_def split: option.splits)

text \<open>
  A buffer is a queue with exact counters: after any interleaving of pushes and pops that
  starts with an empty buffer, the packets popped followed by the packets still held are the
  packets pushed, in order, and the counters are the numbers of frame starts and of PCRs held.
\<close>

theorem out_buffer_fifo:
  "case queue_run ob_push_back ob_pop_front ob_new ops of (b, popped) \<Rightarrow>
     popped @ ob_inner b = List.map_filter (\<lambda>x. x) ops
     \<and> ob_unique_frames_count b = length (filter tp_pusi (ob_inner b))
     \<and> ob_pcr_count b = length (filter (\<lambda>p. tp_pcr p \<noteq> None) (ob_inner b))"
  using ob.run_fifo [of ob_new ops] ob.inv_new
  by (auto simp: ob.contents_new ob_inv_def split: prod.split)

end
