(* ===== verification/Rust_Float.thy ===== *)
theory Rust_Float
  imports Rust_Prelude "HOL-Library.Log_Nat"
begin

text \<open>
  Floating point the way the sources use it. A finite \<open>f64\<close> or \<open>f32\<close> is the rational number it
  denotes, and every operation is the exact rational operation followed by the rounding of
  IEEE 754 to nearest, ties to even, with \<open>p\<close> significant bits (\<open>fl 53\<close> for \<open>f64\<close>, \<open>fl 24\<close> for
  \<open>f32\<close>). The exponent is unbounded: what the sources compute from integers lies in the
  normal range, so infinities, NaNs and subnormal numbers do not occur. Casts to integers
  truncate and saturate.
\<close>

definition pow2 :: "int \<Rightarrow> rat" where
  "pow2 k = (if 0 \<le> k then 2 ^ nat k else 1 / 2 ^ nat (- k))"

definition floor_log2 :: "rat \<Rightarrow> int" where
  "floor_log2 x = (let (n, d) = quotient_of x; k = bitlen n - bitlen d
     in if pow2 k \<le> x then k else k - 1)"

definition round_even :: "rat \<Rightarrow> int" where
  "round_even q = (let f = \<lfloor>q\<rfloor>; r = q - of_int f in
     if r < 1 / 2 then f else if r > 1 / 2 then f + 1 else if even f then f else f + 1)"

definition fl :: "nat \<Rightarrow> rat \<Rightarrow> rat" where
  "fl p x = (if x = 0 then 0 else
     let e = floor_log2 \<bar>x\<bar> - (int p - 1) in sgn x * of_int (round_even (\<bar>x\<bar> / pow2 e)) * pow2 e)"

definition f64_to_u64 :: "rat \<Rightarrow> u64" where
  "f64_to_u64 x = (if x \<le> 0 then 0 else if x \<ge> 2 ^ 64 then - 1 else of_int \<lfloor>x\<rfloor>)"

definition f64_to_u32 :: "rat \<Rightarrow> u32" where
  "f64_to_u32 x = (if x \<le> 0 then 0 else if x \<ge> 2 ^ 32 then - 1 else of_int \<lfloor>x\<rfloor>)"

definition f64_to_i32 :: "rat \<Rightarrow> int" where
  "f64_to_i32 x = (let n = (if 0 \<le> x then \<lfloor>x\<rfloor> else \<lceil>x\<rceil>) in max (- (2 ^ 31)) (min (2 ^ 31 - 1) n))"

definition u64_to_f64 :: "u64 \<Rightarrow> rat" where
  "u64_to_f64 w = fl 53 (of_nat (unat w))"

lemma pow2_pos [simp]: "0 < pow2 k"
  by (simp add: pow2_def)

lemma pow2_neq_0 [simp]: "pow2 k \<noteq> 0"
  using pow2_pos [of k] by linarith

lemma pow2_powi: "pow2 k = 2 powi k"
  by (simp add: pow2_def power_int_def inverse_eq_divide power_one_over)

lemma pow2_add: "pow2 (a + b) = pow2 a * pow2 b"
  by (simp add: pow2_powi power_int_add)

lemma pow2_diff: "pow2 (a - b) = pow2 a / pow2 b"
  by (simp add: pow2_powi power_int_diff)

lemma pow2_less_iff [simp]: "pow2 a < pow2 b \<longleftrightarrow> a < b"
  using power_int_strict_increasing [of a b "2 :: rat"] power_int_increasing [of b a "2 :: rat"]
  by (fastforce simp: pow2_powi)

lemma pow2_of_nat [simp]: "pow2 (int n) = 2 ^ n"
  by (simp add: pow2_def)

lemma pow2_minus_nat: "pow2 (- int n) = 1 / 2 ^ n"
  by (simp add: pow2_def)

lemma bitlen_pow2:
  assumes "0 < n"
  shows "pow2 (bitlen n - 1) \<le> of_int n" and "of_int n < pow2 (bitlen n)"
proof -
  have b: "2 ^ nat (bitlen n - 1) \<le> n" "n < 2 ^ nat (bitlen n)" and "0 < bitlen n"
    using bitlen_bounds [OF assms] bitlen_nonneg [of n] bitlen_eq_zero_iff [of n] assms by auto
  then show "pow2 (bitlen n - 1) \<le> of_int n" and "of_int n < pow2 (bitlen n)"
    using of_int_le_iff [of "2 ^ nat (bitlen n - 1)" n, where ?'a = rat]
      of_int_less_iff [of n "2 ^ nat (bitlen n)", where ?'a = rat] by (simp_all add: pow2_def)
qed

lemma floor_log2_bounds:
  assumes "0 < x"
  shows "pow2 (floor_log2 x) \<le> x" and "x < pow2 (floor_log2 x + 1)"
proof -
  obtain n d where q: "quotient_of x = (n, d)" by fastforce
  have d: "0 < d" and x: "x = of_int n / of_int d"
    using quotient_of_denom_pos [OF q] quotient_of_div [OF q] by simp_all
  then have n: "0 < n" using assms by (simp add: zero_less_divide_iff)
  let ?k = "bitlen n - bitlen d"
  have "pow2 (bitlen n - 1) / pow2 (bitlen d) \<le> x"
    unfolding x using bitlen_pow2 [OF n] bitlen_pow2 [OF d] d n by (intro frac_le) auto
  then have lo: "pow2 (?k - 1) \<le> x" by (simp add: pow2_diff mult.commute)
  have "x < pow2 (bitlen n) / pow2 (bitlen d - 1)"
    unfolding x using bitlen_pow2 [OF n] bitlen_pow2 [OF d] n by (intro frac_less) auto
  then have hi: "x < pow2 (?k + 1)" by (simp add: pow2_diff pow2_add)
  show "pow2 (floor_log2 x) \<le> x" "x < pow2 (floor_log2 x + 1)"
    using lo hi by (auto simp: floor_log2_def q Let_def)
qed

lemma round_even_of_int [simp]: "round_even (of_int n) = n"
  by (simp add: round_even_def)

text \<open>
  Numbers with at most \<open>p\<close> significant bits are represented exactly, and the rounding error
  of any other number is at most half a unit of its last place.
\<close>

lemma fl_exact:
  assumes "\<bar>n\<bar> < 2 ^ p"
  shows "fl p (of_int n / 2 ^ k) = of_int n / 2 ^ k"
proof (cases "n = 0")
  case True
  then show ?thesis by (simp add: fl_def)
next
  case False
  let ?x = "of_int \<bar>n\<bar> / 2 ^ k :: rat"
  define e where "e = floor_log2 ?x - (int p - 1)"
  have "?x < 2 ^ p / 2 ^ k"
    using of_int_less_iff [of "\<bar>n\<bar>" "2 ^ p", where ?'a = rat] assms by (simp add: divide_strict_right_mono)
  then have "pow2 (floor_log2 ?x) < pow2 (int p - int k)"
    using floor_log2_bounds(1) [of ?x] False by (simp add: pow2_diff)
  then have "0 \<le> - e - int k" by (simp add: e_def)
  then obtain m where m: "- e = int k + int m"
    using zero_le_imp_eq_int by (metis diff_add_cancel add.commute)
  have pe: "pow2 e = 1 / (2 ^ k * 2 ^ m)"
    using pow2_minus_nat [of "k + m"] m [symmetric] by (simp add: power_add)
  have "round_even (?x / pow2 e) = round_even (of_int (\<bar>n\<bar> * 2 ^ m))"
    by (simp add: pe)
  also have "\<dots> = \<bar>n\<bar> * 2 ^ m"
    by (rule round_even_of_int)
  finally have "of_int (round_even (?x / pow2 e)) * pow2 e = ?x"
    by (simp add: pe)
  moreover have "\<bar>of_int n / 2 ^ k\<bar> = ?x" by simp
  ultimately have "fl p (of_int n / 2 ^ k) = sgn (of_int n / 2 ^ k) * \<bar>of_int n / 2 ^ k\<bar>"
    using False unfolding fl_def Let_def e_def by (simp add: mult.assoc)
  then show ?thesis by (simp only: sgn_mult_abs)
qed

lemma fl_of_int: "\<bar>n\<bar> < 2 ^ p \<Longrightarrow> fl p (of_int n) = of_int n"
  using fl_exact [of n p 0] by simp

lemma round_even_error: "\<bar>of_int (round_even q) - q\<bar> \<le> 1 / 2"
  using of_int_floor_le [of q] floor_correct [of q] by (auto simp: round_even_def Let_def)

lemma abs_sgn_mult_diff: "x \<noteq> 0 \<Longrightarrow> \<bar>sgn x * r - x\<bar> = \<bar>r - \<bar>x\<bar>\<bar>" for x r :: rat
  by (cases "0 < x") (auto simp: abs_if)

lemma abs_scale: "0 < b \<Longrightarrow> \<bar>a * b - c\<bar> = \<bar>a - c / b\<bar> * b" for a b c :: rat
  by (subst abs_of_pos [of b, symmetric], assumption, subst abs_mult [symmetric]) (simp add: left_diff_distrib)

lemma fl_error: "\<bar>fl (Suc p) x - x\<bar> \<le> \<bar>x\<bar> / 2 ^ Suc p"
proof (cases "x = 0")
  case False
  define e where "e = floor_log2 \<bar>x\<bar> - int p"
  let ?r = "of_int (round_even (\<bar>x\<bar> / pow2 e)) * pow2 e"
  have "fl (Suc p) x = sgn x * ?r"
    using False by (simp add: fl_def Let_def e_def)
  then have "\<bar>fl (Suc p) x - x\<bar> = \<bar>?r - \<bar>x\<bar>\<bar>"
    using abs_sgn_mult_diff [OF False] by simp
  also have "\<dots> = \<bar>of_int (round_even (\<bar>x\<bar> / pow2 e)) - \<bar>x\<bar> / pow2 e\<bar> * pow2 e"
    by (rule abs_scale) simp
  also have "\<dots> \<le> 1 / 2 * pow2 e"
    using round_even_error by (intro mult_right_mono) (auto simp: less_imp_le)
  also have "\<dots> \<le> \<bar>x\<bar> / 2 ^ Suc p"
    using floor_log2_bounds(1) [of "\<bar>x\<bar>"] False by (simp add: e_def pow2_diff divide_right_mono)
  finally show ?thesis .
qed (simp add: fl_def)

lemma fl_values:
  "fl 24 16777217 = 16777216"
  "fl 53 (6 / 5) = 5404319552844595 / 4503599627370496"
  by code_simp+

end
