(* ===== verification/Output_Stats.thy ===== *)
theory Output_Stats
  imports Mux_Buffer Rust_Float
begin

text \<open>
  \<open>status.rs\<close>: the counters that inputs and outputs publish. The atomics and locks are read and
  written one at a time by the worker that owns them, so a record that is passed along models
  them. The clock is an argument.
\<close>

record buffer_stats =
  bs_size :: usize
  bs_duration :: u64
  bs_max_buffer_size :: u64

record input_stats =
  is_start_timestamp :: int
  is_bitrate :: u64
  is_max_bitrate :: u64

definition input_stats_new :: "int \<Rightarrow> input_stats" where
  "input_stats_new now = \<lparr>is_start_timestamp = now, is_bitrate = 0, is_max_bitrate = 0\<rparr>"

definition input_update_bitrate :: "input_stats \<Rightarrow> u64 \<Rightarrow> input_stats" where
  "input_update_bitrate s bitrate =
    (let s = s\<lparr>is_bitrate := bitrate\<rparr>
     in s\<lparr>is_max_bitrate := max bitrate (is_max_bitrate s)\<rparr>)"

record output_stats =
  os_start_timestamp :: int
  os_last_ready_timestamp :: int
  os_in_buffer_len :: u64
  os_max_in_buffer_size :: u64
  os_bitrate :: u64
  os_bitrate_psi :: u64
  os_bitrate_payload :: u64
  os_bitrate_null :: u64
  os_bitrate_adjust_payload :: u64
  os_bitrate_adjust_null :: u64
  os_fps :: u64
  os_v_buffer_stats :: buffer_stats
  os_a_buffer_stats :: buffer_stats
  os_dts_drift :: "u16 \<rightharpoonup> int"
  os_pcr_drift :: int
  os_buffer_duration_ms :: u64
  os_jitter_ms :: u64
  os_adjust_buf :: u64
  os_cc :: "u16 \<rightharpoonup> usize"
  os_dirty :: usize

definition buffer_stats_zero :: buffer_stats where
  "buffer_stats_zero = \<lparr>bs_size = 0, bs_duration = 0, bs_max_buffer_size = 0\<rparr>"

definition output_stats_new :: "int \<Rightarrow> output_stats" where
  "output_stats_new now =
    \<lparr>os_start_timestamp = now, os_last_ready_timestamp = now, os_in_buffer_len = 0,
     os_max_in_buffer_size = 0, os_bitrate = 0, os_bitrate_psi = 0, os_bitrate_payload = 0,
     os_bitrate_null = 0, os_bitrate_adjust_payload = 0, os_bitrate_adjust_null = 0, os_fps = 0,
     os_v_buffer_stats = buffer_stats_zero, os_a_buffer_stats = buffer_stats_zero,
     os_dts_drift = Map.empty, os_pcr_drift = 0, os_buffer_duration_ms = 0, os_jitter_ms = 0,
     os_adjust_buf = 0, os_cc = Map.empty, os_dirty = 0\<rparr>"

definition update_in_buffer :: "output_stats \<Rightarrow> bytes \<Rightarrow> output_stats" where
  "update_in_buffer s in_buff = s\<lparr>os_in_buffer_len := of_nat (length in_buff)\<rparr>"

definition update_bitrate :: "output_stats \<Rightarrow> u64 \<Rightarrow> output_stats" where
  "update_bitrate s bitrate = s\<lparr>os_bitrate := bitrate\<rparr>"

definition bitrate_of :: "usize \<Rightarrow> u64" where
  "bitrate_of count_packets = of_nat (count_packets * 8 * TS_PACKET_SIZE)"

definition update_bitrate_psi :: "output_stats \<Rightarrow> usize \<Rightarrow> output_stats \<times> usize" where
  "update_bitrate_psi s count_packets = (s\<lparr>os_bitrate_psi := bitrate_of count_packets\<rparr>, 0)"

definition update_bitrate_payload :: "output_stats \<Rightarrow> usize \<Rightarrow> output_stats \<times> usize" where
  "update_bitrate_payload s count_packets = (s\<lparr>os_bitrate_payload := bitrate_of count_packets\<rparr>, 0)"

definition update_bitrate_null :: "output_stats \<Rightarrow> usize \<Rightarrow> output_stats \<times> usize" where
  "update_bitrate_null s count_packets = (s\<lparr>os_bitrate_null := bitrate_of count_packets\<rparr>, 0)"

definition update_bitrate_adjust_null :: "output_stats \<Rightarrow> usize \<Rightarrow> output_stats \<times> usize" where
  "update_bitrate_adjust_null s count_packets = (s\<lparr>os_bitrate_adjust_null := bitrate_of count_packets\<rparr>, 0)"

definition update_bitrate_adjust_payload :: "output_stats \<Rightarrow> usize \<Rightarrow> output_stats \<times> usize" where
  "update_bitrate_adjust_payload s count_packets =
     (s\<lparr>os_bitrate_adjust_payload := bitrate_of count_packets\<rparr>, 0)"

definition update_fps :: "output_stats \<Rightarrow> rat \<Rightarrow> output_stats" where
  "update_fps s fps = s\<lparr>os_fps := f64_to_u64 (fl 53 (fps * 100))\<rparr>"

definition update_dts_drift :: "output_stats \<Rightarrow> u16 \<Rightarrow> int \<Rightarrow> output_stats" where
  "update_dts_drift s pid dts_drift = s\<lparr>os_dts_drift := (os_dts_drift s)(pid \<mapsto> dts_drift)\<rparr>"

definition update_pcr_drift :: "output_stats \<Rightarrow> int \<Rightarrow> output_stats" where
  "update_pcr_drift s pcr_drift = s\<lparr>os_pcr_drift := pcr_drift\<rparr>"

definition update_buffer_duration :: "output_stats \<Rightarrow> u64 \<Rightarrow> output_stats" where
  "update_buffer_duration s duration = s\<lparr>os_buffer_duration_ms := duration\<rparr>"

definition update_jitter :: "output_stats \<Rightarrow> u64 \<Rightarrow> output_stats" where
  "update_jitter s jitter = s\<lparr>os_jitter_ms := jitter\<rparr>"

definition update_adjust_buf :: "output_stats \<Rightarrow> u64 \<Rightarrow> output_stats" where
  "update_adjust_buf s adjust_buf = s\<lparr>os_adjust_buf := adjust_buf\<rparr>"

text \<open>The loop inserts every entry of \<open>cc\<close>; the order does not matter, a map has one entry a key.\<close>

definition update_cc :: "output_stats \<Rightarrow> (u16 \<rightharpoonup> usize) \<Rightarrow> output_stats" where
  "update_cc s cc = s\<lparr>os_cc := os_cc s ++ cc\<rparr>"

definition update_dirty :: "output_stats \<Rightarrow> bool \<Rightarrow> output_stats" where
  "update_dirty s dirty = s\<lparr>os_dirty := (if dirty then 1 else 0)\<rparr>"

definition update_ready_time :: "output_stats \<Rightarrow> int \<Rightarrow> output_stats" where
  "update_ready_time s last_ready_time = s\<lparr>os_last_ready_timestamp := last_ready_time\<rparr>"

definition update_v_buffer :: "output_stats \<Rightarrow> out_buffer \<Rightarrow> output_stats" where
  "update_v_buffer s buffer = s\<lparr>os_v_buffer_stats := (os_v_buffer_stats s)
     \<lparr>bs_size := ob_size buffer, bs_duration := ob_duration_ms buffer\<rparr>\<rparr>"

definition update_a_buffer :: "output_stats \<Rightarrow> out_buffer \<Rightarrow> output_stats" where
  "update_a_buffer s buffer = s\<lparr>os_a_buffer_stats := (os_a_buffer_stats s)
     \<lparr>bs_size := ob_size buffer, bs_duration := ob_duration_ms buffer\<rparr>\<rparr>"

definition update_max_in_buffer_size :: "output_stats \<Rightarrow> usize \<Rightarrow> output_stats" where
  "update_max_in_buffer_size s n = s\<lparr>os_max_in_buffer_size := max (os_max_in_buffer_size s) (of_nat n)\<rparr>"

definition bs_fetch_max :: "buffer_stats \<Rightarrow> usize \<Rightarrow> buffer_stats" where
  "bs_fetch_max b n = b\<lparr>bs_max_buffer_size := max (bs_max_buffer_size b) (of_nat n)\<rparr>"

definition update_max_out_buffer_size :: "output_stats \<Rightarrow> usize \<Rightarrow> usize \<Rightarrow> output_stats" where
  "update_max_out_buffer_size s a_size v_size =
    (let s = s\<lparr>os_a_buffer_stats := bs_fetch_max (os_a_buffer_stats s) a_size\<rparr>
     in s\<lparr>os_v_buffer_stats := bs_fetch_max (os_v_buffer_stats s) v_size\<rparr>)"

end
