(* ===== verification/Psi_Section.thy ===== *)
theory Psi_Section
  imports Ts_Packet Rust_Float
begin

text \<open>
  \<open>psi/mod.rs\<close>: sections of the program specific information. The reassembler collects the
  payloads of the packets of one PID into sections, \<open>pack_multi\<close> cuts a section into packets,
  and the rest encodes lengths, texts, dates and times. The CRC is computed by the crate
  \<open>crc\<close> and is a parameter (\<open>crc32\<close>) of every definition that appends one.
\<close>

unbundle bit_operations_syntax

section \<open>The reassembler\<close>

record psi_section =
  sec_pid :: u16
  sec_bytes :: bytes

record section_reassembler =
  sr_pid :: u16
  sr_buffer :: bytes
  sr_expected_len :: "usize option"

definition sr_new :: "u16 \<Rightarrow> section_reassembler" where
  "sr_new pid = \<lparr>sr_pid = pid, sr_buffer = [], sr_expected_len = None\<rparr>"

definition sr_clear :: "section_reassembler \<Rightarrow> section_reassembler" where
  "sr_clear r = r\<lparr>sr_buffer := [], sr_expected_len := None\<rparr>"

definition payload_offset :: "bytes \<Rightarrow> usize option option" where
  "payload_offset packet =
    (if length packet < TS_PACKET_SIZE then Some None else do {
     b3 \<leftarrow> idx packet 3;
     let af_control = drop_bit 4 b3 AND 0x03;
     if af_control = 0 then Some None
     else if af_control = 2 then Some None
     else do {
     r \<leftarrow> (if af_control = 1 then Some (Some 4)
          else if af_control = 3 then
            (if length packet \<le> 4 then Some None
             else do {
               l \<leftarrow> idx packet 4;
               Some (Some (4 + (unat l + 1))) })
          else None);
     case r of None \<Rightarrow> Some None
     | Some offset \<Rightarrow>
         if offset > length packet then Some None else Some (Some offset) }})"

definition sr_take_complete :: "section_reassembler \<Rightarrow> (section_reassembler \<times> bytes option) option" where
  "sr_take_complete r =
    (let finish = (\<lambda>r. case sr_expected_len r of
         None \<Rightarrow> Some (r, None)
       | Some expected_len \<Rightarrow>
           if length (sr_buffer r) < expected_len then Some (r, None)
           else do {
             sec \<leftarrow> slice (sr_buffer r) 0 expected_len;
             Some (sr_clear r, Some sec) })
     in if sr_expected_len r = None \<and> length (sr_buffer r) \<ge> 3 then do {
       b1 \<leftarrow> idx (sr_buffer r) 1;
       b2 \<leftarrow> idx (sr_buffer r) 2;
       let section_len = len12 b1 b2;
       let total_len = section_len + 3;
       if total_len > 3 + 4095 then Some (sr_clear r, None)
       else finish (r\<lparr>sr_expected_len := Some total_len\<rparr>) }
     else finish r)"

definition sr_append_rest ::
  "section_reassembler \<Rightarrow> bytes \<Rightarrow> usize \<Rightarrow> (section_reassembler \<times> bytes option) option" where
  "sr_append_rest r packet offset =
    (if offset \<ge> length packet then Some (r, None)
     else do {
       payload \<leftarrow> slice_from packet offset;
       sr_take_complete (r\<lparr>sr_buffer := sr_buffer r @ payload\<rparr>) })"

definition sr_push :: "section_reassembler \<Rightarrow> bytes \<Rightarrow> (section_reassembler \<times> bytes option) option" where
  "sr_push r packet =
    (if length packet < TS_PACKET_SIZE then Some (sr_clear r, None) else do {
     b0 \<leftarrow> idx packet 0;
     if b0 \<noteq> TS_SYNC_BYTE then Some (sr_clear r, None) else do {
     pid \<leftarrow> pkt_pid packet;
     if pid \<noteq> sr_pid r then Some (r, None) else do {
     b1 \<leftarrow> idx packet 1;
     let pusi = (b1 AND 0x40 \<noteq> 0);
     po \<leftarrow> payload_offset packet;
     case po of None \<Rightarrow> Some (r, None)
     | Some offset \<Rightarrow>
       if pusi then
         (if offset \<ge> length packet then Some (sr_clear r, None)
          else do {
            p \<leftarrow> idx packet offset;
            let pointer = unat p;
            let offset = offset + 1;
            let pointer_end = offset + pointer;
            if pointer_end > length packet then Some (sr_clear r, None)
            else if sr_buffer r \<noteq> [] \<and> pointer > 0 then do {
              tail \<leftarrow> slice packet offset pointer_end;
              (r, done) \<leftarrow> sr_take_complete (r\<lparr>sr_buffer := sr_buffer r @ tail\<rparr>);
              case done of
                Some sec \<Rightarrow> Some (sr_clear r, Some sec)
              | None \<Rightarrow> sr_append_rest (sr_clear r) packet pointer_end }
            else sr_append_rest (sr_clear r) packet pointer_end })
       else if sr_buffer r = [] then Some (r, None)
       else sr_append_rest r packet offset }}})"

record section_reassembler_map =
  srm_per_pid :: "u16 \<rightharpoonup> section_reassembler"

definition srm_new :: section_reassembler_map where
  "srm_new = \<lparr>srm_per_pid = Map.empty\<rparr>"

definition srm_push ::
  "section_reassembler_map \<Rightarrow> bytes \<Rightarrow> (section_reassembler_map \<times> bytes option) option" where
  "srm_push m packet =
    (if length packet < TS_PACKET_SIZE then Some (m, None) else do {
     b0 \<leftarrow> idx packet 0;
     if b0 \<noteq> TS_SYNC_BYTE then Some (m, None) else do {
     pid \<leftarrow> pkt_pid packet;
     let reasm = (case srm_per_pid m pid of None \<Rightarrow> sr_new pid | Some r \<Rightarrow> r);
     (reasm, out) \<leftarrow> sr_push reasm packet;
     Some (m\<lparr>srm_per_pid := (srm_per_pid m)(pid \<mapsto> reasm)\<rparr>, out) }})"

section \<open>Packing sections into packets\<close>

text \<open>
  One iteration of the loop of \<open>pack_multi\<close>. The two slices of \<open>copy_from_slice\<close> have the
  length \<open>copy_len\<close>, which is at most the room in the packet and at most what is left of the
  section.
\<close>

definition pack_payload :: "bool \<Rightarrow> usize" where
  "pack_payload first = (if first then 5 else 4)"

definition pack_copy_len :: "bytes \<Rightarrow> usize \<Rightarrow> bool \<Rightarrow> usize" where
  "pack_copy_len section offset first =
     min (TS_PACKET_SIZE - pack_payload first) (length section - offset)"

definition pack_one :: "bytes \<Rightarrow> u16 \<Rightarrow> u8 \<Rightarrow> usize \<Rightarrow> bool \<Rightarrow> bytes" where
  "pack_one section pid cc offset first =
    (let packet = replicate TS_PACKET_SIZE 0xFF;
         packet = packet[0 := TS_SYNC_BYTE];
         packet = packet[1 := (ucast (drop_bit 8 pid) AND 0x1F) OR (if first then 0x40 else 0x00)];
         packet = packet[2 := ucast (pid AND 0xFF)];
         packet = packet[3 := 0x10 OR (cc AND 0x0F)];
         packet = (if first then packet[4 := 0x00] else packet);
         payload = pack_payload first;
         copy_len = pack_copy_len section offset first
     in take payload packet @ take copy_len (drop offset section)
          @ drop (payload + copy_len) packet)"

function pack_loop :: "bytes \<Rightarrow> u16 \<Rightarrow> u8 \<Rightarrow> usize \<Rightarrow> bool \<Rightarrow> bytes list \<times> u8" where
  "pack_loop section pid cc offset first =
    (if first \<or> offset < length section then
       let packet = pack_one section pid cc offset first;
           (packets, cc') = pack_loop section pid ((cc + 1) AND 0x0F)
              (offset + pack_copy_len section offset first) False
       in (packet # packets, cc')
     else ([], cc))"
  by pat_completeness auto
termination
  by (relation "measure (\<lambda>(section, pid, cc, offset, first).
        (if first then 1 else 0) + (length section - offset))")
     (auto simp: pack_copy_len_def pack_payload_def TS_PACKET_SIZE_def)

declare pack_loop.simps [simp del]

definition pack_multi :: "bytes \<Rightarrow> u16 \<Rightarrow> u8 \<Rightarrow> bytes list \<times> u8" where
  "pack_multi section pid cc = pack_loop section pid cc 0 True"

definition pack :: "bytes \<Rightarrow> u16 \<Rightarrow> u8 \<Rightarrow> bytes" where
  "pack section pid cc =
     (case fst (pack_multi section pid cc) of
        [] \<Rightarrow> replicate TS_PACKET_SIZE 0xFF
      | p # _ \<Rightarrow> p)"

section \<open>Lengths, texts, dates\<close>

definition high :: "u16 \<Rightarrow> u8" where
  "high value = ucast (drop_bit 8 value)"

definition low :: "u16 \<Rightarrow> u8" where
  "low value = ucast value"

definition section_with_crc :: "(bytes \<Rightarrow> u32) \<Rightarrow> u16 \<Rightarrow> bytes \<Rightarrow> psi_section" where
  "section_with_crc crc32 pid bs = \<lparr>sec_pid = pid, sec_bytes = bs @ to_be32 (crc32 bs)\<rparr>"

definition set_section_length :: "bytes \<Rightarrow> bytes option" where
  "set_section_length section = do {
     let len = of_nat (usize_sub (length section) 3 + 4);
     b1 \<leftarrow> idx section 1;
     section \<leftarrow> upd section 1 ((b1 AND 0xF0) OR high len);
     upd section 2 (low len) }"

text \<open>\<open>str::is_char_boundary\<close>: not inside the encoding of a character.\<close>

definition is_char_boundary :: "rstring \<Rightarrow> usize \<Rightarrow> bool" where
  "is_char_boundary text i \<longleftrightarrow>
     i = 0 \<or> i = length text \<or> (i < length text \<and> \<not> (0x80 \<le> text ! i \<and> text ! i < 0xC0))"

fun back_to_boundary :: "rstring \<Rightarrow> usize \<Rightarrow> usize" where
  "back_to_boundary text 0 = 0"
| "back_to_boundary text (Suc e) =
     (if \<not> is_char_boundary text (Suc e) then back_to_boundary text e else Suc e)"

definition dvb_text :: "rstring \<Rightarrow> usize \<Rightarrow> bytes" where
  "dvb_text text max_len =
    (let budget = max_len - 1;
         end = back_to_boundary text (min (length text) budget)
     in 0x15 # take end text)"

text \<open>The calendar fields that the code reads from a \<open>chrono::DateTime\<close>.\<close>

record datetime =
  dt_year :: int
  dt_month :: nat
  dt_day :: nat
  dt_hour :: nat
  dt_minute :: nat
  dt_second :: nat

definition bcd :: "u8 \<Rightarrow> u8" where
  "bcd value = push_bit 4 (value div 10) OR (value mod 10)"

definition i32_div :: "int \<Rightarrow> int \<Rightarrow> int" where
  "i32_div a b = sgn a * sgn b * (\<bar>a\<bar> div \<bar>b\<bar>)"

definition mjd :: "int \<Rightarrow> int \<Rightarrow> int \<Rightarrow> u16" where
  "mjd year month day =
    (let (year, month) = (if month \<le> 2 then (year - 1, month + 12) else (year, month));
         a = i32_div year 100;
         b = 2 - a + i32_div a 4;
         jd = f64_to_i32 (of_int \<lfloor>fl 53 (fl 53 (1461 / 4) * fl 53 (of_int (year + 4716)))\<rfloor>)
            + f64_to_i32 (of_int \<lfloor>fl 53 (fl 53 (306001 / 10000) * fl 53 (of_int (month + 1)))\<rfloor>)
            + day + b - 1524
     in of_int (jd - 2400001))"

definition encode_dvb_time :: "datetime \<Rightarrow> bytes" where
  "encode_dvb_time dt =
    (let m = mjd (dt_year dt) (int (dt_month dt)) (int (dt_day dt))
     in [high m, low m, bcd (of_nat (dt_hour dt)), bcd (of_nat (dt_minute dt)),
         bcd (of_nat (dt_second dt))])"

definition encode_duration :: "u32 \<Rightarrow> bytes" where
  "encode_duration seconds =
    (let h = ucast (min (seconds div 3600) 99);
         m = ucast ((seconds mod 3600) div 60);
         s = ucast (seconds mod 60)
     in [bcd h, bcd m, bcd s])"

text \<open>
  The offset of the zone from UTC in seconds is looked up by \<open>chrono_tz\<close> for the current
  time and is a parameter.
\<close>

definition get_local_offset_bcd :: "int \<Rightarrow> bytes" where
  "get_local_offset_bcd offset_seconds =
    (let offset_minutes = \<bar>offset_seconds\<bar> div 60;
         hours = of_int (offset_minutes div 60);
         minutes = of_int (offset_minutes mod 60)
     in [bcd hours, bcd minutes])"

definition cached_cc :: "bytes \<Rightarrow> u8 option" where
  "cached_cc cached_pkt = do {
     b0 \<leftarrow> idx cached_pkt 0;
     if b0 = TS_SYNC_BYTE then do {
       b3 \<leftarrow> idx cached_pkt 3;
       Some (b3 AND 0x0F) }
     else Some 0 }"

section \<open>The reassembler delivers whole sections and never panics\<close>

text \<open>A section is whole when it is as long as its own 12-bit length field says.\<close>

definition section_ok :: "bytes \<Rightarrow> bool" where
  "section_ok s \<longleftrightarrow> 3 \<le> length s \<and> length s = len12 (s ! 1) (s ! 2) + 3"

definition sr_inv :: "section_reassembler \<Rightarrow> bool" where
  "sr_inv r \<longleftrightarrow> (case sr_expected_len r of
       None \<Rightarrow> length (sr_buffer r) < 3
     | Some l \<Rightarrow> 3 \<le> length (sr_buffer r) \<and> length (sr_buffer r) < l
         \<and> l = len12 (sr_buffer r ! 1) (sr_buffer r ! 2) + 3)"

lemma section_ok_length: "section_ok s \<Longrightarrow> length s \<le> 4098"
  using len12_less [of "s ! 1" "s ! 2"] by (simp add: section_ok_def)

lemma sr_inv_new [simp]: "sr_inv (sr_new pid)"
  by (simp add: sr_inv_def sr_new_def)

lemma sr_inv_clear [simp]: "sr_inv (sr_clear r)"
  by (simp add: sr_inv_def sr_clear_def)

lemma sr_clear_simps [simp]:
  "sr_pid (sr_clear r) = sr_pid r" "sr_buffer (sr_clear r) = []" "sr_expected_len (sr_clear r) = None"
  "sr_clear (sr_clear r) = sr_clear r" "sr_clear (r\<lparr>sr_buffer := b\<rparr>) = sr_clear r"
  "sr_clear (r\<lparr>sr_expected_len := e\<rparr>) = sr_clear r"
  by (simp_all add: sr_clear_def)

lemma sr_inv_bound: "sr_inv r \<Longrightarrow> length (sr_buffer r) < 4098"
  using len12_less [of "sr_buffer r ! 1" "sr_buffer r ! 2"]
  by (auto simp: sr_inv_def split: option.splits)

text \<open>
  What \<open>take_complete\<close> does to a buffer that grew from a state with the invariant: the
  section length is known as soon as three bytes are there.
\<close>

definition sr_pre :: "section_reassembler \<Rightarrow> bool" where
  "sr_pre r \<longleftrightarrow> (case sr_expected_len r of None \<Rightarrow> True
     | Some l \<Rightarrow> 3 \<le> length (sr_buffer r) \<and> l = len12 (sr_buffer r ! 1) (sr_buffer r ! 2) + 3)"

lemma sr_pre_append: "sr_inv r \<Longrightarrow> sr_pre (r\<lparr>sr_buffer := sr_buffer r @ xs\<rparr>)"
  by (auto simp: sr_inv_def sr_pre_def nth_append split: option.splits)

lemma sr_take_complete_eq:
  assumes "sr_pre r"
  defines "b \<equiv> sr_buffer r"
  defines "l \<equiv> len12 (b ! 1) (b ! 2) + 3"
  shows "sr_take_complete r = Some
    (if length b < 3 then (r, None)
     else if length b < l then (r\<lparr>sr_expected_len := Some l\<rparr>, None)
     else (sr_clear r, Some (take l b)))"
  using assms len12_less [of "b ! 1" "b ! 2"]
  by (auto simp: sr_take_complete_def sr_pre_def Let_def split: option.splits)

lemma sr_take_complete_inv:
  assumes "sr_pre r" and "sr_take_complete r = Some (r', out)"
  shows "sr_inv r'" and "sr_pid r' = sr_pid r" and "out = Some s \<Longrightarrow> section_ok s"
  using assms
  by (auto simp: sr_take_complete_eq sr_inv_def sr_pre_def section_ok_def split: if_splits option.splits)

lemma payload_offset_no_panic [no_panic]: "payload_offset p \<noteq> None"
  unfolding payload_offset_def TS_PACKET_SIZE_def
  using afc_cases [of "drop_bit 4 (p ! 3)"]
  by (intro no_panic) (auto simp: idx_eq_Some_iff)


lemma payload_offset_le: "payload_offset p = Some (Some n) \<Longrightarrow> n \<le> length p"
  unfolding payload_offset_def
  by (auto simp: Let_def split: if_splits Option.bind_splits option.splits)

text \<open>
  One call of \<open>push\<close>: it returns, keeps the invariant and the PID, and what it hands out is a
  whole section.
\<close>

definition sr_step_ok :: "section_reassembler \<Rightarrow> (section_reassembler \<times> bytes option) option \<Rightarrow> bool" where
  "sr_step_ok r res \<longleftrightarrow> (case res of None \<Rightarrow> False
     | Some (r', out) \<Rightarrow> sr_inv r' \<and> sr_pid r' = sr_pid r
         \<and> (case out of None \<Rightarrow> True | Some s \<Rightarrow> section_ok s))"

lemma sr_step_ok_keep [simp]:
  "sr_inv r \<Longrightarrow> sr_step_ok r (Some (r, None))" "sr_step_ok r (Some (sr_clear r, None))"
  by (simp_all add: sr_step_ok_def)

lemma sr_step_ok_take_complete:
  assumes "sr_pre r'" and "sr_pid r' = sr_pid r"
  shows "sr_step_ok r (sr_take_complete r')"
proof -
  obtain r'' out where eq: "sr_take_complete r' = Some (r'', out)"
    using sr_take_complete_eq [OF assms(1)] by (metis surj_pair)
  show ?thesis
    using sr_take_complete_inv [OF assms(1) eq] assms(2)
    by (auto simp: sr_step_ok_def eq split: option.split)
qed

lemma sr_step_ok_append:
  "sr_inv r' \<Longrightarrow> sr_pid r' = sr_pid r \<Longrightarrow>
   sr_step_ok r (sr_take_complete (r'\<lparr>sr_buffer := sr_buffer r' @ xs\<rparr>))"
  by (intro sr_step_ok_take_complete sr_pre_append) auto

lemma sr_step_ok_rest:
  "sr_inv r' \<Longrightarrow> sr_pid r' = sr_pid r \<Longrightarrow> sr_step_ok r (sr_append_rest r' packet off)"
  unfolding sr_append_rest_def
  by (auto simp: sr_step_ok_append) (auto simp: sr_step_ok_def)

lemma sr_step_ok_tail:
  assumes "sr_inv r"
  shows "sr_step_ok r (sr_take_complete (r\<lparr>sr_buffer := sr_buffer r @ xs\<rparr>) \<bind>
      (\<lambda>(r', done). case done of None \<Rightarrow> sr_append_rest (sr_clear r') packet off
         | Some sec \<Rightarrow> Some (sr_clear r', Some sec)))"
proof -
  obtain r' out where eq: "sr_take_complete (r\<lparr>sr_buffer := sr_buffer r @ xs\<rparr>) = Some (r', out)"
      and pid: "sr_pid r' = sr_pid r" and ok: "\<And>s. out = Some s \<Longrightarrow> section_ok s"
    using sr_step_ok_append [OF assms refl, of xs]
    by (auto simp: sr_step_ok_def split: option.splits)
  show ?thesis
    using pid ok sr_step_ok_rest [of "sr_clear r'" r]
    by (cases out) (auto simp: eq sr_step_ok_def)
qed

lemma sr_push_ok:
  assumes inv: "sr_inv r"
  shows "sr_step_ok r (sr_push r packet)"
proof (cases "length packet < TS_PACKET_SIZE")
  case True
  then show ?thesis
    using inv by (simp add: sr_push_def)
next
  case False
  then have len: "188 \<le> length packet" "packet \<noteq> []" by (auto simp: TS_PACKET_SIZE_def)
  show ?thesis
    using False len payload_offset_no_panic [of packet] payload_offset_le [of packet] inv
    by (auto simp: sr_push_def Let_def intro!: sr_step_ok_rest sr_step_ok_tail split: option.splits)
qed

section \<open>Sources of sections\<close>

text \<open>Feeding packets one after the other, with what each of them completed.\<close>

fun push_each :: "('s \<Rightarrow> bytes \<Rightarrow> ('s \<times> 'o) option) \<Rightarrow> 's \<Rightarrow> bytes list \<Rightarrow> ('s \<times> 'o list) option" where
  "push_each push s [] = Some (s, [])"
| "push_each push s (p # ps) = do {
     (s', o1) \<leftarrow> push s p;
     (s'', os) \<leftarrow> push_each push s' ps;
     Some (s'', o1 # os) }"

text \<open>
  What the parsers of tables rely on: a source takes any packet without a panic and hands out
  whole sections only.
\<close>

locale section_source =
  fixes push :: "'s \<Rightarrow> bytes \<Rightarrow> ('s \<times> bytes option) option"
    and inv :: "'s \<Rightarrow> bool"
  assumes push_returns: "inv s \<Longrightarrow> \<exists>s' out. push s p = Some (s', out)"
    and push_inv: "inv s \<Longrightarrow> push s p = Some (s', out) \<Longrightarrow> inv s'"
    and push_whole: "inv s \<Longrightarrow> push s p = Some (s', Some sec) \<Longrightarrow> section_ok sec"
begin

lemma push_each_ok:
  "inv s \<Longrightarrow> \<exists>s' outs. push_each push s ps = Some (s', outs) \<and> inv s' \<and> length outs = length ps
     \<and> list_all (pred_option section_ok) outs"
proof (induction ps arbitrary: s)
  case (Cons p ps)
  obtain s1 o1 where 1: "push s p = Some (s1, o1)" using push_returns [OF Cons.prems] by blast
  show ?case
    using Cons.IH [OF push_inv [OF Cons.prems 1]] push_whole [OF Cons.prems, of p s1] 1
    by (cases o1) fastforce+
qed simp

end

interpretation reasm: section_source sr_push sr_inv
proof unfold_locales
  show "\<exists>s' out. sr_push s p = Some (s', out)" if "sr_inv s" for s p
    using sr_push_ok [OF that, of p] by (auto simp: sr_step_ok_def split: option.splits)
  show "sr_inv s'" if "sr_inv s" "sr_push s p = Some (s', out)" for s p s' out
    using sr_push_ok [OF that(1), of p] that(2) by (simp add: sr_step_ok_def)
  show "section_ok sec" if "sr_inv s" "sr_push s p = Some (s', Some sec)" for s p s' sec
    using sr_push_ok [OF that(1), of p] that(2) by (simp add: sr_step_ok_def)
qed

definition srm_inv :: "section_reassembler_map \<Rightarrow> bool" where
  "srm_inv m \<longleftrightarrow> (\<forall>pid r. srm_per_pid m pid = Some r \<longrightarrow> sr_inv r \<and> sr_pid r = pid)"

definition srm_get :: "section_reassembler_map \<Rightarrow> u16 \<Rightarrow> section_reassembler" where
  "srm_get m pid = (case srm_per_pid m pid of None \<Rightarrow> sr_new pid | Some r \<Rightarrow> r)"

definition ts_packet_ok :: "bytes \<Rightarrow> bool" where
  "ts_packet_ok p \<longleftrightarrow> TS_PACKET_SIZE \<le> length p \<and> p ! 0 = TS_SYNC_BYTE"

definition ts_pid :: "bytes \<Rightarrow> u16" where
  "ts_pid p = pid13 (p ! 1) (p ! 2)"

lemma srm_get_inv: "srm_inv m \<Longrightarrow> sr_inv (srm_get m pid)"
  by (auto simp: srm_inv_def srm_get_def split: option.splits)

lemma srm_get_pid: "srm_inv m \<Longrightarrow> sr_pid (srm_get m pid) = pid"
  by (auto simp: srm_inv_def srm_get_def sr_new_def split: option.splits)

lemma srm_push_eq:
  "srm_push m p = (if ts_packet_ok p then do {
       (r, out) \<leftarrow> sr_push (srm_get m (ts_pid p)) p;
       Some (m\<lparr>srm_per_pid := (srm_per_pid m)(ts_pid p \<mapsto> r)\<rparr>, out) }
     else Some (m, None))"
  by (cases p) (auto simp: srm_push_def ts_packet_ok_def ts_pid_def srm_get_def TS_PACKET_SIZE_def Let_def)

lemma srm_push_inv:
  assumes "srm_inv m" "srm_push m p = Some (m', out)"
  shows "srm_inv m'" and "out = Some sec \<Longrightarrow> section_ok sec"
proof -
  have ok: "sr_step_ok (srm_get m (ts_pid p)) (sr_push (srm_get m (ts_pid p)) p)"
    by (rule sr_push_ok [OF srm_get_inv [OF assms(1)]])
  show "srm_inv m'" "out = Some sec \<Longrightarrow> section_ok sec"
    using assms ok srm_get_pid [OF assms(1)]
    by (auto simp: srm_push_eq sr_step_ok_def srm_inv_def split: if_splits Option.bind_splits)
qed

interpretation reasm_map: section_source srm_push srm_inv
proof unfold_locales
  show "\<exists>s' out. srm_push s p = Some (s', out)" if "srm_inv s" for s p
    using reasm.push_returns [OF srm_get_inv [OF that], of "ts_pid p" p] by (auto simp: srm_push_eq)
qed (auto dest: srm_push_inv)

lemma srm_get_push:
  "srm_push m p = Some (m', out) \<Longrightarrow>
   (if ts_packet_ok p \<and> ts_pid p = pid then sr_push (srm_get m pid) p = Some (srm_get m' pid, out)
    else srm_get m' pid = srm_get m pid)"
  by (auto simp: srm_push_eq srm_get_def split: if_splits Option.bind_splits)

text \<open>
  What a map of reassemblers promises: a packet that is accepted for a PID goes to the reassembler of
  that PID, and every other reassembler stays as it is. Then the map is the reassemblers side by side.
\<close>

locale demultiplexer =
  fixes push_one :: "'s \<Rightarrow> bytes \<Rightarrow> ('s \<times> 'o) option" and push_all :: "'m \<Rightarrow> bytes \<Rightarrow> ('m \<times> 'o) option"
    and get :: "'m \<Rightarrow> u16 \<Rightarrow> 's" and accepts :: "u16 \<Rightarrow> bytes \<Rightarrow> bool"
  assumes get_push: "push_all m p = Some (m', out) \<Longrightarrow>
    (if accepts pid p then push_one (get m pid) p = Some (get m' pid, out) else get m' pid = get m pid)"
begin

lemma push_each_filter:
  "push_each push_all m ps = Some (m', outs) \<Longrightarrow>
   push_each push_one (get m pid) (filter (accepts pid) ps)
     = Some (get m' pid, map snd (filter (\<lambda>(p, out). accepts pid p) (zip ps outs)))"
proof (induction ps arbitrary: m outs)
  case (Cons p ps)
  from Cons.prems obtain m1 o1 os where step: "push_all m p = Some (m1, o1)"
      and rest: "push_each push_all m1 ps = Some (m', os)" and outs: "outs = o1 # os"
    by (auto split: Option.bind_splits)
  show ?case
    using get_push [OF step, of pid] Cons.IH [OF rest] by (auto simp: outs split: if_splits)
qed simp

end

interpretation sections: demultiplexer sr_push srm_push srm_get "\<lambda>pid p. ts_packet_ok p \<and> ts_pid p = pid"
  by unfold_locales (rule srm_get_push)

text \<open>
  The reassemblers of different PIDs do not disturb each other, and none of them panics:
  whatever packets arrive in whatever order, the map of reassemblers hands out whole sections
  only, and for every PID exactly those that a reassembler of that PID alone would hand out
  for the packets of that PID alone.
\<close>

theorem srm_push_per_pid:
  "\<exists>m outs. push_each srm_push srm_new ps = Some (m, outs)
     \<and> list_all (pred_option section_ok) outs
     \<and> (\<forall>pid. push_each sr_push (sr_new pid) (filter (\<lambda>p. ts_packet_ok p \<and> ts_pid p = pid) ps)
          = Some (srm_get m pid,
                  map snd (filter (\<lambda>(p, out). ts_packet_ok p \<and> ts_pid p = pid) (zip ps outs))))"
proof -
  have "srm_inv srm_new" by (simp add: srm_inv_def srm_new_def)
  then obtain m outs where run: "push_each srm_push srm_new ps = Some (m, outs)"
      and ok: "list_all (pred_option section_ok) outs"
    using reasm_map.push_each_ok by blast
  have "srm_get srm_new pid = sr_new pid" for pid
    by (simp add: srm_get_def srm_new_def)
  then show ?thesis
    using run ok sections.push_each_filter [OF run] by auto
qed

section \<open>Packing and reassembling\<close>

text \<open>A packet without adaptation field, which is what \<open>pack_multi\<close> writes.\<close>

definition payload_packet :: "u16 \<Rightarrow> bool \<Rightarrow> u8 \<Rightarrow> bytes \<Rightarrow> bytes" where
  "payload_packet pid pusi cc payload =
     [TS_SYNC_BYTE, (ucast (drop_bit 8 pid) AND 0x1F) OR (if pusi then 0x40 else 0x00),
      ucast (pid AND 0xFF), 0x10 OR (cc AND 0x0F)] @ payload"

lemma drop_past: "length xs = n \<Longrightarrow> drop (n + k) (xs @ ys) = drop k ys"
  by simp

lemmas drop_5 = drop_past [of "[_, _, _, _, _]" 5, simplified]
lemmas drop_4 = drop_past [of "[_, _, _, _]" 4, simplified]

lemma replicate_188: "replicate 188 x = x # x # x # x # x # replicate 183 x"
  using replicate_add [of 5 183 x] by (simp add: numeral_eq_Suc)

lemma flip_184: "drop k (x # replicate 183 x) = replicate (184 - k) x"
  using replicate_add [of 1 183 x] drop_replicate [of k 184 x] by simp

lemma pack_one_eq:
  "pack_one sec pid cc off first = payload_packet pid first cc
     ((if first then [0] else []) @ take (pack_copy_len sec off first) (drop off sec)
        @ replicate (TS_PACKET_SIZE - pack_payload first - pack_copy_len sec off first) 0xFF)"
  by (cases first)
     (simp_all add: pack_one_def payload_packet_def pack_payload_def TS_PACKET_SIZE_def
        replicate_188 Let_def drop_5 drop_4 drop_replicate flip_184)

lemma length_payload_packet [simp]: "length (payload_packet pid first cc pl) = 4 + length pl"
  by (simp add: payload_packet_def)

lemma payload_packet_bits:
  "unat pid < 8192 \<Longrightarrow>
   pid13 ((ucast (drop_bit 8 pid) AND 0x1F) OR (if first then 0x40 else 0x00)) (ucast (pid AND 0xFF)) = pid"
  "((ucast (drop_bit 8 pid) AND 0x1F) OR (if first then 0x40 else 0x00) :: u8) AND 0x40
     = (if first then 0x40 else 0)"
  "drop_bit 4 (0x10 OR (cc AND 0x0F) :: u8) AND 0x03 = 1"
  "(0x10 OR (cc AND 0x0F) :: u8) AND 0x0F = cc AND 0x0F"
proof -
  show "pid13 ((ucast (drop_bit 8 pid) AND 0x1F) OR (if first then 0x40 else 0x00)) (ucast (pid AND 0xFF)) = pid"
    if "unat pid < 8192"
  proof -
    have "take_bit 13 pid = pid" using that by (intro word_take_bit_self) simp
    moreover have "pid13 ((ucast (drop_bit 8 pid) AND 0x1F) OR (if first then 0x40 else 0x00))
        (ucast (pid AND 0xFF)) = take_bit 13 pid"
      unfolding pid13_def by (rule word_eq_bits) (simp add: word_bits)
    ultimately show ?thesis by simp
  qed
qed (rule word_eq_bits, simp add: word_bits)+

lemma payload_packet_fields:
  fixes pusi :: bool and cc :: u8
  assumes "unat pid < 8192" "length pl = 184"
  defines "p \<equiv> payload_packet pid pusi cc pl"
  shows "length p = 188" "p \<noteq> []" "p ! 0 = TS_SYNC_BYTE" "pkt_pid p = Some pid"
    "(p ! 1) AND 0x40 \<noteq> 0 \<longleftrightarrow> pusi" "payload_offset p = Some (Some 4)"
    "p ! 4 = hd pl" "drop 4 p = pl" "drop 5 p = tl pl"
proof -
  show len: "length p = 188" and "p \<noteq> []" and "p ! 0 = TS_SYNC_BYTE"
    using assms(2) by (auto simp: p_def payload_packet_def)
  show "pkt_pid p = Some pid"
    using payload_packet_bits(1) [OF assms(1), of pusi] by (simp add: p_def payload_packet_def)
  show "(p ! 1) AND 0x40 \<noteq> 0 \<longleftrightarrow> pusi"
    using payload_packet_bits(2) [of pid pusi] by (simp add: p_def payload_packet_def)
  show "payload_offset p = Some (Some 4)"
    using payload_packet_bits(3) [of cc] len
    by (simp add: payload_offset_def TS_PACKET_SIZE_def Let_def) (simp add: p_def payload_packet_def)
  show "p ! 4 = hd pl" "drop 4 p = pl" "drop 5 p = tl pl"
    using assms(2) by (cases pl; simp add: p_def payload_packet_def drop_Suc numeral_eq_Suc)+
qed

lemma sr_push_first_packet:
  assumes "unat (sr_pid r) < 8192" "length pl = 183"
  shows "sr_push r (payload_packet (sr_pid r) True cc (0 # pl))
    = sr_take_complete (sr_clear r\<lparr>sr_buffer := pl\<rparr>)"
  using payload_packet_fields [of "sr_pid r" "0 # pl" True cc] assms
  by (simp add: sr_push_def TS_PACKET_SIZE_def Let_def sr_append_rest_def)

lemma sr_push_next_packet:
  assumes "unat (sr_pid r) < 8192" "length pl = 184" "sr_buffer r \<noteq> []"
  shows "sr_push r (payload_packet (sr_pid r) False cc pl)
    = sr_take_complete (r\<lparr>sr_buffer := sr_buffer r @ pl\<rparr>)"
  using payload_packet_fields [of "sr_pid r" pl False cc] assms
  by (simp add: sr_push_def TS_PACKET_SIZE_def Let_def sr_append_rest_def)

lemma pack_loop_nonempty:
  "first \<or> off < length sec \<Longrightarrow> 0 < length (fst (pack_loop sec pid cc off first))"
  by (subst pack_loop.simps) (auto simp: Let_def split_beta)

text \<open>
  Reassembling what \<open>pack_multi\<close> wrote, from the second packet on: the buffer holds the
  section up to \<open>off\<close>.
\<close>

lemma sr_run_pack_loop:
  assumes "section_ok sec" "unat pid < 8192"
  shows "3 \<le> off \<Longrightarrow> off < length sec \<Longrightarrow> sr_pid r = pid \<Longrightarrow>
    push_each sr_push (r\<lparr>sr_buffer := take off sec, sr_expected_len := Some (length sec)\<rparr>)
       (fst (pack_loop sec pid cc off False))
    = Some (sr_clear r, replicate (length (fst (pack_loop sec pid cc off False)) - 1) None @ [Some sec])"
proof (induction "length sec - off" arbitrary: off cc rule: less_induct)
  case less
  let ?r = "r\<lparr>sr_buffer := take off sec, sr_expected_len := Some (length sec)\<rparr>"
  define n where "n = pack_copy_len sec off False"
  let ?pl = "take n (drop off sec) @ replicate (184 - n) 0xFF"
  have n: "n = min 184 (length sec - off)"
    by (simp add: n_def pack_copy_len_def pack_payload_def TS_PACKET_SIZE_def)
  have buf: "take off sec @ ?pl = take (off + n) sec @ replicate (184 - n) 0xFF"
    by (simp add: take_add)
  have sec: "sec \<noteq> []" using less.prems by auto
  have "sr_push ?r (pack_one sec pid cc off False) = sr_take_complete (?r\<lparr>sr_buffer := take off sec @ ?pl\<rparr>)"
    using sr_push_next_packet [of ?r ?pl cc] assms(2) less.prems n sec
    by (auto simp: pack_one_eq n_def [symmetric] pack_payload_def TS_PACKET_SIZE_def)
  also have "\<dots> = Some (if off + 184 < length sec
      then (r\<lparr>sr_buffer := take (off + n) sec, sr_expected_len := Some (length sec)\<rparr>, None)
      else (sr_clear r, Some sec))"
    unfolding buf using assms(1) less.prems n
    by (subst sr_take_complete_eq) (auto simp: sr_pre_def section_ok_def nth_append)
  finally have step: "sr_push ?r (pack_one sec pid cc off False) = \<dots>" .
  show ?case
  proof (cases "off + 184 < length sec")
    case True
    then show ?thesis
      using less.hyps [of "off + n" "(cc + 1) AND 0x0F"] less.prems n step
        pack_loop_nonempty [of False "off + n" sec pid "(cc + 1) AND 0x0F"]
      by (subst (1 2) pack_loop.simps)
         (auto simp: n_def [symmetric] Let_def split_beta gr0_conv_Suc)
  next
    case False
    then have "off + n = length sec" using n less.prems by simp
    then show ?thesis
      using False step less.prems
      by (subst (1 2) pack_loop.simps) (simp add: n_def [symmetric] Let_def pack_loop.simps [of _ _ _ "length sec"])
  qed
qed

lemma pack_multi_run:
  assumes "section_ok sec" and "unat (sr_pid r) < 8192"
  shows "push_each sr_push r (fst (pack_multi sec (sr_pid r) cc)) =
    Some (sr_clear r,
          replicate (length (fst (pack_multi sec (sr_pid r) cc)) - 1) None @ [Some sec])"
proof -
  define n where "n = pack_copy_len sec 0 True"
  have n: "n = min 183 (length sec)"
    by (simp add: n_def pack_copy_len_def pack_payload_def TS_PACKET_SIZE_def)
  have "sr_push r (pack_one sec (sr_pid r) cc 0 True) = sr_take_complete
      (sr_clear r\<lparr>sr_buffer := take n sec @ replicate (183 - n) 0xFF\<rparr>)"
    using sr_push_first_packet [OF assms(2), of "take n sec @ replicate (183 - n) 0xFF" cc] n
    by (simp add: pack_one_eq n_def [symmetric] pack_payload_def TS_PACKET_SIZE_def)
  also have "\<dots> = Some (if 183 < length sec
      then (r\<lparr>sr_buffer := take n sec, sr_expected_len := Some (length sec)\<rparr>, None)
      else (sr_clear r, Some sec))"
    using assms(1) n
    by (subst sr_take_complete_eq) (auto simp: sr_pre_def section_ok_def nth_append sr_clear_def)
  finally have step: "sr_push r (pack_one sec (sr_pid r) cc 0 True) = \<dots>" .
  show ?thesis
  proof (cases "183 < length sec")
    case True
    then show ?thesis
      using sr_run_pack_loop [OF assms, of n r "(cc + 1) AND 0x0F"] n step
        pack_loop_nonempty [of False n sec "sr_pid r" "(cc + 1) AND 0x0F"]
      by (auto simp: pack_multi_def pack_loop.simps [of _ _ _ _ True] n_def [symmetric] Let_def
            split_beta gr0_conv_Suc)
  next
    case False
    then show ?thesis
      using n step
      by (simp add: pack_multi_def pack_loop.simps [of _ _ _ _ True] n_def [symmetric] Let_def
            pack_loop.simps [of _ _ _ "length sec"])
  qed
qed

text \<open>
  C30. Packing and reassembling is a round trip: a reassembler in any state that receives the
  packets \<open>pack_multi\<close> cuts a section into completes nothing before the last packet, then
  hands out exactly that section and is clear again.
\<close>

theorem pack_multi_reassembled:
  assumes "section_ok sec" and "unat (sr_pid r) < 8192"
  shows "push_each sr_push r (fst (pack_multi sec (sr_pid r) cc)) =
    Some (sr_clear r,
          replicate (length (fst (pack_multi sec (sr_pid r) cc)) - 1) None @ [Some sec])"
  using assms by (rule pack_multi_run)

theorem pack_multi_reassembled_witness:
  "push_each sr_push (sr_new 0x11) (fst (pack_multi ([0x42, 0xF0, 200] @ replicate 200 7) 0x11 3)) =
     Some (sr_new 0x11, [None, Some ([0x42, 0xF0, 200] @ replicate 200 7)])"
proof -
  let ?sec = "[0x42, 0xF0, 200] @ replicate 200 (7 :: u8)"
  have ok: "section_ok ?sec"
    by (simp add: section_ok_def len12_def)
  have two: "length (fst (pack_multi ?sec 0x11 3)) = 2"
    by (simp add: pack_multi_def pack_loop.simps [of _ _ _ _ True] pack_loop.simps [of _ _ _ 183]
          pack_loop.simps [of _ _ _ 203] Let_def split_beta pack_copy_len_def pack_payload_def
          TS_PACKET_SIZE_def)
  show ?thesis
    using pack_multi_reassembled [of ?sec "sr_new 0x11" 3] ok two
    by (simp add: sr_new_def sr_clear_def)
qed

lemma and_0F_add: "((c AND 0x0F) + d) AND 0x0F = (c + d :: u8) AND 0x0F"
  by (simp add: word_unat_eq_iff unat_and_0F unat_word_ariths mod_mod_cancel mod_add_left_eq)

lemma payload_packet_cc_0F: "payload_packet pid f ((c AND 0x0F) + d) = payload_packet pid f (c + d)"
  by (simp add: payload_packet_def and_0F_add fun_eq_iff)

lemma pack_loop_packets:
  "\<exists>pls. fst (pack_loop sec pid cc off first)
        = map (\<lambda>(i, pl). payload_packet pid (first \<and> i = 0) (cc + of_nat i) pl) (List.enumerate 0 pls)
      \<and> list_all (\<lambda>pl. length pl = 184) pls
      \<and> length pls = (length sec - off + (if first then 184 else 183)) div 184
      \<and> snd (pack_loop sec pid cc off first) AND 0x0F = (cc + of_nat (length pls)) AND 0x0F"
proof (induction sec pid cc off first rule: pack_loop.induct)
  case (1 sec pid cc off first)
  show ?case
  proof (cases "first \<or> off < length sec")
    case False
    then show ?thesis by (intro exI [of _ "[]"]) (subst (1 2) pack_loop.simps, simp)
  next
    case True
    define n where "n = pack_copy_len sec off first"
    define pl where "pl = (if first then [0] else []) @ take n (drop off sec)
        @ replicate (TS_PACKET_SIZE - pack_payload first - n) 0xFF"
    have n: "n = min (if first then 183 else 184) (length sec - off)"
      by (simp add: n_def pack_copy_len_def pack_payload_def TS_PACKET_SIZE_def)
    have len: "length pl = 184"
      by (auto simp: pl_def n pack_payload_def TS_PACKET_SIZE_def)
    from 1 [OF True refl] obtain pls where
        ps: "fst (pack_loop sec pid ((cc + 1) AND 0x0F) (off + n) False)
          = map (\<lambda>(i, pl). payload_packet pid False (((cc + 1) AND 0x0F) + of_nat i) pl) (List.enumerate 0 pls)"
        and pls: "list_all (\<lambda>pl. length pl = 184) pls"
          "length pls = (length sec - (off + n) + 183) div 184"
          "snd (pack_loop sec pid ((cc + 1) AND 0x0F) (off + n) False) AND 0x0F
            = (((cc + 1) AND 0x0F) + of_nat (length pls)) AND 0x0F"
      by (auto simp: n_def)
    have "(length sec - off + (if first then 184 else 183)) div 184
        = Suc ((length sec - (off + n) + 183) div 184)"
      using True by (auto simp: n min_def)
    moreover have "fst (pack_loop sec pid cc off first)
        = payload_packet pid first cc pl # map (\<lambda>(i, pl). payload_packet pid False (cc + of_nat (Suc i)) pl)
            (List.enumerate 0 pls)"
      using True ps
      by (subst pack_loop.simps)
         (simp add: Let_def split_beta n_def [symmetric] pack_one_eq pl_def payload_packet_cc_0F add.assoc)
    moreover have "snd (pack_loop sec pid cc off first) AND 0x0F = (cc + of_nat (Suc (length pls))) AND 0x0F"
      using True pls(3)
      by (subst pack_loop.simps) (simp add: Let_def split_beta n_def [symmetric] and_0F_add add.assoc)
    ultimately show ?thesis
      using len pls
      by (intro exI [of _ "pl # pls"])
         (auto simp: enumerate_Suc_eq split_beta comp_def)
  qed
qed

lemma pack_multi_packet:
  fixes sec pid cc
  defines "ps \<equiv> fst (pack_multi sec pid cc)"
  assumes "unat pid < 8192" and "i < length ps"
  shows "length ps = (length sec + 184) div 184"
    and "length (ps ! i) = TS_PACKET_SIZE \<and> ps ! i ! 0 = TS_SYNC_BYTE \<and> pkt_pid (ps ! i) = Some pid"
    and "(ps ! i ! 1) AND 0x40 \<noteq> 0 \<longleftrightarrow> i = 0"
    and "pkt_cc (ps ! i) = (unat cc + i) mod 16"
    and "unat (snd (pack_multi sec pid cc)) mod 16 = (unat cc + length ps) mod 16"
proof -
  obtain pls where ps: "ps = map (\<lambda>(i, pl). payload_packet pid (i = 0) (cc + of_nat i) pl) (List.enumerate 0 pls)"
    and len: "list_all (\<lambda>pl. length pl = 184) pls" "length pls = (length sec + 184) div 184"
    and cc: "snd (pack_multi sec pid cc) AND 0x0F = (cc + of_nat (length pls)) AND 0x0F"
    using pack_loop_packets [of sec pid cc 0 True] by (auto simp: ps_def pack_multi_def)
  have lps: "length ps = length pls" by (simp add: ps)
  with assms(3) have i: "i < length pls" and pl: "length (pls ! i) = 184"
    using len(1) by (auto simp: list_all_length)
  have pi: "ps ! i = payload_packet pid (i = 0) (cc + of_nat i) (pls ! i)"
    using i by (simp add: ps nth_enumerate_eq)
  note F = payload_packet_fields [OF assms(2) pl, of "i = 0" "cc + of_nat i"]
  show "length ps = (length sec + 184) div 184"
    using len(2) lps by simp
  show "length (ps ! i) = TS_PACKET_SIZE \<and> ps ! i ! 0 = TS_SYNC_BYTE \<and> pkt_pid (ps ! i) = Some pid"
    using F(1,3,4) by (simp add: pi TS_PACKET_SIZE_def)
  show "(ps ! i ! 1) AND 0x40 \<noteq> 0 \<longleftrightarrow> i = 0"
    using F(5) by (simp add: pi)
  have add_mod: "unat (cc + of_nat k) mod 16 = (unat cc + k) mod 16" for k
    by (simp add: unat_word_ariths unat_of_nat mod_mod_cancel mod_simps)
  show "pkt_cc (ps ! i) = (unat cc + i) mod 16"
    using payload_packet_bits(4) [of "cc + of_nat i"] add_mod [of i]
    by (simp add: pi pkt_cc_def payload_packet_def unat_and_0F)
  show "unat (snd (pack_multi sec pid cc)) mod 16 = (unat cc + length ps) mod 16"
    using arg_cong [OF cc, of unat] add_mod [of "length ps"] by (simp add: unat_and_0F lps)
qed

lemma pack_multi_count: "length (fst (pack_multi sec pid cc)) = (length sec + 184) div 184"
  using pack_loop_packets [of sec pid cc 0 True] by (auto simp: pack_multi_def)

lemma pack_multi_member:
  assumes "unat pid < 8192" and q: "q \<in> set (fst (pack_multi sec pid cc))"
  shows "length q = 188 \<and> q ! 0 = TS_SYNC_BYTE \<and> ts_pid q = pid"
proof -
  obtain pls where ps: "fst (pack_multi sec pid cc)
        = map (\<lambda>(i, pl). payload_packet pid (True \<and> i = 0) (cc + of_nat i) pl) (List.enumerate 0 pls)"
      and pls: "list_all (\<lambda>pl. length pl = 184) pls"
    using pack_loop_packets [of sec pid cc 0 True] by (auto simp: pack_multi_def)
  obtain pusi c pl where pl: "q = payload_packet pid pusi c pl" "length pl = 184"
    using q pls unfolding ps by (force simp: list_all_iff enumerate_eq_zip dest: set_zip_rightD)
  show ?thesis
    using payload_packet_fields [OF assms(1) pl(2), of pusi c]
    by (auto simp: pl(1) ts_pid_def pkt_pid_def split: Option.bind_splits)
qed

text \<open>
  The packets of a section: at least one and no more than needed, each of 188 bytes with
  the sync byte and the PID, the unit start flag on the first one only, and continuity
  counters that follow each other modulo 16, also with the counter left for the next section.
\<close>

theorem pack_multi_packets:
  assumes "unat pid < 8192"
  shows "case pack_multi sec pid cc of (ps, cc') \<Rightarrow>
     length ps = (length sec + 184) div 184
     \<and> unat cc' mod 16 = (unat cc + length ps) mod 16
     \<and> (\<forall>i<length ps. length (ps ! i) = TS_PACKET_SIZE \<and> ps ! i ! 0 = TS_SYNC_BYTE
          \<and> pkt_pid (ps ! i) = Some pid \<and> ((ps ! i ! 1) AND 0x40 \<noteq> 0 \<longleftrightarrow> i = 0)
          \<and> pkt_cc (ps ! i) = (unat cc + i) mod 16)"
  using pack_multi_packet [OF assms, of _ sec cc] pack_multi_packet [OF assms, of 0 sec cc]
    pack_loop_nonempty [of True 0 sec pid cc]
  by (auto simp: split_beta pack_multi_def)

theorem pack_multi_packets_witness:
  "length (fst (pack_multi [0x72, 0x70, 0] 0x14 15)) = 1
     \<and> pkt_cc (fst (pack_multi [0x72, 0x70, 0] 0x14 15) ! 0) = 15
     \<and> unat (snd (pack_multi [0x72, 0x70, 0] 0x14 15)) mod 16 = 0"
  using pack_multi_packets [of "0x14" "[0x72, 0x70, 0]" 15] by (auto simp: split_beta)

section \<open>Dates and times\<close>

text \<open>
  The proleptic Gregorian calendar: days before a year, before a month, and the day number
  of a date. Day 678576 is 17 November 1858, day 0 of the Modified Julian Date.
\<close>

definition leap :: "int \<Rightarrow> bool" where
  "leap y \<longleftrightarrow> y mod 4 = 0 \<and> (y mod 100 \<noteq> 0 \<or> y mod 400 = 0)"

definition month_days :: "int \<Rightarrow> int list" where
  "month_days y = [31, if leap y then 29 else 28, 31, 30, 31, 30, 31, 31, 30, 31, 30, 31]"

definition days_before_year :: "int \<Rightarrow> int" where
  "days_before_year y = 365 * (y - 1) + (y - 1) div 4 - (y - 1) div 100 + (y - 1) div 400"

definition gregorian_day :: "int \<Rightarrow> int \<Rightarrow> int \<Rightarrow> int" where
  "gregorian_day y m d = days_before_year y + sum_list (take (nat (m - 1)) (month_days y)) + d"

lemma i32_div_nonneg: "0 \<le> a \<Longrightarrow> 0 < b \<Longrightarrow> i32_div a b = a div b"
  by (cases "a = 0") (simp_all add: i32_div_def)

lemma mjd_year_term:
  assumes "- 4716 \<le> y" "y \<le> 1000000"
  shows "f64_to_i32 (of_int \<lfloor>fl 53 (fl 53 (1461 / 4) * fl 53 (of_int (y + 4716)))\<rfloor>) = 1461 * (y + 4716) div 4"
proof -
  have f: "fl 53 (1461 / 4) = (1461 / 4 :: rat)" "fl 53 (of_int (y + 4716)) = of_int (y + 4716)"
    using fl_exact [of 1461 53 2] fl_of_int [of "y + 4716" 53] assms by auto
  have "1461 / 4 * of_int (y + 4716) = (of_int (1461 * (y + 4716)) / 2 ^ 2 :: rat)"
    by simp
  also have "fl 53 \<dots> = \<dots>"
    using assms by (intro fl_exact) auto
  finally have "fl 53 (fl 53 (1461 / 4) * fl 53 (of_int (y + 4716))) = of_int (1461 * (y + 4716)) / of_int 4"
    by (simp only: f)
  then have "\<lfloor>fl 53 (fl 53 (1461 / 4) * fl 53 (of_int (y + 4716)))\<rfloor> = 1461 * (y + 4716) div 4"
    by (simp only: floor_divide_of_int_eq)
  then show ?thesis using assms by (auto simp: f64_to_i32_def)
qed

definition mjd_month_term :: "int \<Rightarrow> int" where
  "mjd_month_term m = f64_to_i32 (of_int \<lfloor>fl 53 (fl 53 (306001 / 10000) * fl 53 (of_int (m + 1)))\<rfloor>)"

lemma mjd_month_terms:
  "mjd_month_term 3 = 122" "mjd_month_term 4 = 153" "mjd_month_term 5 = 183"
  "mjd_month_term 6 = 214" "mjd_month_term 7 = 244" "mjd_month_term 8 = 275"
  "mjd_month_term 9 = 306" "mjd_month_term 10 = 336" "mjd_month_term 11 = 367"
  "mjd_month_term 12 = 397" "mjd_month_term 13 = 428" "mjd_month_term 14 = 459"
  by code_simp+


lemma mjd_eq:
  "mjd y m d = (let (y, m) = (if m \<le> 2 then (y - 1, m + 12) else (y, m)); a = i32_div y 100 in
     of_int (f64_to_i32 (of_int \<lfloor>fl 53 (fl 53 (1461 / 4) * fl 53 (of_int (y + 4716)))\<rfloor>)
       + mjd_month_term m + d + (2 - a + i32_div a 4) - 1524 - 2400001))"
  by (simp add: mjd_def mjd_month_term_def Let_def split_beta)

lemma pred_div:
  fixes y k :: int
  assumes k: "0 < k"
  shows "(y - 1) div k = (if y mod k = 0 then y div k - 1 else y div k)"
proof (cases "y mod k = 0")
  case True
  then show ?thesis
    using k div_mult_mod_eq [of y k] int_div_pos_eq [of "y - 1" k "y div k - 1" "k - 1"]
    by (simp add: algebra_simps)
next
  case False
  have "0 < y mod k" "y mod k < k"
    using False k pos_mod_sign [of k y] pos_mod_bound [of k y] by linarith+
  then show ?thesis
    using False int_div_pos_eq [of "y - 1" k "y div k" "y mod k - 1"] div_mult_mod_eq [of y k]
    by (simp add: algebra_simps)
qed

lemma days_before_next_year: "days_before_year (y + 1) = days_before_year y + (if leap y then 366 else 365)"
proof -
  have "y mod 400 = 0 \<Longrightarrow> y mod 100 = 0" "y mod 100 = 0 \<Longrightarrow> y mod 4 = 0"
    by presburger+
  then show ?thesis
    by (auto simp: days_before_year_def leap_def pred_div)
qed

lemma month_cases:
  assumes "1 \<le> m" "m \<le> (12 :: int)"
  shows "m = 1 \<or> m = 2 \<or> m = 3 \<or> m = 4 \<or> m = 5 \<or> m = 6 \<or> m = 7 \<or> m = 8 \<or> m = 9 \<or> m = 10
    \<or> m = 11 \<or> m = 12"
  using assms by presburger

lemma before_month:
  "sum_list (take (nat (m - 1)) (month_days y)) = (if m \<le> 2 then mjd_month_term (m + 12) - 428
     else mjd_month_term m - 63 + (if leap y then 1 else 0))"
  if "1 \<le> m" "m \<le> 12"
  using month_cases [OF that]
  by (elim disjE; simp add: month_days_def mjd_month_terms take_Cons')

lemma mjd_days:
  fixes month :: int
  assumes "1 \<le> year" "year \<le> 1000000"
  defines "y' \<equiv> (if month \<le> 2 then year - 1 else year)"
  shows "mjd year month day = of_int (days_before_year (y' + 1) - 679004
     + mjd_month_term (if month \<le> 2 then month + 12 else month) + day)"
proof -
  have y': "0 \<le> y'" "y' \<le> 1000000" using assms by auto
  have "1461 * (y' + 4716) div 4 = 365 * y' + y' div 4 + 1722519"
    using div_mult_self2 [of 4 y' "365 * y' + 1722519"] by (simp add: algebra_simps)
  then have "f64_to_i32 (of_int \<lfloor>fl 53 (fl 53 (1461 / 4) * fl 53 (of_int (y' + 4716)))\<rfloor>)
      = 365 * y' + y' div 4 + 1722519"
    using y' mjd_year_term [of y'] by simp
  moreover have "i32_div y' 100 = y' div 100" "i32_div (y' div 100) 4 = y' div 400"
    using y' zdiv_zmult2_eq [of 4 y' 100] by (simp_all add: i32_div_nonneg)
  ultimately show ?thesis
    by (simp add: mjd_eq days_before_year_def y'_def Let_def split: if_splits)
qed

text \<open>
  The Modified Julian Date of a Gregorian date, computed in floating point, is the number
  of days since 17 November 1858, in sixteen bits. From 23 April 2038 on the number no longer
  fits and wraps.
\<close>

theorem mjd_gregorian:
  assumes "1 \<le> year" "year \<le> 1000000" "1 \<le> month" "month \<le> 12"
  shows "mjd year month day = of_int (gregorian_day year month day - 678576)"
  using assms before_month [of month year] days_before_next_year [of year]
  by (subst mjd_days) (auto simp: gregorian_day_def)

theorem mjd_gregorian_witness: "mjd 2024 2 29 = 60369 \<and> mjd 2038 4 22 = 65535 \<and> mjd 2038 4 23 = 0"
  using mjd_gregorian [of 2024 2 29] mjd_gregorian [of 2038 4 22] mjd_gregorian [of 2038 4 23]
  by (simp_all add: gregorian_day_def days_before_year_def month_days_def leap_def take_Cons')

definition from_bcd :: "u8 \<Rightarrow> nat" where
  "from_bcd b = 10 * (unat b div 16) + unat b mod 16"

lemma from_bcd_bcd:
  assumes "unat v < 100"
  shows "from_bcd (bcd v) = unat v"
proof -
  have "v div 10 = of_nat (unat v div 10)"
    by (simp add: word_unat_eq_iff unat_div unat_of_nat_u8 le_less_trans [OF div_le_dividend])
  moreover have "v mod 10 = of_nat (unat v mod 10) AND 0x0F"
    by (simp add: word_unat_eq_iff unat_mod unat_and_0F unat_of_nat_u8 less_trans [OF mod_less_divisor])
  ultimately have "unat (bcd v) = 16 * (unat v div 10) + unat v mod 10"
    using assms unat_nibbles [of "unat v div 10" "unat v mod 10"]
    by (simp add: bcd_def less_mult_imp_div_less less_trans [OF mod_less_divisor])
  then show ?thesis
    by (simp add: from_bcd_def less_trans [OF mod_less_divisor])
qed

lemma from_bcd_bcd_nat: "n < 100 \<Longrightarrow> from_bcd (bcd (of_nat n)) = n"
  by (subst from_bcd_bcd) (auto simp: unat_of_nat take_bit_nat_eq_self)

text \<open>
  A duration is written as three binary coded decimals from which a receiver reads back
  the same number of seconds, for every duration below 100 hours; longer ones keep their
  minutes and seconds and saturate at 99 hours.
\<close>

lemma encode_duration_decodes:
  "case encode_duration seconds of [h, m, s] \<Rightarrow>
       from_bcd h * 3600 + from_bcd m * 60 + from_bcd s
         = (if unat seconds < 360000 then unat seconds else 99 * 3600 + unat seconds mod 3600)
     | _ \<Rightarrow> False"
proof -
  have small: "unat (ucast w :: u8) = unat w" if "unat (w :: u32) < 256" for w
    using that by (simp add: unsigned_ucast_eq take_bit_nat_eq_self)
  define U where "U = unat seconds"
  define H M S where "H = U div 3600" and "M = U mod 3600 div 60" and "S = U mod 60"
  have div: "unat (seconds div 3600) = H" "unat (seconds mod 3600 div 60) = M" "unat (seconds mod 60) = S"
    by (simp_all add: unat_div unat_mod H_def M_def S_def U_def)
  have h: "unat (min (seconds div 3600) 99) = min H 99"
    by (auto simp: min_def word_le_nat_alt div)
  have "M < 60" "S < 60"
    by (simp_all add: M_def S_def less_mult_imp_div_less)
  then have bcds: "from_bcd (bcd (ucast (min (seconds div 3600) 99))) = min H 99"
    "from_bcd (bcd (ucast (seconds mod 3600 div 60))) = M" "from_bcd (bcd (ucast (seconds mod 60))) = S"
    by (subst from_bcd_bcd; simp add: small h div)+
  have sixty: "M * 60 + S = U mod 3600"
    using div_mult_mod_eq [of "U mod 3600" 60] by (simp add: mod_mod_cancel M_def S_def)
  have "H * 3600 + (M * 60 + S) = U"
    unfolding sixty H_def by (rule div_mult_mod_eq)
  moreover have "H \<le> 99 \<longleftrightarrow> U < 360000"
    by (auto simp: H_def less_Suc_eq_le [symmetric] div_less_iff_less_mult)
  ultimately show ?thesis
    using sixty unfolding encode_duration_def Let_def U_def [symmetric]
    by (auto simp: bcds)
qed

text \<open>The date and time fields of the TDT, TOT and EIT, read back.\<close>

lemma encode_dvb_time_decodes:
  assumes "dt_hour dt < 24" "dt_minute dt < 60" "dt_second dt < 61"
  shows "\<exists>hi lo h m s. encode_dvb_time dt = [hi, lo, h, m, s]
     \<and> be16 hi lo = mjd (dt_year dt) (int (dt_month dt)) (int (dt_day dt))
     \<and> from_bcd h = dt_hour dt \<and> from_bcd m = dt_minute dt \<and> from_bcd s = dt_second dt"
  using assms by (simp add: encode_dvb_time_def Let_def high_def low_def from_bcd_bcd_nat)

section \<open>Section lengths and texts\<close>

lemma len12_high_low:
  assumes "unat len < 4096"
  shows "len12 ((b AND 0xF0) OR high len) (low len) = unat len"
proof -
  have "take_bit 12 len = len"
    using assms by (intro word_take_bit_self) simp
  moreover have "push_bit 8 (ucast ((b AND 0xF0) OR high len) AND 0x0F) OR ucast (low len) = take_bit 12 len"
    unfolding high_def low_def by (rule word_eq_bits) (simp add: word_bits)
  ultimately show ?thesis by (simp add: len12_def)
qed

lemma set_section_length_eq:
  assumes "3 \<le> length s"
  shows "set_section_length s
    = Some (s[1 := (s ! 1 AND 0xF0) OR high (of_nat (length s + 1)), 2 := low (of_nat (length s + 1))])"
  using assms by (simp add: set_section_length_def Let_def)

text \<open>A section body of at most 4094 bytes gets the length that makes it whole with its CRC.\<close>

lemma set_section_length_whole:
  assumes "3 \<le> length s" "length s \<le> 4094" "set_section_length s = Some s'"
  shows "section_ok (sec_bytes (section_with_crc crc32 pid s'))" "length s' = length s"
proof -
  have s': "s' = s[1 := (s ! 1 AND 0xF0) OR high (of_nat (length s + 1)), 2 := low (of_nat (length s + 1))]"
    using assms by (simp add: set_section_length_eq)
  have "unat (of_nat (length s + 1) :: u16) = length s + 1"
    by (rule unat_of_nat_u16) (use assms(2) in simp)
  then have "len12 (s' ! 1) (s' ! 2) = length s + 1"
    using assms(1,2) len12_high_low [of "of_nat (length s + 1)" "s ! 1"] by (simp add: s')
  then show "section_ok (sec_bytes (section_with_crc crc32 pid s'))" "length s' = length s"
    using assms(1) by (simp_all add: section_ok_def section_with_crc_def nth_append s')
qed

end
