(* ===== verification/Psi_Pat.thy ===== *)
theory Psi_Pat
  imports Psi_Section "HOL-Library.Multiset"
begin

text \<open>
  \<open>psi/pat.rs\<close>: the program association table, read from a section, rewritten for an output
  and compared with an earlier one.
\<close>

unbundle bit_operations_syntax

record pat_info =
  pi_prog_num :: u16
  pi_pmt_pid :: u16

function pat_loop :: "bytes \<Rightarrow> usize \<Rightarrow> usize \<Rightarrow> pat_info list option" where
  "pat_loop section section_end pos =
    (if pos + 4 \<le> section_end then do {
       b0 \<leftarrow> idx section pos;
       b1 \<leftarrow> idx section (pos + 1);
       let prog_num = be16 b0 b1;
       b2 \<leftarrow> idx section (pos + 2);
       b3 \<leftarrow> idx section (pos + 3);
       let pmt_pid = pid13 b2 b3;
       rest \<leftarrow> pat_loop section section_end (pos + 4);
       Some (if prog_num \<noteq> 0 then \<lparr>pi_prog_num = prog_num, pi_pmt_pid = pmt_pid\<rparr> # rest else rest) }
     else Some [])"
  by pat_completeness auto
termination
  by (relation "measure (\<lambda>(section, section_end, pos). section_end - pos)") auto

declare pat_loop.simps [simp del]

definition analyze_pat :: "bytes \<Rightarrow> pat_info list option" where
  "analyze_pat section = pat_loop section (usize_sub (length section) 4) 8"

definition pat_entry :: "u16 \<times> u16 \<Rightarrow> bytes" where
  "pat_entry = (\<lambda>(prog_num, pmt_pid).
     [ucast (drop_bit 8 prog_num), ucast (prog_num AND 0xFF),
      (ucast (drop_bit 8 pmt_pid) AND 0x1F) OR 0xE0, ucast (pmt_pid AND 0xFF)])"

text \<open>The length field and the CRC at the end of \<open>patch_pat_section\<close> and \<open>patch_pmt_section\<close>.\<close>

definition close_section :: "(bytes \<Rightarrow> u32) \<Rightarrow> bytes \<Rightarrow> bytes option" where
  "close_section crc32 new_section = do {
     let section_length = (of_nat (usize_sub (length new_section) 3 + 4) :: u16);
     b1 \<leftarrow> idx new_section 1;
     new_section \<leftarrow> upd new_section 1 ((b1 AND 0xF0) OR (ucast (drop_bit 8 section_length) AND 0x0F));
     new_section \<leftarrow> upd new_section 2 (ucast (section_length AND 0xFF));
     let crc = crc32 new_section;
     Some (new_section @ to_be32 crc) }"

definition patch_pat_section :: "(bytes \<Rightarrow> u32) \<Rightarrow> bytes \<Rightarrow> (u16 \<times> u16) list \<Rightarrow> bytes option" where
  "patch_pat_section crc32 original_section mappings = do {
     new_section \<leftarrow> slice original_section 0 8;
     let new_section = foldl (\<lambda>s m. s @ pat_entry m) new_section mappings;
     close_section crc32 new_section }"

text \<open>
  \<open>sort_unstable_by_key\<close> may put entries with the same key in any order: the sorting function
  is an argument, and \<open>key_sort\<close> states what the standard library promises of it.
\<close>

definition is_pat_changed :: "(pat_info list \<Rightarrow> pat_info list) \<Rightarrow> pat_info list \<Rightarrow> pat_info list \<Rightarrow> bool" where
  "is_pat_changed sort_by_prog a b =
    (if length a \<noteq> length b then True
     else if a = b then False
     else sort_by_prog a \<noteq> sort_by_prog b)"

section \<open>Closing a section\<close>

lemma close_section_eq:
  fixes s :: bytes
  assumes "3 \<le> length s"
  defines "len \<equiv> of_nat (length s + 1) :: u16"
  defines "s' \<equiv> s[1 := (s ! 1 AND 0xF0) OR (ucast (drop_bit 8 len) AND 0x0F), 2 := ucast (len AND 0xFF)]"
  shows "close_section crc32 s = Some (s' @ to_be32 (crc32 s'))"
  using assms by (simp add: close_section_def Let_def)

lemma len12_split:
  assumes "unat (len :: u16) < 4096"
  shows "len12 ((b AND 0xF0) OR (ucast (drop_bit 8 len) AND 0x0F)) (ucast (len AND 0xFF)) = unat len"
proof -
  have "take_bit 12 len = len"
    using assms by (intro word_take_bit_self) simp
  moreover have "push_bit 8 (ucast ((b AND 0xF0) OR (ucast (drop_bit 8 len) AND 0x0F :: u8)) AND 0x0F)
      OR ucast (ucast (len AND 0xFF) :: u8) = take_bit 12 len"
    by (rule word_eq_bits) (simp add: word_bits)
  ultimately show ?thesis by (simp add: len12_def)
qed

lemma close_section_whole:
  assumes "3 \<le> length s" "length s \<le> 4094" "close_section crc32 s = Some sec"
  shows "section_ok sec"
proof -
  define len where "len = (of_nat (length s + 1) :: u16)"
  have "unat len = length s + 1"
    unfolding len_def by (rule unat_of_nat_u16) (use assms(2) in simp)
  then show ?thesis
    using assms len12_split [of len "s ! 1"]
    by (auto simp: close_section_eq section_ok_def len_def nth_append)
qed

lemma close_section_append:
  assumes "3 \<le> length h" "close_section crc32 (h @ b) = Some sec"
  obtains h' where "length h' = length h" "sec = h' @ b @ to_be32 (crc32 (h' @ b))"
  using assms by (auto simp: close_section_eq list_update_append nth_append)

section \<open>Rewriting and reading back\<close>

lemma pat_entry_length [simp]: "length (pat_entry m) = 4"
  by (simp add: pat_entry_def split_beta)

lemma pat_entry_fields:
  "be16 (pat_entry m ! 0) (pat_entry m ! 1) = fst m"
  "pid13 (pat_entry m ! 2) (pat_entry m ! 3) = take_bit 13 (snd m)"
proof -
  show "be16 (pat_entry m ! 0) (pat_entry m ! 1) = fst m"
    unfolding pat_entry_def split_beta be16_def by simp (rule word_eq_bits, simp add: word_bits)
  show "pid13 (pat_entry m ! 2) (pat_entry m ! 3) = take_bit 13 (snd m)"
    unfolding pat_entry_def split_beta pid13_def by simp (rule word_eq_bits, simp add: word_bits)
qed

definition pat_programs :: "(u16 \<times> u16) list \<Rightarrow> pat_info list" where
  "pat_programs ms = [\<lparr>pi_prog_num = prog, pi_pmt_pid = pid\<rparr>. (prog, pid) \<leftarrow> ms, prog \<noteq> 0]"

lemma pat_loop_entries:
  "list_all (\<lambda>m. unat (snd m) < 8192) ms \<Longrightarrow>
   pat_loop (pre @ concat (map pat_entry ms) @ tail) (length pre + 4 * length ms) (length pre)
     = Some (pat_programs ms)"
proof (induction ms arbitrary: pre)
  case Nil
  then show ?case by (simp add: pat_loop.simps pat_programs_def)
next
  case (Cons m ms)
  have pid: "take_bit 13 (snd m) = snd m"
    using Cons.prems by (intro word_take_bit_self) simp
  have IH: "pat_loop (pre @ pat_entry m @ concat (map pat_entry ms) @ tail)
      (length pre + 4 * Suc (length ms)) (length pre + 4) = Some (pat_programs ms)"
    using Cons.IH [of "pre @ pat_entry m"] Cons.prems by (simp add: add.assoc)
  show ?case
    using IH pid pat_entry_fields [of m]
    by (subst pat_loop.simps) (simp add: Let_def nth_append pat_programs_def split_beta)
qed

lemma foldl_concat: "foldl (\<lambda>s m. s @ f m) s ms = s @ concat (map f ms)"
  by (induction ms arbitrary: s) auto

text \<open>
  The rewritten PAT lists exactly the programs asked for: read back, it gives the mapped
  programs in order, without the entries of program number 0. It needs no more of the original
  section than its header of eight bytes, and with at most 1021 programs it is a whole section
  with a correct length field.
\<close>

theorem patch_pat_analyzed:
  assumes "8 \<le> length original" and "list_all (\<lambda>m. unat (snd m) < 8192) ms"
  shows "\<exists>sec. patch_pat_section crc32 original ms = Some sec
     \<and> analyze_pat sec = Some (pat_programs ms)
     \<and> (length ms \<le> 1021 \<longrightarrow> section_ok sec)"
proof -
  let ?h = "take 8 original" and ?b = "concat (map pat_entry ms)"
  have len: "length ?b = 4 * length ms" by (induction ms) auto
  have h: "length ?h = 8" using assms(1) by simp
  then obtain sec where sec: "close_section crc32 (?h @ ?b) = Some sec"
    by (simp add: close_section_eq)
  moreover obtain h' where h': "length h' = length ?h" "sec = h' @ ?b @ to_be32 (crc32 (h' @ ?b))"
    by (rule close_section_append [OF _ sec]) (use h in auto)
  have "patch_pat_section crc32 original ms = Some sec"
    using assms(1) sec by (simp add: patch_pat_section_def foldl_concat)
  moreover have "analyze_pat sec = Some (pat_programs ms)"
    using pat_loop_entries [OF assms(2), of h' "to_be32 (crc32 (h' @ ?b))"] h h' len
    by (simp add: analyze_pat_def)
  moreover have "section_ok sec" if "length ms \<le> 1021"
    using that by (intro close_section_whole [OF _ _ sec]) (use h len in auto)
  ultimately show ?thesis by blast
qed

theorem patch_pat_analyzed_witness:
  "\<exists>sec. patch_pat_section (\<lambda>_. 0) [0, 0xB0, 0x0D, 0, 1, 0xC1, 0, 0] [(0, 0x10), (5, 0x100)] = Some sec
     \<and> analyze_pat sec = Some [\<lparr>pi_prog_num = 5, pi_pmt_pid = 0x100\<rparr>] \<and> section_ok sec"
  using patch_pat_analyzed [of "[0, 0xB0, 0x0D, 0, 1, 0xC1, 0, 0]" "[(0, 0x10), (5, 0x100)]" "\<lambda>_. 0"]
  by (simp add: pat_programs_def)

section \<open>Comparing tables\<close>

text \<open>What \<open>slice::sort_unstable_by_key\<close> promises: a permutation in the order of the keys.\<close>

locale key_sort =
  fixes key :: "'a \<Rightarrow> 'k::linorder" and sort_by :: "'a list \<Rightarrow> 'a list"
  assumes sort_mset: "mset (sort_by xs) = mset xs"
    and sort_sorted: "sorted (map key (sort_by xs))"
begin

lemma sort_by_unique:
  assumes "distinct (map key xs)" "mset xs = mset ys"
  shows "sort_by xs = sort_by ys"
proof -
  have "inj_on key (set xs)"
    using assms(1) by (simp add: distinct_map)
  moreover have "set (sort_by xs) = set xs" "set (sort_by ys) = set xs"
    using sort_mset assms(2) by (metis set_mset_mset)+
  moreover have "mset (map key (sort_by xs)) = mset (map key (sort_by ys))"
    using sort_mset assms(2) by simp
  then have "map key (sort_by xs) = map key (sort_by ys)"
    using sort_sorted by (metis properties_for_sort)
  ultimately show ?thesis
    by (metis map_inj_on sup.idem)
qed

lemma sort_by_eq_iff:
  "distinct (map key xs) \<Longrightarrow> sort_by xs = sort_by ys \<longleftrightarrow> mset xs = mset ys"
  using sort_by_unique sort_mset by metis

end

interpretation pat_sort: key_sort pi_prog_num "sort_key pi_prog_num"
  by unfold_locales auto

text \<open>
  Two program lists count as different exactly when they differ as multisets: an order of
  the table that changed is not a change. This holds for every sorting function that does what
  the standard library promises, as long as no program number occurs twice.
\<close>

theorem is_pat_changed_iff:
  assumes "key_sort pi_prog_num sort_by_prog" and "distinct (map pi_prog_num a)"
  shows "is_pat_changed sort_by_prog a b \<longleftrightarrow> mset a \<noteq> mset b"
  using key_sort.sort_by_eq_iff [OF assms] mset_eq_length [of a b]
  by (auto simp: is_pat_changed_def)

theorem is_pat_changed_iff_witness:
  "\<not> is_pat_changed (sort_key pi_prog_num)
      [\<lparr>pi_prog_num = 2, pi_pmt_pid = 7\<rparr>, \<lparr>pi_prog_num = 1, pi_pmt_pid = 8\<rparr>]
      [\<lparr>pi_prog_num = 1, pi_pmt_pid = 8\<rparr>, \<lparr>pi_prog_num = 2, pi_pmt_pid = 7\<rparr>]"
  using is_pat_changed_iff [OF pat_sort.key_sort_axioms,
      of "[\<lparr>pi_prog_num = 2, pi_pmt_pid = 7\<rparr>, \<lparr>pi_prog_num = 1, pi_pmt_pid = 8\<rparr>]"
         "[\<lparr>pi_prog_num = 1, pi_pmt_pid = 8\<rparr>, \<lparr>pi_prog_num = 2, pi_pmt_pid = 7\<rparr>]"]
  by simp

text \<open>The shortest section the reassembler can hand out has no room for a CRC: reading it panics.\<close>

lemma analyze_pat_short: "section_ok [0, 0xB0, 0] \<and> analyze_pat [0, 0xB0, 0] = None"
  unfolding analyze_pat_def
  by (subst pat_loop.simps) (simp add: section_ok_def len12_def usize_sub_def)

end
