(* ===== verification/Rust_Utf8.thy ===== *)
theory Rust_Utf8
  imports Rust_Prelude
begin

text \<open>
  The parts of the standard library's strings that the sources use: \<open>String::from_utf8_lossy\<close>,
  \<open>str::trim\<close> and the comparison of strings, on UTF-8 bytes.
\<close>

unbundle bit_operations_syntax

section \<open>Well-formed UTF-8\<close>

definition utf8_cont :: "u8 \<Rightarrow> bool" where
  "utf8_cont b \<longleftrightarrow> 0x80 \<le> b \<and> b \<le> 0xBF"

text \<open>The second byte a three- or four-byte sequence allows after its first byte.\<close>

definition utf8_second3 :: "u8 \<Rightarrow> u8 \<Rightarrow> bool" where
  "utf8_second3 a b \<longleftrightarrow> (if a = 0xE0 then 0xA0 \<le> b \<and> b \<le> 0xBF
     else if a = 0xED then 0x80 \<le> b \<and> b \<le> 0x9F else utf8_cont b)"

definition utf8_second4 :: "u8 \<Rightarrow> u8 \<Rightarrow> bool" where
  "utf8_second4 a b \<longleftrightarrow> (if a = 0xF0 then 0x90 \<le> b \<and> b \<le> 0xBF
     else if a = 0xF4 then 0x80 \<le> b \<and> b \<le> 0x8F else utf8_cont b)"

text \<open>
  The first sequence of a nonempty byte list: \<open>(n, True)\<close> for a character of \<open>n\<close> bytes,
  \<open>(n, False)\<close> for a maximal invalid part of \<open>n\<close> bytes. A byte past the end reads as 0.
\<close>

definition utf8_get :: "bytes \<Rightarrow> nat \<Rightarrow> u8" where
  "utf8_get bs i = (if i < length bs then bs ! i else 0)"

definition utf8_width :: "u8 \<Rightarrow> nat" where
  "utf8_width a = (if a < 0x80 then 1 else if 0xC2 \<le> a \<and> a \<le> 0xDF then 2
     else if 0xE0 \<le> a \<and> a \<le> 0xEF then 3 else if 0xF0 \<le> a \<and> a \<le> 0xF4 then 4 else 0)"

definition utf8_seq :: "nat \<Rightarrow> bool \<Rightarrow> bool \<Rightarrow> bool \<Rightarrow> nat \<times> bool" where
  "utf8_seq width b c d =
    (if width = 1 then (1, True)
     else if width = 0 \<or> \<not> b then (1, False)
     else if width = 2 then (2, True)
     else if \<not> c then (2, False)
     else if width = 3 then (3, True)
     else if \<not> d then (3, False)
     else (4, True))"

definition utf8_first :: "bytes \<Rightarrow> nat \<times> bool" where
  "utf8_first bs =
    (let a = utf8_get bs 0; b = utf8_get bs 1; c = utf8_get bs 2; d = utf8_get bs 3; w = utf8_width a
     in utf8_seq w (if w = 3 then utf8_second3 a b else if w = 4 then utf8_second4 a b else utf8_cont b)
          (utf8_cont c) (utf8_cont d))"

lemma utf8_seq_cases:
  "utf8_seq w b c d = (n, v) \<Longrightarrow> n = 1 \<or> n = 2 \<and> b \<or> n = 3 \<and> b \<and> c \<or> n = 4 \<and> b \<and> c \<and> d"
  by (auto simp: utf8_seq_def utf8_width_def split: if_splits)

lemma utf8_seq_valid_cong:
  "utf8_seq w b c d = (n, True) \<Longrightarrow> (n \<ge> 2 \<longrightarrow> b' = b) \<Longrightarrow> (n \<ge> 3 \<longrightarrow> c' = c) \<Longrightarrow> (n \<ge> 4 \<longrightarrow> d' = d) \<Longrightarrow>
   utf8_seq w b' c' d' = (n, True)"
  by (auto simp: utf8_seq_def split: if_splits)

lemma utf8_not_cont_0 [simp]:
  "\<not> utf8_cont 0" "\<not> utf8_second3 a 0" "\<not> utf8_second4 a 0"
  by (simp_all add: utf8_cont_def utf8_second3_def utf8_second4_def)

lemma utf8_get_0 [simp]: "length bs \<le> i \<Longrightarrow> utf8_get bs i = 0"
  by (simp add: utf8_get_def)

lemma utf8_first_bounds:
  assumes "bs \<noteq> []"
  shows "0 < fst (utf8_first bs)" "fst (utf8_first bs) \<le> length bs"
proof -
  obtain n v where nv: "utf8_first bs = (n, v)" by fastforce
  note cases = utf8_seq_cases [OF nv [unfolded utf8_first_def Let_def]]
  show "0 < fst (utf8_first bs)" "fst (utf8_first bs) \<le> length bs"
    using cases assms utf8_get_0 [of bs 1] utf8_get_0 [of bs 2] utf8_get_0 [of bs 3]
    by (cases "length bs \<le> 1"; cases "length bs \<le> 2"; cases "length bs \<le> 3";
        auto simp: nv Suc_le_eq split: if_splits)+
qed

function utf8_valid :: "bytes \<Rightarrow> bool" where
  "utf8_valid bs = (if bs = [] then True
     else if \<not> snd (utf8_first bs) then False
     else utf8_valid (drop (fst (utf8_first bs)) bs))"
  by pat_completeness auto
termination
  by (relation "measure length") (auto simp: utf8_first_bounds)

function utf8_lossy :: "bytes \<Rightarrow> rstring" where
  "utf8_lossy bs =
    (if bs = [] then []
     else (let n = fst (utf8_first bs) in
       (if snd (utf8_first bs) then take n bs else [0xEF, 0xBF, 0xBD]) @ utf8_lossy (drop n bs)))"
  by pat_completeness auto
termination
  by (relation "measure length") (auto simp: utf8_first_bounds)

declare utf8_valid.simps [simp del] utf8_lossy.simps [simp del]

lemma utf8_lossy_valid_id: "utf8_valid bs \<Longrightarrow> utf8_lossy bs = bs"
proof (induction bs rule: utf8_valid.induct)
  case (1 bs)
  then show ?case
    by (subst utf8_lossy.simps) (auto simp: Let_def utf8_valid.simps [of bs] split: if_splits)
qed

lemma utf8_first_append:
  assumes "bs \<noteq> []" "snd (utf8_first bs)"
  shows "utf8_first (take (fst (utf8_first bs)) bs @ ys) = utf8_first bs"
proof -
  obtain n where n: "utf8_first bs = (n, True)"
    using assms(2) by (cases "utf8_first bs") auto
  have le: "0 < n" "n \<le> length bs"
    using utf8_first_bounds [OF assms(1)] n by auto
  then have get: "i < n \<Longrightarrow> utf8_get (take n bs @ ys) i = utf8_get bs i" for i
    by (simp add: utf8_get_def nth_append)
  have "utf8_first (take n bs @ ys) = (n, True)"
    unfolding utf8_first_def Let_def get [OF le(1)]
    by (rule utf8_seq_valid_cong [OF n [unfolded utf8_first_def Let_def]]) (simp_all add: get)
  then show ?thesis using n by simp
qed

lemma utf8_valid_append:
  assumes "bs \<noteq> []" "snd (utf8_first bs)"
  shows "utf8_valid (take (fst (utf8_first bs)) bs @ ys) = utf8_valid ys"
  using assms utf8_first_bounds [OF assms(1)]
  by (subst utf8_valid.simps) (auto simp: utf8_first_append)

lemma utf8_valid_replacement: "utf8_valid ([0xEF, 0xBF, 0xBD] @ ys) = utf8_valid ys"
  by (subst utf8_valid.simps)
     (simp add: utf8_first_def utf8_seq_def utf8_width_def utf8_get_def utf8_second3_def utf8_cont_def Let_def)

text \<open>The result of \<open>from_utf8_lossy\<close> is always well-formed.\<close>

lemma utf8_valid_lossy: "utf8_valid (utf8_lossy bs)"
proof (induction bs rule: utf8_lossy.induct)
  case (1 bs)
  then show ?case
    using utf8_valid_append [of bs] utf8_valid_replacement
    by (subst utf8_lossy.simps) (auto simp: Let_def utf8_valid.simps [of "[]"])
qed

section \<open>Trimming\<close>

text \<open>
  \<open>str::trim\<close> removes the characters with the property \<open>White_Space\<close> at both ends; these are
  their encodings.
\<close>

definition white_space :: "rstring list" where
  "white_space = [[0x09], [0x0A], [0x0B], [0x0C], [0x0D], [0x20], [0xC2, 0x85], [0xC2, 0xA0],
     [0xE1, 0x9A, 0x80],
     [0xE2, 0x80, 0x80], [0xE2, 0x80, 0x81], [0xE2, 0x80, 0x82], [0xE2, 0x80, 0x83],
     [0xE2, 0x80, 0x84], [0xE2, 0x80, 0x85], [0xE2, 0x80, 0x86], [0xE2, 0x80, 0x87],
     [0xE2, 0x80, 0x88], [0xE2, 0x80, 0x89], [0xE2, 0x80, 0x8A], [0xE2, 0x80, 0xA8],
     [0xE2, 0x80, 0xA9], [0xE2, 0x80, 0xAF], [0xE2, 0x81, 0x9F], [0xE3, 0x80, 0x80]]"

definition ws_prefix :: "rstring list \<Rightarrow> rstring \<Rightarrow> nat" where
  "ws_prefix ws s = (case filter (\<lambda>w. take (length w) s = w) ws of [] \<Rightarrow> 0 | w # _ \<Rightarrow> length w)"

function trim_with :: "rstring list \<Rightarrow> rstring \<Rightarrow> rstring" where
  "trim_with ws s = (if ws_prefix ws s = 0 \<or> s = [] then s else trim_with ws (drop (ws_prefix ws s) s))"
  by pat_completeness auto
termination
  by (relation "measure (\<lambda>(ws, s). length s)") auto

declare trim_with.simps [simp del]

definition trim_start :: "rstring \<Rightarrow> rstring" where
  "trim_start s = trim_with white_space s"

definition trim_end :: "rstring \<Rightarrow> rstring" where
  "trim_end s = rev (trim_with (map rev white_space) (rev s))"

definition trim :: "rstring \<Rightarrow> rstring" where
  "trim s = trim_end (trim_start s)"

end
