(* ===== verification/Psi_Pmt.thy ===== *)
theory Psi_Pmt
  imports Psi_Pat Rust_Utf8
begin

text \<open>
  \<open>psi/pmt.rs\<close>: the program map table, read from a section, rewritten with new PIDs and
  without conditional access descriptors, and compared with an earlier one.
\<close>

unbundle bit_operations_syntax

record stream_info =
  si_stream_type :: u8
  si_pid :: u16
  si_descriptors :: "rstring \<rightharpoonup> rstring"
  si_description :: rstring

record pmt_info =
  pmt_pcr_pid :: u16
  pmt_streams :: "stream_info list"

text \<open>The keys and the value the parser stores: \<open>"lang"\<close>, \<open>"ca"\<close> and \<open>"maybe scrambling"\<close>.\<close>

definition key_lang :: rstring where
  "key_lang = [0x6C, 0x61, 0x6E, 0x67]"

definition key_ca :: rstring where
  "key_ca = [0x63, 0x61]"

definition maybe_scrambling :: rstring where
  "maybe_scrambling = [0x6D, 0x61, 0x79, 0x62, 0x65, 0x20, 0x73, 0x63, 0x72, 0x61, 0x6D, 0x62,
     0x6C, 0x69, 0x6E, 0x67]"

function pasre_descriptors_loop ::
  "bytes \<Rightarrow> usize \<Rightarrow> (rstring \<rightharpoonup> rstring) \<Rightarrow> (rstring \<rightharpoonup> rstring) option" where
  "pasre_descriptors_loop data i descriptors =
    (if i + 1 < length data then do {
       tag \<leftarrow> idx data i;
       l \<leftarrow> idx data (i + 1);
       let len = unat l;
       let start = i + 2;
       let end = start + len;
       if end > length data then Some descriptors
       else do {
         descriptors \<leftarrow>
           (if tag = 0x0A \<and> len \<ge> 3 then do {
              lang \<leftarrow> slice data start (start + 3);
              Some (descriptors(key_lang \<mapsto> utf8_lossy lang)) }
            else if tag = 0x09 then Some (descriptors(key_ca \<mapsto> maybe_scrambling))
            else Some descriptors);
         pasre_descriptors_loop data end descriptors }}
     else Some descriptors)"
  by pat_completeness auto
termination
  by (relation "measure (\<lambda>(data, i, descriptors). length data - i)") auto

declare pasre_descriptors_loop.simps [simp del]

definition pasre_descriptors :: "bytes \<Rightarrow> (rstring \<rightharpoonup> rstring) option" where
  "pasre_descriptors data = pasre_descriptors_loop data 0 Map.empty"

function pmt_loop :: "bytes \<Rightarrow> usize \<Rightarrow> usize \<Rightarrow> stream_info list option" where
  "pmt_loop section section_end pos =
    (if pos + 5 \<le> section_end then do {
       stype \<leftarrow> idx section pos;
       b1 \<leftarrow> idx section (pos + 1);
       b2 \<leftarrow> idx section (pos + 2);
       let pid = pid13 b1 b2;
       b3 \<leftarrow> idx section (pos + 3);
       b4 \<leftarrow> idx section (pos + 4);
       let es_info_len = len12 b3 b4;
       let descriptors_start = pos + 5;
       let descriptors_end = descriptors_start + es_info_len;
       data \<leftarrow> slice section descriptors_start descriptors_end;
       descriptors \<leftarrow> pasre_descriptors data;
       rest \<leftarrow> pmt_loop section section_end descriptors_end;
       Some (\<lparr>si_stream_type = stype, si_pid = pid, si_descriptors = descriptors, si_description = []\<rparr> # rest) }
     else Some [])"
  by pat_completeness auto
termination
  by (relation "measure (\<lambda>(section, section_end, pos). section_end - pos)") auto

declare pmt_loop.simps [simp del]

definition analyze_pmt :: "bytes \<Rightarrow> pmt_info option" where
  "analyze_pmt section = do {
     b8 \<leftarrow> idx section 8;
     b9 \<leftarrow> idx section 9;
     let pcr_pid = pid13 b8 b9;
     b10 \<leftarrow> idx section 10;
     b11 \<leftarrow> idx section 11;
     let program_info_len = len12 b10 b11;
     streams \<leftarrow> pmt_loop section (length section - 4) (12 + program_info_len);
     Some \<lparr>pmt_pcr_pid = pcr_pid, pmt_streams = streams\<rparr> }"

function patch_descriptors_loop :: "bytes \<Rightarrow> usize \<Rightarrow> bytes option" where
  "patch_descriptors_loop descriptors pos =
    (if pos + 2 \<le> length descriptors then do {
       tag \<leftarrow> idx descriptors pos;
       l \<leftarrow> idx descriptors (pos + 1);
       let len = unat l;
       let end = pos + 2 + len;
       if end > length descriptors then Some []
       else do {
         d \<leftarrow> (if tag \<noteq> 0x09 then slice descriptors pos end else Some []);
         rest \<leftarrow> patch_descriptors_loop descriptors end;
         Some (d @ rest) }}
     else Some [])"
  by pat_completeness auto
termination
  by (relation "measure (\<lambda>(descriptors, pos). length descriptors - pos)") auto

declare patch_descriptors_loop.simps [simp del]

definition patch_descriptors :: "bytes \<Rightarrow> bool \<Rightarrow> bytes option" where
  "patch_descriptors descriptors strip_ca_descriptors =
    (if \<not> strip_ca_descriptors then Some descriptors else patch_descriptors_loop descriptors 0)"

text \<open>\<open>es_mappings.iter().find(|(old, _)| *old == pid)\<close>\<close>

definition find_mapping :: "(u16 \<times> u16) list \<Rightarrow> u16 \<Rightarrow> u16 option" where
  "find_mapping es_mappings pid = map_option snd (List.find (\<lambda>(old, _). old = pid) es_mappings)"

definition pid_len_bytes :: "u16 \<Rightarrow> usize \<Rightarrow> bytes" where
  "pid_len_bytes pid len =
    [(ucast (drop_bit 8 pid) AND 0x1F) OR 0xE0, ucast (pid AND 0xFF),
     (of_nat (len div 256) AND 0x0F) OR 0xF0, of_nat (len mod 256)]"

function patch_pmt_loop ::
  "bytes \<Rightarrow> (u16 \<times> u16) list \<Rightarrow> bool \<Rightarrow> usize \<Rightarrow> usize \<Rightarrow> bytes option" where
  "patch_pmt_loop original_section es_mappings strip_ca section_end pos =
    (if pos + 5 \<le> section_end then do {
       stream_type \<leftarrow> idx original_section pos;
       b1 \<leftarrow> idx original_section (pos + 1);
       b2 \<leftarrow> idx original_section (pos + 2);
       let old_es_pid = pid13 b1 b2;
       b3 \<leftarrow> idx original_section (pos + 3);
       b4 \<leftarrow> idx original_section (pos + 4);
       let es_info_len = len12 b3 b4;
       out \<leftarrow> (case find_mapping es_mappings old_es_pid of
           None \<Rightarrow> Some []
         | Some new_es_pid \<Rightarrow> do {
             let descriptors_start = pos + 5;
             let descriptors_end = descriptors_start + es_info_len;
             ds \<leftarrow> slice original_section descriptors_start descriptors_end;
             es_descriptors \<leftarrow> patch_descriptors ds strip_ca;
             Some (stream_type # pid_len_bytes new_es_pid (length es_descriptors) @ es_descriptors) });
       rest \<leftarrow> patch_pmt_loop original_section es_mappings strip_ca section_end (pos + (5 + es_info_len));
       Some (out @ rest) }
     else Some [])"
  by pat_completeness auto
termination
  by (relation "measure (\<lambda>(original_section, es_mappings, strip_ca, section_end, pos). section_end - pos)") auto

declare patch_pmt_loop.simps [simp del]

definition patch_pmt_section ::
  "(bytes \<Rightarrow> u32) \<Rightarrow> bytes \<Rightarrow> u16 \<Rightarrow> (u16 \<times> u16) list \<Rightarrow> bool \<Rightarrow> bytes option" where
  "patch_pmt_section crc32 original_section new_pcr_pid es_mappings strip_ca_descriptors = do {
     header \<leftarrow> slice original_section 0 8;
     b10 \<leftarrow> idx original_section 10;
     b11 \<leftarrow> idx original_section 11;
     let prog_info_len = len12 b10 b11;
     program_descriptors \<leftarrow> slice original_section 12 (12 + prog_info_len);
     program_descriptors \<leftarrow> patch_descriptors program_descriptors strip_ca_descriptors;
     let new_section = header @ pid_len_bytes new_pcr_pid (length program_descriptors) @ program_descriptors;
     streams \<leftarrow> patch_pmt_loop original_section es_mappings strip_ca_descriptors
        (usize_sub (length original_section) 4) (12 + prog_info_len);
     close_section crc32 (new_section @ streams) }"

text \<open>
  The local \<open>StreamInfoDiff\<close> of \<open>is_pmt_changed\<close> with the order that \<open>derive(Ord)\<close> gives it:
  the fields compared one after the other.
\<close>

datatype stream_info_diff = StreamInfoDiff (sid_stream_type: u8) (sid_pid: u16)

instantiation stream_info_diff :: linorder
begin

definition less_eq_stream_info_diff :: "stream_info_diff \<Rightarrow> stream_info_diff \<Rightarrow> bool" where
  "less_eq_stream_info_diff a b \<longleftrightarrow> sid_stream_type a < sid_stream_type b
     \<or> sid_stream_type a = sid_stream_type b \<and> sid_pid a \<le> sid_pid b"

definition less_stream_info_diff :: "stream_info_diff \<Rightarrow> stream_info_diff \<Rightarrow> bool" where
  "less_stream_info_diff a b \<longleftrightarrow> sid_stream_type a < sid_stream_type b
     \<or> sid_stream_type a = sid_stream_type b \<and> sid_pid a < sid_pid b"

instance
  by intro_classes (auto simp: less_eq_stream_info_diff_def less_stream_info_diff_def stream_info_diff.expand)

end

definition stream_diffs :: "pmt_info \<Rightarrow> stream_info_diff list" where
  "stream_diffs p = map (\<lambda>s. StreamInfoDiff (si_stream_type s) (si_pid s)) (pmt_streams p)"

definition is_pmt_changed :: "pmt_info \<Rightarrow> pmt_info \<Rightarrow> bool" where
  "is_pmt_changed a b =
    (if pmt_pcr_pid a \<noteq> pmt_pcr_pid b \<or> length (pmt_streams a) \<noteq> length (pmt_streams b) then True
     else let a_streams = stream_diffs a; b_streams = stream_diffs b
     in if a_streams = b_streams then False
        else sort a_streams \<noteq> sort b_streams)"

section \<open>Descriptor loops\<close>

text \<open>A descriptor is a tag and its data; this is how a loop of descriptors is laid out.\<close>

type_synonym descriptor = "u8 \<times> bytes"

definition desc_bytes :: "descriptor \<Rightarrow> bytes" where
  "desc_bytes d = fst d # of_nat (length (snd d)) # snd d"

definition descs_bytes :: "descriptor list \<Rightarrow> bytes" where
  "descs_bytes ds = concat (map desc_bytes ds)"

definition descs_ok :: "descriptor list \<Rightarrow> bool" where
  "descs_ok ds \<longleftrightarrow> list_all (\<lambda>d. length (snd d) < 256) ds"

definition strip_ca :: "bool \<Rightarrow> descriptor list \<Rightarrow> descriptor list" where
  "strip_ca strip ds = (if strip then filter (\<lambda>d. fst d \<noteq> 0x09) ds else ds)"

lemma descs_simps [simp]:
  "descs_bytes [] = []" "descs_bytes (d # ds) = desc_bytes d @ descs_bytes ds"
  "descs_ok []" "descs_ok (d # ds) \<longleftrightarrow> length (snd d) < 256 \<and> descs_ok ds"
  "length (desc_bytes d) = length (snd d) + 2"
  by (simp_all add: descs_bytes_def descs_ok_def desc_bytes_def)

lemma descs_ok_strip [simp]: "descs_ok ds \<Longrightarrow> descs_ok (strip_ca strip ds)"
  by (auto simp: descs_ok_def strip_ca_def list_all_iff)

lemma desc_bytes_at:
  fixes pre post :: bytes
  assumes "length (snd d) < 256"
  defines "data \<equiv> pre @ desc_bytes d @ post"
  shows "data ! length pre = fst d" "unat (data ! Suc (length pre)) = length (snd d)"
    "take (length (snd d) + 2) (drop (length pre) data) = desc_bytes d"
  using assms by (simp_all add: data_def desc_bytes_def nth_append unat_of_nat_u8)

lemma patch_descriptors_loop_descs:
  "descs_ok ds \<Longrightarrow> patch_descriptors_loop (pre @ descs_bytes ds) (length pre)
     = Some (descs_bytes (strip_ca True ds))"
proof (induction ds arbitrary: pre)
  case Nil
  then show ?case by (subst patch_descriptors_loop.simps) (simp add: strip_ca_def)
next
  case (Cons d ds)
  have IH: "patch_descriptors_loop (pre @ desc_bytes d @ descs_bytes ds) (length pre + 2 + length (snd d))
      = Some (descs_bytes (strip_ca True ds))"
    using Cons.IH [of "pre @ desc_bytes d"] Cons.prems by (simp add: ac_simps)
  show ?case
    using Cons.prems desc_bytes_at [of d pre "descs_bytes ds"] IH
    by (subst patch_descriptors_loop.simps) (simp add: Let_def strip_ca_def add.commute)
qed

lemma patch_descriptors_descs:
  "descs_ok ds \<Longrightarrow> patch_descriptors (descs_bytes ds) strip = Some (descs_bytes (strip_ca strip ds))"
  using patch_descriptors_loop_descs [of ds "[]"] by (simp add: patch_descriptors_def strip_ca_def)

text \<open>What the parser finds in a descriptor loop: the last language, and whether CA occurs.\<close>

definition desc_entry :: "(rstring \<rightharpoonup> rstring) \<Rightarrow> descriptor \<Rightarrow> (rstring \<rightharpoonup> rstring)" where
  "desc_entry m d = (if fst d = 0x0A \<and> 3 \<le> length (snd d) then m(key_lang \<mapsto> utf8_lossy (take 3 (snd d)))
     else if fst d = 0x09 then m(key_ca \<mapsto> maybe_scrambling) else m)"

lemma pasre_descriptors_loop_descs:
  "descs_ok ds \<Longrightarrow> pasre_descriptors_loop (pre @ descs_bytes ds) (length pre) m
     = Some (foldl desc_entry m ds)"
proof (induction ds arbitrary: pre m)
  case Nil
  then show ?case by (subst pasre_descriptors_loop.simps) simp
next
  case (Cons d ds)
  have IH: "pasre_descriptors_loop (pre @ desc_bytes d @ descs_bytes ds) (length pre + 2 + length (snd d)) m
      = Some (foldl desc_entry m ds)" for m
    using Cons.IH [of "pre @ desc_bytes d"] Cons.prems by (simp add: ac_simps)
  have "take 3 (drop (Suc (Suc (length pre))) (pre @ desc_bytes d @ descs_bytes ds)) = take 3 (snd d)"
    if "3 \<le> length (snd d)"
    using that by (simp add: desc_bytes_def)
  then show ?case
    using Cons.prems desc_bytes_at [of d pre "descs_bytes ds"] IH
    by (subst pasre_descriptors_loop.simps) (auto simp: Let_def desc_entry_def add.commute)
qed

lemma pasre_descriptors_descs:
  "descs_ok ds \<Longrightarrow> pasre_descriptors (descs_bytes ds) = Some (foldl desc_entry Map.empty ds)"
  using pasre_descriptors_loop_descs [of ds "[]"] by (simp add: pasre_descriptors_def)

lemma foldl_desc_entry_ca:
  "foldl desc_entry m ds key_ca = (if \<exists>d \<in> set ds. fst d = 0x09 then Some maybe_scrambling else m key_ca)"
  by (induction ds arbitrary: m) (auto simp: desc_entry_def key_ca_def key_lang_def)

section \<open>The elementary stream loop\<close>

record pmt_stream =
  ps_type :: u8
  ps_pid :: u16
  ps_descs :: "descriptor list"

definition stream_bytes :: "pmt_stream \<Rightarrow> bytes" where
  "stream_bytes s = ps_type s # pid_len_bytes (ps_pid s) (length (descs_bytes (ps_descs s)))
     @ descs_bytes (ps_descs s)"

definition stream_ok :: "pmt_stream \<Rightarrow> bool" where
  "stream_ok s \<longleftrightarrow> unat (ps_pid s) < 8192 \<and> descs_ok (ps_descs s) \<and> length (descs_bytes (ps_descs s)) < 4096"

lemma of_nat_hi_lo:
  assumes "n < 65536"
  shows "(of_nat (n div 256) :: u8) = ucast (drop_bit 8 (of_nat n :: u16))" "(of_nat (n mod 256) :: u8) = ucast (of_nat n :: u16)"
  using assms
  by (simp_all add: word_unat_eq_iff unsigned_ucast_eq unsigned_drop_bit_eq unat_of_nat_u16 unat_of_nat
        take_bit_eq_mod drop_bit_eq_div unat_div)

lemma length_pid_len_bytes [simp]: "length (pid_len_bytes pid len) = 4"
  by (simp add: pid_len_bytes_def)

lemma pid_len_bytes_pid:
  assumes "unat pid < 8192"
  shows "pid13 (pid_len_bytes pid len ! 0) (pid_len_bytes pid len ! 1) = pid"
proof -
  have "take_bit 13 pid = pid" using assms by (intro word_take_bit_self) simp
  moreover have "pid13 ((ucast (drop_bit 8 pid) AND 0x1F) OR 0xE0) (ucast (pid AND 0xFF)) = take_bit 13 pid"
    unfolding pid13_def by (rule word_eq_bits) (simp add: word_bits)
  ultimately show ?thesis by (simp add: pid_len_bytes_def)
qed

lemma pid_len_bytes_len:
  assumes "len < 4096"
  shows "len12 (pid_len_bytes pid len ! 2) (pid_len_bytes pid len ! 3) = len"
proof -
  define w where "w = (of_nat len :: u16)"
  have w: "unat w = len" using assms by (simp add: w_def unat_of_nat_u16)
  then have "take_bit 12 w = w" using assms by (intro word_take_bit_self) simp
  moreover have "push_bit 8 (ucast (ucast (drop_bit 8 w) AND 0x0F OR 0xF0 :: u8) AND 0x0F) OR ucast (ucast w :: u8)
      = take_bit 12 w"
    by (rule word_eq_bits) (simp add: word_bits)
  ultimately show ?thesis
    using assms w by (simp add: pid_len_bytes_def len12_def of_nat_hi_lo flip: w_def)
qed

lemma length_stream_bytes: "length (stream_bytes s) = 5 + length (descs_bytes (ps_descs s))"
  by (simp add: stream_bytes_def)

lemma stream_bytes_at:
  fixes pre post :: bytes
  assumes "stream_ok s"
  defines "n \<equiv> length pre" and "sec \<equiv> pre @ stream_bytes s @ post"
  shows "sec ! n = ps_type s" "pid13 (sec ! Suc n) (sec ! Suc (Suc n)) = ps_pid s"
    "len12 (sec ! (n + 3)) (sec ! (n + 4)) = length (descs_bytes (ps_descs s))"
    "take (length (descs_bytes (ps_descs s))) (drop (n + 5) sec) = descs_bytes (ps_descs s)"
proof -
  let ?ds = "descs_bytes (ps_descs s)" and ?pl = "pid_len_bytes (ps_pid s) (length (descs_bytes (ps_descs s)))"
  have sec: "sec = pre @ (ps_type s # ?pl @ ?ds) @ post"
    by (simp add: sec_def stream_bytes_def)
  show "sec ! n = ps_type s" by (simp add: sec n_def)
  have nth: "sec ! (n + Suc k) = ?pl ! k" if "k < 4" for k
    using that by (simp add: sec n_def nth_append)
  show "pid13 (sec ! Suc n) (sec ! Suc (Suc n)) = ps_pid s"
    using assms(1) nth [of 0] nth [of 1] pid_len_bytes_pid [of "ps_pid s"] by (simp add: stream_ok_def)
  show "len12 (sec ! (n + 3)) (sec ! (n + 4)) = length ?ds"
    using assms(1) nth [of 2] nth [of 3] pid_len_bytes_len [of "length ?ds"]
    by (simp add: stream_ok_def eval_nat_numeral)
  show "take (length ?ds) (drop (n + 5) sec) = ?ds"
    by (simp add: sec n_def)
qed

definition parsed_stream :: "pmt_stream \<Rightarrow> stream_info" where
  "parsed_stream s = \<lparr>si_stream_type = ps_type s, si_pid = ps_pid s,
     si_descriptors = foldl desc_entry Map.empty (ps_descs s), si_description = []\<rparr>"

definition streams_bytes :: "pmt_stream list \<Rightarrow> bytes" where
  "streams_bytes ss = concat (map stream_bytes ss)"

lemma streams_bytes_simps [simp]:
  "streams_bytes [] = []" "streams_bytes (s # ss) = stream_bytes s @ streams_bytes ss"
  by (simp_all add: streams_bytes_def)

lemma pmt_loop_streams:
  "list_all stream_ok ss \<Longrightarrow>
   pmt_loop (pre @ streams_bytes ss @ post) (length pre + length (streams_bytes ss)) (length pre)
     = Some (map parsed_stream ss)"
proof (induction ss arbitrary: pre)
  case Nil
  then show ?case by (subst pmt_loop.simps) simp
next
  case (Cons s ss)
  then have ok: "stream_ok s" by simp
  note at = stream_bytes_at [OF ok, of pre "streams_bytes ss @ post"]
  have IH: "pmt_loop (pre @ stream_bytes s @ streams_bytes ss @ post)
      (length pre + (length (stream_bytes s) + length (streams_bytes ss))) (length pre + 5 + length (descs_bytes (ps_descs s)))
      = Some (map parsed_stream ss)"
    using Cons.IH [of "pre @ stream_bytes s"] Cons.prems by (simp add: length_stream_bytes ac_simps)
  show ?case
    using at IH ok length_stream_bytes [of s] pasre_descriptors_descs [of "ps_descs s"]
    by (subst pmt_loop.simps) (simp add: Let_def parsed_stream_def stream_ok_def)
qed

text \<open>What the rewriting keeps of the streams: the mapped ones, with their new PID.\<close>

definition remap_streams :: "(u16 \<times> u16) list \<Rightarrow> bool \<Rightarrow> pmt_stream list \<Rightarrow> pmt_stream list" where
  "remap_streams es_mappings strip ss = List.map_filter (\<lambda>s.
     map_option (\<lambda>pid. s\<lparr>ps_pid := pid, ps_descs := strip_ca strip (ps_descs s)\<rparr>)
       (map_of es_mappings (ps_pid s))) ss"

lemma find_mapping_map_of: "find_mapping es_mappings pid = map_of es_mappings pid"
  by (induction es_mappings) (auto simp: find_mapping_def)

lemma patch_pmt_loop_streams:
  "list_all stream_ok ss \<Longrightarrow>
   patch_pmt_loop (pre @ streams_bytes ss @ post) es_mappings strip
     (length pre + length (streams_bytes ss)) (length pre)
     = Some (streams_bytes (remap_streams es_mappings strip ss))"
proof (induction ss arbitrary: pre)
  case Nil
  then show ?case by (subst patch_pmt_loop.simps) (simp add: remap_streams_def map_filter_simps)
next
  case (Cons s ss)
  then have ok: "stream_ok s" by simp
  note at = stream_bytes_at [OF ok, of pre "streams_bytes ss @ post"]
  have IH: "patch_pmt_loop (pre @ stream_bytes s @ streams_bytes ss @ post) es_mappings strip
      (length pre + (length (stream_bytes s) + length (streams_bytes ss)))
      (length pre + (5 + length (descs_bytes (ps_descs s))))
      = Some (streams_bytes (remap_streams es_mappings strip ss))"
    using Cons.IH [of "pre @ stream_bytes s"] Cons.prems by (simp add: length_stream_bytes ac_simps)
  show ?case
    using at IH ok length_stream_bytes [of s] patch_descriptors_descs [of "ps_descs s" strip]
    by (subst patch_pmt_loop.simps)
       (auto simp: Let_def stream_ok_def remap_streams_def map_filter_simps find_mapping_map_of
          stream_bytes_def [of "s\<lparr>ps_pid := _, ps_descs := _\<rparr>"] split: option.split)
qed

section \<open>Whole tables\<close>

definition pmt_body :: "bytes \<Rightarrow> u16 \<Rightarrow> descriptor list \<Rightarrow> pmt_stream list \<Rightarrow> bytes" where
  "pmt_body hdr pcr_pid ds ss = hdr @ pid_len_bytes pcr_pid (length (descs_bytes ds)) @ descs_bytes ds
     @ streams_bytes ss"

definition pmt_ok :: "bytes \<Rightarrow> descriptor list \<Rightarrow> pmt_stream list \<Rightarrow> bool" where
  "pmt_ok hdr ds ss \<longleftrightarrow> length hdr = 8 \<and> descs_ok ds \<and> length (descs_bytes ds) < 4096 \<and> list_all stream_ok ss"

lemma close_section_pmt:
  assumes "length hdr = 8" "close_section crc32 (pmt_body hdr pcr ds ss) = Some sec"
  obtains hdr' crc where "length hdr' = 8" "length crc = 4" "sec = pmt_body hdr' pcr ds ss @ crc"
    "\<And>rest. close_section crc32' (hdr' @ rest) = close_section crc32' (hdr @ rest)"
proof -
  obtain l :: u16 where
    sec: "sec = pmt_body (hdr[1 := (hdr ! 1 AND 0xF0) OR (ucast (drop_bit 8 l) AND 0x0F), 2 := ucast (l AND 0xFF)]) pcr ds ss
      @ to_be32 (crc32 (pmt_body (hdr[1 := (hdr ! 1 AND 0xF0) OR (ucast (drop_bit 8 l) AND 0x0F), 2 := ucast (l AND 0xFF)]) pcr ds ss))"
    using assms by (auto simp: pmt_body_def close_section_eq list_update_append nth_append)
  have nib: "((hdr ! 1 AND 0xF0) OR (ucast (drop_bit 8 l) AND 0x0F)) AND 0xF0 = hdr ! 1 AND 0xF0"
    by (rule word_eq_bits) (simp add: word_bits)
  show thesis
    by (rule that [OF _ _ sec])
       (use assms(1) nib in \<open>simp_all add: close_section_eq list_update_append nth_append list_update_swap\<close>)
qed

lemma pmt_body_at:
  fixes rest :: bytes and pcr :: u16 and ss :: "pmt_stream list"
  assumes "length hdr = 8" "length (descs_bytes ds) < 4096"
  defines "sec \<equiv> pmt_body hdr pcr ds ss @ rest"
  shows "unat pcr < 8192 \<Longrightarrow> pid13 (sec ! 8) (sec ! 9) = pcr"
    "len12 (sec ! 10) (sec ! 11) = length (descs_bytes ds)"
    "take 8 sec = hdr" "take (length (descs_bytes ds)) (drop 12 sec) = descs_bytes ds"
proof -
  let ?pl = "pid_len_bytes pcr (length (descs_bytes ds))"
  have eq: "sec = (hdr @ ?pl @ descs_bytes ds) @ streams_bytes ss @ rest"
    by (simp add: sec_def pmt_body_def)
  have nth: "sec ! (8 + k) = ?pl ! k" if "k < 4" for k
    using that assms(1) by (simp add: eq nth_append)
  show "unat pcr < 8192 \<Longrightarrow> pid13 (sec ! 8) (sec ! 9) = pcr"
    using nth [of 0] nth [of 1] pid_len_bytes_pid [of pcr] by simp
  show "len12 (sec ! 10) (sec ! 11) = length (descs_bytes ds)"
    using nth [of 2] nth [of 3] pid_len_bytes_len [OF assms(2), of pcr] by simp
  show "take 8 sec = hdr" "take (length (descs_bytes ds)) (drop 12 sec) = descs_bytes ds"
    using assms(1) by (simp_all add: eq)
qed

lemma length_pmt_body: "length hdr = 8 \<Longrightarrow>
    length (pmt_body hdr pcr ds ss) = 12 + length (descs_bytes ds) + length (streams_bytes ss)"
  by (simp add: pmt_body_def)

lemma analyze_pmt_section:
  assumes "pmt_ok hdr ds ss" "unat pcr < 8192" "close_section crc32 (pmt_body hdr pcr ds ss) = Some sec"
  shows "analyze_pmt sec = Some \<lparr>pmt_pcr_pid = pcr, pmt_streams = map parsed_stream ss\<rparr>"
proof -
  have ok: "length hdr = 8" "length (descs_bytes ds) < 4096" "list_all stream_ok ss"
    using assms(1) by (simp_all add: pmt_ok_def)
  obtain hdr' crc where h: "length hdr' = 8" "length (crc :: bytes) = 4" "sec = pmt_body hdr' pcr ds ss @ crc"
    by (rule close_section_pmt [OF ok(1) assms(3)]) blast
  note at = pmt_body_at [OF h(1) ok(2), of pcr ss crc, folded h(3)]
  have len: "length sec = 16 + length (descs_bytes ds) + length (streams_bytes ss)"
    using h(1,2) by (simp add: h(3) length_pmt_body)
  have loop: "pmt_loop sec (12 + length (descs_bytes ds) + length (streams_bytes ss)) (12 + length (descs_bytes ds))
      = Some (map parsed_stream ss)"
    using pmt_loop_streams [OF ok(3), of "hdr' @ pid_len_bytes pcr (length (descs_bytes ds)) @ descs_bytes ds" crc] h(1)
    by (simp add: h(3) pmt_body_def ac_simps)
  show ?thesis
    using at(1) [OF assms(2)] at(2) loop len by (simp add: analyze_pmt_def Let_def add.assoc)
qed

lemma patch_pmt_section_body:
  assumes "pmt_ok hdr ds ss" "length crc = 4"
  shows "patch_pmt_section crc32' (pmt_body hdr pcr ds ss @ crc) new_pcr es_mappings strip =
    close_section crc32' (pmt_body hdr new_pcr (strip_ca strip ds) (remap_streams es_mappings strip ss))"
proof -
  define sec where "sec = pmt_body hdr pcr ds ss @ crc"
  have ok: "length hdr = 8" "length (descs_bytes ds) < 4096" "list_all stream_ok ss" "descs_ok ds"
    using assms(1) by (simp_all add: pmt_ok_def)
  note at = pmt_body_at [OF ok(1,2), of pcr ss crc, folded sec_def]
  have len: "length sec = 16 + length (descs_bytes ds) + length (streams_bytes ss)"
    using assms(2) ok(1) by (simp add: sec_def length_pmt_body)
  have loop: "patch_pmt_loop sec es_mappings strip (12 + length (descs_bytes ds) + length (streams_bytes ss))
      (12 + length (descs_bytes ds)) = Some (streams_bytes (remap_streams es_mappings strip ss))"
    using patch_pmt_loop_streams [OF ok(3), of "hdr @ pid_len_bytes pcr (length (descs_bytes ds)) @ descs_bytes ds" crc] ok(1)
    by (simp add: sec_def pmt_body_def ac_simps)
  show ?thesis
    unfolding sec_def [symmetric] pmt_body_def [of hdr new_pcr]
    using at(2-4) loop len patch_descriptors_descs [OF ok(4), of strip]
    by (simp add: patch_pmt_section_def Let_def add.assoc)
qed

lemma patch_pmt_section_eq:
  assumes "pmt_ok hdr ds ss" "close_section crc32 (pmt_body hdr pcr ds ss) = Some sec"
  shows "patch_pmt_section crc32' sec new_pcr es_mappings strip =
    close_section crc32' (pmt_body hdr new_pcr (strip_ca strip ds) (remap_streams es_mappings strip ss))"
proof -
  have ok: "length hdr = 8" using assms(1) by (simp add: pmt_ok_def)
  obtain hdr' crc where h: "length hdr' = 8" "length (crc :: bytes) = 4" "sec = pmt_body hdr' pcr ds ss @ crc"
      and close: "\<And>rest. close_section crc32' (hdr' @ rest) = close_section crc32' (hdr @ rest)"
    by (rule close_section_pmt [OF ok assms(2)]) blast
  have "pmt_ok hdr' ds ss" using assms(1) h(1) by (simp add: pmt_ok_def)
  from patch_pmt_section_body [OF this h(2)] show ?thesis
    by (simp add: h(3) close pmt_body_def)
qed

lemma descs_bytes_strip_le: "length (descs_bytes (strip_ca strip ds)) \<le> length (descs_bytes ds)"
  by (induction ds) (auto simp: strip_ca_def)

lemma remap_streams_ok:
  assumes "list_all stream_ok ss" "list_all (\<lambda>m. unat (snd m) < 8192) es_mappings"
  shows "list_all stream_ok (remap_streams es_mappings strip ss)"
proof -
  have "unat pid' < 8192" if "map_of es_mappings pid = Some pid'" for pid pid'
    using that assms(2) by (auto simp: list_all_iff dest!: map_of_SomeD)
  then show ?thesis
    using assms(1) descs_bytes_strip_le le_less_trans
    by (induction ss) (fastforce simp: remap_streams_def map_filter_simps stream_ok_def split: option.split)+
qed

section \<open>The layout of a table, in numbers\<close>

text \<open>
  How ISO/IEC 13818-1 lays a program map out, written with numbers and not with the masks and shifts of the code: \<open>k\<close> bytes of a number, the most
  significant one first; a PID after three bits set, a length after four bits set.
\<close>

primrec be_bytes :: "nat \<Rightarrow> nat \<Rightarrow> bytes" where
  "be_bytes 0 n = []"
| "be_bytes (Suc k) n = be_bytes k (n div 256) @ [of_nat (n mod 256)]"

lemma length_be_bytes [simp]: "length (be_bytes k n) = k"
  by (induction k arbitrary: n) simp_all

lemma be_bytes_pair: "be_bytes 2 n = [of_nat (n div 256 mod 256), of_nat (n mod 256)]"
  by (simp add: numeral_2_eq_2)

lemma be_bytes_2: "n < 65536 \<Longrightarrow> be_bytes 2 n = [ucast (drop_bit 8 (of_nat n :: u16)), ucast (of_nat n :: u16)]"
  using of_nat_hi_lo [of n] by (simp add: numeral_2_eq_2 )

lemma u8_bound: "unat (b :: u8) < 256" and u32_bound: "unat (w :: u32) < 4294967296"
  using unsigned_less [of b, where 'a = nat] unsigned_less [of w, where 'a = nat] by simp_all
lemma be_bytes_4: "be_bytes 4 (unat (w :: u32)) = to_be32 w"
proof -
  have byte: "(of_nat (n mod 256) :: u8) = of_nat n" for n
    by (simp add: word_unat_eq_iff unat_of_nat take_bit_eq_mod)
  have drop: "(of_nat (unat w div 2 ^ k) :: u8) = ucast (drop_bit k w)" for k
  proof -
    have "unat w div 2 ^ k = unat (drop_bit k w)" by (simp only: unsigned_drop_bit_eq) (simp add: drop_bit_eq_div take_bit_eq_mod u32_bound)
    then show ?thesis by simp
  qed
  have four: "4 = Suc (Suc (Suc (Suc 0)))" by simp
  have "be_bytes 4 n = [of_nat (n div 2 ^ 24), of_nat (n div 2 ^ 16), of_nat (n div 2 ^ 8), of_nat n]" for n
    unfolding four be_bytes.simps byte by (simp flip: div_mult2_eq)
  then show ?thesis using drop [of 0] by (simp only: drop to_be32_def) simp
qed

lemma nat_plus_or:
  fixes a b :: u16
  assumes "a AND b = 0"
  shows "of_nat (unat a + unat b) = a OR b"
  by (simp add: assms disjunctive_add_eq_or)

lemma pid_field:
  fixes pid :: u16
  shows "be_bytes 2 (0xE000 + unat pid mod 8192) = [(ucast (drop_bit 8 pid) AND 0x1F) OR 0xE0, ucast (pid AND 0xFF)]"
proof -
  have "unat (take_bit 13 pid) = unat pid mod 8192" unfolding unsigned_take_bit_eq by (simp add: take_bit_eq_mod del: unsigned_take_bit_eq)
  moreover have "0xE000 AND take_bit 13 pid = 0" by (rule word_eq_bits) (simp add: word_bits)
  ultimately have w: "of_nat (0xE000 + unat pid mod 8192) = 0xE000 OR take_bit 13 pid"
    using nat_plus_or [of "0xE000" "take_bit 13 pid"] by simp
  have hi: "(ucast (drop_bit 8 (0xE000 OR take_bit 13 pid)) :: u8) = (ucast (drop_bit 8 pid) AND 0x1F) OR 0xE0"
    by (rule word_eq_bits) (simp add: word_bits)
  have lo: "(ucast (0xE000 OR take_bit 13 pid) :: u8) = ucast (pid AND 0xFF)"
    by (rule word_eq_bits) (simp add: word_bits)
  have "unat pid mod 8192 < 8192" by simp
  then have "0xE000 + unat pid mod 8192 < 65536" by linarith
  from be_bytes_2 [OF this] show ?thesis unfolding w hi lo .
qed

lemma len_field:
  assumes "len < 4096"
  shows "be_bytes 2 (0xF000 + len) = [(of_nat (len div 256) AND 0x0F) OR 0xF0, of_nat (len mod 256)]"
proof -
  define l where "l = (of_nat len :: u16)"
  have u: "unat l = len" using assms by (simp add: l_def unat_of_nat_u16)
  then have "take_bit 12 l = l" using assms by (intro word_take_bit_self) simp
  moreover have "0xF000 AND take_bit 12 l = 0" by (rule word_eq_bits) (simp add: word_bits)
  ultimately have w: "of_nat (0xF000 + len) = 0xF000 OR take_bit 12 l"
    using nat_plus_or [of "0xF000" "take_bit 12 l"] u by simp
  have hi: "(ucast (drop_bit 8 (0xF000 OR take_bit 12 l)) :: u8) = (ucast (drop_bit 8 l) AND 0x0F) OR 0xF0"
    by (rule word_eq_bits) (simp add: word_bits)
  have lo: "(ucast (0xF000 OR take_bit 12 l) :: u8) = ucast l"
    by (rule word_eq_bits) (simp add: word_bits)
  have "0xF000 + len < 65536" "len < 65536" using assms by simp_all
  from be_bytes_2 [OF this(1)] show ?thesis
    unfolding w hi lo unfolding of_nat_hi_lo [OF \<open>len < 65536\<close>] l_def .
qed

lemma length_field:
  assumes "len < 4096"
  shows "be_bytes 2 (unat (b :: u8) div 16 * 4096 + len)
     = [(b AND 0xF0) OR (ucast (drop_bit 8 (of_nat len :: u16)) AND 0x0F), ucast ((of_nat len :: u16) AND 0xFF)]"
proof -
  define l where "l = (of_nat len :: u16)"
  define n where "n = push_bit 12 (ucast (drop_bit 4 b) :: u16)"
  have u: "unat l = len" using assms by (simp add: l_def unat_of_nat_u16)
  then have "take_bit 12 l = l" using assms by (intro word_take_bit_self) simp
  moreover have "n AND take_bit 12 l = 0" unfolding n_def by (rule word_eq_bits) (simp add: word_bits)
  moreover have b: "unat b div 16 < 16" using u8_bound [of b] by linarith
  have "unat n = unat b div 16 * 4096"
  proof -
    have "unat (drop_bit 4 b) = unat b div 16"
      by (simp only: unsigned_drop_bit_eq) (simp add: drop_bit_eq_div take_bit_eq_mod)
    then have "(ucast (drop_bit 4 b) :: u16) = of_nat (unat b div 16)" by (metis of_nat_unat)
    then have "n = of_nat (unat b div 16 * 4096)" by (simp add: n_def push_bit_eq_mult)
    then show ?thesis using b by (simp only: unat_of_nat_u16)
  qed
  ultimately have w: "of_nat (unat b div 16 * 4096 + len) = n OR take_bit 12 l"
    using nat_plus_or [of n "take_bit 12 l"] u by simp
  have hi: "(ucast (drop_bit 8 (n OR take_bit 12 l)) :: u8) = (b AND 0xF0) OR (ucast (drop_bit 8 l) AND 0x0F)"
    unfolding n_def by (rule word_eq_bits) (simp add: word_bits)
  have lo: "(ucast (n OR take_bit 12 l) :: u8) = ucast (l AND 0xFF)"
    unfolding n_def by (rule word_eq_bits) (simp add: word_bits)
  have "unat b div 16 * 4096 + len < 65536" using assms b by simp
  from be_bytes_2 [OF this] show ?thesis unfolding w hi lo unfolding l_def .
qed

definition pmt_layout :: "bytes \<Rightarrow> u16 \<Rightarrow> descriptor list \<Rightarrow> pmt_stream list \<Rightarrow> bytes" where
  "pmt_layout hdr pcr ds ss = hdr
     @ be_bytes 2 (0xE000 + unat pcr mod 8192) @ be_bytes 2 (0xF000 + length (descs_bytes ds)) @ descs_bytes ds
     @ concat (map (\<lambda>s. ps_type s # be_bytes 2 (0xE000 + unat (ps_pid s) mod 8192)
         @ be_bytes 2 (0xF000 + length (descs_bytes (ps_descs s))) @ descs_bytes (ps_descs s)) ss)"

lemma pid_len_bytes_eq: "len < 4096 \<Longrightarrow> pid_len_bytes pid len = be_bytes 2 (0xE000 + unat pid mod 8192) @ be_bytes 2 (0xF000 + len)"
  by (simp add: pid_len_bytes_def pid_field len_field)

lemma pmt_layout_eq:
  assumes "length (descs_bytes ds) < 4096" "list_all (\<lambda>s. length (descs_bytes (ps_descs s)) < 4096) ss"
  shows "pmt_layout hdr pcr ds ss = pmt_body hdr pcr ds ss"
proof -
  have "concat (map (\<lambda>s. ps_type s # be_bytes 2 (0xE000 + unat (ps_pid s) mod 8192)
      @ be_bytes 2 (0xF000 + length (descs_bytes (ps_descs s))) @ descs_bytes (ps_descs s)) ss) = streams_bytes ss"
    using assms(2) by (induction ss) (simp_all add: stream_bytes_def pid_len_bytes_eq)
  then show ?thesis using assms(1) by (simp add: pmt_layout_def pmt_body_def pid_len_bytes_eq)
qed

lemma streams_bytes_remap_le: "length (streams_bytes (remap_streams es_mappings strip ss)) \<le> length (streams_bytes ss)"
proof (induction ss)
  case (Cons s ss)
  then show ?case
    using descs_bytes_strip_le [of strip "ps_descs s"]
    by (auto simp: remap_streams_def map_filter_simps length_stream_bytes split: option.split)
qed (simp add: remap_streams_def map_filter_simps)

lemma remap_streams_descs:
  assumes "list_all stream_ok ss"
  shows "list_all (\<lambda>s. length (descs_bytes (ps_descs s)) < 4096) (remap_streams es_mappings strip ss)"
  using assms descs_bytes_strip_le le_less_trans
  by (induction ss) (fastforce simp: remap_streams_def map_filter_simps stream_ok_def split: option.split)+

text \<open>Setting the length of a section whose header has eight bytes.\<close>

lemma close_section_fields:
  assumes "length hdr = 8" "length (hdr @ body) \<le> 4094"
  shows "\<exists>new. close_section crc32 (hdr @ body) = Some (new @ be_bytes 4 (unat (crc32 new)))
    \<and> new = (hdr ! 0 # be_bytes 2 (unat (hdr ! 1) div 16 * 4096 + (length new + 1)) @ drop 3 hdr) @ body"
proof -
  let ?len = "of_nat (length (hdr @ body) + 1) :: u16"
  define new where "new = (hdr @ body)[1 := ((hdr @ body) ! 1 AND 0xF0) OR (ucast (drop_bit 8 ?len) AND 0x0F), 2 := ucast (?len AND 0xFF)]"
  obtain b0 b1 b2 rest where hdr: "hdr = b0 # b1 # b2 # rest"
    using assms(1) by (auto simp: length_Suc_conv eval_nat_numeral)
  have "new = (hdr ! 0 # be_bytes 2 (unat (hdr ! 1) div 16 * 4096 + (length (hdr @ body) + 1)) @ drop 3 hdr) @ body"
    using length_field [of "length (hdr @ body) + 1" b1] assms(2)
    by (simp add: new_def hdr numeral_2_eq_2 del: be_bytes.simps)
  moreover have "length new = length (hdr @ body)" by (simp add: new_def)
  ultimately show ?thesis
    using close_section_eq [of "hdr @ body" crc32, folded new_def] assms(1)
    by (intro exI [of _ new]) (simp add: be_bytes_4 del: be_bytes.simps)
qed

text \<open>
  C31. Rewriting a well-formed PMT does what it is for. Whatever the length field and the CRC of the original, the result is
  a table \<open>new\<close> in the layout of the standard followed by the CRC of all of it, the most significant byte first. The header of \<open>new\<close> is the old one
  with the twelve bits of the length field set to the number of bytes that follow the field, CRC included. The PCR PID is the new one. The
  streams are exactly those whose PID is mapped, in their old order, each with the PID of its first mapping. All descriptors are kept
  except, when asked to, those of conditional access. (PIDs are written with 13 bits.)
\<close>

theorem patch_pmt_section_correct:
  assumes "pmt_ok hdr ds ss" and "original = pmt_layout hdr pcr ds ss @ crc" "length crc = 4" and "length original \<le> 4098"
  shows "\<exists>new. patch_pmt_section crc32 original new_pcr es_mappings strip = Some (new @ be_bytes 4 (unat (crc32 new)))
    \<and> new = pmt_layout (hdr ! 0 # be_bytes 2 (unat (hdr ! 1) div 16 * 4096 + (length new + 1)) @ drop 3 hdr) new_pcr
        (if strip then filter (\<lambda>d. fst d \<noteq> 0x09) ds else ds)
        [s\<lparr>ps_pid := pid, ps_descs := if strip then filter (\<lambda>d. fst d \<noteq> 0x09) (ps_descs s) else ps_descs s\<rparr>.
           s \<leftarrow> ss, Some pid \<leftarrow> [map_of es_mappings (ps_pid s)]]"
proof -
  let ?ds = "strip_ca strip ds" and ?ss = "remap_streams es_mappings strip ss"
  have ok: "length hdr = 8" "length (descs_bytes ds) < 4096" "list_all stream_ok ss"
    using assms(1) by (simp_all add: pmt_ok_def)
  have "length (descs_bytes ?ds) < 4096" using descs_bytes_strip_le [of strip ds] ok(2) by simp
  then have layout: "pmt_layout h p ?ds ?ss = pmt_body h p ?ds ?ss" for h p
    using remap_streams_descs [OF ok(3)] by (rule pmt_layout_eq)
  have "list_all (\<lambda>s. length (descs_bytes (ps_descs s)) < 4096) ss"
    using ok(3) by (auto simp: list_all_iff stream_ok_def)
  then have original: "original = pmt_body hdr pcr ds ss @ crc"
    using assms(2) pmt_layout_eq [OF ok(2)] by simp
  define body where "body = drop 8 (pmt_body hdr new_pcr ?ds ?ss)"
  have body: "pmt_body h new_pcr ?ds ?ss = h @ body" for h
    using ok(1) by (simp add: body_def pmt_body_def)
  have "length (pmt_body hdr new_pcr ?ds ?ss) \<le> 4094"
    using assms(3,4) descs_bytes_strip_le [of strip ds] streams_bytes_remap_le [of es_mappings strip ss]
    by (simp add: original length_pmt_body ok(1))
  from close_section_fields [OF ok(1) this [unfolded body], of crc32]
  have "\<exists>new. patch_pmt_section crc32 original new_pcr es_mappings strip = Some (new @ be_bytes 4 (unat (crc32 new)))
     \<and> new = pmt_layout (hdr ! 0 # be_bytes 2 (unat (hdr ! 1) div 16 * 4096 + (length new + 1)) @ drop 3 hdr) new_pcr ?ds ?ss"
    unfolding layout body original patch_pmt_section_body [OF assms(1,3)] .
  moreover have "?ss = [s\<lparr>ps_pid := pid, ps_descs := if strip then filter (\<lambda>d. fst d \<noteq> 0x09) (ps_descs s) else ps_descs s\<rparr>.
           s \<leftarrow> ss, Some pid \<leftarrow> [map_of es_mappings (ps_pid s)]]"
    by (induction ss) (auto simp: remap_streams_def map_filter_simps strip_ca_def split: option.split)
  ultimately show ?thesis by (simp add: strip_ca_def)
qed

theorem patch_pmt_section_correct_witness:
  "patch_pmt_section (\<lambda>_. 1) [2, 0xB0, 23, 0, 1, 0xC1, 0, 0, 0xE1, 0, 0xF0, 0,
       0x1B, 0xE1, 0, 0xF0, 0,  0x0F, 0xE1, 1, 0xF0, 0, 0, 0, 0, 0] 0x200 [(0x101, 0x201)] True =
     Some [2, 0xB0, 18, 0, 1, 0xC1, 0, 0, 0xE2, 0, 0xF0, 0, 0x0F, 0xE2, 1, 0xF0, 0, 0, 0, 0, 1]"
proof -
  let ?ss = "[\<lparr>ps_type = 0x1B, ps_pid = 0x100, ps_descs = []\<rparr>, \<lparr>ps_type = 0x0F, ps_pid = 0x101, ps_descs = []\<rparr>]"
  have layout: "pmt_layout [2, 0xB0, 23, 0, 1, 0xC1, 0, 0] 0x100 [] ?ss = [2, 0xB0, 23, 0, 1, 0xC1, 0, 0, 0xE1, 0, 0xF0, 0,
       0x1B, 0xE1, 0, 0xF0, 0,  0x0F, 0xE1, 1, 0xF0, 0]"
    by (simp add: pmt_layout_def be_bytes_pair)
  from patch_pmt_section_correct [of "[2, 0xB0, 23, 0, 1, 0xC1, 0, 0]" "[]" ?ss _ "0x100" "[0, 0, 0, 0]" "\<lambda>_. 1" "0x200" "[(0x101, 0x201)]" True, OF _ refl]
  obtain new where new: "patch_pmt_section (\<lambda>_. 1) [2, 0xB0, 23, 0, 1, 0xC1, 0, 0, 0xE1, 0, 0xF0, 0,
       0x1B, 0xE1, 0, 0xF0, 0,  0x0F, 0xE1, 1, 0xF0, 0, 0, 0, 0, 0] 0x200 [(0x101, 0x201)] True = Some (new @ be_bytes 4 1)"
     "new = pmt_layout (2 # be_bytes 2 (0xB000 + (length new + 1)) @ [0, 1, 0xC1, 0, 0]) 0x200 []
         [\<lparr>ps_type = 0x0F, ps_pid = 0x201, ps_descs = []\<rparr>]"
    by (auto simp: pmt_ok_def stream_ok_def layout)
  from arg_cong [OF new(2), of length] have "length new = 17" by (simp add: pmt_layout_def)
  with new(2) have "new = [2, 0xB0, 18, 0, 1, 0xC1, 0, 0, 0xE2, 0, 0xF0, 0, 0x0F, 0xE2, 1, 0xF0, 0]"
    by (simp add: pmt_layout_def be_bytes_pair)
  moreover have "be_bytes 4 1 = [0, 0, 0, 1]" using be_bytes_4 [of 1] by (simp add: to_be32_def)
  ultimately show ?thesis using new(1) by simp
qed

text \<open>
  C32. Reading back a rewritten PMT gives the new PCR PID and the remapped streams; with
  stripping switched on, no stream is reported as scrambled any more.
\<close>

theorem patch_pmt_analyzed:
  assumes "pmt_ok hdr ds ss" and "close_section crc32 (pmt_body hdr pcr ds ss) = Some original"
    and "unat new_pcr < 8192" and "list_all (\<lambda>m. unat (snd m) < 8192) es_mappings"
  shows "\<exists>sec info. patch_pmt_section crc32' original new_pcr es_mappings strip = Some sec
     \<and> analyze_pmt sec = Some info \<and> pmt_pcr_pid info = new_pcr
     \<and> pmt_streams info = map parsed_stream (remap_streams es_mappings strip ss)
     \<and> (strip \<longrightarrow> (\<forall>s \<in> set (pmt_streams info). si_descriptors s key_ca = None))"
proof -
  let ?ds = "strip_ca strip ds" and ?ss = "remap_streams es_mappings strip ss"
  have ok: "pmt_ok hdr ?ds ?ss"
    using assms(1,4) descs_bytes_strip_le [of strip ds]
    by (auto simp: pmt_ok_def intro: remap_streams_ok)
  then obtain sec where sec: "close_section crc32' (pmt_body hdr new_pcr ?ds ?ss) = Some sec"
    by (simp add: close_section_eq length_pmt_body pmt_ok_def)
  have "si_descriptors s key_ca = None" if "strip" "s \<in> set (map parsed_stream ?ss)" for s
    using that
    by (auto simp: parsed_stream_def foldl_desc_entry_ca remap_streams_def strip_ca_def
          map_filter_def in_set_conv_nth split: option.splits)
  then show ?thesis
    using patch_pmt_section_eq [OF assms(1,2)] sec analyze_pmt_section [OF ok assms(3) sec] by simp
qed

theorem patch_pmt_analyzed_witness:
  "\<exists>sec info. patch_pmt_section (\<lambda>_. 1) [2, 0xB0, 21, 0, 1, 0xC1, 0, 0, 0xE1, 0, 0xF0, 3, 9, 1, 7,
       0x1B, 0xE1, 0, 0xF0, 0, 0, 0, 0, 0] 0x200 [(0x100, 0x201)] True = Some sec
     \<and> analyze_pmt sec = Some info \<and> pmt_pcr_pid info = 0x200 \<and> map si_pid (pmt_streams info) = [0x201]"
  using patch_pmt_analyzed [of "[2, 0xB0, 0, 0, 1, 0xC1, 0, 0]" "[(9, [7])]"
     "[\<lparr>ps_type = 0x1B, ps_pid = 0x100, ps_descs = []\<rparr>]"
     "\<lambda>_. 0" "0x100" "[2, 0xB0, 21, 0, 1, 0xC1, 0, 0, 0xE1, 0, 0xF0, 3, 9, 1, 7,
       0x1B, 0xE1, 0, 0xF0, 0, 0, 0, 0, 0]" "0x200" "[(0x100, 0x201)]" "\<lambda>_. 1" True]
  by (force simp: pmt_ok_def stream_ok_def close_section_eq pmt_body_def pid_len_bytes_def stream_bytes_def
        desc_bytes_def remap_streams_def map_filter_simps strip_ca_def to_be32_def parsed_stream_def)

section \<open>Comparing tables\<close>

interpretation pmt_sort: key_sort "\<lambda>d :: stream_info_diff. d" sort
  by unfold_locales auto

text \<open>
  Two program maps count as different exactly when their PCR PIDs differ or the types and
  PIDs of their streams differ as multisets: neither the order of the streams nor their
  descriptors matter.
\<close>

lemma is_pmt_changed_iff:
  "\<not> is_pmt_changed a b \<longleftrightarrow> pmt_pcr_pid a = pmt_pcr_pid b
     \<and> image_mset (\<lambda>s. (si_stream_type s, si_pid s)) (mset (pmt_streams a))
         = image_mset (\<lambda>s. (si_stream_type s, si_pid s)) (mset (pmt_streams b))"
proof -
  let ?pair = "\<lambda>d. (sid_stream_type d, sid_pid d)"
  have "inj ?pair" by (auto intro!: injI simp: stream_info_diff.expand)
  from inj_eq [OF multiset.inj_map [OF this]] have inj: "image_mset ?pair A = image_mset ?pair B \<longleftrightarrow> A = B" for A B .
  moreover have "image_mset (\<lambda>s. (si_stream_type s, si_pid s)) (mset (pmt_streams p))
      = image_mset ?pair (mset (stream_diffs p))" for p
    by (simp add: stream_diffs_def image_mset.compositionality comp_def)
  ultimately have "image_mset (\<lambda>s. (si_stream_type s, si_pid s)) (mset (pmt_streams a))
      = image_mset (\<lambda>s. (si_stream_type s, si_pid s)) (mset (pmt_streams b))
      \<longleftrightarrow> mset (stream_diffs a) = mset (stream_diffs b)"
    by simp
  moreover have "sort (stream_diffs a) = sort (stream_diffs b) \<longleftrightarrow> mset (stream_diffs a) = mset (stream_diffs b)"
    by (metis mset_sort properties_for_sort pmt_sort.sort_sorted list.map_ident)
  moreover have "mset (stream_diffs a) = mset (stream_diffs b) \<Longrightarrow> length (pmt_streams a) = length (pmt_streams b)"
    by (drule mset_eq_length) (simp add: stream_diffs_def)
  ultimately show ?thesis
    by (auto simp: is_pmt_changed_def Let_def)
qed

end
