(* ===== verification/Psi_Sdt.thy ===== *)
theory Psi_Sdt
  imports Psi_Pat Rust_Utf8
begin

text \<open>
  \<open>psi/sdt.rs\<close>: the service description table, read from a section and rewritten with the
  names of an output. The decoders of ISO 8859-5 and UTF-16BE come from the crate \<open>encoding_rs\<close>
  and are parameters (\<open>iso_8859_5\<close>, \<open>utf_16be\<close>).
\<close>

unbundle bit_operations_syntax

record sdt_info =
  sdt_service_id :: u16
  sdt_service_type :: u8
  sdt_provider_name :: rstring
  sdt_service_name :: rstring
  sdt_running_status :: u8

definition decode_iso_6937 :: "bytes \<Rightarrow> rstring" where
  "decode_iso_6937 bs = utf8_lossy bs"

definition parse_dvb_string :: "(bytes \<Rightarrow> rstring) \<Rightarrow> (bytes \<Rightarrow> rstring) \<Rightarrow> bytes \<Rightarrow> rstring" where
  "parse_dvb_string iso_8859_5 utf_16be bs =
    (case bs of [] \<Rightarrow> []
     | b # data \<Rightarrow>
         if b = 0x01 then iso_8859_5 data
         else if b = 0x15 then utf8_lossy data
         else if b = 0x11 then (if length data mod 2 = 0 then utf_16be data else utf8_lossy data)
         else if b \<ge> 0x20 then decode_iso_6937 bs
         else if length bs > 1 then utf8_lossy data
         else [])"

text \<open>One service descriptor (tag \<open>0x48\<close>) of \<open>len\<close> bytes at \<open>pos\<close>.\<close>

definition sdt_service :: "(bytes \<Rightarrow> rstring) \<Rightarrow> (bytes \<Rightarrow> rstring) \<Rightarrow> bytes \<Rightarrow> usize \<Rightarrow> usize \<Rightarrow> u16 \<Rightarrow> u8 \<Rightarrow>
    sdt_info option" where
  "sdt_service iso_8859_5 utf_16be section pos len sid running_status = do {
     service_type \<leftarrow> idx section pos;
     p \<leftarrow> idx section (pos + 1);
     let prov_len = unat p;
     let info = \<lparr>sdt_service_id = sid, sdt_service_type = service_type, sdt_provider_name = [],
                 sdt_service_name = [], sdt_running_status = running_status\<rparr>;
     if pos + 2 + prov_len \<le> pos + len then do {
       prov \<leftarrow> slice section (pos + 2) (pos + 2 + prov_len);
       let info = info\<lparr>sdt_provider_name := parse_dvb_string iso_8859_5 utf_16be prov\<rparr>;
       let serv_len_pos = pos + 2 + prov_len;
       if serv_len_pos + 1 \<le> pos + len then do {
         s \<leftarrow> idx section serv_len_pos;
         let serv_len = unat s;
         if serv_len_pos + 1 + serv_len \<le> pos + len then do {
           serv \<leftarrow> slice section (serv_len_pos + 1) (serv_len_pos + 1 + serv_len);
           Some (info\<lparr>sdt_service_name := parse_dvb_string iso_8859_5 utf_16be serv\<rparr>) }
         else Some info }
       else Some info }
     else Some info }"

function sdt_inner :: "(bytes \<Rightarrow> rstring) \<Rightarrow> (bytes \<Rightarrow> rstring) \<Rightarrow> bytes \<Rightarrow> u16 \<Rightarrow> u8 \<Rightarrow> usize \<Rightarrow> usize \<Rightarrow>
    (usize \<times> sdt_info list) option" where
  "sdt_inner iso_8859_5 utf_16be section sid running_status inner_limit pos =
    (if pos + 2 \<le> inner_limit then do {
       tag \<leftarrow> idx section pos;
       l \<leftarrow> idx section (pos + 1);
       let len = unat l;
       let pos = pos + 2;
       infos \<leftarrow> (if tag = 0x48 \<and> pos + len \<le> inner_limit then do {
            info \<leftarrow> sdt_service iso_8859_5 utf_16be section pos len sid running_status;
            Some [info] }
          else Some []);
       (pos', rest) \<leftarrow> sdt_inner iso_8859_5 utf_16be section sid running_status inner_limit (pos + len);
       Some (pos', infos @ rest) }
     else Some (pos, []))"
  by pat_completeness auto
termination
  by (relation "measure (\<lambda>(dec5, dec16, section, sid, rs, inner_limit, pos). inner_limit - pos)") auto

declare sdt_inner.simps [simp del]

lemma sdt_inner_mono: "sdt_inner dec5 dec16 section sid rs limit pos = Some (pos', infos) \<Longrightarrow> pos \<le> pos'"
proof (induction "limit - pos" arbitrary: pos pos' infos rule: less_induct)
  case less
  show ?case
  proof (cases "pos + 2 \<le> limit")
    case True
    with less.prems obtain l :: u8 and rest where
      "sdt_inner dec5 dec16 section sid rs limit (pos + 2 + unat l) = Some (pos', rest)"
      by (subst (asm) sdt_inner.simps) (auto simp: Let_def split: Option.bind_splits)
    then show ?thesis
      using less.hyps [of "pos + 2 + unat l"] True by force
  next
    case False
    then show ?thesis
      using less.prems by (subst (asm) sdt_inner.simps) simp
  qed
qed

function sdt_loop :: "(bytes \<Rightarrow> rstring) \<Rightarrow> (bytes \<Rightarrow> rstring) \<Rightarrow> bytes \<Rightarrow> usize \<Rightarrow> usize \<Rightarrow>
    sdt_info list option" where
  "sdt_loop iso_8859_5 utf_16be section section_limit pos =
    (if pos + 5 \<le> section_limit then do {
       b0 \<leftarrow> idx section pos;
       b1 \<leftarrow> idx section (pos + 1);
       let sid = be16 b0 b1;
       b2 \<leftarrow> idx section (pos + 2);
       let running_status = drop_bit 5 b2 AND 0x07;
       b3 \<leftarrow> idx section (pos + 3);
       b4 \<leftarrow> idx section (pos + 4);
       let descriptors_loop_len = len12 b3 b4;
       let inner_limit = pos + 5 + descriptors_loop_len;
       (pos', infos) \<leftarrow> sdt_inner iso_8859_5 utf_16be section sid running_status inner_limit (pos + 5);
       rest \<leftarrow> sdt_loop iso_8859_5 utf_16be section section_limit pos';
       Some (infos @ rest) }
     else Some [])"
  by pat_completeness auto
termination
  by (relation "measure (\<lambda>(dec5, dec16, section, section_limit, pos). section_limit - pos)")
     (auto dest!: sdt_inner_mono)

declare sdt_loop.simps [simp del]

definition analyze_sdt :: "(bytes \<Rightarrow> rstring) \<Rightarrow> (bytes \<Rightarrow> rstring) \<Rightarrow> bytes \<Rightarrow> sdt_info list option" where
  "analyze_sdt iso_8859_5 utf_16be section =
    (if length section < 11 then Some [] else do {
     b0 \<leftarrow> idx section 0;
     if b0 \<noteq> 0x42 then Some []
     else sdt_loop iso_8859_5 utf_16be section (usize_sub (length section) 4) 11 })"

definition encode_dvb_string :: "rstring \<Rightarrow> bytes" where
  "encode_dvb_string text = 0x15 # text"

definition service_descriptor :: "u8 \<Rightarrow> rstring \<Rightarrow> rstring \<Rightarrow> bytes" where
  "service_descriptor service_type provider_name service_name =
    (let prov_bytes = encode_dvb_string provider_name;
         serv_bytes = encode_dvb_string service_name
     in [0x48, of_nat (3 + length prov_bytes + length serv_bytes), service_type,
         of_nat (length prov_bytes)] @ prov_bytes @ [of_nat (length serv_bytes)] @ serv_bytes)"

definition patch_sdt_section :: "(bytes \<Rightarrow> u32) \<Rightarrow> bytes \<Rightarrow> u16 \<Rightarrow> u8 \<Rightarrow> rstring \<Rightarrow> rstring \<Rightarrow> bytes option" where
  "patch_sdt_section crc32 original_section new_service_id service_type provider_name service_name = do {
     new_section \<leftarrow> slice original_section 0 11;
     let descriptor = service_descriptor service_type provider_name service_name;
     let service_flags = (4 * 32) OR 0 OR 0x01;
     let desc_len = (of_nat (length descriptor) :: u16);
     let new_section = new_section @ [ucast (drop_bit 8 new_service_id), ucast (new_service_id AND 0xFF),
        service_flags, ucast (drop_bit 8 desc_len) OR 0xF0, ucast desc_len] @ descriptor;
     close_section crc32 new_section }"

definition prepare_sdt :: "(bytes \<Rightarrow> u32) \<Rightarrow> u16 \<Rightarrow> u16 \<Rightarrow> u8 \<Rightarrow> rstring \<Rightarrow> rstring \<Rightarrow> bytes option" where
  "prepare_sdt crc32 transport_stream_id program_id service_type provider_name service_name = do {
     let dummy_section = [0x42, 0xF0, 0x00, ucast (drop_bit 8 transport_stream_id),
        ucast (transport_stream_id AND 0xFF), 0xC1, 0x00, 0x00, 0x00, 0x01, 0xFF];
     section \<leftarrow> patch_sdt_section crc32 dummy_section program_id service_type provider_name service_name;
     Some (pack section 0x0011 0) }"

section \<open>Rewriting and reading back\<close>

lemma parse_encode_dvb_string:
  "utf8_valid text \<Longrightarrow> parse_dvb_string dec5 dec16 (encode_dvb_string text) = text"
  by (simp add: parse_dvb_string_def encode_dvb_string_def utf8_lossy_valid_id)

lemma sdt_service_reads:
  assumes "pre = h @ [0x48, of_nat (5 + length prov + length serv)]" "length prov + length serv \<le> 250"
    "utf8_valid prov" "utf8_valid serv"
  shows "sdt_service dec5 dec16 (h @ service_descriptor ty prov serv @ post) (length pre)
      (5 + length prov + length serv) sid rs
    = Some \<lparr>sdt_service_id = sid, sdt_service_type = ty, sdt_provider_name = prov,
        sdt_service_name = serv, sdt_running_status = rs\<rparr>"
proof -
  let ?p = "encode_dvb_string prov" and ?s = "encode_dvb_string serv"
  have len: "length ?p = length prov + 1" "length ?s = length serv + 1"
    by (simp_all add: encode_dvb_string_def)
  let ?n = "of_nat (length ?p) :: u8" and ?m = "of_nat (length ?s) :: u8"
  have nm: "unat ?n = length prov + 1" "unat ?m = length serv + 1"
    using assms(2) len by (simp_all only: unat_of_nat_u8 le_less_trans [of _ 251 256])
  have sec: "h @ service_descriptor ty prov serv @ post = pre @ ty # ?n # ?p @ ?m # ?s @ post"
    by (simp add: service_descriptor_def Let_def assms(1) len)
  have "drop (4 + length prov) (ty # ?n # ?p @ ?m # ?s @ post) = ?s @ post"
    by (simp add: len eval_nat_numeral)
  then show ?thesis
    unfolding sec sdt_service_def using nm assms(2-4) len
    by (simp add: Let_def nth_append parse_encode_dvb_string)
qed


lemma length_service_descriptor: "length (service_descriptor ty prov serv) = 7 + length prov + length serv"
  by (simp add: service_descriptor_def encode_dvb_string_def Let_def)

lemma sdt_inner_reads:
  assumes "length prov + length serv \<le> 250" "utf8_valid prov" "utf8_valid serv"
  shows "sdt_inner dec5 dec16 (h @ service_descriptor ty prov serv @ post) sid rs
      (length h + 7 + length prov + length serv) (length h)
    = Some (length h + 7 + length prov + length serv,
        [\<lparr>sdt_service_id = sid, sdt_service_type = ty, sdt_provider_name = prov,
        sdt_service_name = serv, sdt_running_status = rs\<rparr>])"
proof -
  let ?sec = "h @ service_descriptor ty prov serv @ post" and ?n = "length h + 7 + length prov + length serv"
  have "?sec ! length h = 0x48" "?sec ! Suc (length h) = of_nat (5 + length prov + length serv)"
    by (simp_all add: service_descriptor_def nth_append Let_def encode_dvb_string_def)
  moreover have "unat (of_nat (5 + length prov + length serv) :: u8) = 5 + length prov + length serv"
    by (rule unat_of_nat_u8) (use assms(1) in simp)
  moreover have "sdt_inner dec5 dec16 ?sec sid rs ?n ?n = Some (?n, [])"
    by (subst sdt_inner.simps) simp
  ultimately show ?thesis
    using sdt_service_reads [OF refl assms, of dec5 dec16 h ty post sid rs]
    by (subst sdt_inner.simps) (simp add: Let_def length_service_descriptor ac_simps)
qed

text \<open>
  C33. A receiver that reads the rewritten SDT finds one running service, with the type and
  both names that were written, character by character. The names have to fit into one
  descriptor: together at most 250 bytes of UTF-8.
\<close>

theorem patch_sdt_analyzed:
  assumes "11 \<le> length original" "original ! 0 = 0x42"
    and "length prov + length serv \<le> 250" "utf8_valid prov" "utf8_valid serv"
  shows "\<exists>sec. patch_sdt_section crc32 original sid ty prov serv = Some sec \<and> section_ok sec
    \<and> analyze_sdt dec5 dec16 sec = Some [\<lparr>sdt_service_id = sid, sdt_service_type = ty,
         sdt_provider_name = prov, sdt_service_name = serv, sdt_running_status = 4\<rparr>]"
proof -
  define d where "d = service_descriptor ty prov serv"
  define len where "len = (of_nat (length d) :: u16)"
  let ?e = "[ucast (drop_bit 8 sid), ucast (sid AND 0xFF), 0x81, ucast (drop_bit 8 len) OR 0xF0, ucast len]"
  let ?new = "take 11 original @ ?e @ d"
  have d: "length d = 7 + length prov + length serv"
    by (simp add: d_def length_service_descriptor)
  have len: "unat len = length d"
    unfolding len_def by (rule unat_of_nat_u16) (use assms(3) d in simp)
  obtain sec where sec: "close_section crc32 ?new = Some sec"
    using assms(1) by (simp add: close_section_eq)
  obtain h' where h': "length h' = 11" "sec = h' @ (?e @ d) @ to_be32 (crc32 (h' @ ?e @ d))" "h' ! 0 = 0x42"
    using assms(1,2) sec by (auto simp: close_section_eq list_update_append nth_append)
  have len12: "len12 (ucast (drop_bit 8 len) OR 0xF0) (ucast len) = length d"
  proof -
    have "take_bit 12 len = len"
      using assms(3) d len by (intro word_take_bit_self) simp
    moreover have "push_bit 8 (ucast (ucast (drop_bit 8 len) OR 0xF0 :: u8) AND 0x0F) OR ucast (ucast len :: u8)
        = take_bit 12 len"
      by (rule word_eq_bits) (simp add: word_bits)
    ultimately show ?thesis by (simp add: len12_def len)
  qed
  have sid: "be16 (ucast (drop_bit 8 sid)) (ucast (sid AND 0xFF)) = sid"
    unfolding be16_def by (rule word_eq_bits) (simp add: word_bits)
  have nth: "sec ! 11 = ?e ! 0" "sec ! 12 = ?e ! 1" "sec ! 13 = ?e ! 2" "sec ! 14 = ?e ! 3" "sec ! 15 = ?e ! 4"
    using h'(1) by (simp_all add: h'(2) nth_append)
  have inner: "sdt_inner dec5 dec16 sec sid 4 (16 + length d) 16 = Some (16 + length d,
      [\<lparr>sdt_service_id = sid, sdt_service_type = ty, sdt_provider_name = prov,
        sdt_service_name = serv, sdt_running_status = 4\<rparr>])"
    using sdt_inner_reads [OF assms(3-5), of dec5 dec16 "h' @ ?e" ty "to_be32 (crc32 (h' @ ?e @ d))" sid 4] h' d
    by (simp add: d_def [symmetric] add.assoc)
  have "length sec = 20 + length d" "sec ! 0 = 0x42" "sec \<noteq> []" using h' by (auto simp: nth_append)
  then have "analyze_sdt dec5 dec16 sec = Some [\<lparr>sdt_service_id = sid, sdt_service_type = ty,
         sdt_provider_name = prov, sdt_service_name = serv, sdt_running_status = 4\<rparr>]"
    using nth inner len12 sid
    by (simp add: analyze_sdt_def sdt_loop.simps [of _ _ _ _ 11] sdt_loop.simps [of _ _ _ _ "16 + length d"] Let_def)
  moreover have "patch_sdt_section crc32 original sid ty prov serv = Some sec"
    using sec assms(1) by (simp add: patch_sdt_section_def Let_def d_def len_def)
  moreover have "section_ok sec"
    by (rule close_section_whole [OF _ _ sec]) (use assms d in auto)
  ultimately show ?thesis by blast
qed


lemma utf8_valid_ascii: "list_all (\<lambda>b. b < 0x80) bs \<Longrightarrow> utf8_valid bs"
  by (induction bs)
     (simp_all add: utf8_valid.simps [of "[]"] utf8_valid.simps [of "_ # _"] utf8_first_def utf8_seq_def
        utf8_width_def utf8_get_def Let_def)

theorem patch_sdt_analyzed_witness:
  "\<exists>sec. patch_sdt_section (\<lambda>_. 0) [0x42, 0xF0, 0, 0, 1, 0xC1, 0, 0, 0, 1, 0xFF] 7 1 [0x61] [0x62, 0x63] = Some sec
    \<and> section_ok sec \<and> analyze_sdt (\<lambda>bs. bs) (\<lambda>bs. bs) sec = Some [\<lparr>sdt_service_id = 7, sdt_service_type = 1,
         sdt_provider_name = [0x61], sdt_service_name = [0x62, 0x63], sdt_running_status = 4\<rparr>]"
  by (rule patch_sdt_analyzed) (simp_all add: utf8_valid_ascii)

text \<open>
  The section an output announces itself with is packed into one packet; the names have to be
  short enough for it.
\<close>

lemma prepare_sdt_packet:
  assumes "length prov + length serv \<le> 250"
  obtains sec p where "patch_sdt_section crc32 [0x42, 0xF0, 0x00, ucast (drop_bit 8 tsid), ucast (tsid AND 0xFF),
      0xC1, 0x00, 0x00, 0x00, 0x01, 0xFF] prog ty prov serv = Some sec"
    "prepare_sdt crc32 tsid prog ty prov serv = Some p" "p = pack sec 0x0011 0"
proof -
  have "patch_sdt_section crc32 [0x42, 0xF0, 0x00, ucast (drop_bit 8 tsid), ucast (tsid AND 0xFF),
      0xC1, 0x00, 0x00, 0x00, 0x01, 0xFF] prog ty prov serv \<noteq> None"
    by (simp add: patch_sdt_section_def Let_def close_section_eq)
  then show thesis
    using that by (auto simp: prepare_sdt_def Let_def)
qed

end
