(* ===== verification/Biss.thy ===== *)
theory Biss
  imports Ts_Packet Rust_Utf8
begin

text \<open>
  \<open>biss.rs\<close>, with \<open>sync_buffer\<close> and \<open>init_biss\<close> of \<open>mux.rs\<close>: the control word from the hexadecimal
  key, the descrambling of packets in place and the search for the packet raster. The cipher
  is the C library \<open>dvbcsa\<close>: \<open>decrypt cw data\<close> stands for \<open>dvbcsa_key_set\<close> with the control word \<open>cw\<close>
  followed by \<open>dvbcsa_decrypt\<close>. The feature \<open>dvbcsa\<close> may be disabled and the allocation of a key
  may fail; both are arguments.
\<close>

unbundle bit_operations_syntax

datatype biss_error = BadKeyLength | NotSixBytes | OddHex | InvalidHexDigit | AllocFailed
  | FeatureDisabled | KeyEmpty

record descrambler =
  d_key_even :: bytes
  d_key_odd :: bytes

section \<open>The packet raster\<close>

definition position :: "('a \<Rightarrow> bool) \<Rightarrow> 'a list \<Rightarrow> usize option" where
  "position P xs = (if list_ex P xs then Some (length (takeWhile (\<lambda>x. \<not> P x) xs)) else None)"

function sync_buffer :: "bytes \<Rightarrow> bytes \<times> bool" where
  "sync_buffer buff =
    (if length buff \<ge> TS_PACKET_SIZE * 3 then
       (if buff ! 0 = TS_SYNC_BYTE \<and> buff ! TS_PACKET_SIZE = TS_SYNC_BYTE
           \<and> buff ! (TS_PACKET_SIZE * 2) = TS_SYNC_BYTE then (buff, True)
        else case position (\<lambda>b. b = TS_SYNC_BYTE) (drop 1 buff) of
            Some pos \<Rightarrow> sync_buffer (drop (pos + 1) buff)
          | None \<Rightarrow> ([], False))
     else (buff, False))"
  by pat_completeness auto
termination
  by (relation "measure length") (auto simp: TS_PACKET_SIZE_def)

declare sync_buffer.simps [simp del]

section \<open>Keys\<close>

definition hex_val :: "u8 \<Rightarrow> biss_error + u8" where
  "hex_val b = (if 0x30 \<le> b \<and> b \<le> 0x39 then Inr (b - 0x30)
     else if 0x61 \<le> b \<and> b \<le> 0x66 then Inr (b - 0x61 + 10)
     else if 0x41 \<le> b \<and> b \<le> 0x46 then Inr (b - 0x41 + 10)
     else Inl InvalidHexDigit)"

fun hex_pairs :: "bytes \<Rightarrow> biss_error + bytes" where
  "hex_pairs [] = Inr []"
| "hex_pairs [b] = Inl OddHex"
| "hex_pairs (a # b # rest) =
    (case hex_val a of Inl e \<Rightarrow> Inl e
     | Inr hi \<Rightarrow> (case hex_val b of Inl e \<Rightarrow> Inl e
       | Inr lo \<Rightarrow> (case hex_pairs rest of Inl e \<Rightarrow> Inl e
         | Inr out \<Rightarrow> Inr ((push_bit 4 hi OR lo) # out))))"

definition parse_hex_bytes :: "rstring \<Rightarrow> biss_error + bytes" where
  "parse_hex_bytes s = (if length s mod 2 \<noteq> 0 then Inl OddHex else hex_pairs s)"

definition strip_0x :: "rstring \<Rightarrow> rstring" where
  "strip_0x s = (if take 2 s = [0x30, 0x78] then drop 2 s else s)"

definition parse_biss1_key :: "rstring \<Rightarrow> biss_error + bytes" where
  "parse_biss1_key key_hex =
    (let s = strip_0x (trim key_hex)
     in if length s \<noteq> 12 \<and> length s \<noteq> 16 then Inl BadKeyLength
        else case parse_hex_bytes s of Inl e \<Rightarrow> Inl e
          | Inr bs \<Rightarrow>
              if length bs = 8 then Inr bs
              else if length bs \<noteq> 6 then Inl NotSixBytes
              else let csum1 = bs ! 0 + bs ! 1 + bs ! 2;
                       csum2 = bs ! 3 + bs ! 4 + bs ! 5
                   in Inr [bs ! 0, bs ! 1, bs ! 2, csum1, bs ! 3, bs ! 4, bs ! 5, csum2])"

definition new_from_hex :: "bool \<Rightarrow> bool \<Rightarrow> rstring \<Rightarrow> biss_error + descrambler" where
  "new_from_hex dvbcsa alloc_ok key_hex =
    (case parse_biss1_key key_hex of Inl e \<Rightarrow> Inl e
     | Inr cw \<Rightarrow> if \<not> dvbcsa then Inl FeatureDisabled
         else if \<not> alloc_ok then Inl AllocFailed
         else Inr \<lparr>d_key_even = cw, d_key_odd = cw\<rparr>)"

definition init_biss :: "bool \<Rightarrow> bool \<Rightarrow> rstring \<Rightarrow> biss_error + descrambler" where
  "init_biss dvbcsa alloc_ok biss_key =
    (if length biss_key > 0 then
       (case new_from_hex dvbcsa alloc_ok biss_key of Inr biss \<Rightarrow> Inr biss | Inl e \<Rightarrow> Inl e)
     else Inl KeyEmpty)"

section \<open>Descrambling\<close>

definition descramble_ts_packet ::
  "(bytes \<Rightarrow> bytes \<Rightarrow> bytes) \<Rightarrow> bool \<Rightarrow> descrambler \<Rightarrow> bytes \<Rightarrow> (bytes \<times> (biss_error + bool)) option" where
  "descramble_ts_packet decrypt dvbcsa d packet = do {
     b0 \<leftarrow> idx packet 0;
     if b0 \<noteq> 0x47 then Some (packet, Inr False) else do {
     b3 \<leftarrow> idx packet 3;
     let scrambling = b3 AND 0xC0;
     if scrambling = 0 \<or> scrambling = 0x40 then Some (packet, Inr False) else do {
     let af_control = drop_bit 4 b3 AND 0x03;
     payload_offset \<leftarrow> (if af_control = 1 then Some 4
        else if af_control = 3 then do { l \<leftarrow> idx packet 4; Some (5 + unat l) }
        else Some TS_PACKET_SIZE);
     if payload_offset + 8 > TS_PACKET_SIZE then do {
       packet \<leftarrow> upd packet 3 (b3 AND 0x3F);
       Some (packet, Inr False) }
     else if dvbcsa then do {
       let key = (if scrambling = 0x80 then d_key_even d else d_key_odd d);
       payload \<leftarrow> slice_from packet payload_offset;
       let packet = take payload_offset packet @ decrypt key payload;
       packet \<leftarrow> upd packet 3 (b3 AND 0x3F);
       Some (packet, Inr True) }
     else Some (packet, Inl FeatureDisabled) }}}"

text \<open>The loop over \<open>chunks_exact_mut\<close>: an error leaves the rest of the buffer as it is.\<close>

function descramble_ts_packets ::
  "(bytes \<Rightarrow> bytes \<Rightarrow> bytes) \<Rightarrow> bool \<Rightarrow> descrambler \<Rightarrow> bytes \<Rightarrow> (bytes \<times> (biss_error + usize)) option" where
  "descramble_ts_packets decrypt dvbcsa d data =
    (if length data < TS_PACKET_SIZE then Some (data, Inr 0)
     else do {
       (packet, res) \<leftarrow> descramble_ts_packet decrypt dvbcsa d (take TS_PACKET_SIZE data);
       case res of Inl e \<Rightarrow> Some (packet @ drop TS_PACKET_SIZE data, Inl e)
       | Inr done \<Rightarrow> do {
           (rest, res') \<leftarrow> descramble_ts_packets decrypt dvbcsa d (drop TS_PACKET_SIZE data);
           Some (packet @ rest, case res' of Inl e \<Rightarrow> Inl e
             | Inr processed \<Rightarrow> Inr (if done then processed + 1 else processed)) }})"
  by pat_completeness auto
termination
  by (relation "measure (\<lambda>(decrypt, dvbcsa, d, data). length data)") (auto simp: TS_PACKET_SIZE_def)

declare descramble_ts_packets.simps [simp del]

definition descramble_ts_stream ::
  "(bytes \<Rightarrow> bytes \<Rightarrow> bytes) \<Rightarrow> bool \<Rightarrow> descrambler \<Rightarrow> bytes \<Rightarrow> (bytes \<times> (biss_error + bytes option)) option" where
  "descramble_ts_stream decrypt dvbcsa d buff =
    (let (buff, synced) = sync_buffer buff
     in if \<not> synced then Some (buff, Inr None)
        else do {
          let len = (length buff div TS_PACKET_SIZE) * TS_PACKET_SIZE;
          (data, res) \<leftarrow> descramble_ts_packets decrypt dvbcsa d (take len buff);
          case res of Inl e \<Rightarrow> Some (data @ drop len buff, Inl e)
          | Inr _ \<Rightarrow> Some (drop len buff, Inr (Some data)) })"

section \<open>Finding the raster\<close>

text \<open>A position where three packets in a row start with the sync byte.\<close>

definition raster_at :: "bytes \<Rightarrow> usize \<Rightarrow> bool" where
  "raster_at b k \<longleftrightarrow> k + 564 \<le> length b \<and> b ! k = TS_SYNC_BYTE \<and> b ! (k + 188) = TS_SYNC_BYTE
     \<and> b ! (k + 376) = TS_SYNC_BYTE"

lemma raster_at_drop: "raster_at (drop n b) k \<longleftrightarrow> raster_at b (n + k)"
  by (auto simp: raster_at_def add.assoc)

lemma raster_at_sync: "raster_at b k \<Longrightarrow> k < length b \<and> b ! k = TS_SYNC_BYTE"
  by (simp add: raster_at_def)

lemma position_Some:
  assumes "position P xs = Some k"
  shows "k < length xs" "P (xs ! k)" "\<And>j. j < k \<Longrightarrow> \<not> P (xs ! j)"
proof -
  have k: "k = length (takeWhile (\<lambda>x. \<not> P x) xs)" "list_ex P xs"
    using assms by (auto simp: position_def split: if_splits)
  then have "takeWhile (\<lambda>x. \<not> P x) xs \<noteq> xs"
    by (auto simp: takeWhile_eq_all_conv list_ex_iff)
  then show "k < length xs"
    unfolding k by (metis length_takeWhile_le le_neq_implies_less takeWhile_eq_take take_all_iff order_refl)
  then show "P (xs ! k)" unfolding k using nth_length_takeWhile [of "\<lambda>x. \<not> P x" xs] by simp
  show "\<not> P (xs ! j)" if "j < k" for j
    using that unfolding k by (metis nth_mem set_takeWhileD takeWhile_nth)
qed

lemma position_None: "position P xs = None \<longleftrightarrow> (\<forall>x \<in> set xs. \<not> P x)"
  by (auto simp: position_def list_ex_iff)

lemma sync_buffer_drop:
  "\<exists>k. fst (sync_buffer b) = drop k b \<and> (\<forall>j<k. \<not> raster_at b j)
     \<and> (if snd (sync_buffer b) then raster_at b k else length (drop k b) < 564)"
proof (induction b rule: sync_buffer.induct)
  case (1 b)
  let ?sync = "b ! 0 = TS_SYNC_BYTE \<and> b ! TS_PACKET_SIZE = TS_SYNC_BYTE \<and> b ! (TS_PACKET_SIZE * 2) = TS_SYNC_BYTE"
  consider (short) "length b < 564" | (synced) "564 \<le> length b" ?sync | (search) "564 \<le> length b" "\<not> ?sync"
    by linarith
  then show ?case
  proof cases
    case short
    then show ?thesis
      by (intro exI [of _ 0]) (simp add: sync_buffer.simps [of b] TS_PACKET_SIZE_def)
  next
    case synced
    then show ?thesis
      by (intro exI [of _ 0]) (simp add: sync_buffer.simps [of b] TS_PACKET_SIZE_def raster_at_def)
  next
    case search
    then have not0: "\<not> raster_at b 0" by (simp add: raster_at_def TS_PACKET_SIZE_def)
    show ?thesis
    proof (cases "position (\<lambda>b. b = TS_SYNC_BYTE) (drop 1 b)")
      case None
      have "\<not> raster_at b j" for j
      proof
        assume r: "raster_at b j"
        with not0 have "0 < j" by (cases j) auto
        then have "b ! j \<in> set (drop 1 b)"
          using raster_at_sync [OF r] by (auto simp: in_set_conv_nth intro!: exI [of _ "j - 1"])
        then show False using None raster_at_sync [OF r] by (auto simp: position_None)
      qed
      then show ?thesis
        using search None by (intro exI [of _ "length b"]) (auto simp: sync_buffer.simps [of b] TS_PACKET_SIZE_def)
    next
      case (Some pos)
      note P = position_Some [OF Some]
      have step: "sync_buffer b = sync_buffer (drop (pos + 1) b)"
        using search Some by (auto simp: sync_buffer.simps [of b] TS_PACKET_SIZE_def)
      obtain k where k: "fst (sync_buffer (drop (pos + 1) b)) = drop k (drop (pos + 1) b)"
          "\<forall>j<k. \<not> raster_at (drop (pos + 1) b) j"
          "if snd (sync_buffer (drop (pos + 1) b)) then raster_at (drop (pos + 1) b) k
           else length (drop k (drop (pos + 1) b)) < 564"
        using 1 [of pos] search Some by (auto simp: TS_PACKET_SIZE_def)
      have "\<not> raster_at b j" if "j < pos + 1 + k" for j
      proof (cases "j = 0 \<or> pos + 1 \<le> j")
        case True
        then show ?thesis
          using that not0 k(2) [rule_format, of "j - (pos + 1)"] by (cases "j = 0") (auto simp: raster_at_drop less_diff_conv2)
      next
        case False
        then have "0 < j" "j - 1 < pos" by auto
        then show ?thesis using P(3) [of "j - 1"] raster_at_sync [of b j] by auto
      qed
      then show ?thesis
        using k(1,3) by (intro exI [of _ "pos + 1 + k"]) (auto simp: step raster_at_drop add.commute)
    qed
  qed
qed

text \<open>
  The search for the packet raster drops bytes from the front only, stops at the first
  position where three packets in a row start with the sync byte, and, when it reports no
  synchronisation, has dropped no such position and leaves less than three packets to wait
  for more input with.
\<close>

theorem sync_buffer_first_raster:
  "\<exists>k. fst (sync_buffer b) = drop k b \<and> (\<forall>j<k. \<not> raster_at b j)
     \<and> (if snd (sync_buffer b) then raster_at b k else length (drop k b) < 564)"
  by (rule sync_buffer_drop)

theorem sync_buffer_first_raster_witness:
  "fst (sync_buffer (0 # concat (replicate 3 (0x47 # replicate 187 0)))) = concat (replicate 3 (0x47 # replicate 187 0))"
proof -
  let ?p = "0x47 # replicate 187 (0 :: u8)"
  let ?b = "0 # concat (replicate 3 ?p)"
  have three: "concat (replicate 3 ?p) = ?p @ ?p @ ?p" by (simp add: numeral_eq_Suc)
  have r: "raster_at ?b 1" "\<not> raster_at ?b 0" "length ?b = 565"
    by (simp_all add: raster_at_def three TS_SYNC_BYTE_def nth_append nth_Cons')
  obtain k where k: "fst (sync_buffer ?b) = drop k ?b" "\<forall>j<k. \<not> raster_at ?b j"
      "if snd (sync_buffer ?b) then raster_at ?b k else length (drop k ?b) < 564"
    using sync_buffer_first_raster [of ?b] by blast
  then have "k = 1"
    using r by (cases "k = 0"; cases "k = 1") (auto split: if_splits)
  then show ?thesis using k(1) by simp
qed

section \<open>Descrambling undoes scrambling\<close>

text \<open>What a scrambler does to a clear packet with the payload at \<open>off\<close>, for one of both parities.\<close>

definition ts_payload_offset :: "bytes \<Rightarrow> usize" where
  "ts_payload_offset p = (if drop_bit 4 (p ! 3) AND 0x03 = 1 then 4
     else if drop_bit 4 (p ! 3) AND 0x03 = 3 then 5 + unat (p ! 4) else TS_PACKET_SIZE)"

definition scramble :: "(bytes \<Rightarrow> bytes \<Rightarrow> bytes) \<Rightarrow> bool \<Rightarrow> bytes \<Rightarrow> bytes \<Rightarrow> bytes" where
  "scramble encrypt odd_key key p = (let off = ts_payload_offset p in
     (take off p @ encrypt key (drop off p))[3 := (p ! 3 AND 0x3F) OR (if odd_key then 0xC0 else 0x80)])"

lemma scrambling_bits:
  "((b AND 0x3F) OR (if o1 then 0xC0 else 0x80) :: u8) AND 0xC0 = (if o1 then 0xC0 else 0x80)"
  "drop_bit 4 ((b AND 0x3F) OR (if o1 then 0xC0 else 0x80) :: u8) AND 0x03 = drop_bit 4 b AND 0x03"
  "((b AND 0x3F) OR (if o1 then 0xC0 else 0x80) :: u8) AND 0x3F = b AND 0x3F"
  by (rule word_eq_bits, simp add: word_bits)+

text \<open>
  C36. Descrambling is the inverse of scrambling: for every cipher whose decryption inverts its
  encryption of a block of the same length, a packet scrambled with either parity of the
  control word is restored byte for byte, its scrambling control cleared, whatever adaptation
  field precedes the payload.
\<close>

theorem descramble_scramble:
  assumes "\<And>k x. decrypt k (encrypt k x) = x" "\<And>k x. length (encrypt k x) = length x"
    and "length p = 188" "p ! 0 = TS_SYNC_BYTE" "p ! 3 AND 0xC0 = 0" "ts_payload_offset p \<le> 180"
    and "d_key_even d = cw" "d_key_odd d = cw"
  shows "descramble_ts_packet decrypt True d (scramble encrypt odd_key cw p) = Some (p, Inr True)"
proof -
  define off where "off = ts_payload_offset p"
  define b3 where "b3 = (p ! 3 AND 0x3F) OR (if odd_key then 0xC0 else 0x80)"
  define q where "q = scramble encrypt odd_key cw p"
  have off: "4 \<le> off" "off \<le> 180" "off \<noteq> 188"
    using assms(6) by (auto simp: off_def ts_payload_offset_def TS_PACKET_SIZE_def)
  have q: "q = (take off p @ encrypt cw (drop off p))[3 := b3]" "length q = 188"
    using assms(2,3) off by (simp_all add: q_def scramble_def Let_def off_def b3_def)
  have nth: "q ! 0 = 0x47" "q ! 3 = b3" "off > 4 \<Longrightarrow> q ! 4 = p ! 4"
    using off assms(3,4) by (auto simp: q nth_append TS_SYNC_BYTE_def)
  note bits = scrambling_bits [of "p ! 3" odd_key, folded b3_def]
  have clear: "p ! 3 AND 0x3F = p ! 3"
  proof -
    have "(p ! 3 AND 0x3F) OR (p ! 3 AND 0xC0) = p ! 3"
      by (rule word_eq_bits) (simp add: word_bits)
    then show ?thesis using assms(5) by simp
  qed
  have po: "(if drop_bit 4 b3 AND 0x03 = 1 then Some 4
      else if drop_bit 4 b3 AND 0x03 = 3 then idx q 4 \<bind> (\<lambda>l. Some (5 + unat l)) else Some TS_PACKET_SIZE) = Some off"
    using nth off q(2) assms(6) unfolding bits by (auto simp: off_def ts_payload_offset_def)
  have "drop off q = encrypt cw (drop off p)" "take off q = (take off p)[3 := b3]"
    using off assms(3) by (simp_all add: q list_update_append)
  moreover have "(take off p)[3 := p ! 3] = take off p"
    using off assms(3) by (intro list_update_same_conv [THEN iffD2]) auto
  ultimately have "(take off q @ decrypt cw (drop off q))[3 := p ! 3] = p"
    using off assms(1,3) by (simp add: list_update_append)
  then have "descramble_ts_packet decrypt True d q = Some (p, Inr True)"
    using nth q(2) po off assms(7,8) bits(1,3) clear
    by (auto simp: descramble_ts_packet_def Let_def TS_PACKET_SIZE_def)
  then show ?thesis by (simp add: q_def)
qed

theorem descramble_scramble_witness:
  "descramble_ts_packet (\<lambda>k x. map (\<lambda>b. b XOR 0x55) x) True \<lparr>d_key_even = [1], d_key_odd = [1]\<rparr>
     (scramble (\<lambda>k x. map (\<lambda>b. b XOR 0x55) x) False [1] ([0x47, 1, 0, 0x10] @ replicate 184 7))
   = Some ([0x47, 1, 0, 0x10] @ replicate 184 7, Inr True)"
  by (rule descramble_scramble)
     (simp_all add: comp_def xor.assoc ts_payload_offset_def TS_SYNC_BYTE_def)

section \<open>Keys\<close>

definition hex_digit :: "u8 \<Rightarrow> u8" where
  "hex_digit n = (if n < 10 then 0x30 + n else 0x61 + (n - 10))"

definition hex_of :: "bytes \<Rightarrow> rstring" where
  "hex_of bs = concat (map (\<lambda>b. [hex_digit (drop_bit 4 b), hex_digit (b AND 0x0F)]) bs)"

definition graphic :: "u8 \<Rightarrow> bool" where
  "graphic b \<longleftrightarrow> 0x21 \<le> b \<and> b \<le> 0x7E"

lemma nibble_less: "drop_bit 4 b < (16 :: u8)" "b AND 0x0F < (16 :: u8)"
proof -
  have "unat (drop_bit 4 b) < 16"
    by (simp add: unsigned_drop_bit_eq drop_bit_eq_div unat_div less_mult_imp_div_less)
  then show "drop_bit 4 b < 16" by (simp add: word_less_nat_alt)
  show "b AND 0x0F < 16" by (simp add: word_less_nat_alt unat_and_0F)
qed

lemma hex_digit_props:
  assumes "n < 16"
  shows "hex_val (hex_digit n) = Inr n" "graphic (hex_digit n)" "hex_digit n \<noteq> 0x78"
proof -
  have "list_all (\<lambda>n. hex_val (hex_digit n) = Inr n \<and> graphic (hex_digit n) \<and> hex_digit n \<noteq> 0x78)
      [0, 1, 2, 3, 4, 5, 6, 7, 8, 9, 10, 11, 12, 13, 14, 15]"
    by (simp add: hex_val_def hex_digit_def graphic_def)
  moreover have "n \<in> set [0, 1, 2, 3, 4, 5, 6, 7, 8, 9, 10, 11, 12, 13, 14, 15]"
  proof -
    have "unat n \<in> {..<16}" using assms by (simp add: word_less_nat_alt)
    then have "of_nat (unat n) \<in> (of_nat ` {..<16} :: u8 set)" by (rule imageI)
    then show ?thesis by (simp add: lessThan_nat_numeral lessThan_Suc) auto
  qed
  ultimately show "hex_val (hex_digit n) = Inr n" "graphic (hex_digit n)" "hex_digit n \<noteq> 0x78"
    unfolding list_all_iff by blast+
qed

lemma hex_pairs_hex_of: "hex_pairs (hex_of bs) = Inr bs"
proof (induction bs)
  case (Cons b bs)
  have "push_bit 4 (drop_bit 4 b) OR (b AND 0x0F) = b"
    by (rule word_eq_bits) (simp add: word_bits)
  then show ?case
    using Cons hex_digit_props(1) [OF nibble_less(1)] hex_digit_props(1) [OF nibble_less(2)]
    by (simp add: hex_of_def)
qed (simp add: hex_of_def)

lemma length_hex_of: "length (hex_of bs) = 2 * length bs"
  by (induction bs) (auto simp: hex_of_def)

lemma hex_of_graphic: "list_all graphic (hex_of bs)" "0x78 \<notin> set (hex_of bs)"
  by (induction bs) (auto simp: hex_of_def hex_digit_props nibble_less dest: sym)

lemma trim_graphic:
  assumes "list_all graphic s"
  shows "trim s = s"
proof -
  have tw: "trim_with ws t = t" if "list_all graphic t" and ws: "\<forall>w \<in> set ws. w \<noteq> [] \<and> \<not> graphic (hd w)" for ws t
  proof -
    have "take (length w) t \<noteq> w" if "w \<in> set ws" "t \<noteq> []" for w
    proof
      assume "take (length w) t = w"
      moreover have "w \<noteq> []" "\<not> graphic (hd w)" using ws that(1) by auto
      ultimately have "\<not> graphic (hd t)" by (metis hd_take length_greater_0_conv)
      then show False using \<open>list_all graphic t\<close> that(2) by (cases t) auto
    qed
    then have "filter (\<lambda>w. take (length w) t = w) ws = [] \<or> t = []"
      by (auto simp: filter_empty_conv)
    then show ?thesis by (subst trim_with.simps) (auto simp: ws_prefix_def)
  qed
  show ?thesis
    using assms tw [of s white_space] tw [of "rev s" "map rev white_space"]
    by (simp add: trim_def trim_start_def trim_end_def white_space_def graphic_def)
qed

text \<open>
  A key is read as it is written: sixteen hexadecimal digits are the eight bytes of the
  control word, and twelve digits are its six free bytes, completed by the sums of the first
  and of the last three as check bytes. The digits may be prefixed by \<open>0x\<close>.
\<close>

theorem parse_biss1_key_hex:
  assumes "prefix = [] \<or> prefix = [0x30, 0x78]"
  shows "parse_biss1_key (prefix @ hex_of [a, b, c, d, e, f, g, h]) = Inr [a, b, c, d, e, f, g, h]
    \<and> parse_biss1_key (prefix @ hex_of [a, b, c, d, e, f]) = Inr [a, b, c, a + b + c, d, e, f, d + e + f]"
proof -
  have "list_all graphic prefix" using assms by (auto simp: graphic_def)
  then have trim: "trim (prefix @ hex_of bs) = prefix @ hex_of bs" for bs
    using hex_of_graphic(1) [of bs] by (intro trim_graphic) simp
  have "take 2 (hex_of bs) \<noteq> [0x30, 0x78]" for bs
    using hex_of_graphic(2) [of bs] by (metis in_set_takeD list.set_intros)
  then have strip: "strip_0x (trim (prefix @ hex_of bs)) = hex_of bs" for bs
    unfolding trim using assms by (auto simp: strip_0x_def)
  show ?thesis
    by (simp add: parse_biss1_key_def strip parse_hex_bytes_def length_hex_of hex_pairs_hex_of Let_def)
qed

theorem parse_biss1_key_hex_witness:
  "parse_biss1_key (hex_of [0x11, 0x22, 0x33, 0xF0, 0x10, 0x01]) = Inr [0x11, 0x22, 0x33, 0x66, 0xF0, 0x10, 0x01, 0x01]"
  using parse_biss1_key_hex [of "[]" "0x11" "0x22" "0x33" "0xF0" "0x10" "0x01"] by simp

end
