(* ===== verification/Config.thy ===== *)
theory Config
  imports Rust_Float
begin

text \<open>
  \<open>config.rs\<close>: the configuration records and the checks made on a configuration before it is
  used. Reading and writing the file is in \<open>Config_File\<close>; the parser of JSON is a parameter there.
\<close>

record http_router_config =
  hrc_id :: u32
  hrc_url :: rstring
  hrc_routes :: "rstring list"
  hrc_allow :: "rstring list"

record epg_config =
  ec_id :: u32
  ec_url :: rstring

record mgnt =
  mg_hash :: rstring
  mg_last_update :: rat
  mg_admin_url :: rstring
  mg_allow :: "rstring list"

record program =
  pr_program_id :: u16
  pr_audio_pids :: "u16 list"
  pr_video_pids :: "u16 list"
  pr_pmt_pid :: u16
  pr_pcr_pid :: u16
  pr_service_name :: rstring
  pr_service_provider_name :: rstring
  pr_service_type :: u32
  pr_buffer_duration :: u64
  pr_jitter :: u64
  pr_adjust_buf :: u64

record output_config =
  o_id :: u32
  o_name :: rstring
  o_output_url :: rstring
  o_task_type :: rstring
  o_biss_key :: rstring
  o_ca_flag :: usize
  o_pkt_size :: u16
  o_cbr :: u32
  o_proxy :: bool
  o_allow :: "rstring list"
  o_programs :: "program list"
  o_err_count :: u32

record stream =
  s_id :: u32
  s_remote_url :: rstring
  s_biss_key :: rstring
  s_name :: rstring
  s_task_type :: rstring
  s_outputs :: "output_config list"
  s_err_count :: u32

record config =
  c_mgnt :: mgnt
  c_epg_configs :: "epg_config list"
  c_streams :: "stream list"
  c_http_routers :: "http_router_config list"

definition CA_FLAG_UNSCRAMBLED :: usize where
  "CA_FLAG_UNSCRAMBLED = 1"

text \<open>The task types \<open>"udp"\<close>, \<open>"rtp"\<close>, \<open>"http"\<close>, \<open>"ffmpeg"\<close>, \<open>"hls"\<close> and \<open>"unix"\<close>.\<close>

definition ALLOWED_TASK_TYPES :: "rstring list" where
  "ALLOWED_TASK_TYPES = [[0x75, 0x64, 0x70], [0x72, 0x74, 0x70], [0x68, 0x74, 0x74, 0x70],
     [0x66, 0x66, 0x6D, 0x70, 0x65, 0x67], [0x68, 0x6C, 0x73], [0x75, 0x6E, 0x69, 0x78]]"

definition get_stream :: "config \<Rightarrow> u32 \<Rightarrow> stream option" where
  "get_stream c i = List.find (\<lambda>s. s_id s = i) (c_streams c)"

definition is_task_type_allowed :: "rstring \<Rightarrow> bool" where
  "is_task_type_allowed task_type = list_ex (\<lambda>allowed. allowed = task_type) ALLOWED_TASK_TYPES"

datatype config_error =
    UnsupportedStream u32 rstring
  | UnsupportedOutput u32 u32 rstring

fun validate_outputs :: "u32 \<Rightarrow> output_config list \<Rightarrow> config_error + unit" where
  "validate_outputs sid [] = Inr ()"
| "validate_outputs sid (out # outs) =
    (if \<not> is_task_type_allowed (o_task_type out)
     then Inl (UnsupportedOutput (o_id out) sid (o_task_type out))
     else validate_outputs sid outs)"

fun validate_streams :: "stream list \<Rightarrow> config_error + unit" where
  "validate_streams [] = Inr ()"
| "validate_streams (s # ss) =
    (if \<not> is_task_type_allowed (s_task_type s)
     then Inl (UnsupportedStream (s_id s) (s_task_type s))
     else case validate_outputs (s_id s) (s_outputs s) of
         Inl e \<Rightarrow> Inl e
       | Inr _ \<Rightarrow> validate_streams ss)"

definition validate_config :: "config \<Rightarrow> config_error + unit" where
  "validate_config cfg = validate_streams (c_streams cfg)"

section \<open>What a validated configuration promises\<close>

definition output_allowed :: "output_config \<Rightarrow> bool" where
  "output_allowed out \<longleftrightarrow> o_task_type out \<in> set ALLOWED_TASK_TYPES"

definition stream_types_allowed :: "stream \<Rightarrow> bool" where
  "stream_types_allowed s \<longleftrightarrow> s_task_type s \<in> set ALLOWED_TASK_TYPES \<and> list_all output_allowed (s_outputs s)"

lemma is_task_type_allowed_iff: "is_task_type_allowed t \<longleftrightarrow> t \<in> set ALLOWED_TASK_TYPES"
  by (auto simp: is_task_type_allowed_def list_ex_iff)

lemma validate_outputs_ok: "validate_outputs sid outs = Inr u \<longleftrightarrow> list_all output_allowed outs"
  by (induction outs) (auto simp: is_task_type_allowed_iff output_allowed_def)

lemma validate_outputs_error:
  "validate_outputs sid outs = Inl e \<Longrightarrow> \<exists>pre out post. outs = pre @ out # post
     \<and> list_all output_allowed pre \<and> \<not> output_allowed out \<and> e = UnsupportedOutput (o_id out) sid (o_task_type out)"
proof (induction outs)
  case (Cons out outs)
  show ?case
  proof (cases "is_task_type_allowed (o_task_type out)")
    case True
    then obtain pre out' post where "outs = pre @ out' # post" "list_all output_allowed pre"
        "\<not> output_allowed out'" "e = UnsupportedOutput (o_id out') sid (o_task_type out')"
      using Cons by auto
    then show ?thesis
      using True output_allowed_def [of out] by (intro exI [of _ "out # pre"]) (auto simp: is_task_type_allowed_iff)
  next
    case False
    then show ?thesis
      using Cons.prems by (intro exI [of _ "[]"]) (auto simp: output_allowed_def is_task_type_allowed_iff)
  qed
qed simp

lemma validate_streams_iff: "validate_streams ss = Inr u \<longleftrightarrow> list_all stream_types_allowed ss"
proof (induction ss)
  case (Cons s ss)
  then show ?case
    using validate_outputs_ok [of "s_id s" "s_outputs s"]
    by (auto simp: is_task_type_allowed_iff stream_types_allowed_def split: sum.splits)
qed simp

text \<open>
  A configuration is accepted exactly when the task type of every stream and of every
  output is one of the six the workers know.
\<close>

theorem validate_config_iff:
  "validate_config cfg = Inr () \<longleftrightarrow> list_all stream_types_allowed (c_streams cfg)"
  by (simp add: validate_config_def validate_streams_iff)

end
