(* ===== verification/Mux_Handler.thy ===== *)
theory Mux_Handler
  imports Output_Stats Psi_Pmt Psi_Sdt Biss Config
begin

text \<open>
  The packet handler of \<open>mux.rs\<close>: the state of one output. Input is written into it in chunks and
  taken apart into tables and into packets of audio and video, which wait in two buffers; the
  output takes packets of constant or variable bit rate from it, with the tables repeated and
  the PCR restamped.

  \<^item> What the helper is told (log lines, marks for the supervisor) is collected in \<open>ph_helper\<close>, in
    order; \<open>Worker_Status\<close> models what the marks do.
  \<^item> The parameters that stand for other code are the fields of \<open>mux_env\<close>.
  \<^item> A panic is \<open>None\<close>.
\<close>

unbundle bit_operations_syntax

record mux_env =
  e_crc32 :: "bytes \<Rightarrow> u32"
  e_decrypt :: "bytes \<Rightarrow> bytes \<Rightarrow> bytes"
  e_dvbcsa :: bool
  e_alloc_ok :: bool
  e_iso_8859_5 :: "bytes \<Rightarrow> rstring"
  e_utf_16be :: "bytes \<Rightarrow> rstring"
  e_sort_by_prog :: "pat_info list \<Rightarrow> pat_info list"
  e_now :: int

datatype mux_msg =
    BissInitFailed biss_error
  | BuffersClear usize usize
  | InputBufferOverflow usize
  | PatFound "pat_info list"
  | PatchedPat "pat_info list"
  | PatChangedMark
  | PatChanged "pat_info list"
  | PatRestored "pat_info list"
  | PmtFound pmt_info
  | PatchedPmt pmt_info
  | PmtChangedMark
  | PmtChanged pmt_info
  | PmtRestored pmt_info
  | SdtFound "sdt_info list"
  | SdtPatched "sdt_info list"
  | SdtNotPresent u16
  | DescrambleError u16 biss_error
  | StreamScrambled
  | PidScrambled u16 u8
  | StreamDescrambled
  | DtsJump u16 u64 usize usize
  | InvalidDts u16 usize usize
  | GeneratedSdt
  | WrongDts u64 u64
  | ProbeBitrate u64 usize u64
  | BufferReady usize usize usize
  | BufferEmpty
  | WrongCc u16 u8 u8
  | BufferOverflow usize usize usize
  | ProxySendError

datatype helper_call =
    HLog mux_msg
  | HLogWarn mux_msg
  | HLogInfo mux_msg
  | HMarkDirty mux_msg
  | HUnmarkDirty mux_msg
  | HCmdUnmarkDirtyNow

definition IN_BUFFER_SIZE :: usize where "IN_BUFFER_SIZE = 64 * 1024"
definition FRAME_BUFFER_SIZE :: usize where "FRAME_BUFFER_SIZE = 8192"
definition MIN_BUFFER_SIZE :: usize where "MIN_BUFFER_SIZE = 0"
definition MAX_BUFFER_SIZE :: usize where "MAX_BUFFER_SIZE = 10 * 1024 * 1024"
definition BUFFER_DURATION_PROBE_MS :: usize where "BUFFER_DURATION_PROBE_MS = 5000"
definition BUFFER_DURATION_OVERFLOW_MS :: usize where "BUFFER_DURATION_OVERFLOW_MS = 500"
definition PERIOD_PAT_MS :: u64 where "PERIOD_PAT_MS = 100"
definition PERIOD_PMT_MS :: u64 where "PERIOD_PMT_MS = 100"
definition PERIOD_SDT_MS :: u64 where "PERIOD_SDT_MS = 1000"
definition DEFAULT_SERVICE_TYPE :: u8 where "DEFAULT_SERVICE_TYPE = 0x01"
definition DISCONTINUITY_THRESHOLD_MS :: u64 where "DISCONTINUITY_THRESHOLD_MS = 500"
definition DTS_PCR_DIFF_MS :: u64 where "DTS_PCR_DIFF_MS = 300"
definition MIN_DTS_PCR_DIFF_MS :: int where "MIN_DTS_PCR_DIFF_MS = 0"
definition MAX_DTS_PCR_DIFF_MS :: int where "MAX_DTS_PCR_DIFF_MS = 800"
definition MIN_JITTER_MS :: u64 where "MIN_JITTER_MS = 30"
definition MAX_JITTER_MS :: u64 where "MAX_JITTER_MS = 1000"

record update_timers =
  ut_insert_pat :: "u64 option"
  ut_insert_pmt :: "u64 option"
  ut_insert_sdt :: "u64 option"

record packet_handler =
  ph_output :: output_config
  ph_helper :: "helper_call list"
  ph_is_ready :: bool
  ph_is_sync :: bool
  ph_in_buff :: bytes
  ph_frame_buff :: bytes
  ph_out_buff_v :: out_buffer
  ph_out_buff_a :: out_buffer
  ph_check_buffer_size :: bool
  ph_min_buff_size :: usize
  ph_max_buff_size :: usize
  ph_last_pts_dts :: "u16 \<rightharpoonup> u64 \<times> u64"
  ph_last_cc :: "u16 \<rightharpoonup> u8"
  ph_cc_errors :: "u16 \<rightharpoonup> usize"
  ph_buffer_duration_ms :: u64
  ph_jitter_ms :: u64
  ph_adjust_buf :: u64
  ph_pat_info :: "pat_info list"
  ph_pmt_info :: "pmt_info option"
  ph_pat :: bytes
  ph_pmt :: bytes
  ph_sdt :: bytes
  ph_pat_ready :: bool
  ph_pmt_ready :: bool
  ph_sdt_ready :: bool
  ph_psi_reasm :: section_reassembler_map
  ph_timers :: update_timers
  ph_count_psi_packets :: usize
  ph_count_null_packets :: usize
  ph_count_payload_packets :: usize
  ph_count_adjust_packets_null :: usize
  ph_count_adjust_packets_payload :: usize
  ph_fps :: rat
  ph_pcr_restamper :: "pcr_restamper option"
  ph_biss :: "descrambler option"
  ph_stats :: output_stats
  ph_dirty_pat :: bool
  ph_dirty_pmt :: bool
  ph_dirty_ca :: bool

text \<open>One call of the helper, and one update of the statistics.\<close>

definition tell :: "helper_call \<Rightarrow> packet_handler \<Rightarrow> packet_handler" where
  "tell c h = h\<lparr>ph_helper := ph_helper h @ [c]\<rparr>"

definition on_stats :: "(output_stats \<Rightarrow> output_stats) \<Rightarrow> packet_handler \<Rightarrow> packet_handler" where
  "on_stats f h = h\<lparr>ph_stats := f (ph_stats h)\<rparr>"

section \<open>Construction\<close>

definition clamp :: "u64 \<Rightarrow> u64 \<Rightarrow> u64 \<Rightarrow> u64" where
  "clamp x lo hi = (if x < lo then lo else if x > hi then hi else x)"

definition ph_new :: "mux_env \<Rightarrow> output_config \<Rightarrow> helper_call list \<Rightarrow> output_stats \<Rightarrow> packet_handler option" where
  "ph_new env out helper stats =
    (let restamper = (if \<not> o_proxy out then Some (restamper_new (ucast (o_cbr out))) else None);
         (biss, helper) = (case init_biss (e_dvbcsa env) (e_alloc_ok env) (o_biss_key out) of
             Inr d \<Rightarrow> (Some d, helper)
           | Inl e \<Rightarrow> (None, helper @ [HLog (BissInitFailed e)]))
     in if length (o_programs out) > 1 then None
        else let pids = concat (map (\<lambda>p. pr_audio_pids p @ pr_video_pids p) (o_programs out));
                 cc_errors = (\<lambda>pid. if pid \<in> set pids then Some 0 else None);
                 stats = foldl (\<lambda>s pid. update_dts_drift s pid 0) stats pids;
                 (duration, jitter, adjust) = foldl (\<lambda>_ p. (pr_buffer_duration p,
                    clamp (pr_jitter p) MIN_JITTER_MS MAX_JITTER_MS, pr_adjust_buf p)) (0, 0, 0) (o_programs out);
                 stats = update_cc stats cc_errors
        in Some \<lparr>ph_output = out, ph_helper = helper, ph_is_ready = False, ph_is_sync = False,
             ph_in_buff = [], ph_frame_buff = [], ph_out_buff_v = ob_new, ph_out_buff_a = ob_new,
             ph_check_buffer_size = False, ph_min_buff_size = MIN_BUFFER_SIZE,
             ph_max_buff_size = MAX_BUFFER_SIZE, ph_last_pts_dts = Map.empty, ph_last_cc = Map.empty,
             ph_cc_errors = cc_errors, ph_buffer_duration_ms = duration, ph_jitter_ms = jitter,
             ph_adjust_buf = adjust, ph_pat_info = [], ph_pmt_info = None,
             ph_pat = replicate TS_PACKET_SIZE 0, ph_pmt = replicate TS_PACKET_SIZE 0,
             ph_sdt = replicate TS_PACKET_SIZE 0, ph_pat_ready = False, ph_pmt_ready = False,
             ph_sdt_ready = False, ph_psi_reasm = srm_new,
             ph_timers = \<lparr>ut_insert_pat = None, ut_insert_pmt = None, ut_insert_sdt = None\<rparr>,
             ph_count_psi_packets = 0, ph_count_null_packets = 0, ph_count_payload_packets = 0,
             ph_count_adjust_packets_null = 0, ph_count_adjust_packets_payload = 0, ph_fps = 0,
             ph_pcr_restamper = restamper, ph_biss = biss, ph_stats = stats,
             ph_dirty_pat = False, ph_dirty_pmt = False, ph_dirty_ca = False\<rparr>)"

section \<open>Queries\<close>

definition get_pkt_size :: "packet_handler \<Rightarrow> u16" where
  "get_pkt_size h = (if o_pkt_size (ph_output h) = 0 then of_nat TS_PACKET_SIZE else o_pkt_size (ph_output h))"

definition is_some_program :: "packet_handler \<Rightarrow> bool" where
  "is_some_program h \<longleftrightarrow> o_programs (ph_output h) \<noteq> []"

definition get_program :: "packet_handler \<Rightarrow> program option" where
  "get_program h = (case o_programs (ph_output h) of [] \<Rightarrow> None | p # _ \<Rightarrow> Some p)"

definition get_bitrate :: "packet_handler \<Rightarrow> u64 option" where
  "get_bitrate h = map_option r_target_bitrate_bps (ph_pcr_restamper h)"

definition calculate_fps :: "packet_handler \<Rightarrow> rat option" where
  "calculate_fps h =
    (if ob_unique_frames_count (ph_out_buff_v h) < 2 then None
     else case (List.find tp_pusi (ob_inner (ph_out_buff_v h)),
                List.find tp_pusi (rev (ob_inner (ph_out_buff_v h)))) of
         (Some first, Some last_pkt) \<Rightarrow>
           let diff_ticks = (tp_dts last_pkt - tp_dts first) AND DTS_MASK
           in if diff_ticks = 0 then None
              else let actual_intervals = fl 53 (of_nat (ob_unique_frames_count (ph_out_buff_v h) - 1));
                       average_delta = fl 53 (u64_to_f64 diff_ticks / actual_intervals)
                   in Some (fl 53 (90000 / average_delta))
       | _ \<Rightarrow> None)"

definition set_check_buffer_size :: "packet_handler \<Rightarrow> packet_handler" where
  "set_check_buffer_size h = h\<lparr>ph_check_buffer_size := True\<rparr>"

definition pat_transport_stream_id :: "packet_handler \<Rightarrow> u16 option" where
  "pat_transport_stream_id h = do {
     b8 \<leftarrow> idx (ph_pat h) 8;
     b9 \<leftarrow> idx (ph_pat h) 9;
     Some (be16 b8 b9) }"

definition ph_is_dirty :: "packet_handler \<Rightarrow> bool" where
  "ph_is_dirty h \<longleftrightarrow> ph_dirty_pat h \<or> ph_dirty_pmt h \<or> ph_dirty_ca h"

definition is_video_pid :: "packet_handler \<Rightarrow> u16 \<Rightarrow> bool option" where
  "is_video_pid h pid = do { p \<leftarrow> get_program h; Some (pid \<in> set (pr_video_pids p)) }"

definition is_audio_pid :: "packet_handler \<Rightarrow> u16 \<Rightarrow> bool option" where
  "is_audio_pid h pid = do { p \<leftarrow> get_program h; Some (pid \<in> set (pr_audio_pids p)) }"

section \<open>Buffers\<close>

definition buffers_clear :: "packet_handler \<Rightarrow> packet_handler" where
  "buffers_clear h =
    (let msg = BuffersClear (ob_size (ph_out_buff_v h)) (ob_size (ph_out_buff_a h));
         h = h\<lparr>ph_is_ready := False\<rparr>;
         h = tell (HMarkDirty msg) h;
         h = h\<lparr>ph_out_buff_v := ob_clear (ph_out_buff_v h), ph_out_buff_a := ob_clear (ph_out_buff_a h),
               ph_min_buff_size := MIN_BUFFER_SIZE, ph_max_buff_size := MAX_BUFFER_SIZE,
               ph_last_pts_dts := Map.empty\<rparr>;
         h = on_stats (\<lambda>s. update_max_in_buffer_size s 0) h
     in on_stats (\<lambda>s. update_max_out_buffer_size s 0 0) h)"

definition pop_v :: "packet_handler \<Rightarrow> packet_handler \<times> ts_packet option" where
  "pop_v h = (let (b, r) = ob_pop_front (ph_out_buff_v h) in (h\<lparr>ph_out_buff_v := b\<rparr>, r))"

definition pop_a :: "packet_handler \<Rightarrow> packet_handler \<times> ts_packet option" where
  "pop_a h = (let (b, r) = ob_pop_front (ph_out_buff_a h) in (h\<lparr>ph_out_buff_a := b\<rparr>, r))"

definition get_a_or_v :: "packet_handler \<Rightarrow> packet_handler \<times> ts_packet option" where
  "get_a_or_v h =
    (case (ob_front (ph_out_buff_a h), ob_front (ph_out_buff_v h)) of
       (Some a, Some v) \<Rightarrow> if dts_after (tp_dts a) (tp_dts v) then pop_v h else pop_a h
     | (Some a, None) \<Rightarrow> pop_a h
     | (None, Some v) \<Rightarrow> pop_v h
     | (None, None) \<Rightarrow> (h, None))"

definition get_v :: "packet_handler \<Rightarrow> packet_handler \<times> ts_packet option" where
  "get_v h = (case ob_front (ph_out_buff_v h) of Some _ \<Rightarrow> pop_v h | None \<Rightarrow> (h, None))"

definition current_pcr :: "packet_handler \<Rightarrow> u64 option" where
  "current_pcr h = (case ph_pcr_restamper h of None \<Rightarrow> None | Some r \<Rightarrow> get_pcr r)"

definition ready_send :: "packet_handler \<Rightarrow> u64 \<Rightarrow> bool" where
  "ready_send h dts =
    (case current_pcr h of None \<Rightarrow> False
     | Some pcr \<Rightarrow>
         let ticks = pcr_normalize (dts * 300);
             limit = pcr_add pcr (ph_jitter_ms h * 27000)
         in \<not> pcr_after ticks limit)"

definition drain_send :: "packet_handler \<Rightarrow> u64 \<Rightarrow> bool" where
  "drain_send h dts =
    (case current_pcr h of None \<Rightarrow> False
     | Some pcr \<Rightarrow>
         let ticks = pcr_normalize (dts * 300);
             limit = pcr_add pcr (of_int MAX_DTS_PCR_DIFF_MS * 27000)
         in \<not> pcr_after ticks limit)"

text \<open>The arms of the two matches are tried in order: a guard that fails falls through.\<close>

definition get_a_or_v_ready :: "packet_handler \<Rightarrow> packet_handler \<times> ts_packet option" where
  "get_a_or_v_ready h =
    (case (ob_front (ph_out_buff_a h), ob_front (ph_out_buff_v h)) of
       (Some a, Some v) \<Rightarrow>
         if dts_after (tp_dts a) (tp_dts v) \<and> (ready_send h (tp_dts v) \<or> tp_discontinuity v) then pop_v h
         else if ready_send h (tp_dts a) \<or> tp_discontinuity a then pop_a h
         else (h, None)
     | (Some a, None) \<Rightarrow>
         if ready_send h (tp_dts a) \<or> tp_discontinuity a then pop_a h else (h, None)
     | (None, Some v) \<Rightarrow>
         if ready_send h (tp_dts v) \<or> tp_discontinuity v then pop_v h else (h, None)
     | (None, None) \<Rightarrow> (h, None))"

definition get_a_or_v_drain :: "packet_handler \<Rightarrow> packet_handler \<times> ts_packet option" where
  "get_a_or_v_drain h =
    (case (ob_front (ph_out_buff_a h), ob_front (ph_out_buff_v h)) of
       (Some a, Some v) \<Rightarrow>
         if dts_after (tp_dts a) (tp_dts v) \<and> drain_send h (tp_dts v) then pop_v h
         else if drain_send h (tp_dts a) then pop_a h
         else (h, None)
     | (Some a, None) \<Rightarrow> if drain_send h (tp_dts a) then pop_a h else (h, None)
     | (None, Some v) \<Rightarrow> if drain_send h (tp_dts v) then pop_v h else (h, None)
     | (None, None) \<Rightarrow> (h, None))"

definition buffered :: "packet_handler \<Rightarrow> nat" where
  "buffered h = ob_len (ph_out_buff_v h) + ob_len (ph_out_buff_a h)"

lemma getter_pop_decreases:
  "ob_front (ph_out_buff_v h) \<noteq> None \<Longrightarrow> buffered (fst (pop_v h)) < buffered h"
  "ob_front (ph_out_buff_a h) \<noteq> None \<Longrightarrow> buffered (fst (pop_a h)) < buffered h"
  using ob.pop_decreases [of "ph_out_buff_v h"] ob.pop_decreases [of "ph_out_buff_a h"]
  by (auto simp: buffered_def ob_len_def pop_v_def pop_a_def split_beta)

lemma get_a_or_v_decreases:
  "ob_front (ph_out_buff_v h) \<noteq> None \<Longrightarrow> buffered (fst (get_a_or_v h)) < buffered h"
  using getter_pop_decreases [of h] by (auto simp: get_a_or_v_def split: option.split)

text \<open>
  The loop at the start of \<open>buffer_adjust\<close>: as long as the video buffer is too long it is not
  empty, so every turn takes a packet out of one of the buffers.
\<close>

function buffer_adjust_loop :: "packet_handler \<Rightarrow> packet_handler" where
  "buffer_adjust_loop h =
    (if ob_duration_ms (ph_out_buff_v h) > ph_buffer_duration_ms h
     then buffer_adjust_loop (fst (get_a_or_v h)) else h)"
  by pat_completeness auto
termination
proof (relation "measure buffered")
  fix h :: packet_handler
  assume "ph_buffer_duration_ms h < ob_duration_ms (ph_out_buff_v h)"
  then have "ob_duration_ms (ph_out_buff_v h) \<noteq> 0" by auto
  then show "(fst (get_a_or_v h), h) \<in> measure buffered"
    using get_a_or_v_decreases [OF ob_duration_nonempty] by simp
qed simp

declare buffer_adjust_loop.simps [simp del]

definition buffer_adjust :: "packet_handler \<Rightarrow> packet_handler" where
  "buffer_adjust h = buffer_adjust_loop h"

definition is_buffer_overflow :: "packet_handler \<Rightarrow> usize \<Rightarrow> packet_handler \<times> bool" where
  "is_buffer_overflow h rate =
    (let max_buff_size = ph_max_buff_size h * rate
     in if ob_size (ph_out_buff_v h) + ob_size (ph_out_buff_a h) > max_buff_size then
          ((if rate > 1 then tell (HLog (BufferOverflow (ob_size (ph_out_buff_v h))
              (ob_size (ph_out_buff_a h)) max_buff_size)) h else h), True)
        else (h, False))"

end
