(* ===== verification/Mux_Process.thy ===== *)
theory Mux_Process
  imports Mux_Handler
begin

text \<open>
  The input side of the packet handler: \<open>write\<close> appends a chunk, \<open>process\<close> takes whole packets off
  the input buffer, hands tables to \<open>process_pat\<close>, \<open>process_pmt\<close> and \<open>process_sdt\<close> and packets of
  audio and video to the output buffers, and decides when the output is ready.
\<close>

unbundle bit_operations_syntax

section \<open>Tables\<close>

definition process_pat :: "mux_env \<Rightarrow> packet_handler \<Rightarrow> bytes \<Rightarrow> packet_handler option" where
  "process_pat env h pkt_data = do {
     pid \<leftarrow> pkt_pid pkt_data;
     (reasm, out) \<leftarrow> srm_push (ph_psi_reasm h) pkt_data;
     let h = h\<lparr>ph_psi_reasm := reasm\<rparr>;
     case out of None \<Rightarrow> Some h
     | Some section \<Rightarrow> do {
         pat_info \<leftarrow> analyze_pat section;
         if \<not> ph_pat_ready h then do {
           program \<leftarrow> get_program h;
           section \<leftarrow> patch_pat_section (e_crc32 env) section [(pr_program_id program, pr_pmt_pid program)];
           let h = tell (HLog (PatFound pat_info)) h;
           patched \<leftarrow> analyze_pat section;
           let h = tell (HLog (PatchedPat patched)) h;
           let h = h\<lparr>ph_pat_info := pat_info\<rparr>;
           cc \<leftarrow> cached_cc (ph_pat h);
           Some (h\<lparr>ph_pat := pack section pid cc, ph_pat_ready := True\<rparr>) }
         else if is_pat_changed (e_sort_by_prog env) (ph_pat_info h) pat_info then
           (let h = tell (HMarkDirty PatChangedMark) h
            in if \<not> ph_dirty_pat h
               then Some (tell (HLog (PatChanged pat_info)) (h\<lparr>ph_dirty_pat := True\<rparr>))
               else Some h)
         else if ph_dirty_pat h
           then Some (tell (HUnmarkDirty (PatRestored pat_info)) (h\<lparr>ph_dirty_pat := False\<rparr>))
           else Some h }}"

definition process_pmt :: "mux_env \<Rightarrow> packet_handler \<Rightarrow> bytes \<Rightarrow> packet_handler option" where
  "process_pmt env h pkt_data = do {
     pid \<leftarrow> pkt_pid pkt_data;
     (reasm, out) \<leftarrow> srm_push (ph_psi_reasm h) pkt_data;
     let h = h\<lparr>ph_psi_reasm := reasm\<rparr>;
     case out of None \<Rightarrow> Some h
     | Some section \<Rightarrow> do {
         pmt_info \<leftarrow> analyze_pmt section;
         if \<not> ph_pmt_ready h then do {
           program \<leftarrow> get_program h;
           let es_mapping = map (\<lambda>old_pid. (old_pid, old_pid)) (pr_video_pids program)
              @ map (\<lambda>old_pid. (old_pid, old_pid)) (pr_audio_pids program);
           let ca_flag = (o_ca_flag (ph_output h) = CA_FLAG_UNSCRAMBLED);
           section \<leftarrow> patch_pmt_section (e_crc32 env) section (pmt_pcr_pid pmt_info) es_mapping ca_flag;
           let h = tell (HLog (PmtFound pmt_info)) h;
           patched \<leftarrow> analyze_pmt section;
           let h = tell (HLog (PatchedPmt patched)) h;
           let h = h\<lparr>ph_pmt_info := Some pmt_info\<rparr>;
           cc \<leftarrow> cached_cc (ph_pmt h);
           Some (h\<lparr>ph_pmt := pack section pid cc, ph_pmt_ready := True\<rparr>) }
         else case ph_pmt_info h of None \<Rightarrow> Some h
         | Some cur_pmt_info \<Rightarrow>
             if is_pmt_changed cur_pmt_info pmt_info then
               (let h = tell (HMarkDirty PmtChangedMark) h
                in if \<not> ph_dirty_pmt h
                   then Some (tell (HLog (PmtChanged pmt_info)) (h\<lparr>ph_dirty_pmt := True\<rparr>))
                   else Some h)
             else if ph_dirty_pmt h
               then Some (tell (HUnmarkDirty (PmtRestored pmt_info)) (h\<lparr>ph_dirty_pmt := False\<rparr>))
               else Some h }}"

definition process_sdt :: "mux_env \<Rightarrow> packet_handler \<Rightarrow> bytes \<Rightarrow> packet_handler option" where
  "process_sdt env h pkt_data = do {
     (reasm, out) \<leftarrow> srm_push (ph_psi_reasm h) pkt_data;
     let h = h\<lparr>ph_psi_reasm := reasm\<rparr>;
     case out of None \<Rightarrow> Some h
     | Some section \<Rightarrow> do {
         sdts \<leftarrow> analyze_sdt (e_iso_8859_5 env) (e_utf_16be env) section;
         if sdts = [] then Some h
         else do {
           let h = tell (HLog (SdtFound sdts)) h;
           program \<leftarrow> get_program h;
           case List.find (\<lambda>sdt. sdt_service_id sdt = pr_program_id program) sdts of
             None \<Rightarrow> Some (tell (HLog (SdtNotPresent (pr_program_id program))) h)
           | Some sdt \<Rightarrow> do {
               let service_type = (if pr_service_type program = 0
                  then (if sdt_service_type sdt = 0 then DEFAULT_SERVICE_TYPE else sdt_service_type sdt)
                  else ucast (pr_service_type program));
               let provider_name = (if trim (pr_service_provider_name program) = []
                  then trim (sdt_provider_name sdt) else trim (pr_service_provider_name program));
               let service_name = (if trim (pr_service_name program) = []
                  then trim (sdt_service_name sdt) else trim (pr_service_name program));
               tsid \<leftarrow> pat_transport_stream_id h;
               sdt_pkt \<leftarrow> prepare_sdt (e_crc32 env) tsid (pr_program_id program) service_type
                  provider_name service_name;
               Some (tell (HLog (SdtPatched sdts)) (h\<lparr>ph_sdt := sdt_pkt, ph_sdt_ready := True\<rparr>)) }}}}"

section \<open>Continuity\<close>

definition ph_update_cc :: "packet_handler \<Rightarrow> u16 \<Rightarrow> packet_handler" where
  "ph_update_cc h pid = h\<lparr>ph_cc_errors := (ph_cc_errors h)(pid \<mapsto>
     (case ph_cc_errors h pid of None \<Rightarrow> 1 | Some cc \<Rightarrow> cc + 1))\<rparr>"

definition check_cc :: "packet_handler \<Rightarrow> bytes \<Rightarrow> u16 \<Rightarrow> packet_handler option" where
  "check_cc h packet pid = do {
     payload \<leftarrow> pkt_has_payload packet;
     if payload then do {
       b3 \<leftarrow> idx packet 3;
       let current_cc = b3 AND 0x0F;
       let h = (case ph_last_cc h pid of None \<Rightarrow> h
          | Some last_cc \<Rightarrow>
              let expected_cc = (last_cc + 1) AND 0x0F
              in if current_cc \<noteq> expected_cc
                 then ph_update_cc (tell (HLog (WrongCc pid current_cc expected_cc)) h) pid
                 else h);
       Some (h\<lparr>ph_last_cc := (ph_last_cc h)(pid \<mapsto> current_cc)\<rparr>) }
     else Some h }"

section \<open>One packet\<close>

text \<open>The descrambling and the test of the scrambling control; \<open>None\<close> inside is the \<open>continue\<close>.\<close>

definition process_ca :: "mux_env \<Rightarrow> packet_handler \<Rightarrow> u16 \<Rightarrow> bytes \<Rightarrow> (packet_handler \<times> bytes option) option" where
  "process_ca env h pid pkt = do {
     is_video \<leftarrow> is_video_pid h pid;
     is_audio \<leftarrow> is_audio_pid h pid;
     case (if is_video \<or> is_audio then ph_biss h else None) of
       Some biss \<Rightarrow> do {
         (pkt, res) \<leftarrow> descramble_ts_packet (e_decrypt env) (e_dvbcsa env) biss pkt;
         Some (case res of Inl e \<Rightarrow> tell (HLog (DescrambleError pid e)) h | Inr _ \<Rightarrow> h, Some pkt) }
     | None \<Rightarrow> do {
         ca \<leftarrow> pkt_scrambling_control pkt;
         if ca \<noteq> 0 then
           (let h = tell (HMarkDirty StreamScrambled) h;
                h = (if \<not> ph_dirty_ca h then (tell (HLog (PidScrambled pid ca)) h)\<lparr>ph_dirty_ca := True\<rparr> else h)
            in Some (h, None))
         else
           (let h = (if ph_dirty_ca h then (tell (HUnmarkDirty StreamDescrambled) h)\<lparr>ph_dirty_ca := False\<rparr> else h)
            in Some (h, Some pkt)) }}"

text \<open>A time stamp: the jumps it makes against the last one of the PID are discontinuities.\<close>

definition av_stamps :: "packet_handler \<Rightarrow> u16 \<Rightarrow> (u64 \<times> u64) option \<Rightarrow> bool \<Rightarrow> packet_handler \<times> bool \<times> bool" where
  "av_stamps h pid stamps discontinuity = (case stamps of None \<Rightarrow> (h, False, discontinuity)
     | Some (pts, dts) \<Rightarrow>
         let v = ob_size (ph_out_buff_v h); a = ob_size (ph_out_buff_a h);
             (h, discontinuity) = (case ph_last_pts_dts h pid of None \<Rightarrow> (h, discontinuity)
               | Some (_, last_dts) \<Rightarrow>
                   (case dts_forward_delta_ms dts last_dts of
                      Some delta_ms \<Rightarrow>
                        if delta_ms > DISCONTINUITY_THRESHOLD_MS
                        then (tell (HLog (DtsJump pid delta_ms v a)) h, True) else (h, discontinuity)
                    | None \<Rightarrow> (tell (HLog (InvalidDts pid v a)) h, True)))
         in (h\<lparr>ph_last_pts_dts := (ph_last_pts_dts h)(pid \<mapsto> (pts, dts))\<rparr>, True, discontinuity))"

text \<open>The packet goes to its buffer once the PID has a time stamp.\<close>

definition av_push :: "packet_handler \<Rightarrow> u16 \<Rightarrow> bytes \<Rightarrow> bool \<Rightarrow> bool \<Rightarrow> packet_handler option" where
  "av_push h pid pkt_data pusi discontinuity =
    (case ph_last_pts_dts h pid of None \<Rightarrow> Some h
     | Some (pts, dts) \<Rightarrow> do {
         let ts_packet = ts_packet_new pkt_data pid pts dts pusi discontinuity;
         program \<leftarrow> get_program h;
         ts_packet \<leftarrow> (if pid = pr_pcr_pid program then ts_packet_extract_pcr ts_packet else Some ts_packet);
         if pid \<in> set (pr_video_pids program)
         then Some (h\<lparr>ph_out_buff_v := ob_push_back (ph_out_buff_v h) ts_packet\<rparr>)
         else if pid \<in> set (pr_audio_pids program)
         then Some (h\<lparr>ph_out_buff_a := ob_push_back (ph_out_buff_a h) ts_packet\<rparr>)
         else Some h })"

definition process_av :: "packet_handler \<Rightarrow> u16 \<Rightarrow> bytes \<Rightarrow> packet_handler option" where
  "process_av h pid pkt_data = do {
     discontinuity \<leftarrow> pkt_get_discontinuity pkt_data;
     h \<leftarrow> (if \<not> discontinuity then check_cc h pkt_data pid else Some h);
     stamps \<leftarrow> pkt_pts_dts pkt_data pid;
     let (h, pusi, discontinuity) = av_stamps h pid stamps discontinuity;
     av_push h pid pkt_data pusi discontinuity }"

definition process_one :: "mux_env \<Rightarrow> packet_handler \<Rightarrow> bytes \<Rightarrow> packet_handler option" where
  "process_one env h pkt = do {
     pid \<leftarrow> pkt_pid pkt;
     (h, res) \<leftarrow> process_ca env h pid pkt;
     case res of None \<Rightarrow> Some h
     | Some pkt_data \<Rightarrow>
         if pid = 0x1FFF then Some h
         else if pid = 0x0000 then
           (if \<not> ph_pat_ready h \<or> \<not> ph_is_ready h then process_pat env h pkt_data else Some h)
         else do {
           program \<leftarrow> get_program h;
           if pid = pr_pmt_pid program \<and> (\<not> ph_pmt_ready h \<or> \<not> ph_is_ready h) then process_pmt env h pkt_data
           else if ph_is_dirty h then Some h
           else if pid = 0x0011 then
             (if ph_pat_ready h \<and> \<not> ph_sdt_ready h then process_sdt env h pkt_data else Some h)
           else if pid \<in> set (pr_audio_pids program) \<or> pid \<in> set (pr_video_pids program)
           then process_av h pid pkt_data
           else Some h }}"

text \<open>
  The loop over the packets of the input buffer. The code moves a pointer and drops the packets
  at the end; here they are dropped one by one. \<open>False\<close> is the return after a lost sync byte.
\<close>

function process_packets :: "mux_env \<Rightarrow> packet_handler \<Rightarrow> (packet_handler \<times> bool) option" where
  "process_packets env h =
    (if length (ph_in_buff h) < TS_PACKET_SIZE then Some (h, True)
     else if ph_in_buff h ! 0 = TS_SYNC_BYTE then do {
       let pkt = take TS_PACKET_SIZE (ph_in_buff h);
       let rest = drop TS_PACKET_SIZE (ph_in_buff h);
       h \<leftarrow> process_one env h pkt;
       process_packets env (h\<lparr>ph_in_buff := rest\<rparr>) }
     else Some (buffers_clear (h\<lparr>ph_is_sync := False\<rparr>), False))"
  by pat_completeness auto
termination
  by (relation "measure (\<lambda>(env, h). length (ph_in_buff h))") (auto simp: TS_PACKET_SIZE_def)

declare process_packets.simps [simp del]

section \<open>Getting ready\<close>

definition resync :: "packet_handler \<Rightarrow> u64 \<Rightarrow> packet_handler" where
  "resync h dts = (case ph_pcr_restamper h of None \<Rightarrow> h
     | Some r \<Rightarrow>
         let dts = (dts - DTS_PCR_DIFF_MS * 90) AND DTS_MASK
         in h\<lparr>ph_pcr_restamper := Some (restamper_resync r dts)\<rparr>)"

definition default_sdt :: "mux_env \<Rightarrow> packet_handler \<Rightarrow> packet_handler option" where
  "default_sdt env h = do {
     program \<leftarrow> get_program h;
     let service_type = (if pr_service_type program = 0 then DEFAULT_SERVICE_TYPE
        else ucast (pr_service_type program));
     tsid \<leftarrow> pat_transport_stream_id h;
     sdt \<leftarrow> prepare_sdt (e_crc32 env) tsid (pr_program_id program) service_type
        (trim (pr_service_provider_name program)) (trim (pr_service_name program));
     Some (tell (HLog GeneratedSdt) (h\<lparr>ph_sdt := sdt, ph_sdt_ready := True\<rparr>)) }"

definition probe_bitrate :: "packet_handler \<Rightarrow> packet_handler \<times> u64" where
  "probe_bitrate h =
    (let probe_buffer_duration = ob_duration_ms (ph_out_buff_v h)
     in if probe_buffer_duration \<ge> of_nat BUFFER_DURATION_PROBE_MS then
          let probe_buff_size = ob_size (ph_out_buff_v h) + ob_size (ph_out_buff_a h);
              bitrate = of_nat probe_buff_size * 8 div probe_buffer_duration;
              h = tell (HLogInfo (ProbeBitrate probe_buffer_duration probe_buff_size bitrate)) h;
              bitrate = f64_to_u64 (fl 53 (fl 53 (u64_to_f64 bitrate * fl 53 (6 / 5)) * 1024));
              h = (case ph_pcr_restamper h of None \<Rightarrow> h
                | Some r \<Rightarrow> if r_target_bitrate_bps r = 0
                    then h\<lparr>ph_pcr_restamper := Some (r\<lparr>r_target_bitrate_bps := bitrate\<rparr>)\<rparr> else h)
          in (h\<lparr>ph_fps := (case calculate_fps h of None \<Rightarrow> 0 | Some f \<Rightarrow> f)\<rparr>, bitrate)
        else (h, 0))"

definition become_ready :: "mux_env \<Rightarrow> packet_handler \<Rightarrow> u64 \<Rightarrow> packet_handler" where
  "become_ready env h bitrate =
    (if ob_duration_ms (ph_out_buff_v h) \<ge> ph_buffer_duration_ms h then
       let h = buffer_adjust h;
           buff_size = ob_size (ph_out_buff_v h) + ob_size (ph_out_buff_a h);
           max_duration_ms = fl 53 (fl 53 (u64_to_f64 (ph_buffer_duration_ms h)
              * fl 53 (1 + fl 53 (u64_to_f64 (ph_adjust_buf h) / 100))) + of_nat BUFFER_DURATION_OVERFLOW_MS);
           h = h\<lparr>ph_max_buff_size := unat (f64_to_u64
              (fl 53 (fl 53 (fl 53 (u64_to_f64 bitrate * max_duration_ms) / 8) / 1000)))\<rparr>;
           h = tell (HLogInfo (BufferReady buff_size (ph_min_buff_size h) (ph_max_buff_size h))) h
       in (case ob_front (ph_out_buff_v h) of None \<Rightarrow> h
           | Some pkt \<Rightarrow>
               let h = resync h (tp_dts pkt);
                   h = h\<lparr>ph_cc_errors := Map.empty, ph_is_ready := True\<rparr>;
                   h = on_stats (\<lambda>s. update_ready_time s (e_now env)) h
               in tell HCmdUnmarkDirtyNow h)
     else h)"

definition prepare_output :: "mux_env \<Rightarrow> packet_handler \<Rightarrow> packet_handler option" where
  "prepare_output env h =
    (if ph_is_dirty h then Some h
     else if ph_is_ready h then Some h
     else if \<not> ph_pat_ready h \<or> \<not> ph_pmt_ready h then Some h
     else do {
       h \<leftarrow> (if \<not> ph_sdt_ready h then default_sdt env h else Some h);
       case (ob_front (ph_out_buff_v h), ob_back (ph_out_buff_v h)) of
         (Some first, Some last_pkt) \<Rightarrow>
           if dts_after (tp_dts first) (tp_dts last_pkt)
           then Some (buffers_clear (tell (HLog (WrongDts (tp_dts first) (tp_dts last_pkt))) h))
           else (let bitrate = (case get_bitrate h of None \<Rightarrow> 0 | Some b \<Rightarrow> b);
                     (h, bitrate) = (if bitrate = 0 then probe_bitrate h else (h, bitrate))
                 in Some (if bitrate \<noteq> 0 then become_ready env h bitrate else h))
       | _ \<Rightarrow> Some (tell (HMarkDirty BufferEmpty) h) })"

text \<open>The search for the raster of sync bytes, at the start of \<open>process\<close> and of \<open>proxy_packet\<close>.\<close>

definition ph_sync :: "packet_handler \<Rightarrow> packet_handler \<times> bool" where
  "ph_sync h =
    (if \<not> ph_is_sync h then
       (let (buff, synced) = sync_buffer (ph_in_buff h); h = h\<lparr>ph_in_buff := buff\<rparr>
        in if synced then (h\<lparr>ph_is_sync := True\<rparr>, True) else (h, False))
     else (h, True))"

definition ph_process :: "mux_env \<Rightarrow> packet_handler \<Rightarrow> packet_handler option" where
  "ph_process env h =
    (let (h, go) = ph_sync h
     in if \<not> go then Some h
        else let (h, overflow) = is_buffer_overflow h 2;
                 h = (if overflow then buffers_clear h else h)
        in if length (ph_in_buff h) < TS_PACKET_SIZE then Some h
           else do {
             (h, synced) \<leftarrow> process_packets env h;
             if \<not> synced then Some h else prepare_output env h })"

definition ph_write :: "mux_env \<Rightarrow> packet_handler \<Rightarrow> bytes \<Rightarrow> packet_handler option" where
  "ph_write env h chunk =
    (let h = (if length (ph_in_buff h) + length chunk \<ge> MAX_BUFFER_SIZE
         then (tell (HLogWarn (InputBufferOverflow (length (ph_in_buff h)))) h)
                \<lparr>ph_in_buff := [], ph_is_sync := False\<rparr>
         else h);
         h = h\<lparr>ph_in_buff := ph_in_buff h @ chunk\<rparr>;
         h = on_stats (\<lambda>s. update_max_in_buffer_size s (length (ph_in_buff h))) h
     in do {
       h \<leftarrow> ph_process env h;
       Some (on_stats (\<lambda>s. update_max_out_buffer_size s (ob_size (ph_out_buff_a h)) (ob_size (ph_out_buff_v h))) h) })"

section \<open>Statistics\<close>

definition update_stats :: "packet_handler \<Rightarrow> packet_handler" where
  "update_stats h =
    (let s = ph_stats h;
         s = update_in_buffer s (ph_in_buff h);
         s = update_v_buffer s (ph_out_buff_v h);
         s = update_a_buffer s (ph_out_buff_a h);
         s = update_cc s (ph_cc_errors h);
         (s, psi) = update_bitrate_psi s (ph_count_psi_packets h);
         (s, payload) = update_bitrate_payload s (ph_count_payload_packets h);
         (s, null) = update_bitrate_null s (ph_count_null_packets h);
         (s, adj_payload) = update_bitrate_adjust_payload s (ph_count_adjust_packets_payload h);
         (s, adj_null) = update_bitrate_adjust_null s (ph_count_adjust_packets_null h);
         fps = (case calculate_fps h of None \<Rightarrow> ph_fps h | Some f \<Rightarrow> f);
         s = update_fps s fps;
         s = update_buffer_duration s (ph_buffer_duration_ms h);
         s = update_jitter s (ph_jitter_ms h);
         s = update_adjust_buf s (ph_adjust_buf h);
         s = update_dirty s (ph_is_dirty h)
     in h\<lparr>ph_stats := s, ph_count_psi_packets := psi, ph_count_payload_packets := payload,
          ph_count_null_packets := null, ph_count_adjust_packets_payload := adj_payload,
          ph_count_adjust_packets_null := adj_null\<rparr>)"

end
