(* ===== verification/Mux_Output.thy ===== *)
theory Mux_Output
  imports Mux_Process
begin

text \<open>
  The output side of the packet handler (\<open>mux.rs\<close>): packets of constant bit rate, packets of
  variable bit rate, frames, and the proxy that forwards the input with rewritten tables.
\<close>

unbundle bit_operations_syntax

section \<open>Tables\<close>

text \<open>
  The three tables share one rule: a table is due when it has never been sent, or when more than
  its period of stream time has passed. At most one table goes into a packet of the output.
\<close>

definition psi_due :: "u64 option \<Rightarrow> u64 option \<Rightarrow> u64 \<Rightarrow> u64 option" where
  "psi_due pcr ins period =
    (case (pcr, ins) of
       (Some pcr, Some ins) \<Rightarrow> if pcr_after pcr (pcr_add ins (period * 27000)) then Some pcr else None
     | (Some pcr, None) \<Rightarrow> Some pcr
     | _ \<Rightarrow> None)"

definition flush_pat :: "packet_handler \<Rightarrow> u64 option \<Rightarrow> bytes \<Rightarrow> usize \<Rightarrow> (packet_handler \<times> bytes \<times> usize) option" where
  "flush_pat h pcr out flush_count =
    (if ph_pat_ready h then
       (case psi_due pcr (ut_insert_pat (ph_timers h)) PERIOD_PAT_MS of
          Some pcr \<Rightarrow> do {
            let h = h\<lparr>ph_timers := (ph_timers h)\<lparr>ut_insert_pat := Some pcr\<rparr>\<rparr>;
            pat \<leftarrow> pkt_next (ph_pat h);
            Some (h\<lparr>ph_pat := pat\<rparr>, out @ pat, flush_count + 1) }
        | None \<Rightarrow> Some (h, out, flush_count))
     else Some (h, out, flush_count))"

definition flush_pmt :: "packet_handler \<Rightarrow> u64 option \<Rightarrow> bytes \<Rightarrow> usize \<Rightarrow> (packet_handler \<times> bytes \<times> usize) option" where
  "flush_pmt h pcr out flush_count =
    (if ph_pmt_ready h \<and> 1 > flush_count then
       (case psi_due pcr (ut_insert_pmt (ph_timers h)) PERIOD_PMT_MS of
          Some pcr \<Rightarrow> do {
            let h = h\<lparr>ph_timers := (ph_timers h)\<lparr>ut_insert_pmt := Some pcr\<rparr>\<rparr>;
            pmt \<leftarrow> pkt_next (ph_pmt h);
            Some (h\<lparr>ph_pmt := pmt\<rparr>, out @ pmt, flush_count + 1) }
        | None \<Rightarrow> Some (h, out, flush_count))
     else Some (h, out, flush_count))"

definition flush_sdt :: "packet_handler \<Rightarrow> u64 option \<Rightarrow> bytes \<Rightarrow> usize \<Rightarrow> (packet_handler \<times> bytes \<times> usize) option" where
  "flush_sdt h pcr out flush_count =
    (if ph_sdt_ready h \<and> 1 > flush_count then
       (case psi_due pcr (ut_insert_sdt (ph_timers h)) PERIOD_SDT_MS of
          Some pcr \<Rightarrow> do {
            let h = h\<lparr>ph_timers := (ph_timers h)\<lparr>ut_insert_sdt := Some pcr\<rparr>\<rparr>;
            sdt \<leftarrow> pkt_next (ph_sdt h);
            Some (h\<lparr>ph_sdt := sdt\<rparr>, out @ sdt, flush_count + 1) }
        | None \<Rightarrow> Some (h, out, flush_count))
     else Some (h, out, flush_count))"

definition flush_psi_packets :: "packet_handler \<Rightarrow> bytes \<Rightarrow> (packet_handler \<times> bytes \<times> usize) option" where
  "flush_psi_packets h out = do {
     let pcr = current_pcr h;
     (h, out, flush_count) \<leftarrow> flush_pat h pcr out 0;
     (h, out, flush_count) \<leftarrow> flush_pmt h pcr out flush_count;
     flush_sdt h pcr out flush_count }"

section \<open>Drift and restamping of one packet\<close>

text \<open>The quotients of \<open>i64\<close> truncate, like those of \<open>i32\<close>; their arguments are far from overflow.\<close>

definition dts_drift :: "packet_handler \<Rightarrow> u16 \<Rightarrow> u64 \<Rightarrow> packet_handler \<times> int" where
  "dts_drift h pid dts =
    (let lead_time_ms = (case current_pcr h of None \<Rightarrow> 0
        | Some pcr \<Rightarrow> i32_div (dts_signed_delta dts (pcr div 300)) 90)
     in (on_stats (\<lambda>s. update_dts_drift s pid lead_time_ms) h, lead_time_ms))"

definition pcr_drift :: "packet_handler \<Rightarrow> u64 \<Rightarrow> u64 \<Rightarrow> packet_handler \<times> int" where
  "pcr_drift h orig_pcr current =
    (let lead_pcr_ms = i32_div (pcr_signed_delta orig_pcr current) 27000
     in (on_stats (\<lambda>s. update_pcr_drift s lead_pcr_ms) h, lead_pcr_ms))"

definition mark_discontinuity :: "packet_handler \<Rightarrow> u64 \<Rightarrow> bytes \<Rightarrow> bool \<Rightarrow> (packet_handler \<times> bytes) option" where
  "mark_discontinuity h dts data discontinuity =
    (if discontinuity then do {
       (data, _) \<leftarrow> pkt_set_discontinuity data;
       Some (resync h dts, data) } else Some (h, data))"

definition restamp_pcr :: "packet_handler \<Rightarrow> u16 \<Rightarrow> bytes \<Rightarrow> (packet_handler \<times> bytes) option" where
  "restamp_pcr h pid data = do {
     program \<leftarrow> get_program h;
     if pid = pr_pcr_pid program then
       (case ph_pcr_restamper h of None \<Rightarrow> Some (h, data)
        | Some r \<Rightarrow> do {
            orig_pcr \<leftarrow> extract_pcr_safe r data;
            (r, data, new_pcr) \<leftarrow> restamper_process_packet r data;
            let h = h\<lparr>ph_pcr_restamper := Some r\<rparr>;
            Some (case (new_pcr, orig_pcr) of
                (Some new_pcr, Some orig_pcr) \<Rightarrow> fst (pcr_drift h orig_pcr new_pcr)
              | _ \<Rightarrow> h, data) })
     else Some (h, data) }"

definition process_packet :: "packet_handler \<Rightarrow> ts_packet \<Rightarrow> (packet_handler \<times> bytes) option" where
  "process_packet h pkt = do {
     let (h, drift) = dts_drift h (tp_pid pkt) (tp_dts pkt);
     let discontinuity = (tp_discontinuity pkt \<or> \<not> (MIN_DTS_PCR_DIFF_MS \<le> drift \<and> drift \<le> MAX_DTS_PCR_DIFF_MS));
     (h, data) \<leftarrow> mark_discontinuity h (tp_dts pkt) (tp_data pkt) discontinuity;
     restamp_pcr h (tp_pid pkt) data }"

section \<open>Variable bit rate\<close>

text \<open>The loop over the packets; \<open>first_pcr\<close> is the first PCR that went into the output.\<close>

fun vbr_loop :: "nat \<Rightarrow> packet_handler \<Rightarrow> bytes \<Rightarrow> u64 option \<Rightarrow> packet_handler \<times> bytes \<times> u64 option" where
  "vbr_loop 0 h out first_pcr = (h, out, first_pcr)"
| "vbr_loop (Suc n) h out first_pcr =
    (case get_a_or_v h of
       (h, Some pkt) \<Rightarrow>
         let h = h\<lparr>ph_count_payload_packets := ph_count_payload_packets h + 1\<rparr>;
             first_pcr = (case tp_pcr pkt of None \<Rightarrow> first_pcr
               | Some pcr \<Rightarrow> if first_pcr = None then Some pcr else first_pcr)
         in vbr_loop n h (out @ tp_data pkt) first_pcr
     | (h, None) \<Rightarrow> (h, out, first_pcr))"

definition count_psi :: "packet_handler \<Rightarrow> usize \<Rightarrow> packet_handler" where
  "count_psi h flush_count = h\<lparr>ph_count_psi_packets := ph_count_psi_packets h + flush_count\<rparr>"

definition flush_packet_for_vbr :: "packet_handler \<Rightarrow> (packet_handler \<times> bytes option) option" where
  "flush_packet_for_vbr h =
    (if ph_is_dirty h \<or> \<not> ph_is_ready h then Some (h, None) else do {
     let pkt_count = unat (get_pkt_size h) div TS_PACKET_SIZE;
     (h, out, flush_count) \<leftarrow> flush_psi_packets h [];
     let (h, pkt_count) = (if flush_count > 0 then (count_psi h flush_count, pkt_count - flush_count)
        else (h, pkt_count));
     let (h, out, first_pcr) = vbr_loop pkt_count h out None;
     let h = (case (first_pcr, ph_pcr_restamper h) of
        (Some pcr, Some r) \<Rightarrow> h\<lparr>ph_pcr_restamper := Some (r\<lparr>r_first_pcr_value := Some pcr\<rparr>)\<rparr>
      | _ \<Rightarrow> h);
     Some (h, if out \<noteq> [] then Some out else None) })"

text \<open>
  What the getters and the tables do to the handler, in the form the proofs use: a getter takes
  the head off one of the buffers or changes nothing, and at most one table is sent.
\<close>

definition taken :: "packet_handler \<Rightarrow> packet_handler \<Rightarrow> ts_packet \<Rightarrow> bool" where
  "taken h h' p \<longleftrightarrow>
     (\<exists>b. ob_pop_front (ph_out_buff_v h) = (b, Some p) \<and> h' = h\<lparr>ph_out_buff_v := b\<rparr>)
   \<or> (\<exists>b. ob_pop_front (ph_out_buff_a h) = (b, Some p) \<and> h' = h\<lparr>ph_out_buff_a := b\<rparr>)"

lemma pop_taken:
  "pop_v h = (h', Some p) \<Longrightarrow> taken h h' p" "pop_a h = (h', Some p) \<Longrightarrow> taken h h' p"
  by (auto simp: pop_v_def pop_a_def taken_def split: prod.splits)

lemma pop_not_taken:
  "pop_v h = (h', None) \<Longrightarrow> ob_front (ph_out_buff_v h) = None"
  "pop_a h = (h', None) \<Longrightarrow> ob_front (ph_out_buff_a h) = None"
  by (auto simp: pop_v_def pop_a_def ob_pop_front_def ob_front_def Let_def split: prod.splits list.splits)

lemmas getter_defs = get_a_or_v_def get_a_or_v_ready_def get_a_or_v_drain_def

lemma getter_taken:
  "get_a_or_v h = (h', Some p) \<Longrightarrow> taken h h' p"
  "get_a_or_v_ready h = (h', Some p) \<Longrightarrow> taken h h' p"
  "get_a_or_v_drain h = (h', Some p) \<Longrightarrow> taken h h' p"
  by (auto simp: getter_defs dest: pop_taken split: option.splits if_splits)

lemma getter_not_taken:
  "get_a_or_v h = (h', None) \<Longrightarrow> h' = h"
  "get_a_or_v_ready h = (h', None) \<Longrightarrow> h' = h"
  "get_a_or_v_drain h = (h', None) \<Longrightarrow> h' = h"
  by (auto simp: getter_defs dest: pop_not_taken split: option.splits if_splits)

lemma flush_table_cases:
  "flush_pat h pcr out n = Some (h', out', n') \<Longrightarrow> (h', out', n') = (h, out, n)
     \<or> ph_pat_ready h \<and> (\<exists>t pat. pkt_next (ph_pat h) = Some pat \<and> h' = h\<lparr>ph_timers := t, ph_pat := pat\<rparr> \<and> out' = out @ pat \<and> n' = n + 1)"
  "flush_pmt h pcr out n = Some (h', out', n') \<Longrightarrow> (h', out', n') = (h, out, n)
     \<or> ph_pmt_ready h \<and> n = 0 \<and> (\<exists>t pmt. pkt_next (ph_pmt h) = Some pmt \<and> h' = h\<lparr>ph_timers := t, ph_pmt := pmt\<rparr> \<and> out' = out @ pmt \<and> n' = 1)"
  "flush_sdt h pcr out n = Some (h', out', n') \<Longrightarrow> (h', out', n') = (h, out, n)
     \<or> ph_sdt_ready h \<and> n = 0 \<and> (\<exists>t sdt. pkt_next (ph_sdt h) = Some sdt \<and> h' = h\<lparr>ph_timers := t, ph_sdt := sdt\<rparr> \<and> out' = out @ sdt \<and> n' = 1)"
  by (auto simp: flush_pat_def flush_pmt_def flush_sdt_def Let_def bind_eq_Some_conv split: if_splits option.splits)

definition table_sent :: "packet_handler \<Rightarrow> packet_handler \<Rightarrow> bytes \<Rightarrow> bool" where
  "table_sent h h' p \<longleftrightarrow>
     ph_pat_ready h \<and> pkt_next (ph_pat h) = Some p \<and> (\<exists>t. h' = h\<lparr>ph_timers := t, ph_pat := p\<rparr>)
   \<or> ph_pmt_ready h \<and> pkt_next (ph_pmt h) = Some p \<and> (\<exists>t. h' = h\<lparr>ph_timers := t, ph_pmt := p\<rparr>)
   \<or> ph_sdt_ready h \<and> pkt_next (ph_sdt h) = Some p \<and> (\<exists>t. h' = h\<lparr>ph_timers := t, ph_sdt := p\<rparr>)"

lemma flush_psi_cases:
  assumes "flush_psi_packets h out = Some (h', out', n)"
  shows "h' = h \<and> out' = out \<and> n = 0 \<or> n = 1 \<and> (\<exists>p. table_sent h h' p \<and> out' = out @ p)"
proof -
  obtain h1 o1 n1 h2 o2 n2 where pat: "flush_pat h (current_pcr h) out 0 = Some (h1, o1, n1)"
      and pmt: "flush_pmt h1 (current_pcr h) o1 n1 = Some (h2, o2, n2)"
      and sdt: "flush_sdt h2 (current_pcr h) o2 n2 = Some (h', out', n)"
    using assms by (auto simp: flush_psi_packets_def Let_def bind_eq_Some_conv)
  show ?thesis
    using flush_table_cases(1) [OF pat] flush_table_cases(2) [OF pmt] flush_table_cases(3) [OF sdt]
    by (auto simp: table_sent_def)
qed

text \<open>What a flush returns is never empty, and it leaves the frame buffer alone; so every turn of the
  loop of \<open>flush_frame\<close> adds at least one byte to it.\<close>

lemma vbr_loop_frame_buff: "vbr_loop n h out pcr = (h', out', pcr') \<Longrightarrow> ph_frame_buff h' = ph_frame_buff h"
  by (induction n arbitrary: h out pcr)
     (auto simp: Let_def taken_def dest!: getter_taken getter_not_taken split: prod.splits option.splits)

lemma flush_psi_frame_buff:
  "flush_psi_packets h out = Some (h', out', n) \<Longrightarrow> ph_frame_buff h' = ph_frame_buff h"
  by (auto simp: table_sent_def dest!: flush_psi_cases)

lemma flush_packet_for_vbr_progress:
  assumes "flush_packet_for_vbr h = Some (h', Some pkt)"
  shows "ph_frame_buff h' = ph_frame_buff h \<and> pkt \<noteq> []"
proof -
  obtain h1 out n where psi: "flush_psi_packets h [] = Some (h1, out, n)"
    using assms by (auto simp: flush_packet_for_vbr_def Let_def bind_eq_Some_conv split: if_splits)
  define h2 where "h2 = (if 0 < n then count_psi h1 n else h1)"
  define k where "k = unat (get_pkt_size h) div TS_PACKET_SIZE - n"
  obtain h3 out' pcr where loop: "vbr_loop k h2 out None = (h3, out', pcr)"
    using prod_cases3 by blast
  have "ph_frame_buff h3 = ph_frame_buff h"
    using vbr_loop_frame_buff [OF loop] flush_psi_frame_buff [OF psi] by (simp add: h2_def count_psi_def)
  then show ?thesis
    using assms psi loop
    by (auto simp: flush_packet_for_vbr_def h2_def k_def split: if_splits option.splits)
qed

function flush_frame_loop :: "packet_handler \<Rightarrow> packet_handler option" where
  "flush_frame_loop h =
    (if length (ph_frame_buff h) < FRAME_BUFFER_SIZE then
       (case flush_packet_for_vbr h of
          Some (h', Some pkt) \<Rightarrow> flush_frame_loop (h'\<lparr>ph_frame_buff := ph_frame_buff h' @ pkt\<rparr>)
        | Some (h', None) \<Rightarrow> Some h'
        | None \<Rightarrow> None)
     else Some h)"
  by pat_completeness auto
termination
  by (relation "measure (\<lambda>h. FRAME_BUFFER_SIZE - length (ph_frame_buff h))")
     (auto simp: neq_Nil_conv dest!: flush_packet_for_vbr_progress)

declare flush_frame_loop.simps [simp del]

definition flush_frame :: "packet_handler \<Rightarrow> (packet_handler \<times> bytes option) option" where
  "flush_frame h =
    (if ph_is_dirty h \<or> \<not> ph_is_ready h then Some (h, None) else do {
     h \<leftarrow> flush_frame_loop h;
     if length (ph_frame_buff h) \<ge> FRAME_BUFFER_SIZE
     then Some (h\<lparr>ph_frame_buff := drop FRAME_BUFFER_SIZE (ph_frame_buff h)\<rparr>,
                Some (take FRAME_BUFFER_SIZE (ph_frame_buff h)))
     else Some (h, None) })"

section \<open>Constant bit rate\<close>

definition count_sent :: "packet_handler \<Rightarrow> usize \<Rightarrow> packet_handler" where
  "count_sent h n = (case ph_pcr_restamper h of None \<Rightarrow> h
     | Some r \<Rightarrow> h\<lparr>ph_pcr_restamper := Some (r\<lparr>r_total_packets_sent := r_total_packets_sent r + of_nat n\<rparr>)\<rparr>)"

definition adjust_limit :: "packet_handler \<Rightarrow> rat \<Rightarrow> u64" where
  "adjust_limit h sign = f64_to_u64 (fl 53 (u64_to_f64 (ph_buffer_duration_ms h)
     * fl 53 (1 + sign * fl 53 (u64_to_f64 (ph_adjust_buf h) / 100))))"

definition cbr_packet :: "packet_handler \<Rightarrow> bool \<Rightarrow> u64 \<Rightarrow> u64 \<Rightarrow> (packet_handler \<times> bytes) option" where
  "cbr_packet h is_adjust min_limit max_limit =
    (let h = count_sent h 1
     in if is_adjust \<and> \<not> ob_is_dirty (ph_out_buff_v h) \<and> ob_duration_ms (ph_out_buff_v h) < min_limit
        then Some (h\<lparr>ph_count_adjust_packets_null := ph_count_adjust_packets_null h + 1\<rparr>, TS_NULL_PACKET)
        else case get_a_or_v_ready h of
          (h, Some pkt) \<Rightarrow>
            process_packet (h\<lparr>ph_count_payload_packets := ph_count_payload_packets h + 1\<rparr>) pkt
        | (h, None) \<Rightarrow>
            let (h, pkt) = (if is_adjust then
                if ph_is_dirty h \<or> ob_is_dirty (ph_out_buff_v h) \<or> snd (is_buffer_overflow h 1)
                then get_a_or_v h
                else if ob_duration_ms (ph_out_buff_v h) > max_limit then get_a_or_v_drain h
                else (h, None)
              else (h, None))
            in case pkt of
                 Some pkt \<Rightarrow>
                   process_packet (h\<lparr>ph_count_adjust_packets_payload := ph_count_adjust_packets_payload h + 1\<rparr>) pkt
               | None \<Rightarrow> Some (h\<lparr>ph_count_null_packets := ph_count_null_packets h + 1\<rparr>, TS_NULL_PACKET))"

fun cbr_loop :: "nat \<Rightarrow> packet_handler \<Rightarrow> bool \<Rightarrow> u64 \<Rightarrow> u64 \<Rightarrow> bytes \<Rightarrow> (packet_handler \<times> bytes) option" where
  "cbr_loop 0 h is_adjust min_limit max_limit out = Some (h, out)"
| "cbr_loop (Suc n) h is_adjust min_limit max_limit out = do {
     (h, data) \<leftarrow> cbr_packet h is_adjust min_limit max_limit;
     cbr_loop n h is_adjust min_limit max_limit (out @ data) }"

definition flush_packet_for_cbr :: "packet_handler \<Rightarrow> (packet_handler \<times> bytes option) option" where
  "flush_packet_for_cbr h =
    (if ph_is_dirty h \<or> \<not> ph_is_ready h then Some (h, None) else do {
     let pkt_count = unat (get_pkt_size h) div TS_PACKET_SIZE;
     (h, out, flush_count) \<leftarrow> flush_psi_packets h [];
     let (h, pkt_count) = (if flush_count > 0
        then (count_psi (count_sent h flush_count) flush_count, pkt_count - flush_count)
        else (h, pkt_count));
     (h, out) \<leftarrow> cbr_loop pkt_count h (ph_adjust_buf h \<noteq> 0) (adjust_limit h (-1)) (adjust_limit h 1) out;
     Some (h, Some out) })"

section \<open>Proxy\<close>

text \<open>
  One packet of the input; \<open>False\<close> is the \<open>continue\<close> that skips the sending. The handler that
  sends is the caller's: a function on a state of its own, whose result \<open>None\<close> is an error.
\<close>

definition proxy_one :: "mux_env \<Rightarrow> packet_handler \<Rightarrow> bytes \<Rightarrow> (packet_handler \<times> bool) option" where
  "proxy_one env h pkt_data = do {
     pid \<leftarrow> pkt_pid pkt_data;
     program \<leftarrow> get_program h;
     if pid = 0x0000 then do {
       h \<leftarrow> process_pat env h pkt_data;
       if \<not> ph_dirty_pat h then do {
         pat \<leftarrow> pkt_next (ph_pat h);
         Some (h\<lparr>ph_pat := pat, ph_frame_buff := ph_frame_buff h @ pat\<rparr>, True) }
       else Some (h, True) }
     else if pid = pr_pmt_pid program then do {
       h \<leftarrow> process_pmt env h pkt_data;
       if \<not> ph_dirty_pmt h then do {
         pmt \<leftarrow> pkt_next (ph_pmt h);
         Some (h\<lparr>ph_pmt := pmt, ph_frame_buff := ph_frame_buff h @ pmt\<rparr>, True) }
       else Some (h, True) }
     else if ph_is_dirty h then Some (h, False)
     else if pid = pr_pcr_pid program \<or> pid \<in> set (pr_audio_pids program) \<or> pid \<in> set (pr_video_pids program)
     then Some (h\<lparr>ph_frame_buff := ph_frame_buff h @ pkt_data\<rparr>, True)
     else Some (h, True) }"

definition proxy_send :: "('s \<Rightarrow> bytes \<Rightarrow> 's \<times> usize option) \<Rightarrow> packet_handler \<Rightarrow> 's \<Rightarrow> usize \<Rightarrow> packet_handler \<times> 's \<times> usize" where
  "proxy_send handler h s send_bytes =
    (let pkt_size = unat (get_pkt_size h)
     in if length (ph_frame_buff h) \<ge> pkt_size then
          let pkt = take pkt_size (ph_frame_buff h);
              h = h\<lparr>ph_frame_buff := drop pkt_size (ph_frame_buff h)\<rparr>
          in case handler s pkt of
               (s, Some i) \<Rightarrow> (h, s, send_bytes + i)
             | (s, None) \<Rightarrow> (tell (HLog ProxySendError) h, s, send_bytes)
        else (h, s, send_bytes))"

function proxy_loop :: "mux_env \<Rightarrow> ('s \<Rightarrow> bytes \<Rightarrow> 's \<times> usize option) \<Rightarrow> packet_handler \<Rightarrow> 's \<Rightarrow> usize
    \<Rightarrow> (packet_handler \<times> 's \<times> usize) option" where
  "proxy_loop env handler h s send_bytes =
    (if length (ph_in_buff h) < TS_PACKET_SIZE then Some (h, s, send_bytes)
     else if ph_in_buff h ! 0 = TS_SYNC_BYTE then do {
       let pkt = take TS_PACKET_SIZE (ph_in_buff h);
       let rest = drop TS_PACKET_SIZE (ph_in_buff h);
       (h, go) \<leftarrow> proxy_one env h pkt;
       let (h, s, send_bytes) = (if go then proxy_send handler h s send_bytes else (h, s, send_bytes));
       proxy_loop env handler (h\<lparr>ph_in_buff := rest\<rparr>) s send_bytes }
     else Some (h\<lparr>ph_is_sync := False\<rparr>, s, send_bytes))"
  by pat_completeness auto
termination
  by (relation "measure (\<lambda>(env, handler, h, s, n). length (ph_in_buff h))") (auto simp: TS_PACKET_SIZE_def)

declare proxy_loop.simps [simp del]

definition proxy_packet :: "mux_env \<Rightarrow> ('s \<Rightarrow> bytes \<Rightarrow> 's \<times> usize option) \<Rightarrow> packet_handler \<Rightarrow> 's \<Rightarrow> bytes
    \<Rightarrow> (packet_handler \<times> 's \<times> usize) option" where
  "proxy_packet env handler h s chunk =
    (if \<not> is_some_program h then Some (h, fst (handler s chunk), length chunk)
     else let h = h\<lparr>ph_in_buff := ph_in_buff h @ chunk\<rparr>;
              (h, go) = ph_sync h
          in if go then proxy_loop env handler h s 0 else Some (h, s, 0))"

end
