(* ===== verification/Mux_Invariant.thy ===== *)
theory Mux_Invariant
  imports Mux_Output
begin

text \<open>
  The invariant of the packet handler and its preservation by every operation, from which the
  properties of the output follow: a handler that was created by \<open>ph_new\<close> and that has been
  written to and flushed in any order holds whole packets only, its tables are whole packets once
  they are ready, and it is ready only with all three tables.
\<close>

unbundle bit_operations_syntax

section \<open>The invariant\<close>

definition pkt_ok :: "bytes \<Rightarrow> bool" where
  "pkt_ok d \<longleftrightarrow> length d = TS_PACKET_SIZE \<and> d ! 0 = TS_SYNC_BYTE"

definition buf_ok :: "u16 list \<Rightarrow> out_buffer \<Rightarrow> bool" where
  "buf_ok pids b \<longleftrightarrow> ob_inv b \<and> (\<forall>p \<in> set (ob_inner b). pkt_ok (tp_data p) \<and> tp_pid p \<in> set pids)"

definition table_ok :: "bool \<Rightarrow> bytes \<Rightarrow> bool" where
  "table_ok ready p \<longleftrightarrow> length p = TS_PACKET_SIZE \<and> (ready \<longrightarrow> p ! 0 = TS_SYNC_BYTE)"

definition out_pids :: "(program \<Rightarrow> u16 list) \<Rightarrow> packet_handler \<Rightarrow> u16 list" where
  "out_pids f h = (case get_program h of None \<Rightarrow> [] | Some p \<Rightarrow> f p)"

definition ph_inv :: "packet_handler \<Rightarrow> bool" where
  "ph_inv h \<longleftrightarrow>
     buf_ok (out_pids pr_video_pids h) (ph_out_buff_v h) \<and> buf_ok (out_pids pr_audio_pids h) (ph_out_buff_a h)
     \<and> table_ok (ph_pat_ready h) (ph_pat h) \<and> table_ok (ph_pmt_ready h) (ph_pmt h)
     \<and> table_ok (ph_sdt_ready h) (ph_sdt h)
     \<and> (ph_is_ready h \<longrightarrow> ph_pat_ready h \<and> ph_pmt_ready h \<and> ph_sdt_ready h)
     \<and> (ph_pat_ready h \<longrightarrow> get_program h \<noteq> None)"

lemmas inv_defs = ph_inv_def out_pids_def get_program_def

lemma ph_inv_frame [simp]:
  "ph_inv (h\<lparr>ph_helper := x1\<rparr>) = ph_inv h"
  "ph_inv (h\<lparr>ph_is_sync := x2\<rparr>) = ph_inv h"
  "ph_inv (h\<lparr>ph_in_buff := x3\<rparr>) = ph_inv h"
  "ph_inv (h\<lparr>ph_frame_buff := x3\<rparr>) = ph_inv h"
  "ph_inv (h\<lparr>ph_check_buffer_size := x2\<rparr>) = ph_inv h"
  "ph_inv (h\<lparr>ph_min_buff_size := x4\<rparr>) = ph_inv h"
  "ph_inv (h\<lparr>ph_max_buff_size := x4\<rparr>) = ph_inv h"
  "ph_inv (h\<lparr>ph_last_pts_dts := x5\<rparr>) = ph_inv h"
  "ph_inv (h\<lparr>ph_last_cc := x6\<rparr>) = ph_inv h"
  "ph_inv (h\<lparr>ph_cc_errors := x7\<rparr>) = ph_inv h"
  "ph_inv (h\<lparr>ph_pat_info := x8\<rparr>) = ph_inv h"
  "ph_inv (h\<lparr>ph_pmt_info := x9\<rparr>) = ph_inv h"
  "ph_inv (h\<lparr>ph_psi_reasm := x10\<rparr>) = ph_inv h"
  "ph_inv (h\<lparr>ph_timers := x11\<rparr>) = ph_inv h"
  "ph_inv (h\<lparr>ph_count_psi_packets := x4\<rparr>) = ph_inv h"
  "ph_inv (h\<lparr>ph_count_null_packets := x4\<rparr>) = ph_inv h"
  "ph_inv (h\<lparr>ph_count_payload_packets := x4\<rparr>) = ph_inv h"
  "ph_inv (h\<lparr>ph_count_adjust_packets_null := x4\<rparr>) = ph_inv h"
  "ph_inv (h\<lparr>ph_count_adjust_packets_payload := x4\<rparr>) = ph_inv h"
  "ph_inv (h\<lparr>ph_fps := x12\<rparr>) = ph_inv h"
  "ph_inv (h\<lparr>ph_pcr_restamper := x13\<rparr>) = ph_inv h"
  "ph_inv (h\<lparr>ph_stats := x14\<rparr>) = ph_inv h"
  "ph_inv (h\<lparr>ph_dirty_pat := x2\<rparr>) = ph_inv h"
  "ph_inv (h\<lparr>ph_dirty_pmt := x2\<rparr>) = ph_inv h"
  "ph_inv (h\<lparr>ph_dirty_ca := x2\<rparr>) = ph_inv h"
  by (simp_all add: inv_defs)

lemma ph_inv_tell [simp]: "ph_inv (tell c h) = ph_inv h"
  by (simp add: tell_def)

lemma ph_inv_on_stats [simp]: "ph_inv (on_stats f h) = ph_inv h"
  by (simp add: on_stats_def)

lemma get_program_frame [simp]:
  "get_program (h\<lparr>ph_pat_info := x1\<rparr>) = get_program h" "get_program (tell c h) = get_program h"
  "get_program (h\<lparr>ph_psi_reasm := x2\<rparr>) = get_program h"
  by (simp_all add: get_program_def tell_def)

lemma ph_inv_updates:
  assumes "ph_inv h"
  shows "ph_inv (h\<lparr>ph_is_ready := False\<rparr>)"
    and "pkt_ok p \<Longrightarrow> get_program h \<noteq> None \<Longrightarrow> ph_inv (h\<lparr>ph_pat := p, ph_pat_ready := True\<rparr>)"
    and "pkt_ok p \<Longrightarrow> ph_inv (h\<lparr>ph_pmt := p, ph_pmt_ready := True\<rparr>)"
    and "pkt_ok p \<Longrightarrow> ph_inv (h\<lparr>ph_sdt := p, ph_sdt_ready := True\<rparr>)"
    and "table_ok (ph_pat_ready h) p \<Longrightarrow> ph_inv (h\<lparr>ph_pat := p\<rparr>)"
    and "table_ok (ph_pmt_ready h) p \<Longrightarrow> ph_inv (h\<lparr>ph_pmt := p\<rparr>)"
    and "table_ok (ph_sdt_ready h) p \<Longrightarrow> ph_inv (h\<lparr>ph_sdt := p\<rparr>)"
    and "ph_pat_ready h \<Longrightarrow> ph_pmt_ready h \<Longrightarrow> ph_sdt_ready h \<Longrightarrow> ph_inv (h\<lparr>ph_is_ready := True\<rparr>)"
    and "buf_ok (out_pids pr_video_pids h) b \<Longrightarrow> ph_inv (h\<lparr>ph_out_buff_v := b\<rparr>)"
    and "buf_ok (out_pids pr_audio_pids h) b \<Longrightarrow> ph_inv (h\<lparr>ph_out_buff_a := b\<rparr>)"
  using assms by (simp_all add: inv_defs table_ok_def pkt_ok_def)

section \<open>Packets stay whole\<close>

lemma pkt_ok_pack: "pkt_ok (pack sec pid cc)"
proof -
  have "pack sec pid cc = pack_one sec pid cc 0 True"
    by (simp add: pack_def pack_multi_def pack_loop.simps [of _ _ _ _ True] Let_def split_beta)
  then show ?thesis
    by (simp add: pack_one_eq pkt_ok_def payload_packet_def pack_payload_def pack_copy_len_def TS_PACKET_SIZE_def)
qed

lemma pkt_next_keeps: "pkt_next p = Some q \<Longrightarrow> length q = length p \<and> q ! 0 = p ! 0"
  by (auto simp: pkt_next_def Let_def bind_eq_Some_conv upd_eq_Some_iff)

lemma pkt_set_discontinuity_keeps:
  "pkt_set_discontinuity p = Some (q, b) \<Longrightarrow> length q = length p \<and> q ! 0 = p ! 0"
  by (auto simp: pkt_set_discontinuity_def Let_def bind_eq_Some_conv upd_eq_Some_iff split: if_splits)

lemma pkt_write_pcr_keeps: "pkt_write_pcr p v = Some q \<Longrightarrow> length q = length p \<and> q ! 0 = p ! 0"
  by (auto simp: pkt_write_pcr_def Let_def bind_eq_Some_conv upd_eq_Some_iff)

lemma restamper_process_packet_keeps:
  "restamper_process_packet r p = Some (r', q, n) \<Longrightarrow> length q = length p \<and> q ! 0 = p ! 0"
  by (auto simp: restamper_process_packet_def write_pcr_safe_def bind_eq_Some_conv pkt_write_pcr_keeps
        split: if_splits option.splits)

lemma descramble_ts_packet_keeps:
  assumes "\<And>k pl. length (decrypt k pl) = length pl"
    and "descramble_ts_packet decrypt dvbcsa d p = Some (q, r)" and "pkt_ok p"
  shows "pkt_ok q"
  using assms(2,3)
  by (auto simp: descramble_ts_packet_def pkt_ok_def Let_def bind_eq_Some_conv upd_eq_Some_iff
        slice_from_def nth_append assms(1) TS_PACKET_SIZE_def TS_SYNC_BYTE_def split: if_splits)

lemma prepare_sdt_ok: "prepare_sdt crc tsid prog ty prov name = Some p \<Longrightarrow> pkt_ok p"
  by (auto simp: prepare_sdt_def Let_def bind_eq_Some_conv pkt_ok_pack)

section \<open>The input side keeps the invariant\<close>

lemma buf_ok_clear [simp]: "buf_ok pids (ob_clear b)"
  by (simp add: buf_ok_def) (simp add: ob_clear_def)

lemma buf_ok_push: "buf_ok pids b \<Longrightarrow> pkt_ok (tp_data p) \<Longrightarrow> tp_pid p \<in> set pids \<Longrightarrow> buf_ok pids (ob_push_back b p)"
  using ob.inv_push [of b p] ob.contents_push [of b p] by (auto simp: buf_ok_def)

lemma ph_inv_buffers_clear [simp]: "ph_inv h \<Longrightarrow> ph_inv (buffers_clear h)"
  by (simp add: buffers_clear_def Let_def tell_def on_stats_def inv_defs)

lemma process_pat_inv: "ph_inv h \<Longrightarrow> ensures ph_inv (process_pat env h p)"
  unfolding process_pat_def by (intro post) (simp_all add: ph_inv_updates pkt_ok_pack)

lemma process_pmt_inv: "ph_inv h \<Longrightarrow> ensures ph_inv (process_pmt env h p)"
  unfolding process_pmt_def by (intro post) (simp_all add: ph_inv_updates pkt_ok_pack)

lemma process_sdt_inv: "ph_inv h \<Longrightarrow> ensures ph_inv (process_sdt env h p)"
  unfolding process_sdt_def by (intro post) (simp_all add: ph_inv_updates prepare_sdt_ok)

lemma check_cc_inv: "ensures (\<lambda>h'. ph_inv h' = ph_inv h \<and> ph_output h' = ph_output h) (check_cc h p pid)"
  unfolding check_cc_def by (intro post) (simp_all add: ph_update_cc_def tell_def Let_def split: option.split)

lemma process_ca_inv:
  assumes "\<And>k pl. length (e_decrypt env k pl) = length pl" "pkt_ok p"
  shows "ensures (\<lambda>(h', q). ph_inv h' = ph_inv h \<and> (\<forall>d. q = Some d \<longrightarrow> pkt_ok d)) (process_ca env h pid p)"
  unfolding process_ca_def using assms(2)
  by (intro post) (auto simp: Let_def split: sum.split dest: descramble_ts_packet_keeps [OF assms(1)])

lemma ts_packet_extract_pcr_keeps:
  "ts_packet_extract_pcr p = Some q \<Longrightarrow> tp_data q = tp_data p \<and> tp_pid q = tp_pid p"
  by (auto simp: ts_packet_extract_pcr_def bind_eq_Some_conv)

lemma ts_packet_new_sel [simp]:
  "tp_data (ts_packet_new d pid pts dts pusi disc) = d" "tp_pid (ts_packet_new d pid pts dts pusi disc) = pid"
  by (simp_all add: ts_packet_new_def)

lemma av_stamps_inv: "(h', x, y) = av_stamps h pid st disc \<Longrightarrow> ph_inv h' = ph_inv h"
  by (auto simp: av_stamps_def Let_def split: option.splits prod.splits if_splits)

lemma av_push_inv:
  assumes "ph_inv h" "pkt_ok p"
  shows "ensures ph_inv (av_push h pid p pusi disc)"
proof -
  have "buf_ok (out_pids pr_video_pids h) (ph_out_buff_v h)" "buf_ok (out_pids pr_audio_pids h) (ph_out_buff_a h)"
    using assms(1) by (simp_all add: ph_inv_def)
  then show ?thesis
    unfolding av_push_def using assms
    by (intro post) (auto simp: out_pids_def intro!: ph_inv_updates buf_ok_push
          dest: ts_packet_extract_pcr_keeps split: if_splits)
qed

lemma process_av_inv:
  assumes "ph_inv h" "pkt_ok p"
  shows "ensures ph_inv (process_av h pid p)"
  unfolding process_av_def using assms
  by (intro post av_push_inv)
     (auto split: if_splits dest!: ensuresD [OF check_cc_inv] av_stamps_inv)

lemma process_one_inv:
  assumes "\<And>k pl. length (e_decrypt env k pl) = length pl" and "ph_inv h" "pkt_ok p"
  shows "ensures ph_inv (process_one env h p)"
  unfolding process_one_def using assms(2)
  by (intro post process_pat_inv process_pmt_inv process_sdt_inv process_av_inv)
     (auto dest!: ensuresD [OF process_ca_inv [OF assms(1,3)]])

lemma pkt_ok_take: "\<not> length b < TS_PACKET_SIZE \<Longrightarrow> b ! 0 = TS_SYNC_BYTE \<Longrightarrow> pkt_ok (take TS_PACKET_SIZE b)"
  by (simp add: pkt_ok_def TS_PACKET_SIZE_def)

lemma process_packets_inv:
  "ph_inv h \<Longrightarrow> (\<And>k pl. length (e_decrypt env k pl) = length pl) \<Longrightarrow>
   ensures (\<lambda>(h', _). ph_inv h') (process_packets env h)"
proof (induction env h rule: process_packets.induct)
  case (1 env h)
  have "ph_inv x" if "\<not> length (ph_in_buff h) < TS_PACKET_SIZE" "ph_in_buff h ! 0 = TS_SYNC_BYTE"
    "process_one env h (take TS_PACKET_SIZE (ph_in_buff h)) = Some x" for x
    using ensuresD [OF process_one_inv [OF 1(3) 1(2) pkt_ok_take [OF that(1,2)]] that(3)] .
  then show ?case
    unfolding process_packets.simps [of env h] using 1(2,3) by (intro post 1(1)) auto
qed

lemma default_sdt_inv: "ph_inv h \<Longrightarrow> ensures ph_inv (default_sdt env h)"
  unfolding default_sdt_def by (intro post) (simp_all add: ph_inv_updates prepare_sdt_ok)

lemma ph_inv_resync [simp]: "ph_inv (resync h dts) = ph_inv h"
  by (simp add: resync_def Let_def split: option.split)

lemma probe_bitrate_inv: "ph_inv (fst (probe_bitrate h)) = ph_inv h"
  by (simp add: probe_bitrate_def Let_def split: option.split)

lemma buf_ok_pop: "buf_ok pids b \<Longrightarrow> ob_pop_front b = (b', r) \<Longrightarrow> buf_ok pids b'"
  using ob.pop_cons [of b] ob.pop_empty [of b] by (cases "ob_inner b") (auto simp: buf_ok_def)

lemma ph_inv_bufs:
  "ph_inv h \<Longrightarrow> buf_ok (out_pids pr_video_pids h) (ph_out_buff_v h)"
  "ph_inv h \<Longrightarrow> buf_ok (out_pids pr_audio_pids h) (ph_out_buff_a h)"
  by (simp_all add: ph_inv_def)

lemma taken_inv:
  assumes "taken h h' p" "ph_inv h"
  shows "ph_inv h'"
  using assms(1) unfolding taken_def
proof (elim disjE exE conjE)
  fix b assume "ob_pop_front (ph_out_buff_v h) = (b, Some p)" "h' = h\<lparr>ph_out_buff_v := b\<rparr>"
  then show ?thesis
    using buf_ok_pop [OF ph_inv_bufs(1)] assms(2) by (simp add: ph_inv_updates(9))
next
  fix b assume "ob_pop_front (ph_out_buff_a h) = (b, Some p)" "h' = h\<lparr>ph_out_buff_a := b\<rparr>"
  then show ?thesis
    using buf_ok_pop [OF ph_inv_bufs(2)] assms(2) by (simp add: ph_inv_updates(10))
qed

lemma get_a_or_v_inv: "ph_inv h \<Longrightarrow> ph_inv (fst (get_a_or_v h))"
  by (cases "get_a_or_v h"; cases "snd (get_a_or_v h)")
     (auto dest!: getter_not_taken intro: taken_inv [OF getter_taken(1)])

lemma buffer_adjust_inv: "ph_inv h \<Longrightarrow> ph_inv (buffer_adjust h)"
  unfolding buffer_adjust_def
proof (induction h rule: buffer_adjust_loop.induct)
  case (1 h)
  then show ?case
    using get_a_or_v_inv [of h] by (simp add: buffer_adjust_loop.simps [of h])
qed

lemma same_bufs: "h = h\<lparr>ph_out_buff_v := ph_out_buff_v h, ph_out_buff_a := ph_out_buff_a h\<rparr>"
  by simp

lemma taken_bufs: "taken h h' p \<Longrightarrow> \<exists>v a. h' = h\<lparr>ph_out_buff_v := v, ph_out_buff_a := a\<rparr>"
  unfolding taken_def
proof (elim disjE exE conjE)
  fix b assume "h' = h\<lparr>ph_out_buff_v := b\<rparr>"
  then show ?thesis
    by (intro exI [of _ b] exI [of _ "ph_out_buff_a h"]) simp
next
  fix b assume "h' = h\<lparr>ph_out_buff_a := b\<rparr>"
  then show ?thesis
    by (intro exI [of _ "ph_out_buff_v h"] exI [of _ b]) simp
qed

lemma get_a_or_v_bufs: "\<exists>v a. fst (get_a_or_v h) = h\<lparr>ph_out_buff_v := v, ph_out_buff_a := a\<rparr>"
proof (cases "snd (get_a_or_v h)")
  case None
  then have "fst (get_a_or_v h) = h"
    using getter_not_taken(1) [of h "fst (get_a_or_v h)"] by (simp add: prod_eq_iff)
  then show ?thesis
    using same_bufs by metis
next
  case (Some p)
  then show ?thesis
    using getter_taken(1) [of h "fst (get_a_or_v h)" p] by (intro taken_bufs) (simp add: prod_eq_iff)
qed

lemma buffer_adjust_bufs: "\<exists>v a. buffer_adjust h = h\<lparr>ph_out_buff_v := v, ph_out_buff_a := a\<rparr>"
  unfolding buffer_adjust_def
proof (induction h rule: buffer_adjust_loop.induct)
  case (1 h)
  obtain v a where get: "fst (get_a_or_v h) = h\<lparr>ph_out_buff_v := v, ph_out_buff_a := a\<rparr>"
    using get_a_or_v_bufs by blast
  show ?case
  proof (cases "ob_duration_ms (ph_out_buff_v h) > ph_buffer_duration_ms h")
    case True
    then obtain v' a' where "buffer_adjust_loop (fst (get_a_or_v h)) = (fst (get_a_or_v h))\<lparr>ph_out_buff_v := v', ph_out_buff_a := a'\<rparr>"
      using 1 by blast
    then show ?thesis
      using True by (intro exI [of _ v'] exI [of _ a']) (simp add: buffer_adjust_loop.simps [of h] get)
  next
    case False
    then show ?thesis
      by (intro exI [of _ "ph_out_buff_v h"] exI [of _ "ph_out_buff_a h"]) (simp add: buffer_adjust_loop.simps [of h])
  qed
qed

lemma become_ready_inv:
  assumes "ph_inv h" "ph_pat_ready h" "ph_pmt_ready h" "ph_sdt_ready h"
  shows "ph_inv (become_ready env h bitrate)"
proof -
  obtain v a where "buffer_adjust h = h\<lparr>ph_out_buff_v := v, ph_out_buff_a := a\<rparr>"
    using buffer_adjust_bufs by blast
  then show ?thesis
    using assms buffer_adjust_inv [OF assms(1)]
    by (auto simp: become_ready_def Let_def resync_def tell_def on_stats_def intro!: ph_inv_updates(8) split: option.split)
qed

lemma default_sdt_flags:
  "default_sdt env h = Some h' \<Longrightarrow> ph_sdt_ready h' \<and> ph_pat_ready h' = ph_pat_ready h \<and> ph_pmt_ready h' = ph_pmt_ready h"
  by (auto simp: default_sdt_def Let_def bind_eq_Some_conv tell_def)

lemma probe_bitrate_flags:
  "(h', b) = probe_bitrate h \<Longrightarrow> ph_inv h' = ph_inv h \<and> ph_sdt_ready h' = ph_sdt_ready h \<and> ph_pat_ready h' = ph_pat_ready h \<and> ph_pmt_ready h' = ph_pmt_ready h"
  by (auto simp: probe_bitrate_def Let_def tell_def split: if_splits option.splits)

lemma prepare_output_inv: "ph_inv h \<Longrightarrow> ensures ph_inv (prepare_output env h)"
  unfolding prepare_output_def
  by (intro post)
     (auto intro!: become_ready_inv split: if_splits dest: default_sdt_flags ensuresD [OF default_sdt_inv] dest!: probe_bitrate_flags)

lemma is_buffer_overflow_inv: "(h', b) = is_buffer_overflow h k \<Longrightarrow> ph_inv h' = ph_inv h"
  by (auto simp: is_buffer_overflow_def Let_def split: if_splits)

lemma ph_sync_inv: "(h', b) = ph_sync h \<Longrightarrow> ph_inv h' = ph_inv h"
  by (auto simp: ph_sync_def Let_def split: if_splits prod.splits)

lemma ph_process_inv:
  assumes "\<And>k pl. length (e_decrypt env k pl) = length pl" and "ph_inv h"
  shows "ensures ph_inv (ph_process env h)"
  unfolding ph_process_def using assms(2)
  by (intro post prepare_output_inv)
     (auto split: if_splits dest!: ph_sync_inv is_buffer_overflow_inv ensuresD [OF process_packets_inv [OF _ assms(1)], rotated])

lemma ph_write_inv:
  assumes "\<And>k pl. length (e_decrypt env k pl) = length pl" and "ph_inv h"
  shows "ensures ph_inv (ph_write env h chunk)"
  unfolding ph_write_def using assms(2)
  by (intro post) (auto split: if_splits dest!: ensuresD [OF ph_process_inv [OF assms(1)], rotated])

section \<open>The output side keeps the invariant\<close>

lemma table_ok_next: "table_ok r p \<Longrightarrow> pkt_next p = Some q \<Longrightarrow> table_ok r q"
  using pkt_next_keeps [of p q] by (auto simp: table_ok_def)

lemma table_sent_inv:
  assumes "table_sent h h' p" "ph_inv h"
  shows "ph_inv h' \<and> pkt_ok p"
proof -
  have "table_ok (ph_pat_ready h) (ph_pat h)" "table_ok (ph_pmt_ready h) (ph_pmt h)" "table_ok (ph_sdt_ready h) (ph_sdt h)"
    using assms(2) by (simp_all add: ph_inv_def)
  from this [THEN table_ok_next] show ?thesis
    using assms unfolding table_sent_def
    by (elim disjE exE conjE) (simp_all add: ph_inv_updates table_ok_def pkt_ok_def)
qed

lemma flush_psi_inv:
  assumes "ph_inv h"
  shows "ensures (\<lambda>(h', out', n). ph_inv h' \<and> n \<le> 1 \<and> (\<exists>ps. out' = out @ concat ps \<and> (\<forall>p \<in> set ps. pkt_ok p) \<and> length ps = n))
           (flush_psi_packets h out)"
  unfolding ensures_def
proof (intro allI impI, clarify)
  fix h' out' n assume "flush_psi_packets h out = Some (h', out', n)"
  from flush_psi_cases [OF this]
  consider "h' = h" "out' = out" "n = 0" | p where "n = 1" "table_sent h h' p" "out' = out @ p"
    by auto
  then show "ph_inv h' \<and> n \<le> 1 \<and> (\<exists>ps. out' = out @ concat ps \<and> (\<forall>p \<in> set ps. pkt_ok p) \<and> length ps = n)"
  proof cases
    case 1
    then show ?thesis using assms by simp
  next
    case 2
    then show ?thesis
      using table_sent_inv [OF 2(2) assms] by (auto intro!: exI [of _ "[p]"])
  qed
qed

definition flush_ok :: "packet_handler \<Rightarrow> packet_handler \<Rightarrow> bool" where
  "flush_ok h h' \<longleftrightarrow> ph_inv h' \<and> ph_output h' = ph_output h \<and> ph_pat_ready h' = ph_pat_ready h
     \<and> ph_is_ready h' = ph_is_ready h \<and> ph_is_dirty h' = ph_is_dirty h \<and> ph_frame_buff h' = ph_frame_buff h"

lemma flush_ok_trans: "flush_ok h h' \<Longrightarrow> flush_ok h' h'' \<Longrightarrow> flush_ok h h''"
  by (simp add: flush_ok_def)

lemma resync_output [simp]:
  "ph_output (resync h dts) = ph_output h" "ph_pat_ready (resync h dts) = ph_pat_ready h"
  "ph_is_ready (resync h dts) = ph_is_ready h" "ph_is_dirty (resync h dts) = ph_is_dirty h"
  "ph_frame_buff (resync h dts) = ph_frame_buff h"
  by (simp_all add: resync_def Let_def ph_is_dirty_def split: option.split)

lemma on_stats_output [simp]:
  "ph_output (on_stats f h) = ph_output h" "ph_pat_ready (on_stats f h) = ph_pat_ready h"
  "ph_is_ready (on_stats f h) = ph_is_ready h" "ph_is_dirty (on_stats f h) = ph_is_dirty h"
  "ph_frame_buff (on_stats f h) = ph_frame_buff h"
  by (simp_all add: on_stats_def ph_is_dirty_def)

lemma is_dirty_frame [simp]:
  "ph_is_dirty (h\<lparr>ph_pcr_restamper := x1\<rparr>) = ph_is_dirty h" "ph_is_dirty (h\<lparr>ph_out_buff_v := x2\<rparr>) = ph_is_dirty h"
  "ph_is_dirty (h\<lparr>ph_out_buff_a := x3\<rparr>) = ph_is_dirty h" "ph_is_dirty (h\<lparr>ph_timers := x4\<rparr>) = ph_is_dirty h"
  "ph_is_dirty (h\<lparr>ph_pat := x5\<rparr>) = ph_is_dirty h" "ph_is_dirty (h\<lparr>ph_pmt := x5\<rparr>) = ph_is_dirty h"
  "ph_is_dirty (h\<lparr>ph_sdt := x5\<rparr>) = ph_is_dirty h" "ph_is_dirty (h\<lparr>ph_frame_buff := x5\<rparr>) = ph_is_dirty h"
  "ph_is_dirty (h\<lparr>ph_count_payload_packets := n\<rparr>) = ph_is_dirty h"
  "ph_is_dirty (h\<lparr>ph_count_adjust_packets_payload := n\<rparr>) = ph_is_dirty h"
  "ph_is_dirty (h\<lparr>ph_count_adjust_packets_null := n\<rparr>) = ph_is_dirty h"
  "ph_is_dirty (h\<lparr>ph_count_null_packets := n\<rparr>) = ph_is_dirty h"
  "ph_is_dirty (h\<lparr>ph_count_psi_packets := n\<rparr>) = ph_is_dirty h"
  by (simp_all add: ph_is_dirty_def)

lemma mark_discontinuity_inv:
  "mark_discontinuity h dts d b = Some (h', d') \<Longrightarrow> ph_inv h \<Longrightarrow> flush_ok h h' \<and> (pkt_ok d \<longrightarrow> pkt_ok d')"
  by (auto simp: mark_discontinuity_def bind_eq_Some_conv pkt_ok_def flush_ok_def split: if_splits
        dest!: pkt_set_discontinuity_keeps)

lemma restamp_pcr_inv:
  assumes "ph_inv h" "pkt_ok d"
  shows "ensures (\<lambda>(h', d). flush_ok h h' \<and> pkt_ok d) (restamp_pcr h pid d)"
  unfolding restamp_pcr_def pcr_drift_def using assms
  by (intro post)
     (auto simp: pkt_ok_def flush_ok_def Let_def split: option.splits dest!: restamper_process_packet_keeps)

lemma dts_drift_inv: "(h', x) = dts_drift h pid dts \<Longrightarrow> ph_inv h \<Longrightarrow> flush_ok h h'"
  by (simp add: dts_drift_def Let_def flush_ok_def)

lemma process_packet_inv:
  assumes "ph_inv h" "pkt_ok (tp_data p)"
  shows "ensures (\<lambda>(h', d). flush_ok h h' \<and> pkt_ok d) (process_packet h p)"
  unfolding process_packet_def ensures_def using assms
  by (fastforce simp: flush_ok_def Let_def bind_eq_Some_conv split: prod.splits
        dest: mark_discontinuity_inv dts_drift_inv [OF sym] ensuresD [OF restamp_pcr_inv])

lemma restamp_pcr_no_panic [no_panic]:
  "get_program h \<noteq> None \<Longrightarrow> pkt_ok d \<Longrightarrow> restamp_pcr h pid d \<noteq> None"
  unfolding restamp_pcr_def extract_pcr_safe_def restamper_process_packet_def write_pcr_safe_def
  by (intro no_panic) (simp_all add: pkt_ok_def TS_PACKET_SIZE_def)

lemma flush_ok_program: "flush_ok h h' \<Longrightarrow> ph_pat_ready h \<Longrightarrow> get_program h' \<noteq> None"
  by (auto simp: flush_ok_def ph_inv_def)

lemma process_packet_no_panic [no_panic]:
  assumes "ph_inv h" "ph_pat_ready h" "pkt_ok (tp_data p)"
  shows "process_packet h p \<noteq> None"
proof -
  have "get_program h2 \<noteq> None \<and> pkt_ok d"
    if "(h1, drift) = dts_drift h (tp_pid p) (tp_dts p)" "mark_discontinuity h1 (tp_dts p) (tp_data p) disc = Some (h2, d)"
    for h1 h2 drift disc d
  proof -
    have h1: "flush_ok h h1"
      using dts_drift_inv [OF that(1) assms(1)] .
    then have "flush_ok h1 h2 \<and> pkt_ok d"
      using mark_discontinuity_inv [OF that(2)] assms(3) by (simp add: flush_ok_def)
    then show ?thesis
      using flush_ok_program [OF flush_ok_trans [OF h1]] assms(2) by blast
  qed
  then show ?thesis
    unfolding process_packet_def mark_discontinuity_def
    by (intro no_panic) (simp_all add: mark_discontinuity_def)
qed

lemma pkt_ok_null [simp]: "pkt_ok TS_NULL_PACKET"
  by (simp add: pkt_ok_def TS_NULL_PACKET_def TS_PACKET_SIZE_def TS_SYNC_BYTE_def)

lemma taken_pkt_ok:
  assumes "taken h h' p" "ph_inv h"
  shows "pkt_ok (tp_data p)"
  using assms(1) ph_inv_bufs [OF assms(2)] unfolding taken_def
  by (elim disjE exE conjE) (auto simp: buf_ok_def ob_pop_front_def Let_def split: list.splits)

lemma count_sent_inv [simp]:
  "ph_inv (count_sent h n) = ph_inv h" "ph_pat_ready (count_sent h n) = ph_pat_ready h" "ph_output (count_sent h n) = ph_output h"
  "ph_is_ready (count_sent h n) = ph_is_ready h" "ph_is_dirty (count_sent h n) = ph_is_dirty h"
  "ph_frame_buff (count_sent h n) = ph_frame_buff h"
  by (simp_all add: count_sent_def split: option.split)

lemma taken_flush_ok: "taken h h' p \<Longrightarrow> ph_inv h \<Longrightarrow> flush_ok h h'"
  using taken_inv [of h h' p] taken_bufs [of h h' p] by (auto simp: flush_ok_def)

lemma flush_ok_refl: "ph_inv h \<Longrightarrow> flush_ok h h"
  by (simp add: flush_ok_def)

lemma flush_ok_step:
  assumes "flush_ok h0 h" "taken h h' p"
  shows "flush_ok h0 h' \<and> pkt_ok (tp_data p)"
  using assms taken_flush_ok [OF assms(2)] taken_pkt_ok [OF assms(2)] flush_ok_trans
  by (auto simp: flush_ok_def)

lemma flush_ok_counters [simp]:
  "flush_ok h0 (h\<lparr>ph_count_payload_packets := n\<rparr>) = flush_ok h0 h"
  "flush_ok h0 (h\<lparr>ph_count_adjust_packets_payload := n\<rparr>) = flush_ok h0 h"
  "flush_ok h0 (h\<lparr>ph_count_adjust_packets_null := n\<rparr>) = flush_ok h0 h"
  "flush_ok h0 (h\<lparr>ph_count_null_packets := n\<rparr>) = flush_ok h0 h"
  "flush_ok h0 (h\<lparr>ph_count_psi_packets := n\<rparr>) = flush_ok h0 h"
  "flush_ok h0 (count_sent h n) = flush_ok h0 h"
  by (simp_all add: flush_ok_def)

text \<open>A packet that has been taken is restamped without a panic and is whole again.\<close>

lemma process_packet_ok:
  assumes "flush_ok h0 h" "ph_pat_ready h0" "pkt_ok (tp_data p)"
  shows "\<exists>h' d. process_packet h p = Some (h', d) \<and> flush_ok h0 h' \<and> pkt_ok d"
proof -
  have "ph_inv h" "ph_pat_ready h"
    using assms by (simp_all add: flush_ok_def)
  then obtain h' d where "process_packet h p = Some (h', d)"
    using process_packet_no_panic [OF _ _ assms(3)] by fastforce
  with ensuresD [OF process_packet_inv [OF \<open>ph_inv h\<close> assms(3)] this] show ?thesis
    using flush_ok_trans [OF assms(1)] by auto
qed

lemma cbr_packet_ok:
  assumes "flush_ok h0 h" "ph_pat_ready h0"
  shows "\<exists>h' d. cbr_packet h adj lo hi = Some (h', d) \<and> flush_ok h0 h' \<and> pkt_ok d"
proof -
  define g where g: "g = count_sent h 1"
  have h: "flush_ok h0 g" using assms by (simp add: g)
  have sent: "\<exists>h'' d. process_packet (h'\<lparr>ph_count_payload_packets := n\<rparr>) p = Some (h'', d) \<and> flush_ok h0 h'' \<and> pkt_ok d"
    "\<exists>h'' d. process_packet (h'\<lparr>ph_count_adjust_packets_payload := n\<rparr>) p = Some (h'', d) \<and> flush_ok h0 h'' \<and> pkt_ok d"
    if "taken g h' p" for h' p n
    using flush_ok_step [OF h that] by (auto intro!: process_packet_ok [OF _ assms(2)])
  obtain h1 r where ready: "get_a_or_v_ready g = (h1, r)" by fastforce
  obtain h2 q where all: "get_a_or_v g = (h2, q)" by fastforce
  obtain h3 s where drain: "get_a_or_v_drain g = (h3, s)" by fastforce
  have "r = None \<Longrightarrow> h1 = g" "q = None \<Longrightarrow> h2 = g" "s = None \<Longrightarrow> h3 = g"
    using getter_not_taken [of g] ready all drain by auto
  moreover have "r = Some p \<Longrightarrow> taken g h1 p" "q = Some p \<Longrightarrow> taken g h2 p" "s = Some p \<Longrightarrow> taken g h3 p" for p
    using getter_taken [of g] ready all drain by auto
  ultimately show ?thesis
    using h sent unfolding cbr_packet_def g [symmetric]
    by (cases r; cases q; cases s) (auto simp: Let_def ready all drain)
qed

lemma cbr_loop_ok:
  assumes "flush_ok h0 h" "ph_pat_ready h0"
  shows "\<exists>h' ps. cbr_loop n h adj lo hi out = Some (h', out @ concat ps) \<and> flush_ok h0 h'
           \<and> length ps = n \<and> (\<forall>p \<in> set ps. pkt_ok p)"
  using assms(1)
proof (induction n arbitrary: h out)
  case (Suc n)
  obtain h1 d where one: "cbr_packet h adj lo hi = Some (h1, d)" "flush_ok h0 h1" "pkt_ok d"
    using cbr_packet_ok [OF Suc.prems assms(2)] by blast
  obtain h' ps where "cbr_loop n h1 adj lo hi (out @ d) = Some (h', (out @ d) @ concat ps)" "flush_ok h0 h'"
    "length ps = n" "\<forall>p \<in> set ps. pkt_ok p"
    using Suc.IH [OF one(2)] by blast
  then show ?case
    using one by (intro exI [of _ h'] exI [of _ "d # ps"]) simp
qed auto

lemma table_sent_flush_ok: "table_sent h h' p \<Longrightarrow> ph_inv h \<Longrightarrow> flush_ok h h'"
  using table_sent_inv [of h h' p] by (auto simp: table_sent_def flush_ok_def)

lemma flush_psi_no_panic [no_panic]:
  assumes "ph_inv h"
  shows "flush_psi_packets h out \<noteq> None"
proof -
  have next_ok: "pkt_next p \<noteq> None" if "table_ok r p" for r p
    using that pkt_next_no_panic [of p] by (simp add: table_ok_def TS_PACKET_SIZE_def)
  have pat: "table_ok (ph_pat_ready h) (ph_pat h)" and pmt: "table_ok (ph_pmt_ready h) (ph_pmt h)"
    and sdt: "table_ok (ph_sdt_ready h) (ph_sdt h)"
    using assms by (simp_all add: ph_inv_def)
  obtain h1 o1 n1 where 1: "flush_pat h (current_pcr h) out 0 = Some (h1, o1, n1)"
    using next_ok [OF pat] by (fastforce simp: flush_pat_def Let_def split: option.split)
  have "ph_pmt h1 = ph_pmt h" "ph_sdt h1 = ph_sdt h"
    using flush_table_cases(1) [OF 1] by auto
  moreover from this obtain h2 o2 n2 where 2: "flush_pmt h1 (current_pcr h) o1 n1 = Some (h2, o2, n2)"
    using next_ok [OF pmt] by (fastforce simp: flush_pmt_def Let_def split: option.split)
  ultimately have "ph_sdt h2 = ph_sdt h"
    using flush_table_cases(2) [OF 2] by auto
  then have "flush_sdt h2 (current_pcr h) o2 n2 \<noteq> None"
    using next_ok [OF sdt] by (fastforce simp: flush_sdt_def Let_def split: option.split)
  then show ?thesis
    by (simp add: flush_psi_packets_def 1 2)
qed

lemma flush_psi_ok:
  assumes "ph_inv h"
  shows "\<exists>h' ps. flush_psi_packets h [] = Some (h', concat ps, length ps) \<and> flush_ok h h'
           \<and> length ps \<le> 1 \<and> (\<forall>p \<in> set ps. pkt_ok p)"
proof -
  obtain h' out n where psi: "flush_psi_packets h [] = Some (h', out, n)"
    using flush_psi_no_panic [OF assms] by fastforce
  consider "h' = h" "out = []" "n = 0" | p where "n = 1" "table_sent h h' p" "out = p"
    using flush_psi_cases [OF psi] by auto
  then show ?thesis
  proof cases
    case 1
    then show ?thesis using psi flush_ok_refl [OF assms] by (intro exI [of _ h'] exI [of _ "[]"]) simp
  next
    case 2
    then show ?thesis
      using psi table_sent_flush_ok [OF 2(2) assms] table_sent_inv [OF 2(2) assms]
      by (intro exI [of _ h'] exI [of _ "[p]"]) simp
  qed
qed

lemma flush_cbr_ok:
  assumes "ph_inv h" "ph_is_ready h" "\<not> ph_is_dirty h"
  defines "k \<equiv> unat (get_pkt_size h) div TS_PACKET_SIZE"
  shows "\<exists>h' ps. flush_packet_for_cbr h = Some (h', Some (concat ps)) \<and> flush_ok h h'
           \<and> k \<le> length ps \<and> length ps \<le> max 1 k \<and> (\<forall>p \<in> set ps. pkt_ok p)"
proof -
  have ready: "ph_pat_ready h"
    using assms by (simp add: ph_inv_def)
  obtain h1 psi where psi: "flush_psi_packets h [] = Some (h1, concat psi, length psi)" "flush_ok h h1"
    "length psi \<le> 1" "\<forall>p \<in> set psi. pkt_ok p"
    using flush_psi_ok [OF assms(1)] by blast
  define h2 where "h2 = (if psi = [] then h1 else count_psi (count_sent h1 (length psi)) (length psi))"
  have h2: "flush_ok h h2"
    using psi(2) by (simp add: h2_def count_psi_def)
  obtain h3 ps where loop: "cbr_loop (k - length psi) h2 (ph_adjust_buf h2 \<noteq> 0) (adjust_limit h2 (-1)) (adjust_limit h2 1) (concat psi)
      = Some (h3, concat psi @ concat ps)" "flush_ok h h3" "length ps = k - length psi" "\<forall>p \<in> set ps. pkt_ok p"
    using cbr_loop_ok [OF h2 ready] by blast
  then have "flush_packet_for_cbr h = Some (h3, Some (concat (psi @ ps)))"
    using assms(2,3) psi(1)
    by (cases "psi = []") (simp_all add: flush_packet_for_cbr_def h2_def k_def [symmetric])
  then show ?thesis
    using loop(2-4) psi(3,4) by (intro exI [of _ h3] exI [of _ "psi @ ps"]) auto
qed

lemma vbr_loop_ok:
  "flush_ok h0 h \<Longrightarrow> \<exists>h' ps pcr'. vbr_loop n h out pcr = (h', out @ concat ps, pcr') \<and> flush_ok h0 h'
     \<and> length ps \<le> n \<and> (\<forall>p \<in> set ps. pkt_ok p)"
proof (induction n arbitrary: h out pcr)
  case (Suc n)
  obtain h1 r where get: "get_a_or_v h = (h1, r)" by fastforce
  show ?case
  proof (cases r)
    case None
    then show ?thesis
      using get getter_not_taken(1) [of h h1] Suc.prems by (intro exI [of _ h1] exI [of _ "[]"]) simp
  next
    case (Some p)
    then have h1: "flush_ok h0 h1" "pkt_ok (tp_data p)"
      using flush_ok_step [OF Suc.prems] getter_taken(1) [of h h1 p] get by auto
    let ?h = "h1\<lparr>ph_count_payload_packets := ph_count_payload_packets h1 + 1\<rparr>"
    let ?pcr = "case tp_pcr p of None \<Rightarrow> pcr | Some x \<Rightarrow> if pcr = None then Some x else pcr"
    obtain h' ps pcr' where "vbr_loop n ?h (out @ tp_data p) ?pcr = (h', (out @ tp_data p) @ concat ps, pcr')"
        "flush_ok h0 h'" "length ps \<le> n" "\<forall>p \<in> set ps. pkt_ok p"
      using Suc.IH [of ?h "out @ tp_data p" ?pcr] h1(1) by auto
    then show ?thesis
      using h1 get Some by (intro exI [of _ h'] exI [of _ "tp_data p # ps"] exI [of _ pcr']) simp
  qed
qed auto

lemma concat_pkts_empty: "\<forall>p \<in> set ps. pkt_ok p \<Longrightarrow> concat ps = [] \<longleftrightarrow> ps = []"
  by (cases ps) (auto simp: pkt_ok_def TS_PACKET_SIZE_def)

lemma flush_vbr_ok:
  assumes "ph_inv h" "ph_is_ready h" "\<not> ph_is_dirty h"
  shows "\<exists>h' ps. flush_packet_for_vbr h = Some (h', if ps = [] then None else Some (concat ps)) \<and> flush_ok h h'
           \<and> length ps \<le> max 1 (unat (get_pkt_size h) div TS_PACKET_SIZE) \<and> (\<forall>p \<in> set ps. pkt_ok p)"
proof -
  let ?k = "unat (get_pkt_size h) div TS_PACKET_SIZE"
  obtain h1 psi where psi: "flush_psi_packets h [] = Some (h1, concat psi, length psi)" "flush_ok h h1"
    "length psi \<le> 1" "\<forall>p \<in> set psi. pkt_ok p"
    using flush_psi_ok [OF assms(1)] by blast
  define h2 where "h2 = (if psi = [] then h1 else count_psi h1 (length psi))"
  have h2: "flush_ok h h2"
    using psi(2) by (simp add: h2_def count_psi_def)
  obtain h3 ps pcr where loop: "vbr_loop (?k - length psi) h2 (concat psi) None = (h3, concat psi @ concat ps, pcr)"
      "flush_ok h h3" "length ps \<le> ?k - length psi" "\<forall>p \<in> set ps. pkt_ok p"
    using vbr_loop_ok [OF h2] by blast
  define h4 where "h4 = (case (pcr, ph_pcr_restamper h3) of
     (Some pcr, Some r) \<Rightarrow> h3\<lparr>ph_pcr_restamper := Some (r\<lparr>r_first_pcr_value := Some pcr\<rparr>)\<rparr> | _ \<Rightarrow> h3)"
  have h4: "flush_ok h h4"
    using loop(2) by (simp add: h4_def flush_ok_def split: option.split)
  have nonempty: "concat (psi @ ps) \<noteq> [] \<longleftrightarrow> psi @ ps \<noteq> []"
    using concat_pkts_empty [of "psi @ ps"] loop(4) psi(4) by auto
  have "flush_packet_for_vbr h = Some (h4, if psi @ ps = [] then None else Some (concat (psi @ ps)))"
    using assms(2,3) psi(1) loop(1) nonempty
    by (cases "psi = []") (auto simp: flush_packet_for_vbr_def h2_def h4_def Let_def)
  then show ?thesis
    using h4 loop(3,4) psi(3,4) by (intro exI [of _ h4] exI [of _ "psi @ ps"]) auto
qed

end
