(* ===== verification/Mux_Props.thy ===== *)
theory Mux_Props
  imports Mux_Invariant
begin

text \<open>
  The packet handler as a state machine: the steps are the operations the workers call, the
  reachable states are those of a handler created by \<open>ph_new\<close>. The properties of the output
  follow from the invariant of \<open>Mux_Invariant\<close>.
\<close>

unbundle bit_operations_syntax

section \<open>What is sent\<close>

text \<open>
  The packets a flush puts out, by where they come from: the head of one of the two buffers, or one of the cached tables.
\<close>

datatype sent = SentVideo ts_packet | SentAudio ts_packet | SentPat bytes | SentPmt bytes | SentSdt bytes

primrec sent_bytes :: "sent \<Rightarrow> bytes" where
  "sent_bytes (SentVideo p) = tp_data p"
| "sent_bytes (SentAudio p) = tp_data p"
| "sent_bytes (SentPat p) = p"
| "sent_bytes (SentPmt p) = p"
| "sent_bytes (SentSdt p) = p"

definition sent_stream :: "sent list \<Rightarrow> bytes" where
  "sent_stream xs = concat (map sent_bytes xs)"

text \<open>\<open>copies p qs p'\<close>: the packets \<open>qs\<close> are sent from the cached packet \<open>p\<close>, each the one before with the next
  continuity counter, and \<open>p'\<close> is cached afterwards.\<close>

fun copies :: "bytes \<Rightarrow> bytes list \<Rightarrow> bytes \<Rightarrow> bool" where
  "copies p [] p' \<longleftrightarrow> p' = p"
| "copies p (q # qs) p' \<longleftrightarrow> pkt_next p = Some q \<and> copies q qs p'"

text \<open>
  \<open>sends h xs h'\<close>: the packets \<open>xs\<close> are exactly what has left the handler between \<open>h\<close> and \<open>h'\<close>. The video packets among them,
  in order, are the front of the video buffer that is gone, the audio packets that of the audio buffer, and the tables are
  the cached ones with the counter going on. Nothing is taken off a buffer without being sent, and nothing else is sent.
\<close>

definition sends :: "packet_handler \<Rightarrow> sent list \<Rightarrow> packet_handler \<Rightarrow> bool" where
  "sends h xs h' \<longleftrightarrow>
     ob_inner (ph_out_buff_v h) = [p. SentVideo p \<leftarrow> xs] @ ob_inner (ph_out_buff_v h')
   \<and> ob_inner (ph_out_buff_a h) = [p. SentAudio p \<leftarrow> xs] @ ob_inner (ph_out_buff_a h')
   \<and> copies (ph_pat h) [p. SentPat p \<leftarrow> xs] (ph_pat h')
   \<and> copies (ph_pmt h) [p. SentPmt p \<leftarrow> xs] (ph_pmt h')
   \<and> copies (ph_sdt h) [p. SentSdt p \<leftarrow> xs] (ph_sdt h')"

lemma copies_append: "copies p (qs @ rs) p'' \<longleftrightarrow> (\<exists>p'. copies p qs p' \<and> copies p' rs p'')"
  by (induction qs arbitrary: p) auto

lemma sent_stream_simps [simp]:
  "sent_stream [] = []" "sent_stream (x # xs) = sent_bytes x @ sent_stream xs" "sent_stream (xs @ ys) = sent_stream xs @ sent_stream ys"
  by (simp_all add: sent_stream_def)

lemma sends_refl [simp]: "sends h [] h"
  by (simp add: sends_def)

lemma sends_trans: "sends h xs h' \<Longrightarrow> sends h' ys h'' \<Longrightarrow> sends h (xs @ ys) h''"
  by (auto simp: sends_def copies_append)

lemma sends_updates [simp]:
  "sends h xs (h'\<lparr>ph_count_payload_packets := n\<rparr>) = sends h xs h'"
  "sends h xs (h'\<lparr>ph_frame_buff := b\<rparr>) = sends h xs h'"
  "sends h xs (h'\<lparr>ph_pcr_restamper := r\<rparr>) = sends h xs h'"
  "sends h xs (count_psi h' n) = sends h xs h'"
  "sends (h\<lparr>ph_frame_buff := b\<rparr>) xs h' = sends h xs h'"
  by (simp_all add: sends_def count_psi_def)

lemma pop_front_inner: "ob_pop_front b = (b', Some p) \<Longrightarrow> ob_inner b = p # ob_inner b'"
  by (auto simp: ob_pop_front_def Let_def split: list.splits if_splits)

lemma taken_sends: "taken h h' p \<Longrightarrow> \<exists>x. sent_bytes x = tp_data p \<and> sends h [x] h'"
  unfolding taken_def
  by (elim disjE exE conjE; drule pop_front_inner) (force simp: sends_def intro: exI [of _ "SentVideo p"] exI [of _ "SentAudio p"])+

lemma table_sends: "table_sent h h' p \<Longrightarrow> \<exists>x. sent_bytes x = p \<and> sends h [x] h'"
  unfolding table_sent_def
  by (elim disjE exE conjE) (force simp: sends_def intro: exI [of _ "SentPat p"] exI [of _ "SentPmt p"] exI [of _ "SentSdt p"])+

lemma psi_sends:
  assumes "flush_psi_packets h [] = Some (h', out, n)"
  shows "\<exists>xs. out = sent_stream xs \<and> length xs = n \<and> sends h xs h'"
  using flush_psi_cases [OF assms]
proof (elim disjE conjE exE)
  fix p assume "n = 1" "table_sent h h' p" "out = [] @ p"
  then obtain x where "sent_bytes x = out" "sends h [x] h'" using table_sends [of h h' p] by auto
  then show ?thesis using \<open>n = 1\<close> by (intro exI [of _ "[x]"]) simp
qed (auto intro: exI [of _ "[]"])

text \<open>Both buffers are empty.\<close>

definition drained :: "packet_handler \<Rightarrow> bool" where
  "drained h \<longleftrightarrow> ob_inner (ph_out_buff_v h) = [] \<and> ob_inner (ph_out_buff_a h) = []"

lemma get_a_or_v_drained: "get_a_or_v h = (h', None) \<Longrightarrow> drained h"
  by (auto simp: get_a_or_v_def drained_def ob_front_def dest: pop_not_taken split: option.splits if_splits list.splits)

lemma vbr_loop_sends:
  "vbr_loop n h out pcr = (h', out', pcr') \<Longrightarrow> 
     \<exists>xs. out' = out @ sent_stream xs \<and> sends h xs h' \<and> (length xs < n \<longrightarrow> drained h')"
proof (induction n arbitrary: h out pcr)
  case (Suc n)
  obtain h1 r where get: "get_a_or_v h = (h1, r)" by fastforce
  show ?case
  proof (cases r)
    case None
    then show ?thesis
      using get getter_not_taken(1) [of h h1] get_a_or_v_drained [of h h1] Suc.prems by (intro exI [of _ "[]"]) simp
  next
    case (Some p)
    let ?h = "h1\<lparr>ph_count_payload_packets := ph_count_payload_packets h1 + 1\<rparr>"
    obtain x where x: "sent_bytes x = tp_data p" "sends h [x] ?h"
      using taken_sends [OF getter_taken(1)] get Some by fastforce
    obtain xs where "out' = (out @ tp_data p) @ sent_stream xs" "sends ?h xs h'" "length xs < n \<longrightarrow> drained h'"
      using Suc get Some by fastforce
    then show ?thesis
      using x sends_trans [OF x(2)] by (intro exI [of _ "x # xs"]) auto
  qed
qed (auto intro: exI [of _ "[]"])

lemma copies_ok: "table_ok True p \<Longrightarrow> copies p qs p' \<Longrightarrow> q \<in> set qs \<Longrightarrow> pkt_ok q"
proof (induction qs arbitrary: p)
  case (Cons r rs)
  then have "table_ok True r" using table_ok_next [of True p r] by simp
  then show ?case using Cons by (auto simp: table_ok_def pkt_ok_def)
qed simp

lemma sends_ok:
  assumes "sends h xs h'" "ph_inv h" "ph_is_ready h"
  shows "\<forall>x \<in> set xs. pkt_ok (sent_bytes x)"
proof
  fix x assume x: "x \<in> set xs"
  have bufs: "pkt_ok (tp_data p)" if "p \<in> set (ob_inner (ph_out_buff_v h)) \<or> p \<in> set (ob_inner (ph_out_buff_a h))" for p
    using assms(2) that by (auto simp: ph_inv_def buf_ok_def)
  have tables: "table_ok True (ph_pat h)" "table_ok True (ph_pmt h)" "table_ok True (ph_sdt h)"
    using assms(2,3) by (auto simp: ph_inv_def)
  show "pkt_ok (sent_bytes x)"
  proof (cases x)
    case (SentVideo p)
    then show ?thesis using x assms(1) by (auto simp: sends_def intro!: bufs)
  next
    case (SentAudio p)
    then show ?thesis using x assms(1) by (auto simp: sends_def intro!: bufs)
  next
    case (SentPat p)
    then show ?thesis using x assms(1) tables(1) by (auto simp: sends_def intro!: copies_ok)
  next
    case (SentPmt p)
    then show ?thesis using x assms(1) tables(2) by (auto simp: sends_def intro!: copies_ok)
  next
    case (SentSdt p)
    then show ?thesis using x assms(1) tables(3) by (auto simp: sends_def intro!: copies_ok)
  qed
qed

lemma sent_stream_empty:
  assumes "\<forall>x \<in> set xs. pkt_ok (sent_bytes x)" and "sent_stream xs = []"
  shows "xs = []"
  using assms by (cases xs) (auto simp: pkt_ok_def TS_PACKET_SIZE_def)

lemma vbr_sends:
  assumes "flush_packet_for_vbr h = Some (h', out)" "ph_inv h" "ph_is_ready h" "\<not> ph_is_dirty h"
  shows "\<exists>xs. (case out of None \<Rightarrow> [] | Some b \<Rightarrow> b) = sent_stream xs \<and> sends h xs h'
     \<and> (out = None \<longrightarrow> TS_PACKET_SIZE \<le> unat (get_pkt_size h) \<longrightarrow> drained h')"
proof -
  let ?k = "unat (get_pkt_size h) div TS_PACKET_SIZE"
  obtain h1 b n where psi: "flush_psi_packets h [] = Some (h1, b, n)"
    using flush_psi_no_panic [OF assms(2)] by fastforce
  obtain ts where ts: "b = sent_stream ts" "length ts = n" "sends h ts h1"
    using psi_sends [OF psi] by blast
  define h2 where "h2 = (if 0 < n then count_psi h1 n else h1)"
  obtain h3 b' pcr where loop: "vbr_loop (?k - n) h2 b None = (h3, b', pcr)"
    using prod_cases3 by blast
  obtain xs where xs: "b' = b @ sent_stream xs" "sends h2 xs h3" "length xs < ?k - n \<longrightarrow> drained h3"
    using vbr_loop_sends [OF loop] by blast
  have run: "flush_packet_for_vbr h = Some (case (pcr, ph_pcr_restamper h3) of
       (Some pcr, Some r) \<Rightarrow> h3\<lparr>ph_pcr_restamper := Some (r\<lparr>r_first_pcr_value := Some pcr\<rparr>)\<rparr> | _ \<Rightarrow> h3,
       if b' \<noteq> [] then Some b' else None)"
    using assms(3,4) psi loop by (auto simp: flush_packet_for_vbr_def h2_def Let_def)
  have sent: "sends h (ts @ xs) h3"
    using sends_trans [OF _ xs(2)] ts(3) by (simp add: h2_def)
  have h': "sends h (ts @ xs) h'" "drained h' = drained h3"
    using run assms(1) sent by (auto simp: drained_def split: option.split)
  have "drained h'" if "b' = []" "1 \<le> ?k"
  proof -
    have "ts @ xs = []"
      by (rule sent_stream_empty [OF sends_ok [OF h'(1) assms(2,3)]]) (use that(1) xs(1) ts(1) in simp)
    then show ?thesis using xs(3) ts(2) that(2) h'(2) by simp
  qed
  then show ?thesis
    using run assms(1) h'(1) xs(1) ts(1)
    by (intro exI [of _ "ts @ xs"]) (auto simp: TS_PACKET_SIZE_def)
qed

section \<open>Frames\<close>

definition frame_ok :: "packet_handler \<Rightarrow> packet_handler \<Rightarrow> bool" where
  "frame_ok h h' \<longleftrightarrow> ph_inv h' \<and> ph_output h' = ph_output h \<and> ph_is_ready h' = ph_is_ready h \<and> ph_is_dirty h' = ph_is_dirty h"

lemma frame_ok_trans: "frame_ok h h' \<Longrightarrow> frame_ok h' h'' \<Longrightarrow> frame_ok h h''"
  by (simp add: frame_ok_def)

lemma flush_frame_loop_ok:
  "ph_inv h \<Longrightarrow> ph_is_ready h \<Longrightarrow> \<not> ph_is_dirty h \<Longrightarrow>
   \<exists>h' ps. flush_frame_loop h = Some h' \<and> frame_ok h h' \<and> ph_frame_buff h' = ph_frame_buff h @ concat ps
     \<and> (\<forall>p \<in> set ps. pkt_ok p)"
proof (induction h rule: flush_frame_loop.induct)
  case (1 h)
  show ?case
  proof (cases "length (ph_frame_buff h) < FRAME_BUFFER_SIZE")
    case False
    then show ?thesis
      using 1(2) by (intro exI [of _ h] exI [of _ "[]"]) (simp add: flush_frame_loop.simps [of h] frame_ok_def)
  next
    case True
    obtain h1 ps where vbr: "flush_packet_for_vbr h = Some (h1, if ps = [] then None else Some (concat ps))"
      "flush_ok h h1" "\<forall>p \<in> set ps. pkt_ok p"
      using flush_vbr_ok [OF 1(2-4)] by blast
    show ?thesis
    proof (cases "ps = []")
      case empty: True
      then show ?thesis
        using True vbr(1,2) by (intro exI [of _ h1] exI [of _ "[]"]) (simp add: flush_frame_loop.simps [of h] flush_ok_def frame_ok_def)
    next
      case False
      let ?h = "h1\<lparr>ph_frame_buff := ph_frame_buff h1 @ concat ps\<rparr>"
      have h1: "ph_inv ?h" "ph_is_ready ?h" "\<not> ph_is_dirty ?h" "ph_frame_buff h1 = ph_frame_buff h"
        using vbr(2) 1(3,4) by (simp_all add: flush_ok_def)
      obtain h' qs where "flush_frame_loop ?h = Some h'" "frame_ok ?h h'"
        "ph_frame_buff h' = ph_frame_buff ?h @ concat qs" "\<forall>p \<in> set qs. pkt_ok p"
        using 1(1) [OF True vbr(1) [unfolded if_not_P [OF False]] refl refl h1(1-3)] by auto
      then show ?thesis
        using True False vbr h1 frame_ok_trans
        by (intro exI [of _ h'] exI [of _ "ps @ qs"]) (auto simp: flush_frame_loop.simps [of h] frame_ok_def flush_ok_def)
    qed
  qed
qed

lemma flush_frame_loop_sends:
  assumes "ph_inv h" "ph_is_ready h" "\<not> ph_is_dirty h" "flush_frame_loop h = Some h'"
  shows "\<exists>xs. ph_frame_buff h' = ph_frame_buff h @ sent_stream xs \<and> sends h xs h'
     \<and> (length (ph_frame_buff h') < FRAME_BUFFER_SIZE \<longrightarrow> TS_PACKET_SIZE \<le> unat (get_pkt_size h) \<longrightarrow> drained h')"
  using assms
proof (induction h rule: flush_frame_loop.induct)
  case (1 h)
  obtain h1 out where vbr: "flush_packet_for_vbr h = Some (h1, out)" "flush_ok h h1"
    using flush_vbr_ok [OF 1(2-4)] by blast
  obtain xs where xs: "(case out of None \<Rightarrow> [] | Some b \<Rightarrow> b) = sent_stream xs" "sends h xs h1"
      "out = None \<longrightarrow> TS_PACKET_SIZE \<le> unat (get_pkt_size h) \<longrightarrow> drained h1"
    using vbr_sends [OF vbr(1) 1(2-4)] by blast
  consider "\<not> length (ph_frame_buff h) < FRAME_BUFFER_SIZE" "h' = h"
    | "out = None" "h' = h1" | b where "length (ph_frame_buff h) < FRAME_BUFFER_SIZE" "out = Some b"
      "flush_frame_loop (h1\<lparr>ph_frame_buff := ph_frame_buff h1 @ b\<rparr>) = Some h'"
    using 1(5) vbr(1) by (cases out) (auto simp: flush_frame_loop.simps [of h] split: if_splits)
  then show ?case
  proof cases
    case 1
    then show ?thesis by (intro exI [of _ "[]"]) simp
  next
    case 2
    then show ?thesis using xs vbr(2) by (intro exI [of _ xs]) (auto simp: flush_ok_def)
  next
    case (3 b)
    let ?h = "h1\<lparr>ph_frame_buff := ph_frame_buff h1 @ b\<rparr>"
    have h1: "ph_inv ?h" "ph_is_ready ?h" "\<not> ph_is_dirty ?h" "ph_frame_buff h1 = ph_frame_buff h" "get_pkt_size ?h = get_pkt_size h"
      using vbr(2) 1(3,4) by (simp_all add: flush_ok_def get_pkt_size_def)
    obtain ys where ys: "ph_frame_buff h' = ph_frame_buff ?h @ sent_stream ys" "sends ?h ys h'"
        "length (ph_frame_buff h') < FRAME_BUFFER_SIZE \<longrightarrow> TS_PACKET_SIZE \<le> unat (get_pkt_size ?h) \<longrightarrow> drained h'"
      using 1(1) [OF 3(1) vbr(1) [unfolded 3(2)] refl refl h1(1-3) 3(3)] by blast
    then show ?thesis
      using xs(1) 3(2) h1(4,5) sends_trans [OF xs(2), of ys h'] by (intro exI [of _ "xs @ ys"]) auto
  qed
qed

lemma flush_frame_sends:
  assumes "ph_inv h" "ph_is_ready h" "\<not> ph_is_dirty h"
  shows "\<exists>h' out xs. flush_frame h = Some (h', out) \<and> frame_ok h h' \<and> sends h xs h'
     \<and> ph_frame_buff h @ sent_stream xs = (case out of None \<Rightarrow> [] | Some f \<Rightarrow> f) @ ph_frame_buff h'
     \<and> (case out of Some f \<Rightarrow> length f = FRAME_BUFFER_SIZE
        | None \<Rightarrow> length (ph_frame_buff h') < FRAME_BUFFER_SIZE \<and> (TS_PACKET_SIZE \<le> unat (get_pkt_size h) \<longrightarrow> drained h'))"
proof -
  obtain h1 where loop: "flush_frame_loop h = Some h1" "frame_ok h h1"
    using flush_frame_loop_ok [OF assms] by blast
  obtain xs where xs: "ph_frame_buff h1 = ph_frame_buff h @ sent_stream xs" "sends h xs h1"
      "length (ph_frame_buff h1) < FRAME_BUFFER_SIZE \<longrightarrow> TS_PACKET_SIZE \<le> unat (get_pkt_size h) \<longrightarrow> drained h1"
    using flush_frame_loop_sends [OF assms loop(1)] by blast
  show ?thesis
  proof (cases "length (ph_frame_buff h1) \<ge> FRAME_BUFFER_SIZE")
    case True
    then show ?thesis
      using loop xs(2) assms
      by (intro exI [of _ "h1\<lparr>ph_frame_buff := drop FRAME_BUFFER_SIZE (ph_frame_buff h1)\<rparr>"]
            exI [of _ "Some (take FRAME_BUFFER_SIZE (ph_frame_buff h1))"] exI [of _ xs])
         (simp add: flush_frame_def frame_ok_def xs(1) [symmetric])
  next
    case False
    then show ?thesis
      using loop xs assms by (intro exI [of _ h1] exI [of _ None] exI [of _ xs]) (simp add: flush_frame_def)
  qed
qed

section \<open>Reachable handlers\<close>

text \<open>
  One step is one call a worker makes. The clock may differ from call to call. The handler that
  sends for the proxy keeps the list of what it has sent.
\<close>

inductive mux_step :: "mux_env \<Rightarrow> packet_handler \<Rightarrow> packet_handler \<Rightarrow> bool" for env where
  on_write: "ph_write (env\<lparr>e_now := now\<rparr>) h chunk = Some h' \<Longrightarrow> mux_step env h h'"
| cbr: "flush_packet_for_cbr h = Some (h', out) \<Longrightarrow> mux_step env h h'"
| vbr: "flush_packet_for_vbr h = Some (h', out) \<Longrightarrow> mux_step env h h'"
| frame: "flush_frame h = Some (h', out) \<Longrightarrow> mux_step env h h'"
| proxy: "proxy_packet env handler h (sent :: bytes list) chunk = Some (h', sent', n) \<Longrightarrow> mux_step env h h'"
| stats: "mux_step env h (update_stats h)"
| check: "mux_step env h (set_check_buffer_size h)"

lemma proxy_one_inv: "ph_inv h \<Longrightarrow> ensures (\<lambda>(h', _). ph_inv h') (proxy_one env h p)"
proof -
  assume inv: "ph_inv h"
  have "table_ok (ph_pat_ready h1) p" "ph_inv h1" if "process_pat env h q = Some h1" "pkt_next (ph_pat h1) = Some p" for h1 p q
    using ensuresD [OF process_pat_inv [OF inv] that(1)] table_ok_next [OF _ that(2)] by (simp_all add: ph_inv_def)
  moreover have "table_ok (ph_pmt_ready h1) p" "ph_inv h1" if "process_pmt env h q = Some h1" "pkt_next (ph_pmt h1) = Some p" for h1 p q
    using ensuresD [OF process_pmt_inv [OF inv] that(1)] table_ok_next [OF _ that(2)] by (simp_all add: ph_inv_def)
  ultimately show ?thesis
    unfolding proxy_one_def using inv
    by (intro post) (auto intro: ph_inv_updates ensuresD [OF process_pat_inv] ensuresD [OF process_pmt_inv])
qed

lemma proxy_send_inv: "proxy_send handler h s n = (h', s', n') \<Longrightarrow> ph_inv h' = ph_inv h"
  by (auto simp: proxy_send_def Let_def split: if_splits prod.splits option.splits)

lemma proxy_loop_inv: "ph_inv h \<Longrightarrow> ensures (\<lambda>(h', _). ph_inv h') (proxy_loop env handler h s n)"
proof (induction env handler h s n rule: proxy_loop.induct)
  case (1 env handler h s n)
  show ?case
    unfolding proxy_loop.simps [of env handler h]
    using 1(2) by (intro post 1(1)) (auto dest!: ensuresD [OF proxy_one_inv, rotated] proxy_send_inv [OF sym] split: if_splits)
qed

lemma proxy_packet_inv: "ph_inv h \<Longrightarrow> ensures (\<lambda>(h', _). ph_inv h') (proxy_packet env handler h s chunk)"
  unfolding proxy_packet_def by (intro post proxy_loop_inv) (auto dest!: ph_sync_inv)

lemma flush_gate:
  "ph_is_dirty h \<or> \<not> ph_is_ready h \<Longrightarrow> flush_packet_for_cbr h = Some (h, None)"
  "ph_is_dirty h \<or> \<not> ph_is_ready h \<Longrightarrow> flush_packet_for_vbr h = Some (h, None)"
  "ph_is_dirty h \<or> \<not> ph_is_ready h \<Longrightarrow> flush_frame h = Some (h, None)"
  by (simp_all add: flush_packet_for_cbr_def flush_packet_for_vbr_def flush_frame_def)

lemma flush_frame_ok:
  assumes "ph_inv h" "ph_is_ready h" "\<not> ph_is_dirty h"
  shows "\<exists>h' out ps. flush_frame h = Some (h', out) \<and> frame_ok h h' \<and> (\<forall>p \<in> set ps. pkt_ok p)
     \<and> ph_frame_buff h @ concat ps = (case out of None \<Rightarrow> [] | Some f \<Rightarrow> f) @ ph_frame_buff h'
     \<and> (\<forall>f. out = Some f \<longrightarrow> length f = FRAME_BUFFER_SIZE)
     \<and> (out = None \<longrightarrow> length (ph_frame_buff h') < FRAME_BUFFER_SIZE)"
proof -
  obtain h1 ps where loop: "flush_frame_loop h = Some h1" "frame_ok h h1"
      "ph_frame_buff h1 = ph_frame_buff h @ concat ps" "\<forall>p \<in> set ps. pkt_ok p"
    using flush_frame_loop_ok [OF assms] by blast
  show ?thesis
  proof (cases "length (ph_frame_buff h1) \<ge> FRAME_BUFFER_SIZE")
    case True
    then show ?thesis
      using loop(1,2,4) assms
      by (intro exI [of _ "h1\<lparr>ph_frame_buff := drop FRAME_BUFFER_SIZE (ph_frame_buff h1)\<rparr>"]
            exI [of _ "Some (take FRAME_BUFFER_SIZE (ph_frame_buff h1))"] exI [of _ ps])
         (simp add: flush_frame_def frame_ok_def loop(3) [symmetric])
  next
    case False
    then show ?thesis
      using loop assms by (intro exI [of _ h1] exI [of _ None] exI [of _ ps]) (simp add: flush_frame_def)
  qed
qed

lemma mux_step_inv:
  assumes "\<And>k pl. length (e_decrypt env k pl) = length pl" and "mux_step env h h'" "ph_inv h"
  shows "ph_inv h'"
  using assms(2,3)
proof cases
  case (on_write now chunk)
  then show ?thesis
    using ensuresD [OF ph_write_inv [of "env\<lparr>e_now := now\<rparr>", OF _ assms(3)]] assms(1) by simp
next
  case (cbr out)
  then show ?thesis
    using flush_gate(1) [of h] flush_cbr_ok [OF assms(3)] assms(3) by (cases "ph_is_dirty h \<or> \<not> ph_is_ready h") (auto simp: flush_ok_def)
next
  case (vbr out)
  then show ?thesis
    using flush_gate(2) [of h] flush_vbr_ok [OF assms(3)] assms(3) by (cases "ph_is_dirty h \<or> \<not> ph_is_ready h") (auto simp: flush_ok_def)
next
  case (frame out)
  then show ?thesis
    using flush_gate(3) [of h] flush_frame_ok [OF assms(3)] assms(3) by (cases "ph_is_dirty h \<or> \<not> ph_is_ready h") (auto simp: frame_ok_def)
next
  case (proxy handler sent chunk sent' n)
  then show ?thesis
    using ensuresD [OF proxy_packet_inv [OF assms(3)]] by fastforce
next
  case stats
  then show ?thesis
    using assms(3) by (simp add: update_stats_def Let_def split_beta)
next
  case check
  then show ?thesis
    using assms(3) by (simp add: set_check_buffer_size_def)
qed

lemma ph_new_inv: "ph_new env out helper st = Some h \<Longrightarrow> ph_inv h"
  by (auto simp: ph_new_def Let_def ph_inv_def buf_ok_def ob_new_def ob_inv_def table_ok_def split: if_splits sum.splits prod.splits)

lemma ph_new_fields:
  assumes "ph_new env out helper st = Some h"
  shows "ph_output h = out" "ph_dirty_pat h = False" "ph_dirty_pmt h = False" "ph_dirty_ca h = False"
    "ph_frame_buff h = []" "ph_in_buff h = []" "ph_is_sync h = False"
  using assms by (auto simp: ph_new_def Let_def split: if_splits sum.splits prod.splits)

section \<open>A handler to evaluate the properties on\<close>

definition example_env :: mux_env where
  "example_env = \<lparr>e_crc32 = (\<lambda>_. 0), e_decrypt = (\<lambda>_ p. p), e_dvbcsa = True, e_alloc_ok = True,
     e_iso_8859_5 = (\<lambda>b. b), e_utf_16be = (\<lambda>b. b), e_sort_by_prog = sort_key pi_prog_num, e_now = 0\<rparr>"

definition example_program :: program where
  "example_program = \<lparr>pr_program_id = 1, pr_audio_pids = [0x102], pr_video_pids = [0x101], pr_pmt_pid = 0x100,
     pr_pcr_pid = 0x101, pr_service_name = [], pr_service_provider_name = [], pr_service_type = 1,
     pr_buffer_duration = 500, pr_jitter = 100, pr_adjust_buf = 10\<rparr>"

definition example_output :: output_config where
  "example_output = \<lparr>o_id = 1, o_name = [], o_output_url = [], o_task_type = [], o_biss_key = [], o_ca_flag = 0,
     o_pkt_size = 1316, o_cbr = 4000000, o_proxy = False, o_allow = [], o_programs = [example_program], o_err_count = 0\<rparr>"

definition example_handler :: packet_handler where
  "example_handler = the (ph_new example_env example_output [] (output_stats_new 0))"

text \<open>The same handler with its tables, ready to send.\<close>

definition example_ready :: packet_handler where
  "example_ready = example_handler\<lparr>ph_pat := pack [] 0 0, ph_pat_ready := True, ph_pmt := pack [] 0x100 0,
     ph_pmt_ready := True, ph_sdt := pack [] 0x11 0, ph_sdt_ready := True, ph_is_ready := True\<rparr>"

lemma example_new: "ph_new example_env example_output [] (output_stats_new 0) = Some example_handler"
proof -
  have "ph_new example_env example_output [] (output_stats_new 0) \<noteq> None"
    by (auto simp: ph_new_def example_output_def Let_def split: sum.split prod.split)
  then show ?thesis by (auto simp: example_handler_def)
qed

lemmas example_handler_fields = ph_new_fields [OF example_new]

lemma example_ready_props:
  "ph_inv example_ready" "ph_is_ready example_ready" "\<not> ph_is_dirty example_ready"
  "get_pkt_size example_ready = 1316" "ph_frame_buff example_ready = []"
proof -
  have "get_program example_handler \<noteq> None"
    by (simp add: get_program_def example_handler_fields example_output_def)
  then show "ph_inv example_ready"
    using ph_new_inv [OF example_new]
    by (auto simp: example_ready_def intro!: ph_inv_updates pkt_ok_pack simp del: packet_handler.update_convs)
  show "ph_is_ready example_ready" "\<not> ph_is_dirty example_ready" "get_pkt_size example_ready = 1316" "ph_frame_buff example_ready = []"
    by (simp_all add: example_ready_def ph_is_dirty_def example_handler_fields get_pkt_size_def example_output_def)
qed

text \<open>The same handler with one video packet waiting.\<close>

definition example_loaded :: packet_handler where
  "example_loaded = example_ready\<lparr>ph_out_buff_v := ob_push_back ob_new (ts_packet_new (pack [] 0x101 0) 0x101 0 0 True False)\<rparr>"

lemma example_loaded_props:
  "ph_inv example_loaded" "ph_is_ready example_loaded" "\<not> ph_is_dirty example_loaded"
  "get_pkt_size example_loaded = 1316" "ph_frame_buff example_loaded = []"
  "ob_inner (ph_out_buff_v example_loaded) = [ts_packet_new (pack [] 0x101 0) 0x101 0 0 True False]"
proof -
  have "out_pids pr_video_pids example_ready = [0x101]"
    by (simp add: out_pids_def get_program_def example_ready_def example_handler_fields example_output_def example_program_def)
  moreover have "pkt_ok (pack [] 0x101 0)" by (rule pkt_ok_pack)
  ultimately show "ph_inv example_loaded"
    using example_ready_props(1)
    by (simp add: example_loaded_def inv_defs buf_ok_def ob_inv_def ob_push_back_def ob_new_def Let_def ts_packet_new_def)
  show "ph_is_ready example_loaded" "\<not> ph_is_dirty example_loaded" "get_pkt_size example_loaded = 1316" "ph_frame_buff example_loaded = []"
    using example_ready_props by (simp_all add: example_loaded_def ph_is_dirty_def get_pkt_size_def split: if_splits)
  show "ob_inner (ph_out_buff_v example_loaded) = [ts_packet_new (pack [] 0x101 0) 0x101 0 0 True False]"
    by (simp add: example_loaded_def ob_push_back_def ob_new_def Let_def)
qed

section \<open>Properties\<close>

text \<open>
  C1. Every handler that the workers can bring about, by writing any input to a new handler
  and flushing it in any order, satisfies the invariant: the buffers hold whole packets of
  188 bytes that begin with the sync byte and belong to the PIDs of the program, with exact
  counters; a table that is ready is a whole packet; and the output is ready only when all three
  tables are. The descrambler is only assumed to keep the length of the payload.
\<close>

theorem handler_invariant:
  assumes "\<And>k pl. length (e_decrypt env k pl) = length pl"
    and "ph_new env out helper st = Some h0" and "(mux_step env)\<^sup>*\<^sup>* h0 h"
  shows "ph_inv h"
  using assms(3) ph_new_inv [OF assms(2)] mux_step_inv [OF assms(1)]
  by (induction rule: rtranclp_induct) auto

theorem handler_invariant_witness:
  "ph_inv (update_stats (set_check_buffer_size example_handler))"
proof (rule handler_invariant [OF _ example_new])
  show "(mux_step example_env)\<^sup>*\<^sup>* example_handler (update_stats (set_check_buffer_size example_handler))"
    by (blast intro: rtranclp.intros mux_step.stats mux_step.check)
qed (simp add: example_env_def)

text \<open>
  C2. An output of constant bit rate that is ready and not dirty always gets a full packet: the
  flush does not panic and returns exactly the configured number of packets, each of 188 bytes
  beginning with the sync byte, and the handler keeps its invariant. Missing payload is
  replaced by null packets.
\<close>

theorem cbr_whole_packets:
  assumes "ph_inv h" "ph_is_ready h" "\<not> ph_is_dirty h" and "TS_PACKET_SIZE \<le> unat (get_pkt_size h)"
  shows "\<exists>h' ps. flush_packet_for_cbr h = Some (h', Some (concat ps)) \<and> ph_inv h'
     \<and> length ps = unat (get_pkt_size h) div TS_PACKET_SIZE
     \<and> (\<forall>p \<in> set ps. length p = TS_PACKET_SIZE \<and> p ! 0 = TS_SYNC_BYTE)"
proof -
  have "1 \<le> unat (get_pkt_size h) div TS_PACKET_SIZE"
    using assms(4) by (simp add: TS_PACKET_SIZE_def Suc_le_eq div_greater_zero_iff)
  then show ?thesis
    using flush_cbr_ok [OF assms(1-3)] by (fastforce simp: flush_ok_def pkt_ok_def max_def)
qed

theorem cbr_whole_packets_witness:
  "\<exists>h' ps. flush_packet_for_cbr example_ready = Some (h', Some (concat ps)) \<and> ph_inv h' \<and> length ps = 7
     \<and> (\<forall>p \<in> set ps. length p = TS_PACKET_SIZE \<and> p ! 0 = TS_SYNC_BYTE)"
  using cbr_whole_packets [OF example_ready_props(1-3)]
  by (simp add: example_ready_props(4) TS_PACKET_SIZE_def)

text \<open>
  C3. Frames cut the stream of variable bit rate without losing, inventing or changing a byte. On a handler that is ready and
  not dirty the flush of a frame ends and does not panic, and there are packets \<open>xs\<close>, each of 188 bytes with the sync byte, that have left the handler: the
  video packets among them are, in order, exactly what is gone from the front of the video buffer, the audio packets exactly what is gone from the
  front of the audio buffer, and all others are the cached tables with the next continuity counter (\<open>sends\<close>). The bytes waiting in the
  frame buffer followed by these packets are the frame returned followed by the bytes waiting afterwards. A frame is exactly 8192
  bytes. Without a frame fewer than 8192 bytes wait, and then, if a datagram of the output holds at least one packet, both buffers
  are empty: the flush stops short of a frame only when there is nothing left to send.
\<close>

theorem frames_cut_the_stream:
  assumes "ph_inv h" "ph_is_ready h" "\<not> ph_is_dirty h"
  shows "\<exists>h' out xs. flush_frame h = Some (h', out) \<and> ph_inv h' \<and> sends h xs h'
     \<and> (\<forall>x \<in> set xs. length (sent_bytes x) = 188 \<and> sent_bytes x ! 0 = 0x47)
     \<and> ph_frame_buff h @ concat (map sent_bytes xs) = (case out of None \<Rightarrow> [] | Some f \<Rightarrow> f) @ ph_frame_buff h'
     \<and> (case out of Some f \<Rightarrow> length f = 8192
        | None \<Rightarrow> length (ph_frame_buff h') < 8192 \<and> (188 \<le> unat (get_pkt_size h) \<longrightarrow> drained h'))"
proof -
  obtain h' out xs where f: "flush_frame h = Some (h', out)" "frame_ok h h'" "sends h xs h'"
      "ph_frame_buff h @ sent_stream xs = (case out of None \<Rightarrow> [] | Some f \<Rightarrow> f) @ ph_frame_buff h'"
      "case out of Some f \<Rightarrow> length f = FRAME_BUFFER_SIZE
        | None \<Rightarrow> length (ph_frame_buff h') < FRAME_BUFFER_SIZE \<and> (TS_PACKET_SIZE \<le> unat (get_pkt_size h) \<longrightarrow> drained h')"
    using flush_frame_sends [OF assms] by blast
  have "\<forall>x \<in> set xs. length (sent_bytes x) = 188 \<and> sent_bytes x ! 0 = 0x47"
    using sends_ok [OF f(3) assms(1,2)] by (simp add: pkt_ok_def TS_PACKET_SIZE_def TS_SYNC_BYTE_def)
  then show ?thesis
    using f by (intro exI [of _ h'] exI [of _ out] exI [of _ xs])
      (cases out; simp add: frame_ok_def sent_stream_def FRAME_BUFFER_SIZE_def TS_PACKET_SIZE_def)
qed

theorem frames_cut_the_stream_witness:
  "\<exists>h' out xs. flush_frame example_loaded = Some (h', out) \<and> ph_inv h' \<and> sends example_loaded xs h'
     \<and> (\<forall>x \<in> set xs. length (sent_bytes x) = 188 \<and> sent_bytes x ! 0 = 0x47)
     \<and> concat (map sent_bytes xs) = (case out of None \<Rightarrow> [] | Some f \<Rightarrow> f) @ ph_frame_buff h'
     \<and> (case out of Some f \<Rightarrow> length f = 8192 | None \<Rightarrow> length (ph_frame_buff h') < 8192 \<and> drained h')"
  using frames_cut_the_stream [OF example_loaded_props(1-3)] by (simp add: example_loaded_props(4,5) cong: option.case_cong)

end
