(* ===== verification/Mux_Order.thy ===== *)
theory Mux_Order
  imports Mux_Props
begin

text \<open>
  The order of the output and the state of the clock: audio and video are merged by decoding
  time, the buffer is trimmed from its start, tables are repeated with their period, continuity
  errors are counted exactly, and an output becomes ready with its clock behind the first frame.
\<close>

unbundle bit_operations_syntax

section \<open>Merging audio and video\<close>

text \<open>The position of a decoding time after a reference time, on the clock of 33 bits.\<close>

definition dts_off :: "u64 \<Rightarrow> ts_packet \<Rightarrow> int" where
  "dts_off t p = (uint (tp_dts p) - uint t) mod 2 ^ 33"

lemma dts_after_off:
  assumes "dts_off t a < 2 ^ 32" "dts_off t v < 2 ^ 32"
  shows "dts_after (tp_dts a) (tp_dts v) \<longleftrightarrow> dts_off t v < dts_off t a"
proof -
  have off: "0 \<le> dts_off t a" "0 \<le> dts_off t v"
    by (simp_all add: dts_off_def)
  have "(uint (tp_dts a) - uint (tp_dts v)) mod 2 ^ 33 = (dts_off t a - dts_off t v) mod 2 ^ 33"
    by (simp add: dts_off_def mod_simps)
  also have "\<dots> = (if dts_off t v \<le> dts_off t a then dts_off t a - dts_off t v else dts_off t a - dts_off t v + 2 ^ 33)"
  proof (cases "dts_off t v \<le> dts_off t a")
    case True
    then show ?thesis using assms off by (auto intro: mod_pos_pos_trivial)
  next
    case False
    have "(dts_off t a - dts_off t v) mod 2 ^ 33 = (dts_off t a - dts_off t v + 2 ^ 33) mod 2 ^ 33" by simp
    also have "\<dots> = dts_off t a - dts_off t v + 2 ^ 33"
      using False assms off by (intro mod_pos_pos_trivial) auto
    finally show ?thesis using False by simp
  qed
  finally show ?thesis
    using assms off by (auto simp: dts.after_iff)
qed

fun av_merge :: "('a \<Rightarrow> int) \<Rightarrow> 'a list \<Rightarrow> 'a list \<Rightarrow> 'a list" where
  "av_merge f [] vs = vs"
| "av_merge f as [] = as"
| "av_merge f (a # as) (v # vs) =
    (if f v < f a then v # av_merge f (a # as) vs else a # av_merge f as (v # vs))"

lemma set_av_merge: "set (av_merge f as vs) = set as \<union> set vs"
  by (induction f as vs rule: av_merge.induct) auto

lemma mset_av_merge: "mset (av_merge f as vs) = mset as + mset vs"
  by (induction f as vs rule: av_merge.induct) auto

lemma sorted_av_merge:
  "sorted (map f as) \<Longrightarrow> sorted (map f vs) \<Longrightarrow> sorted (map f (av_merge f as vs))"
  by (induction f as vs rule: av_merge.induct) (auto simp: set_av_merge)

lemma filter_av_merge:
  "sorted (map f as) \<Longrightarrow> sorted (map f vs) \<Longrightarrow>
   filter (\<lambda>x. k = f x) (av_merge f as vs) = filter (\<lambda>x. k = f x) as @ filter (\<lambda>x. k = f x) vs"
proof (induction f as vs rule: av_merge.induct)
  case (3 f a as v vs)
  have "filter (\<lambda>x. f v = f x) (a # as) = []" if "f v < f a"
    using that 3(3) by (fastforce simp: filter_empty_conv)
  then show ?case
    using 3 by (auto)
qed auto

lemma av_merge_sort:
  assumes "sorted (map f as)" "sorted (map f vs)"
  shows "sort_key f (as @ vs) = av_merge f as vs"
  by (rule properties_for_sort_key)
     (use assms in \<open>simp_all add: mset_av_merge sorted_av_merge filter_av_merge\<close>)

definition waiting :: "u64 \<Rightarrow> packet_handler \<Rightarrow> ts_packet list" where
  "waiting t h = av_merge (dts_off t) (ob_inner (ph_out_buff_a h)) (ob_inner (ph_out_buff_v h))"

definition in_window :: "u64 \<Rightarrow> packet_handler \<Rightarrow> bool" where
  "in_window t h \<longleftrightarrow> list_all (\<lambda>p. dts_off t p < 2 ^ 32) (ob_inner (ph_out_buff_a h) @ ob_inner (ph_out_buff_v h))"

lemma av_merge_Nil [simp]: "av_merge f as [] = as"
  by (cases as) simp_all

lemma ob_pop_inner:
  "ob_inner b = p # ps \<Longrightarrow> \<exists>b'. ob_pop_front b = (b', Some p) \<and> ob_inner b' = ps"
  using ob.pop_cons [of b p ps] by auto

lemma pop_v_Cons: "ob_inner (ph_out_buff_v h) = p # ps \<Longrightarrow>
    \<exists>h'. pop_v h = (h', Some p) \<and> ob_inner (ph_out_buff_v h') = ps \<and> ph_out_buff_a h' = ph_out_buff_a h"
  using ob_pop_inner [of "ph_out_buff_v h" p ps] by (auto simp: pop_v_def)

lemma pop_a_Cons: "ob_inner (ph_out_buff_a h) = p # ps \<Longrightarrow>
    \<exists>h'. pop_a h = (h', Some p) \<and> ob_inner (ph_out_buff_a h') = ps \<and> ph_out_buff_v h' = ph_out_buff_v h"
  using ob_pop_inner [of "ph_out_buff_a h" p ps] by (auto simp: pop_a_def)

lemma get_a_or_v_waiting:
  assumes "in_window t h"
  shows "\<exists>h'. get_a_or_v h = (h', case waiting t h of [] \<Rightarrow> None | p # _ \<Rightarrow> Some p)
     \<and> waiting t h' = tl (waiting t h) \<and> in_window t h'"
proof -
  consider "ob_inner (ph_out_buff_a h) = []" "ob_inner (ph_out_buff_v h) = []"
    | v vs where "ob_inner (ph_out_buff_a h) = []" "ob_inner (ph_out_buff_v h) = v # vs"
    | a as where "ob_inner (ph_out_buff_a h) = a # as" "ob_inner (ph_out_buff_v h) = []"
    | a as v vs where "ob_inner (ph_out_buff_a h) = a # as" "ob_inner (ph_out_buff_v h) = v # vs"
    by (cases "ob_inner (ph_out_buff_a h)"; cases "ob_inner (ph_out_buff_v h)") auto
  then show ?thesis
  proof cases
    case 1
    then show ?thesis using assms by (simp add: get_a_or_v_def ob_front_def waiting_def)
  next
    case 2
    then show ?thesis
      using assms pop_v_Cons [of h v vs] by (auto simp: get_a_or_v_def ob_front_def waiting_def in_window_def)
  next
    case 3
    then show ?thesis
      using assms pop_a_Cons [of h a as] by (auto simp: get_a_or_v_def ob_front_def waiting_def in_window_def)
  next
    case 4
    then have "dts_after (tp_dts a) (tp_dts v) \<longleftrightarrow> dts_off t v < dts_off t a"
      using assms by (intro dts_after_off) (auto simp: in_window_def)
    then show ?thesis
      using 4 assms pop_a_Cons [of h a as] pop_v_Cons [of h v vs]
      by (auto simp: get_a_or_v_def ob_front_def waiting_def in_window_def)
  qed
qed

lemma in_window_counter [simp]:
  "in_window t (h\<lparr>ph_count_payload_packets := n\<rparr>) = in_window t h"
  "waiting t (h\<lparr>ph_count_payload_packets := n\<rparr>) = waiting t h"
  by (simp_all add: in_window_def waiting_def)

lemma vbr_loop_waiting:
  "in_window t h \<Longrightarrow> \<exists>h' pcr'. vbr_loop n h out pcr = (h', out @ concat (map tp_data (take n (waiting t h))), pcr')
     \<and> waiting t h' = drop n (waiting t h)"
proof (induction n arbitrary: h out pcr)
  case (Suc n)
  obtain h1 where get: "get_a_or_v h = (h1, case waiting t h of [] \<Rightarrow> None | p # _ \<Rightarrow> Some p)"
      "waiting t h1 = tl (waiting t h)" "in_window t h1"
    using get_a_or_v_waiting [OF Suc.prems] by blast
  show ?case
  proof (cases "waiting t h")
    case Nil
    then show ?thesis using get by simp
  next
    case (Cons p ps)
    let ?h = "h1\<lparr>ph_count_payload_packets := ph_count_payload_packets h1 + 1\<rparr>"
    show ?thesis
      using Suc.IH [of ?h "out @ tp_data p" "case tp_pcr p of None \<Rightarrow> pcr | Some x \<Rightarrow> if pcr = None then Some x else pcr"]
        get Cons by auto
  qed
qed auto

text \<open>
  C27. Audio and video are merged by decoding time: when the packets of each buffer wait in
  order of their decoding times, within half a cycle of the 33-bit clock from some reference time \<open>t\<close>, what up to \<open>n\<close> turns of the
  variable bit rate output append is exactly the first \<open>n\<close> packets of the stable sort by decoding time of the
  audio packets followed by the video packets, whatever the wrap of the clock. The rest waits: each buffer has lost
  packets at its front only, as many from both together as were appended, and the sort of what both hold now is the rest of the sort.
\<close>

theorem vbr_merges_in_order:
  assumes "in_window t h"
    and "sorted (map (dts_off t) (ob_inner (ph_out_buff_a h)))" "sorted (map (dts_off t) (ob_inner (ph_out_buff_v h)))"
  defines "merged \<equiv> sort_key (dts_off t) (ob_inner (ph_out_buff_a h) @ ob_inner (ph_out_buff_v h))"
  shows "\<exists>h' pcr' i j. vbr_loop n h out pcr = (h', out @ concat (map tp_data (take n merged)), pcr')
     \<and> ob_inner (ph_out_buff_a h') = drop i (ob_inner (ph_out_buff_a h)) \<and> ob_inner (ph_out_buff_v h') = drop j (ob_inner (ph_out_buff_v h))
     \<and> i + j = min n (length merged)
     \<and> sort_key (dts_off t) (ob_inner (ph_out_buff_a h') @ ob_inner (ph_out_buff_v h')) = drop n merged"
proof -
  have merged: "waiting t h = merged"
    using av_merge_sort [OF assms(2,3)] by (simp add: waiting_def merged_def)
  obtain h' pcr' where run: "vbr_loop n h out pcr = (h', out @ concat (map tp_data (take n merged)), pcr')"
      "waiting t h' = drop n merged"
    using vbr_loop_waiting [OF assms(1), of n out pcr] by (auto simp: merged)
  obtain vs as where left: "ob_inner (ph_out_buff_v h) = vs @ ob_inner (ph_out_buff_v h')"
      "ob_inner (ph_out_buff_a h) = as @ ob_inner (ph_out_buff_a h')"
    using vbr_loop_sends [OF run(1)] by (auto simp: sends_def)
  have "sort_key (dts_off t) (ob_inner (ph_out_buff_a h') @ ob_inner (ph_out_buff_v h')) = drop n merged"
    using av_merge_sort [of "dts_off t" "ob_inner (ph_out_buff_a h')" "ob_inner (ph_out_buff_v h')"] run(2) assms(2,3)
    by (simp add: waiting_def left sorted_append)
  moreover from arg_cong [OF this, of length] have "length as + length vs = min n (length merged)"
    by (simp add: merged_def left)
  ultimately show ?thesis
    using run(1) left by (intro exI [of _ h'] exI [of _ pcr'] exI [of _ "length as"] exI [of _ "length vs"]) simp
qed

theorem vbr_merges_in_order_witness:
  "\<exists>h' pcr'. vbr_loop 1 (example_ready\<lparr>ph_out_buff_v := ob_push_back ob_new (ts_packet_new [1] 0x101 0 3 True False),
      ph_out_buff_a := ob_push_back ob_new (ts_packet_new [2] 0x102 0 0x1FFFFFFFF True False)\<rparr>) [] None = (h', [2], pcr')
     \<and> sort_key (dts_off 0x1FFFFFFF0) (ob_inner (ph_out_buff_a h') @ ob_inner (ph_out_buff_v h')) = [ts_packet_new [1] 0x101 0 3 True False]"
proof -
  let ?h = "example_ready\<lparr>ph_out_buff_v := ob_push_back ob_new (ts_packet_new [1] 0x101 0 3 True False),
      ph_out_buff_a := ob_push_back ob_new (ts_packet_new [2] 0x102 0 0x1FFFFFFFF True False)\<rparr>"
  have inner: "ob_inner (ph_out_buff_v ?h) = [ts_packet_new [1] 0x101 0 3 True False]"
    "ob_inner (ph_out_buff_a ?h) = [ts_packet_new [2] 0x102 0 0x1FFFFFFFF True False]"
    by (simp_all add: ob_push_back_def ob_new_def Let_def)
  have sorted: "sort_key (dts_off 0x1FFFFFFF0) [ts_packet_new [2] 0x102 0 0x1FFFFFFFF True False, ts_packet_new [1] 0x101 0 3 True False]
      = [ts_packet_new [2] 0x102 0 0x1FFFFFFFF True False, ts_packet_new [1] 0x101 0 3 True False]"
    by (simp add: dts_off_def ts_packet_new_def)
  show ?thesis
    using vbr_merges_in_order [of "0x1FFFFFFF0" ?h 1 "[]" None]
    unfolding in_window_def inner append_Cons append_Nil sorted by (auto simp: dts_off_def ts_packet_new_def)
qed

section \<open>Trimming the buffer\<close>

lemma pop_front_drop: "ob_pop_front b = (b', r) \<Longrightarrow> \<exists>i. ob_inner b' = drop i (ob_inner b)"
  using ob.pop_empty [of b] ob.pop_cons [of b]
  by (cases "ob_inner b") (auto intro: exI [of _ 0] exI [of _ 1])

lemma get_a_or_v_drop:
  "\<exists>i j. ob_inner (ph_out_buff_v (fst (get_a_or_v h))) = drop i (ob_inner (ph_out_buff_v h))
     \<and> ob_inner (ph_out_buff_a (fst (get_a_or_v h))) = drop j (ob_inner (ph_out_buff_a h))"
proof (cases "snd (get_a_or_v h)")
  case None
  then have "fst (get_a_or_v h) = h"
    using getter_not_taken(1) [of h "fst (get_a_or_v h)"] by (simp add: prod_eq_iff)
  then show ?thesis by (auto intro: exI [of _ 0])
next
  case (Some p)
  then have "taken h (fst (get_a_or_v h)) p"
    using getter_taken(1) [of h "fst (get_a_or_v h)" p] by (simp add: prod_eq_iff)
  then show ?thesis
    unfolding taken_def by (auto intro: exI [of _ 0] dest!: pop_front_drop)
qed

lemma buffer_adjust_drop:
  "ob_duration_ms (ph_out_buff_v (buffer_adjust h)) \<le> ph_buffer_duration_ms h
     \<and> (\<exists>i j. ob_inner (ph_out_buff_v (buffer_adjust h)) = drop i (ob_inner (ph_out_buff_v h))
          \<and> ob_inner (ph_out_buff_a (buffer_adjust h)) = drop j (ob_inner (ph_out_buff_a h)))"
  unfolding buffer_adjust_def
proof (induction h rule: buffer_adjust_loop.induct)
  case (1 h)
  show ?case
  proof (cases "ob_duration_ms (ph_out_buff_v h) > ph_buffer_duration_ms h")
    case True
    have "ph_buffer_duration_ms (fst (get_a_or_v h)) = ph_buffer_duration_ms h"
      using get_a_or_v_bufs [of h] by auto
    then show ?thesis
      using 1 [OF True] get_a_or_v_drop [of h] True
      by (auto simp: buffer_adjust_loop.simps [of h])
  next
    case False
    then show ?thesis
      by (auto simp: buffer_adjust_loop.simps [of h] intro: exI [of _ 0])
  qed
qed

text \<open>
  C29. Trimming ends, leaves at most the configured duration of video in the buffer, and takes
  packets off the front of the two buffers only; nothing else of the handler changes.
\<close>

theorem buffer_adjust_trims:
  "\<exists>v a i j. buffer_adjust h = h\<lparr>ph_out_buff_v := v, ph_out_buff_a := a\<rparr>
     \<and> ob_duration_ms v \<le> ph_buffer_duration_ms h
     \<and> ob_inner v = drop i (ob_inner (ph_out_buff_v h)) \<and> ob_inner a = drop j (ob_inner (ph_out_buff_a h))"
proof -
  obtain v a where eq: "buffer_adjust h = h\<lparr>ph_out_buff_v := v, ph_out_buff_a := a\<rparr>"
    using buffer_adjust_bufs by blast
  then show ?thesis
    using buffer_adjust_drop [of h] by auto
qed

section \<open>Repetition of the tables\<close>

lemma pcr_after_add_iff:
  assumes "uint c = (uint p + d) mod 2576980377600" "0 \<le> d" "d < 1288490188800" "uint l < 1288490188800"
  shows "pcr_after c (pcr_add p l) \<longleftrightarrow> uint l < d"
proof -
  define k where "k = uint l"
  have k: "0 \<le> k" "k < 1288490188800" using assms(4) by (simp_all add: k_def)
  have "(uint c - uint (pcr_add p l)) mod 2576980377600 = (d - k) mod 2576980377600"
    by (simp add: assms(1) uint_pcr_add k_def mod_simps)
  also have "\<dots> = (if k \<le> d then d - k else d - k + 2576980377600)"
  proof (cases "k \<le> d")
    case True
    then show ?thesis using assms(2,3) k by (subst mod_pos_pos_trivial) auto
  next
    case False
    have "(d - k) mod 2576980377600 = (d - k + 2576980377600) mod 2576980377600" by simp
    also have "\<dots> = d - k + 2576980377600"
      using False assms k by (intro mod_pos_pos_trivial) auto
    finally show ?thesis using False by simp
  qed
  finally have diff: "(uint c - uint (pcr_add p l)) mod 2576980377600 = (if k \<le> d then d - k else d - k + 2576980377600)" .
  show ?thesis
    unfolding pcr.after_iff diff k_def [symmetric] using assms(2,3) k by auto
qed

lemma flush_keeps_pat:
  "flush_pmt h pcr out n = Some (h', out', n') \<Longrightarrow> ph_pat h' = ph_pat h \<and> ut_insert_pat (ph_timers h') = ut_insert_pat (ph_timers h)"
  "flush_sdt h pcr out n = Some (h', out', n') \<Longrightarrow> ph_pat h' = ph_pat h \<and> ut_insert_pat (ph_timers h') = ut_insert_pat (ph_timers h)"
  by (auto simp: flush_pmt_def flush_sdt_def Let_def bind_eq_Some_conv split: if_splits option.splits)

text \<open>
  The association table is repeated by the clock of the output: when it was sent at the
  PCR \<open>p\<close>, a flush \<open>d\<close> ticks later sends it again exactly when \<open>d\<close> is more than 100 ms, first of all
  tables, with the next continuity counter, and keeps the time; otherwise the table and its
  time stay as they are. The clock may have wrapped in between.
\<close>

theorem pat_repeated_every_100ms:
  assumes "ph_inv h" "ph_pat_ready h" "current_pcr h = Some c" "ut_insert_pat (ph_timers h) = Some p"
    and "uint c = (uint p + d) mod 2576980377600" "0 \<le> d" "d < 1288490188800"
  shows "\<exists>h' out' n. flush_psi_packets h out = Some (h', out', n) \<and> n \<le> 1 \<and>
    (if d > 2700000
     then pkt_next (ph_pat h) = Some (ph_pat h') \<and> out' = out @ ph_pat h' \<and> n = 1 \<and> ut_insert_pat (ph_timers h') = Some c
     else ph_pat h' = ph_pat h \<and> ut_insert_pat (ph_timers h') = Some p)"
proof -
  have due: "psi_due (Some c) (Some p) PERIOD_PAT_MS = (if d > 2700000 then Some c else None)"
    using pcr_after_add_iff [OF assms(5-7), of "PERIOD_PAT_MS * 27000"] by (simp add: psi_due_def PERIOD_PAT_MS_def)
  obtain h' out' n where psi: "flush_psi_packets h out = Some (h', out', n)"
    using flush_psi_no_panic [OF assms(1)] by fastforce
  then obtain h1 o1 n1 h2 o2 n2 where pat: "flush_pat h (Some c) out 0 = Some (h1, o1, n1)"
      and pmt: "flush_pmt h1 (Some c) o1 n1 = Some (h2, o2, n2)"
      and sdt: "flush_sdt h2 (Some c) o2 n2 = Some (h', out', n)"
    using assms(3) by (auto simp: flush_psi_packets_def Let_def bind_eq_Some_conv)
  have keep: "ph_pat h' = ph_pat h1" "ut_insert_pat (ph_timers h') = ut_insert_pat (ph_timers h1)"
    using flush_keeps_pat(1) [OF pmt] flush_keeps_pat(2) [OF sdt] by simp_all
  have "n \<le> 1"
    using flush_psi_cases [OF psi] by auto
  show ?thesis
  proof (cases "d > 2700000")
    case True
    then have 1: "pkt_next (ph_pat h) = Some (ph_pat h1)" "o1 = out @ ph_pat h1" "n1 = 1" "ut_insert_pat (ph_timers h1) = Some c"
      using pat assms(2,4) by (auto simp: flush_pat_def due bind_eq_Some_conv)
    then have "out' = o1" "n = 1"
      using pmt sdt by (auto simp: flush_pmt_def flush_sdt_def)
    then show ?thesis
      using True psi 1 keep by auto
  next
    case False
    then show ?thesis
      using psi pat keep assms(2,4) \<open>n \<le> 1\<close> by (auto simp: flush_pat_def due)
  qed
qed

theorem pat_repeated_every_100ms_witness:
  "\<exists>h' out' n. flush_psi_packets (example_ready\<lparr>ph_timers := \<lparr>ut_insert_pat = Some 2576980377599, ut_insert_pmt = None, ut_insert_sdt = None\<rparr>,
      ph_pcr_restamper := Some \<lparr>r_target_bitrate_bps = 0, r_total_packets_sent = 0, r_first_pcr_value = Some 2700000\<rparr>\<rparr>) []
     = Some (h', out', n) \<and> out' = ph_pat h' \<and> n = 1"
proof -
  let ?h = "example_ready\<lparr>ph_timers := \<lparr>ut_insert_pat = Some 2576980377599, ut_insert_pmt = None, ut_insert_sdt = None\<rparr>,
      ph_pcr_restamper := Some \<lparr>r_target_bitrate_bps = 0, r_total_packets_sent = 0, r_first_pcr_value = Some 2700000\<rparr>\<rparr>"
  have "current_pcr ?h = Some 2700000"
    by (simp add: current_pcr_def get_pcr_def get_raw_pcr_def pcr_normalize_def PCR_CYCLE_def)
  moreover have "ph_inv ?h"
    using example_ready_props(1) by simp
  moreover have "ph_pat_ready ?h"
    using example_ready_props(1,2) by (simp add: ph_inv_def)
  ultimately show ?thesis
    using pat_repeated_every_100ms [of ?h 2700000 2576980377599 2700001 "[]"] by auto
qed

section \<open>Continuity errors\<close>

definition has_payload :: "bytes \<Rightarrow> bool" where
  "has_payload p \<longleftrightarrow> pkt_has_payload p = Some True"

definition cc_count :: "packet_handler \<Rightarrow> u16 \<Rightarrow> nat" where
  "cc_count h pid = (case ph_cc_errors h pid of None \<Rightarrow> 0 | Some n \<Rightarrow> n)"

text \<open>The places of a sequence of continuity counters where the next one is not the successor.\<close>

fun cc_breaks :: "nat option \<Rightarrow> nat list \<Rightarrow> nat" where
  "cc_breaks c [] = 0"
| "cc_breaks None (d # ds) = cc_breaks (Some d) ds"
| "cc_breaks (Some c) (d # ds) = (if d = (c + 1) mod 16 then 0 else 1) + cc_breaks (Some d) ds"

lemma check_cc_step:
  assumes "4 \<le> length p"
  shows "\<exists>h'. check_cc h p pid = Some h' \<and> (\<forall>q. q \<noteq> pid \<longrightarrow> ph_cc_errors h' q = ph_cc_errors h q) \<and>
    (if has_payload p
     then map_option unat (ph_last_cc h' pid) = Some (pkt_cc p)
        \<and> cc_count h' pid = cc_count h pid + cc_breaks (map_option unat (ph_last_cc h pid)) [pkt_cc p]
     else h' = h)"
proof (cases "has_payload p")
  case True
  have next_cc: "p ! 3 AND 0x0F = (c + 1) AND 0x0F \<longleftrightarrow> pkt_cc p = (unat c + 1) mod 16" for c :: u8
    by (simp add: word_unat_eq_iff pkt_cc_def unat_and_0F unat_word_ariths mod_mod_cancel)
  show ?thesis
    using True assms
    by (auto simp: check_cc_def has_payload_def Let_def cc_count_def ph_update_cc_def tell_def next_cc pkt_cc_def
          split: option.split)
next
  case False
  then have "pkt_has_payload p = Some False"
    using pkt_has_payload_no_panic [OF assms] by (auto simp: has_payload_def)
  then show ?thesis
    using False by (simp add: check_cc_def)
qed

text \<open>
  C28. Continuity errors are counted exactly: over any sequence of packets of one PID the counter
  of the PID grows by the number of places where the continuity counter of a packet with payload
  is not the successor modulo 16 of the one before; packets without payload do not count, and
  no other PID is touched.
\<close>

theorem check_cc_counts_breaks:
  assumes "list_all (\<lambda>p. 4 \<le> length p) ps"
  shows "\<exists>h'. foldM (\<lambda>h p. check_cc h p pid) h ps = Some h'
     \<and> cc_count h' pid = cc_count h pid + cc_breaks (map_option unat (ph_last_cc h pid)) (map pkt_cc (filter has_payload ps))
     \<and> (\<forall>q. q \<noteq> pid \<longrightarrow> ph_cc_errors h' q = ph_cc_errors h q)"
  using assms
proof (induction ps arbitrary: h)
  case (Cons p ps)
  obtain h1 where one: "check_cc h p pid = Some h1" "\<forall>q. q \<noteq> pid \<longrightarrow> ph_cc_errors h1 q = ph_cc_errors h q"
    "if has_payload p then map_option unat (ph_last_cc h1 pid) = Some (pkt_cc p)
        \<and> cc_count h1 pid = cc_count h pid + cc_breaks (map_option unat (ph_last_cc h pid)) [pkt_cc p] else h1 = h"
    using check_cc_step [of p h pid] Cons.prems by auto
  obtain h2 where rest: "foldM (\<lambda>h p. check_cc h p pid) h1 ps = Some h2"
    "cc_count h2 pid = cc_count h1 pid + cc_breaks (map_option unat (ph_last_cc h1 pid)) (map pkt_cc (filter has_payload ps))"
    "\<forall>q. q \<noteq> pid \<longrightarrow> ph_cc_errors h2 q = ph_cc_errors h1 q"
    using Cons.IH [of h1] Cons.prems by auto
  show ?case
    using one rest by (intro exI [of _ h2]) (cases "map_option unat (ph_last_cc h pid)"; auto split: if_splits)
qed auto

theorem check_cc_counts_breaks_witness:
  "\<exists>h'. foldM (\<lambda>h p. check_cc h p 0x101) (example_ready\<lparr>ph_last_cc := Map.empty\<rparr>)
       [[0x47, 1, 1, 0x1E], [0x47, 1, 1, 0x1F], [0x47, 1, 1, 0x2F], [0x47, 1, 1, 0x10], [0x47, 1, 1, 0x13]] = Some h'
     \<and> cc_count h' 0x101 = cc_count (example_ready\<lparr>ph_last_cc := Map.empty\<rparr>) 0x101 + 1"
  using check_cc_counts_breaks [of "[[0x47, 1, 1, 0x1E], [0x47, 1, 1, 0x1F], [0x47, 1, 1, 0x2F], [0x47, 1, 1, 0x10], [0x47, 1, 1, 0x13]]"
      "0x101" "example_ready\<lparr>ph_last_cc := Map.empty\<rparr>"]
  by (auto simp: has_payload_def pkt_has_payload_def pkt_cc_def)

section \<open>Becoming ready\<close>

lemma tell_ready [simp]:
  "ph_is_ready (tell c h) = ph_is_ready h"
  by (simp add: tell_def)

lemma table_ready_keep:
  assumes "ph_is_ready h = b"
  shows "ensures (\<lambda>h'. ph_is_ready h' = b) (process_pat env h p)"
    and "ensures (\<lambda>h'. ph_is_ready h' = b) (process_pmt env h p)"
    and "ensures (\<lambda>h'. ph_is_ready h' = b) (process_sdt env h p)"
    and "ensures (\<lambda>h'. ph_is_ready h' = b) (check_cc h p pid)"
    and "ensures (\<lambda>h'. ph_is_ready h' = b) (av_push h pid p pusi disc)"
  unfolding process_pat_def process_pmt_def process_sdt_def check_cc_def av_push_def using assms
  by (intro post; simp add: ph_update_cc_def Let_def split: option.split)+

lemma av_stamps_ready: "(h', x, y) = av_stamps h pid st disc \<Longrightarrow> ph_is_ready h' = ph_is_ready h"
  by (auto simp: av_stamps_def Let_def split: option.splits prod.splits if_splits)

lemma process_av_ready: "ph_is_ready h = b \<Longrightarrow> ensures (\<lambda>h'. ph_is_ready h' = b) (process_av h pid p)"
  unfolding process_av_def
  by (intro post table_ready_keep(5))
     (auto split: if_splits dest!: ensuresD [OF table_ready_keep(4) [OF refl]] av_stamps_ready)

lemma process_ca_ready: "ensures (\<lambda>(h', _). ph_is_ready h' = ph_is_ready h) (process_ca env h pid p)"
  unfolding process_ca_def by (intro post) (auto simp: Let_def split: sum.split)

lemma process_one_ready: "ensures (\<lambda>h'. ph_is_ready h' = ph_is_ready h) (process_one env h p)"
  unfolding process_one_def
  by (intro post process_av_ready table_ready_keep(1-3)) (auto dest!: ensuresD [OF process_ca_ready])

lemma buffers_clear_ready [simp]: "\<not> ph_is_ready (buffers_clear h)"
  by (simp add: buffers_clear_def Let_def tell_def on_stats_def)

lemma process_packets_ready:
  "\<not> ph_is_ready h \<Longrightarrow> ensures (\<lambda>(h', _). \<not> ph_is_ready h') (process_packets env h)"
proof (induction env h rule: process_packets.induct)
  case (1 env h)
  then show ?case
    unfolding process_packets.simps [of env h]
    by (intro post 1(1)) (auto dest: ensuresD [OF process_one_ready])
qed

text \<open>What holds of a handler that has just become ready.\<close>

definition just_ready :: "packet_handler \<Rightarrow> bool" where
  "just_ready h \<longleftrightarrow> ph_pat_ready h \<and> ph_pmt_ready h \<and> ph_sdt_ready h \<and> \<not> ph_is_dirty h
     \<and> ph_cc_errors h = Map.empty \<and> ob_duration_ms (ph_out_buff_v h) \<le> ph_buffer_duration_ms h
     \<and> (\<exists>p. ob_front (ph_out_buff_v h) = Some p \<and> (case ph_pcr_restamper h of None \<Rightarrow> True
          | Some r \<Rightarrow> r_first_pcr_value r = Some (pcr_normalize (((tp_dts p - 27000) AND DTS_MASK) * 300))
              \<and> r_total_packets_sent r = 0))
     \<and> (\<exists>told. ph_helper h = told @ [HCmdUnmarkDirtyNow])"

lemma become_ready_just:
  assumes "\<not> ph_is_ready h" "ph_pat_ready h" "ph_pmt_ready h" "ph_sdt_ready h" "\<not> ph_is_dirty h"
    and "ph_is_ready (become_ready env h b)"
  shows "just_ready (become_ready env h b)"
proof -
  obtain v a where eq: "buffer_adjust h = h\<lparr>ph_out_buff_v := v, ph_out_buff_a := a\<rparr>"
    using buffer_adjust_bufs by blast
  then have "ob_duration_ms v \<le> ph_buffer_duration_ms h"
    using buffer_adjust_drop [of h] by simp
  then show ?thesis
    using assms
    by (auto simp: become_ready_def eq Let_def tell_def on_stats_def resync_def restamper_resync_def just_ready_def
          ph_is_dirty_def DTS_PCR_DIFF_MS_def split: if_splits option.splits)
qed

lemma default_sdt_keep:
  "default_sdt env h = Some h' \<Longrightarrow> ph_is_ready h' = ph_is_ready h \<and> ph_is_dirty h' = ph_is_dirty h"
  by (auto simp: default_sdt_def Let_def bind_eq_Some_conv tell_def ph_is_dirty_def)

lemma probe_bitrate_keep:
  "(h', b) = probe_bitrate h \<Longrightarrow> ph_is_ready h' = ph_is_ready h \<and> ph_is_dirty h' = ph_is_dirty h
     \<and> ph_sdt_ready h' = ph_sdt_ready h \<and> ph_pat_ready h' = ph_pat_ready h \<and> ph_pmt_ready h' = ph_pmt_ready h"
  by (auto simp: probe_bitrate_def Let_def tell_def ph_is_dirty_def split: if_splits option.splits)

lemma prepare_output_ready:
  assumes "\<not> ph_is_ready h"
  shows "ensures (\<lambda>h'. ph_is_ready h' \<longrightarrow> just_ready h') (prepare_output env h)"
  unfolding prepare_output_def
  by (intro post)
     (use assms in \<open>auto intro!: become_ready_just split: if_splits dest: default_sdt_flags default_sdt_keep
        dest!: probe_bitrate_keep\<close>)

lemma ph_sync_ready: "(h', b) = ph_sync h \<Longrightarrow> ph_is_ready h' = ph_is_ready h"
  by (auto simp: ph_sync_def Let_def split: if_splits prod.splits)

lemma is_buffer_overflow_ready: "(h', b) = is_buffer_overflow h k \<Longrightarrow> ph_is_ready h' = ph_is_ready h"
  by (auto simp: is_buffer_overflow_def Let_def split: if_splits)

lemma ph_process_ready:
  assumes "\<not> ph_is_ready h"
  shows "ensures (\<lambda>h'. ph_is_ready h' \<longrightarrow> just_ready h') (ph_process env h)"
  unfolding ph_process_def
  by (intro post prepare_output_ready)
     (use assms in \<open>auto split: if_splits dest!: ph_sync_ready is_buffer_overflow_ready
        ensuresD [OF process_packets_ready, rotated]\<close>)

lemma just_ready_stats [simp]: "just_ready (on_stats f h) = just_ready h"
  by (simp add: just_ready_def on_stats_def ph_is_dirty_def)

text \<open>
  C10. A write that makes an output ready leaves it in order: all three tables are there, nothing
  is dirty, at most the configured duration of video waits, the continuity errors start anew,
  the clock stands 300 ms before the decoding time of the first video packet with no packet
  sent since, and the last word to the supervisor is that the output is clean.
\<close>

theorem ready_after_write:
  assumes "ph_write env h chunk = Some h'" "\<not> ph_is_ready h" "ph_is_ready h'"
  shows "ph_pat_ready h' \<and> ph_pmt_ready h' \<and> ph_sdt_ready h' \<and> \<not> ph_is_dirty h'
     \<and> ph_cc_errors h' = Map.empty \<and> ob_duration_ms (ph_out_buff_v h') \<le> ph_buffer_duration_ms h'
     \<and> (\<exists>p. ob_front (ph_out_buff_v h') = Some p \<and> (case ph_pcr_restamper h' of None \<Rightarrow> True
          | Some r \<Rightarrow> r_first_pcr_value r = Some (pcr_normalize (((tp_dts p - 27000) AND DTS_MASK) * 300))
              \<and> r_total_packets_sent r = 0))
     \<and> (\<exists>told. ph_helper h' = told @ [HCmdUnmarkDirtyNow])"
proof -
  have "ensures (\<lambda>h'. ph_is_ready h' \<longrightarrow> just_ready h') (ph_write env h chunk)"
    unfolding ph_write_def
    by (intro post) (use assms(2) in \<open>auto split: if_splits dest!: ensuresD [OF ph_process_ready, rotated]\<close>)
  from ensuresD [OF this assms(1)] show ?thesis
    using assms(3) by (simp add: just_ready_def)
qed

text \<open>A handler with its tables and half a second of video, to which a null packet is written.\<close>

definition example_waiting :: packet_handler where
  "example_waiting = example_ready\<lparr>ph_is_ready := False, ph_is_sync := True, ph_in_buff := [],
     ph_buffer_duration_ms := 500, ph_max_buff_size := 10000, ph_biss := None,
     ph_out_buff_v := ob_push_back (ob_push_back ob_new (ts_packet_new TS_NULL_PACKET 0x101 0 30000 True False))
        (ts_packet_new TS_NULL_PACKET 0x101 0 75000 True False),
     ph_out_buff_a := ob_new,
     ph_pcr_restamper := Some \<lparr>r_target_bitrate_bps = 4000000, r_total_packets_sent = 9, r_first_pcr_value = None\<rparr>\<rparr>"

lemma null_packet_ignored:
  assumes "get_program h = Some p" "0x1FFF \<notin> set (pr_video_pids p)" "0x1FFF \<notin> set (pr_audio_pids p)" "\<not> ph_dirty_ca h"
  shows "process_one env h TS_NULL_PACKET = Some h"
proof -
  have "pkt_pid TS_NULL_PACKET = Some 0x1FFF" "pkt_scrambling_control TS_NULL_PACKET = Some 0"
    by (simp_all add: TS_NULL_PACKET_def pkt_pid_def pid13_def pkt_scrambling_control_def TS_PACKET_SIZE_def)
  then show ?thesis
    using assms by (simp add: process_one_def process_ca_def is_video_pid_def is_audio_pid_def)
qed

lemma TS_NULL_PACKET_facts [simp]:
  "length TS_NULL_PACKET = TS_PACKET_SIZE" "TS_NULL_PACKET ! 0 = TS_SYNC_BYTE"
  using pkt_ok_null by (simp_all add: pkt_ok_def)

lemma process_null:
  assumes "get_program h = Some p" "0x1FFF \<notin> set (pr_video_pids p)" "0x1FFF \<notin> set (pr_audio_pids p)" "\<not> ph_dirty_ca h"
    and "ph_in_buff h = TS_NULL_PACKET"
  shows "process_packets env h = Some (h\<lparr>ph_in_buff := []\<rparr>, True)"
  using null_packet_ignored [OF assms(1-4), of env] assms(5)
  by (simp add: process_packets.simps [of env h] process_packets.simps [of env "h\<lparr>ph_in_buff := []\<rparr>"]) (simp add: TS_PACKET_SIZE_def)

lemma example_waiting_fields:
  "ph_is_sync example_waiting" "ph_in_buff example_waiting = []" "\<not> ph_is_ready example_waiting" "\<not> ph_is_dirty example_waiting"
  "\<not> ph_dirty_ca example_waiting" "get_program example_waiting = Some example_program"
  "ph_pat_ready example_waiting" "ph_pmt_ready example_waiting" "ph_sdt_ready example_waiting"
  "ph_buffer_duration_ms example_waiting = 500" "ph_max_buff_size example_waiting = 10000"
  "get_bitrate example_waiting = Some 4000000"
  by (simp_all add: example_waiting_def example_ready_def ph_is_dirty_def example_handler_fields get_program_def
        example_output_def get_bitrate_def)

lemma example_waiting_buffers:
  "ob_size (ph_out_buff_v example_waiting) = 2 * TS_PACKET_SIZE" "ob_size (ph_out_buff_a example_waiting) = 0"
  "ob_front (ph_out_buff_v example_waiting) = Some (ts_packet_new TS_NULL_PACKET 0x101 0 30000 True False)"
  "ob_back (ph_out_buff_v example_waiting) = Some (ts_packet_new TS_NULL_PACKET 0x101 0 75000 True False)"
  "ob_duration_ms (ph_out_buff_v example_waiting) = 500"
  by (simp_all add: example_waiting_def ob_push_back_def ob_new_def Let_def ob_size_def ob_front_def ob_back_def
        ob_duration_ms_def dts_forward_delta_ms_def ts_packet_new_def DTS_values)

lemma example_waiting_write:
  "\<exists>h'. ph_write example_env example_waiting TS_NULL_PACKET = Some h' \<and> ph_is_ready h'"
proof -
  define g where "g = on_stats (\<lambda>s. update_max_in_buffer_size s TS_PACKET_SIZE) (example_waiting\<lparr>ph_in_buff := TS_NULL_PACKET\<rparr>)"
  define k where "k = g\<lparr>ph_in_buff := []\<rparr>"
  have prog: "get_program g = Some example_program"
    using example_waiting_fields(6) by (simp add: g_def on_stats_def get_program_def)
  have g: "process_packets example_env g = Some (k, True)"
    unfolding k_def by (rule process_null [OF prog])
      (simp_all add: g_def on_stats_def example_program_def example_waiting_fields)
  have k: "ph_out_buff_v k = ph_out_buff_v example_waiting" "\<not> ph_is_dirty k" "\<not> ph_is_ready k"
      "ph_pat_ready k" "ph_pmt_ready k" "ph_sdt_ready k" "ph_buffer_duration_ms k = 500" "get_bitrate k = Some 4000000"
    using example_waiting_fields by (simp_all add: k_def g_def on_stats_def ph_is_dirty_def get_bitrate_def)
  have adjust: "buffer_adjust k = k"
    by (simp add: buffer_adjust_def buffer_adjust_loop.simps [of k] k example_waiting_buffers)
  have "ph_is_ready (become_ready example_env k 4000000)"
    by (simp add: become_ready_def adjust Let_def k example_waiting_buffers tell_def on_stats_def)
  moreover have "prepare_output example_env k = Some (become_ready example_env k 4000000)"
    using k by (simp add: prepare_output_def example_waiting_buffers ts_packet_new_def dts_after_def DTS_values)
  moreover have "ph_process example_env g = prepare_output example_env k"
    using g by (simp add: ph_process_def ph_sync_def is_buffer_overflow_def g_def on_stats_def example_waiting_fields
        example_waiting_buffers TS_PACKET_SIZE_def)
  moreover have "ph_write example_env example_waiting TS_NULL_PACKET = do { h \<leftarrow> ph_process example_env g;
      Some (on_stats (\<lambda>s. update_max_out_buffer_size s (ob_size (ph_out_buff_a h)) (ob_size (ph_out_buff_v h))) h) }"
    by (simp add: ph_write_def g_def example_waiting_fields MAX_BUFFER_SIZE_def TS_PACKET_SIZE_def)
  ultimately show ?thesis by simp
qed

theorem ready_after_write_witness:
  "\<exists>h'. ph_write example_env example_waiting TS_NULL_PACKET = Some h' \<and> ph_is_ready h'
     \<and> ph_pat_ready h' \<and> ph_pmt_ready h' \<and> ph_sdt_ready h' \<and> \<not> ph_is_dirty h'
     \<and> (\<exists>told. ph_helper h' = told @ [HCmdUnmarkDirtyNow])"
  using example_waiting_write ready_after_write [OF _ example_waiting_fields(3), of example_env TS_NULL_PACKET] by blast

end
