(* ===== verification/Psi_Eit.thy ===== *)
theory Psi_Eit
  imports Psi_Section Rust_Utf8
begin

text \<open>
  \<open>psi/eit.rs\<close>, \<open>psi/tdt.rs\<close>, \<open>psi/tot.rs\<close>: the sections with the present and the following event
  and with the time of day. Calendar fields, the offset of the time zone and the length of an
  event in seconds are computed by \<open>chrono\<close> and are arguments.
\<close>

unbundle bit_operations_syntax

section \<open>Time and date, time offset\<close>

definition tdt_PID :: u16 where
  "tdt_PID = 0x0014"

definition tdt_section :: "datetime \<Rightarrow> psi_section" where
  "tdt_section now = \<lparr>sec_pid = tdt_PID, sec_bytes = [0x70, 0x70, 0x05] @ encode_dvb_time now\<rparr>"

definition tot_PID :: u16 where
  "tot_PID = 0x0014"

definition tot_section :: "(bytes \<Rightarrow> u32) \<Rightarrow> datetime \<Rightarrow> rstring \<Rightarrow> int \<Rightarrow> psi_section option" where
  "tot_section crc32 now country_code offset_seconds = do {
     let timezone_bcd = get_local_offset_bcd offset_seconds;
     country \<leftarrow> (if is_char_boundary country_code 3 then slice country_code 0 3 else None);
     let descriptor = [0x58, 13] @ country @ [0x00] @ timezone_bcd @ [0xFF, 0xFF, 0xFF, 0xFF, 0xFF]
        @ timezone_bcd;
     let desc_loop_len = (of_nat (length descriptor) :: u16);
     let bs = [0x73, 0x70, 0x00] @ encode_dvb_time now @ [0xF0 OR high desc_loop_len, low desc_loop_len]
        @ descriptor;
     bs \<leftarrow> set_section_length bs;
     Some (section_with_crc crc32 tot_PID bs) }"

section \<open>Events\<close>

definition eit_PID :: u16 where
  "eit_PID = 0x0012"

definition MAX_TEXT_CHUNK :: usize where
  "MAX_TEXT_CHUNK = 246"

definition DVB_UTF8_PREFIX :: u8 where
  "DVB_UTF8_PREFIX = 0x15"

definition floor_char_boundary :: "rstring \<Rightarrow> usize \<Rightarrow> usize" where
  "floor_char_boundary text n = (if n \<ge> length text then length text else back_to_boundary text n)"

function text_chunks :: "rstring \<Rightarrow> rstring list" where
  "text_chunks remaining =
    (if remaining = [] then []
     else if length remaining \<le> MAX_TEXT_CHUNK then [remaining]
     else let safe_len = floor_char_boundary remaining MAX_TEXT_CHUNK
          in if safe_len = 0 then []
             else take safe_len remaining # text_chunks (drop safe_len remaining))"
  by pat_completeness auto
termination
  by (relation "measure length") auto

declare text_chunks.simps [simp del]

definition extended_event_descriptor :: "bytes \<Rightarrow> u8 \<Rightarrow> nat \<times> rstring \<Rightarrow> bytes" where
  "extended_event_descriptor lang last_desc_num = (\<lambda>(i, chunk_bytes).
     let text_len = 1 + length chunk_bytes;
         payload_len = 6 + text_len
     in [0x4E, of_nat payload_len, push_bit 4 (of_nat i) OR (last_desc_num AND 0x0F)] @ lang
        @ [0x00, of_nat text_len, DVB_UTF8_PREFIX] @ chunk_bytes)"

definition build_extended_event_descriptors :: "bytes \<Rightarrow> rstring \<Rightarrow> bytes list" where
  "build_extended_event_descriptors lang text =
    (if text = [] then []
     else let chunks = text_chunks text;
              total_chunks = min (length chunks) 16;
              last_desc_num = of_nat (usize_sub total_chunks 1)
          in map (extended_event_descriptor lang last_desc_num)
               (List.enumerate 0 (take total_chunks chunks)))"

definition ascii_lowercase :: "u8 \<Rightarrow> u8" where
  "ascii_lowercase b = (if 0x41 \<le> b \<and> b \<le> 0x5A then b + 0x20 else b)"

definition is_ascii_alphabetic :: "u8 \<Rightarrow> bool" where
  "is_ascii_alphabetic b \<longleftrightarrow> 0x41 \<le> b \<and> b \<le> 0x5A \<or> 0x61 \<le> b \<and> b \<le> 0x7A"

definition parse_iso_639_2 :: "rstring \<Rightarrow> bytes" where
  "parse_iso_639_2 lang =
     foldl (\<lambda>code (i, b). if is_ascii_alphabetic b then code[i := ascii_lowercase b] else code)
       [0x65, 0x6E, 0x67] (List.enumerate 0 (take 3 lang))"

definition short_payload :: "bytes \<Rightarrow> rstring \<Rightarrow> rstring \<Rightarrow> bytes" where
  "short_payload lang_code title description =
    (let name_bytes = dvb_text title 80;
         short_text_bytes = (if length description > 160 then [] else dvb_text description 160)
     in lang_code @ [of_nat (length name_bytes)] @ name_bytes @ [of_nat (length short_text_bytes)]
        @ short_text_bytes)"

definition eit_descriptors :: "bytes \<Rightarrow> rstring \<Rightarrow> rstring \<Rightarrow> bytes" where
  "eit_descriptors lang_code title description =
    (let sp = short_payload lang_code title description
     in (if length sp \<le> 255 then [0x4D, of_nat (length sp)] @ sp else [])
        @ (if length description > 160
           then concat (build_extended_event_descriptors lang_code description) else []))"

definition eit_header :: "u16 \<Rightarrow> u8 \<Rightarrow> u16 \<Rightarrow> u16 \<Rightarrow> u8 \<Rightarrow> bytes" where
  "eit_header service_id version transport_stream_id original_network_id section_number =
    [0x4E, 0xF0, 0x00, high service_id, low service_id, 0xC1 OR push_bit 1 (version AND 0x1F),
     section_number, 0x01, high transport_stream_id, low transport_stream_id,
     high original_network_id, low original_network_id, 0x01, 0x4E]"

definition present_following_section ::
  "(bytes \<Rightarrow> u32) \<Rightarrow> u16 \<Rightarrow> u8 \<Rightarrow> u16 \<Rightarrow> u16 \<Rightarrow> u8 \<Rightarrow> u16 \<Rightarrow> datetime \<Rightarrow> rat \<Rightarrow> rstring \<Rightarrow> rstring \<Rightarrow> rstring
     \<Rightarrow> psi_section option" where
  "present_following_section crc32 service_id version transport_stream_id original_network_id
     section_number event_id start duration title description language = do {
     let lang_code = parse_iso_639_2 language;
     let descriptors_loop = eit_descriptors lang_code title description;
     let desc_loop_len = (of_nat (length descriptors_loop) :: u16);
     let descriptors_loop = (if desc_loop_len > 0x0FFF then take 0x0FFF descriptors_loop else descriptors_loop);
     let section = eit_header service_id version transport_stream_id original_network_id section_number
        @ [high event_id, low event_id] @ encode_dvb_time start @ encode_duration (f64_to_u32 duration)
        @ [(4 * 32) OR high desc_loop_len, low desc_loop_len] @ descriptors_loop;
     section \<leftarrow> set_section_length section;
     Some (section_with_crc crc32 eit_PID section) }"

definition empty_present_following_section ::
  "(bytes \<Rightarrow> u32) \<Rightarrow> u16 \<Rightarrow> u8 \<Rightarrow> u16 \<Rightarrow> u16 \<Rightarrow> u8 \<Rightarrow> psi_section option" where
  "empty_present_following_section crc32 service_id version transport_stream_id original_network_id
     section_number = do {
     section \<leftarrow> set_section_length
        (eit_header service_id version transport_stream_id original_network_id section_number);
     Some (section_with_crc crc32 eit_PID section) }"

section \<open>Character boundaries\<close>

lemma utf8_width_cont: "utf8_cont a \<Longrightarrow> utf8_width a = 0"
  by (simp add: utf8_width_def utf8_cont_def word_le_nat_alt word_less_nat_alt)

lemma is_char_boundary_alt:
  "is_char_boundary text i \<longleftrightarrow> i = 0 \<or> i = length text \<or> i < length text \<and> \<not> utf8_cont (text ! i)"
proof -
  have "b < 0xC0 \<longleftrightarrow> b \<le> (0xBF :: u8)" for b :: u8
    by (simp add: word_less_nat_alt word_le_nat_alt) linarith
  then show ?thesis
    by (auto simp: is_char_boundary_def utf8_cont_def)
qed

lemma utf8_valid_first:
  assumes "utf8_valid bs" "bs \<noteq> []"
  shows "snd (utf8_first bs)" "utf8_valid (drop (fst (utf8_first bs)) bs)" "\<not> utf8_cont (bs ! 0)"
proof -
  show v: "snd (utf8_first bs)" and "utf8_valid (drop (fst (utf8_first bs)) bs)"
    using assms utf8_valid.simps [of bs] by (auto split: if_splits)
  show "\<not> utf8_cont (bs ! 0)"
  proof
    assume "utf8_cont (bs ! 0)"
    then have "utf8_width (bs ! 0) = 0" by (rule utf8_width_cont)
    then show False
      using v assms(2) by (simp add: utf8_first_def utf8_get_def utf8_seq_def Let_def)
  qed
qed

lemma utf8_first_conts:
  assumes "bs \<noteq> []" "snd (utf8_first bs)" "0 < i" "i < fst (utf8_first bs)"
  shows "utf8_cont (bs ! i)"
proof -
  obtain n where n: "utf8_first bs = (n, True)"
    using assms(2) by (cases "utf8_first bs") auto
  have le: "n \<le> length bs"
    using utf8_first_bounds(2) [OF assms(1)] n by simp
  note cs = utf8_seq_cases [OF n [unfolded utf8_first_def Let_def]]
  have second: "utf8_second3 a b \<Longrightarrow> utf8_cont b" "utf8_second4 a b \<Longrightarrow> utf8_cont b" for a b
    by (auto simp: utf8_second3_def utf8_second4_def utf8_cont_def word_le_nat_alt split: if_splits)
  have "i = 1 \<or> i = 2 \<or> i = 3"
    using assms(3,4) n cs by auto
  then show ?thesis
    using cs assms(3,4) n le second
    by (elim disjE) (auto simp: utf8_get_def split: if_splits)
qed

lemma utf8_valid_boundary:
  "utf8_valid bs \<Longrightarrow> is_char_boundary bs k \<Longrightarrow> utf8_valid (drop k bs) \<and> utf8_valid (take k bs)"
proof (induction bs arbitrary: k rule: utf8_valid.induct)
  case (1 bs)
  show ?case
  proof (cases "bs = [] \<or> k = 0 \<or> length bs \<le> k")
    case True
    then show ?thesis using 1 by (auto simp: utf8_valid.simps [of "[]"])
  next
    case False
    let ?n = "fst (utf8_first bs)"
    note F = utf8_valid_first [OF \<open>utf8_valid bs\<close>]
    have "\<not> utf8_cont (bs ! k)" using 1(3) False by (simp add: is_char_boundary_alt)
    then have k: "?n \<le> k" using utf8_first_conts [of bs k] F(1) False by force
    have "is_char_boundary (drop ?n bs) (k - ?n)"
      using k 1(3) False by (auto simp: is_char_boundary_alt)
    then have IH: "utf8_valid (drop (k - ?n) (drop ?n bs))" "utf8_valid (take (k - ?n) (drop ?n bs))"
      using 1(1) F(1,2) False by blast+
    have "take k bs = take ?n bs @ take (k - ?n) (drop ?n bs)"
      using k take_add [of ?n "k - ?n" bs] by simp
    then show ?thesis
      using k IH utf8_valid_append [of bs] F(1) False by simp
  qed
qed

lemma utf8_first_boundary:
  assumes "utf8_valid bs" "bs \<noteq> []"
  shows "is_char_boundary bs (fst (utf8_first bs))"
proof -
  note F = utf8_valid_first [OF assms] and B = utf8_first_bounds [OF assms(2)]
  show ?thesis
    using utf8_valid_first(3) [OF F(2)] B by (auto simp: is_char_boundary_alt)
qed

lemma back_to_boundary_le: "back_to_boundary text n \<le> n"
  by (induction n) auto

lemma back_to_boundary_boundary: "is_char_boundary text (back_to_boundary text n)"
  by (induction n) (auto simp: is_char_boundary_def)

lemma back_to_boundary_max: "is_char_boundary text k \<Longrightarrow> k \<le> n \<Longrightarrow> k \<le> back_to_boundary text n"
  by (induction n) (auto simp: le_Suc_eq)

lemma utf8_first_le_4: "fst (utf8_first bs) \<le> 4"
  by (simp add: utf8_first_def utf8_seq_def Let_def)

lemma text_chunks_concat:
  "utf8_valid s \<Longrightarrow> concat (text_chunks s) = s
     \<and> list_all (\<lambda>c. c \<noteq> [] \<and> length c \<le> MAX_TEXT_CHUNK \<and> utf8_valid c) (text_chunks s)"
proof (induction s rule: text_chunks.induct)
  case (1 s)
  show ?case
  proof (cases "length s \<le> MAX_TEXT_CHUNK")
    case True
    then show ?thesis using 1(2) by (simp add: text_chunks.simps [of s])
  next
    case False
    define k where "k = floor_char_boundary s MAX_TEXT_CHUNK"
    have ne: "s \<noteq> []" using False by auto
    have k: "k = back_to_boundary s MAX_TEXT_CHUNK"
      using False by (simp add: k_def floor_char_boundary_def)
    have "fst (utf8_first s) \<le> k"
      unfolding k using utf8_first_le_4 [of s]
      by (intro back_to_boundary_max utf8_first_boundary [OF 1(2) ne]) (simp add: MAX_TEXT_CHUNK_def)
    then have k0: "0 < k" using utf8_first_bounds(1) [OF ne] by simp
    have kb: "k \<le> MAX_TEXT_CHUNK" "is_char_boundary s k"
      by (simp_all add: k back_to_boundary_le back_to_boundary_boundary)
    have "text_chunks s = take k s # text_chunks (drop k s)"
      using ne False k0 by (subst text_chunks.simps) (simp add: k_def Let_def)
    then show ?thesis
      using 1(1) [OF ne False k_def] k0 ne kb utf8_valid_boundary [OF 1(2) kb(2)] by simp
  qed
qed

lemma back_to_boundary_ge:
  assumes "utf8_valid s" "n < length s"
  shows "n < back_to_boundary s n + 4"
proof (rule ccontr)
  let ?b = "back_to_boundary s n"
  assume less: "\<not> n < ?b + 4"
  have b: "is_char_boundary s ?b" by (rule back_to_boundary_boundary)
  have r: "utf8_valid (drop ?b s)" "drop ?b s \<noteq> []"
    using utf8_valid_boundary [OF assms(1) b] assms(2) back_to_boundary_le [of s n] by auto
  let ?w = "fst (utf8_first (drop ?b s))"
  have "is_char_boundary s (?b + ?w)"
    using utf8_first_boundary [OF r] utf8_first_bounds [OF r(2)] by (auto simp: is_char_boundary_alt)
  then have "?b + ?w \<le> ?b"
    using less utf8_first_le_4 [of "drop ?b s"] by (intro back_to_boundary_max) auto
  then show False
    using utf8_first_bounds(1) [OF r(2)] by simp
qed

lemma length_text_chunks:
  "utf8_valid s \<Longrightarrow> s \<noteq> [] \<Longrightarrow> 243 * (length (text_chunks s) - 1) < length s"
proof (induction s rule: text_chunks.induct)
  case (1 s)
  show ?case
  proof (cases "length s \<le> MAX_TEXT_CHUNK")
    case True
    then show ?thesis using 1(3) by (simp add: text_chunks.simps [of s])
  next
    case False
    define k where "k = floor_char_boundary s MAX_TEXT_CHUNK"
    note ne = 1(3)
    have k: "k = back_to_boundary s MAX_TEXT_CHUNK"
      using False by (simp add: k_def floor_char_boundary_def)
    have k243: "243 \<le> k" "k < length s"
      using back_to_boundary_ge [OF 1(2), of MAX_TEXT_CHUNK] back_to_boundary_le [of s MAX_TEXT_CHUNK] False
      by (auto simp: k MAX_TEXT_CHUNK_def)
    have "utf8_valid (drop k s)"
      using utf8_valid_boundary [OF 1(2)] back_to_boundary_boundary by (simp add: k)
    moreover have "text_chunks s = take k s # text_chunks (drop k s)"
      using ne False k243 by (subst text_chunks.simps) (simp add: k_def Let_def)
    ultimately show ?thesis
      using 1(1) [OF ne False k_def] k243 by (cases "text_chunks (drop k s)") auto
  qed
qed

lemma extended_event_descriptor_fields:
  fixes i j :: nat
  assumes "length lang = 3" "length c \<le> MAX_TEXT_CHUNK" "i < 16" "j < 16"
  defines "d \<equiv> extended_event_descriptor lang (of_nat j) (i, c)"
  shows "d ! 0 = 0x4E" "unat (d ! 1) + 2 = length d" "unat (d ! 2) = 16 * i + j" "drop 9 d = c"
proof -
  have len: "unat (of_nat (7 + length c) :: u8) = 7 + length c"
    using assms(2) by (intro unat_of_nat_u8) (simp add: MAX_TEXT_CHUNK_def)
  show "unat (d ! 2) = 16 * i + j"
    using unat_nibbles [OF assms(3,4)] by (simp add: d_def extended_event_descriptor_def Let_def)
  show "d ! 0 = 0x4E" "unat (d ! 1) + 2 = length d" "drop 9 d = c"
    using assms(1) len
    by (simp_all add: d_def extended_event_descriptor_def Let_def eval_nat_numeral)
qed

text \<open>
  A description of up to 3888 bytes is carried whole by its extended event descriptors:
  they are at most sixteen, numbered from 0 with the number of the last one, each as long as
  its length byte says, none cuts a character, and their texts joined are the description.
\<close>

theorem extended_event_descriptors_carry:
  assumes "utf8_valid s" "s \<noteq> []" "length s \<le> 3888" "length lang = 3"
  defines "ds \<equiv> build_extended_event_descriptors lang s"
  shows "concat (map (drop 9) ds) = s \<and> length ds \<le> 16
    \<and> (\<forall>i<length ds. ds ! i ! 0 = 0x4E \<and> unat (ds ! i ! 1) + 2 = length (ds ! i)
         \<and> unat (ds ! i ! 2) = 16 * i + (length ds - 1) \<and> utf8_valid (drop 9 (ds ! i)))"
proof -
  let ?cs = "text_chunks s"
  note C = text_chunks_concat [OF assms(1)]
  have ne: "?cs \<noteq> []" using C assms(2) by auto
  have le: "length ?cs \<le> 16"
    using length_text_chunks [OF assms(1,2)] assms(3) by simp
  define j where "j = length ?cs - 1"
  have j: "j < 16" "length ?cs = Suc j" using ne le by (auto simp: j_def)
  have ds: "ds = map (extended_event_descriptor lang (of_nat j)) (List.enumerate 0 ?cs)"
    using assms(2) j by (simp add: ds_def build_extended_event_descriptors_def Let_def)
  have at: "ds ! i = extended_event_descriptor lang (of_nat j) (i, ?cs ! i)" if "i < length ?cs" for i
    using that by (simp add: ds nth_enumerate_eq)
  have chunk: "length (?cs ! i) \<le> MAX_TEXT_CHUNK" "utf8_valid (?cs ! i)" if "i < length ?cs" for i
    using C that by (auto simp: list_all_length)
  have F: "ds ! i ! 0 = 0x4E" "unat (ds ! i ! 1) + 2 = length (ds ! i)" "unat (ds ! i ! 2) = 16 * i + j"
      "drop 9 (ds ! i) = ?cs ! i" if "i < length ?cs" for i
    using extended_event_descriptor_fields [OF assms(4) chunk(1) [OF that] _ j(1), of i] that le
    unfolding at [OF that] by simp_all
  have len: "length ds = length ?cs" by (simp add: ds)
  then have "map (drop 9) ds = ?cs"
    by (intro nth_equalityI) (simp_all add: F(4) del: drop_drop nth_drop)
  then show ?thesis
    using C le len F chunk(2) j by simp
qed

theorem extended_event_descriptors_carry_witness:
  "concat (map (drop 9) (build_extended_event_descriptors [0x65, 0x6E, 0x67] (replicate 300 0x61)))
     = replicate 300 0x61"
proof -
  have "utf8_valid (replicate n 0x61)" for n
    by (induction n)
       (simp_all add: utf8_valid.simps [of "[]"] utf8_valid.simps [of "_ # _"] utf8_first_def utf8_seq_def
          utf8_width_def utf8_get_def Let_def)
  then show ?thesis
    using extended_event_descriptors_carry [of "replicate 300 0x61" "[0x65, 0x6E, 0x67]"] by simp
qed

section \<open>Present and following event\<close>

lemma dvb_text_prefix:
  assumes "utf8_valid s"
  obtains t where "dvb_text s n = 0x15 # t" "utf8_valid t" "length t \<le> n - 1" "take (length t) s = t"
    "length s \<le> n - 1 \<Longrightarrow> t = s"
proof -
  define e where "e = back_to_boundary s (min (length s) (n - 1))"
  have e: "e \<le> length s" "e \<le> n - 1" "is_char_boundary s e"
    using back_to_boundary_le [of s "min (length s) (n - 1)"]
    by (auto simp: e_def back_to_boundary_boundary)
  have "take e s = s" if "length s \<le> n - 1"
    using that back_to_boundary_max [of s "length s" "length s"] e(1)
    by (simp add: e_def is_char_boundary_def)
  then show thesis
    using e utf8_valid_boundary [OF assms e(3)]
    by (intro that [of "take e s"]) (auto simp: dvb_text_def Let_def e_def)
qed

lemma length_parse_iso_639_2 [simp]: "length (parse_iso_639_2 l) = 3"
proof -
  have "length (foldl (\<lambda>code (i, b). if is_ascii_alphabetic b then code[i := ascii_lowercase b] else code) c xs)
      = length c" for c and xs :: "(nat \<times> u8) list"
    by (induction xs arbitrary: c) auto
  then show ?thesis by (simp add: parse_iso_639_2_def)
qed

lemma length_dvb_text: "0 < n \<Longrightarrow> length (dvb_text s n) \<le> n"
  using back_to_boundary_le [of s "min (length s) (n - 1)"] by (auto simp: dvb_text_def Let_def)

lemma length_extended:
  assumes "utf8_valid d" "d \<noteq> []" "length d \<le> 3888" "length lang = 3"
  shows "length (concat (build_extended_event_descriptors lang d)) \<le> length d + 144"
proof -
  let ?cs = "text_chunks d"
  have le: "length ?cs \<le> 16"
    using length_text_chunks [OF assms(1,2)] assms(3) by simp
  have "length (concat (map (extended_event_descriptor lang w) (List.enumerate k xs)))
      = length (concat xs) + 9 * length xs" for w k xs
    using assms(4) by (induction xs arbitrary: k) (auto simp: extended_event_descriptor_def Let_def)
  then show ?thesis
    using assms(2) le text_chunks_concat [OF assms(1)]
    by (simp add: build_extended_event_descriptors_def Let_def)
qed

lemma eit_descriptors_start:
  assumes "length lang = 3"
  shows "\<exists>n rest. eit_descriptors lang title descr = [0x4D, n] @ lang @ [of_nat (length (dvb_text title 80))]
     @ dvb_text title 80 @ rest"
proof -
  have "length (dvb_text title 80) \<le> 80" "length (dvb_text descr 160) \<le> 160"
    by (simp_all add: length_dvb_text)
  then have "length (short_payload lang title descr) \<le> 255"
    using assms by (simp add: short_payload_def Let_def)
  then show ?thesis
    by (simp add: eit_descriptors_def short_payload_def Let_def)
qed

lemma length_eit_descriptors:
  assumes "utf8_valid descr" "length descr \<le> 3837" "length lang = 3"
  shows "length (eit_descriptors lang title descr) \<le> 4068"
proof -
  have t: "length (dvb_text title 80) \<le> 80" "length (dvb_text descr 160) \<le> 160"
    by (simp_all add: length_dvb_text)
  show ?thesis
  proof (cases "160 < length descr")
    case True
    then have "descr \<noteq> []" by auto
    then show ?thesis
      using t assms(2,3) True length_extended [OF assms(1) _ _ assms(3)]
      by (simp add: eit_descriptors_def short_payload_def Let_def)
  next
    case False
    then show ?thesis
      using t assms(3) by (simp add: eit_descriptors_def short_payload_def Let_def)
  qed
qed

text \<open>
  C35. An event of the schedule becomes a whole section: for every description of up to 3837
  bytes the section length is right, the length of the descriptor loop is exactly what lies
  between the fixed part and the CRC, and the loop starts with a short event descriptor with
  the title, shortened to at most 79 bytes between two characters.
\<close>

theorem present_following_whole:
  assumes "utf8_valid title" "utf8_valid descr" "length descr \<le> 3837"
  shows "\<exists>b. present_following_section crc32 sid version tsid onid num event_id start dur title descr lang
      = Some \<lparr>sec_pid = 0x12, sec_bytes = b\<rparr> \<and> section_ok b \<and> length b = 26 + len12 (b ! 24) (b ! 25) + 4
    \<and> (\<exists>n t rest. drop 26 b = [0x4D, n] @ parse_iso_639_2 lang @ [of_nat (Suc (length t)), 0x15] @ t @ rest
         \<and> utf8_valid t \<and> length t \<le> 79 \<and> take (length t) title = t \<and> (length title \<le> 79 \<longrightarrow> t = title))"
proof -
  define loop where "loop = eit_descriptors (parse_iso_639_2 lang) title descr"
  define len where "len = (of_nat (length loop) :: u16)"
  define h where "h = eit_header sid version tsid onid num @ [high event_id, low event_id]
      @ encode_dvb_time start @ encode_duration (f64_to_u32 dur)"
  define s where "s = h @ [(4 * 32) OR high len, low len] @ loop"
  have loop: "length loop \<le> 4068"
    unfolding loop_def by (rule length_eit_descriptors [OF assms(2,3)]) simp
  have len: "unat len = length loop"
    unfolding len_def by (rule unat_of_nat_u16) (use loop in simp)
  have h: "length h = 24"
    by (simp add: h_def eit_header_def encode_dvb_time_def encode_duration_def Let_def)
  obtain s' where s': "set_section_length s = Some s'"
    using h by (simp add: s_def set_section_length_eq)
  have s'_eq: "s' = h[1 := (h ! 1 AND 0xF0) OR high (of_nat (length s + 1)), 2 := low (of_nat (length s + 1))]
      @ [(4 * 32) OR high len, low len] @ loop"
    using s' h by (auto simp: s_def set_section_length_eq list_update_append nth_append)
  define b where "b = sec_bytes (section_with_crc crc32 eit_PID s')"
  have b: "b = s' @ to_be32 (crc32 s')" by (simp add: b_def section_with_crc_def)
  have ok: "section_ok b"
    unfolding b_def by (rule set_section_length_whole(1) [OF _ _ s']) (use h loop in \<open>simp_all add: s_def\<close>)
  have "len12 ((4 * 32) OR high len) (low len) = length loop"
    using len12_high_low [of len "4 * 32"] len loop by simp
  then have l12: "len12 (b ! 24) (b ! 25) = length loop"
    using h by (simp add: b s'_eq nth_append)
  obtain t where t: "dvb_text title 80 = 0x15 # t" "utf8_valid t" "length t \<le> 80 - 1"
      "take (length t) title = t" "length title \<le> 80 - 1 \<Longrightarrow> t = title"
    by (rule dvb_text_prefix [OF assms(1), of 80]) blast
  obtain n rest where start: "loop = [0x4D, n] @ parse_iso_639_2 lang @ [of_nat (Suc (length t)), 0x15] @ t @ rest"
    using eit_descriptors_start [of "parse_iso_639_2 lang" title descr] by (auto simp: loop_def t(1))
  have "present_following_section crc32 sid version tsid onid num event_id start dur title descr lang
      = Some \<lparr>sec_pid = 0x12, sec_bytes = b\<rparr>"
    using loop len s' word_less_nat_alt [of "0x0FFF" len]
    by (simp add: present_following_section_def Let_def loop_def [symmetric] len_def [symmetric] s_def h_def
        b_def section_with_crc_def eit_PID_def)
  moreover have "drop 26 b = [0x4D, n] @ parse_iso_639_2 lang @ [of_nat (Suc (length t)), 0x15] @ t
      @ rest @ to_be32 (crc32 s')"
    using h by (simp add: b s'_eq start)
  moreover have "length b = 26 + length loop + 4" using h by (simp add: b s'_eq)
  ultimately show ?thesis
    using ok l12 t by fastforce
qed

theorem present_following_whole_witness:
  "\<exists>b. present_following_section (\<lambda>_. 0) 1 0 1 1 0 9 \<lparr>dt_year = 2024, dt_month = 5, dt_day = 1, dt_hour = 20,
       dt_minute = 15, dt_second = 0\<rparr> 5400 [0x41] [] [0x64, 0x65, 0x75] = Some \<lparr>sec_pid = 0x12, sec_bytes = b\<rparr>
     \<and> section_ok b"
  using present_following_whole [of "[0x41]" "[]" "\<lambda>_. 0" 1 0 1 1 0 9 "\<lparr>dt_year = 2024, dt_month = 5,
      dt_day = 1, dt_hour = 20, dt_minute = 15, dt_second = 0\<rparr>" 5400 "[0x64, 0x65, 0x75]"]
  by (auto simp: utf8_valid.simps [of "[]"] utf8_valid.simps [of "_ # _"] utf8_first_def utf8_seq_def
        utf8_width_def utf8_get_def Let_def)

lemma empty_present_following_whole:
  "\<exists>b. empty_present_following_section crc32 sid version tsid onid num = Some \<lparr>sec_pid = 0x12, sec_bytes = b\<rparr>
     \<and> section_ok b"
proof -
  have len: "length (eit_header sid version tsid onid num) = 14"
    by (simp add: eit_header_def)
  then obtain s' where s': "set_section_length (eit_header sid version tsid onid num) = Some s'"
    by (simp add: set_section_length_eq)
  show ?thesis
    using set_section_length_whole(1) [OF _ _ s', of crc32 eit_PID] len s'
    by (simp add: empty_present_following_section_def section_with_crc_def eit_PID_def)
qed

lemma tdt_section_whole: "section_ok (sec_bytes (tdt_section now))"
  by (simp add: tdt_section_def section_ok_def encode_dvb_time_def len12_def Let_def)

lemma tot_section_whole:
  assumes "3 \<le> length country" "is_char_boundary country 3"
  shows "\<exists>s. tot_section crc32 now country off = Some s \<and> section_ok (sec_bytes s)"
proof -
  let ?d = "[0x58, 13] @ take 3 country @ [0x00] @ get_local_offset_bcd off @ [0xFF, 0xFF, 0xFF, 0xFF, 0xFF]
      @ get_local_offset_bcd off"
  let ?s = "[0x73, 0x70, 0x00] @ encode_dvb_time now @ [0xF0 OR high (of_nat (length ?d)), low (of_nat (length ?d))] @ ?d"
  have len: "length ?s = 25"
    using assms(1) by (simp add: get_local_offset_bcd_def encode_dvb_time_def Let_def)
  then obtain s' where "set_section_length ?s = Some s'"
    by (simp add: set_section_length_eq)
  then show ?thesis
    using assms set_section_length_whole(1) [of ?s s' crc32 tot_PID] len
    by (simp add: tot_section_def Let_def)
qed

end
