(* ===== verification/Rtp.thy ===== *)
theory Rtp
  imports Rust_Prelude
begin

text \<open>
  \<open>proto/rtp.rs\<close>: packing a payload into an RTP packet and unpacking it. The time since the
  start in nanoseconds and the random source identifier are arguments.
\<close>

unbundle bit_operations_syntax

datatype rtp_error = InvalidPacket | InvalidVersion | UnsupportedPadding | UnsupportedExtension
  | UnsupportedCsrcCount | UnsupportedMarker | InvalidPayloadType | InvalidSsrc

record rtp_state =
  rtp_version :: u8
  rtp_padding :: bool
  rtp_extension :: bool
  rtp_csrc_count :: u8
  rtp_marker :: bool
  rtp_payload_type :: u8
  rtp_sequence :: u16
  rtp_timestamp :: u32
  rtp_ssrc :: u32

definition rtp_new :: rtp_state where
  "rtp_new = \<lparr>rtp_version = 2, rtp_padding = False, rtp_extension = False, rtp_csrc_count = 0,
     rtp_marker = False, rtp_payload_type = 33, rtp_sequence = 0, rtp_timestamp = 0, rtp_ssrc = 0\<rparr>"

definition bool_u8 :: "bool \<Rightarrow> u8" where
  "bool_u8 b = (if b then 1 else 0)"

definition rtp_pack :: "rtp_state \<Rightarrow> nat \<Rightarrow> u32 \<Rightarrow> bytes \<Rightarrow> rtp_state \<times> bytes" where
  "rtp_pack st elapsed_nanos random payload =
    (let h0 = push_bit 6 (rtp_version st) OR push_bit 5 (bool_u8 (rtp_padding st))
           OR push_bit 4 (bool_u8 (rtp_extension st)) OR rtp_csrc_count st;
         h1 = push_bit 7 (bool_u8 (rtp_marker st)) OR rtp_payload_type st;
         seq_bytes = to_be16 (rtp_sequence st);
         st = st\<lparr>rtp_sequence := rtp_sequence st + 1\<rparr>;
         ssrc = rtp_ssrc st;
         (ssrc, st) = (if ssrc = 0 then (random, st\<lparr>rtp_ssrc := random\<rparr>) else (ssrc, st));
         ts = ssrc + of_nat ((elapsed_nanos * 90000) div 1000000000);
         st = st\<lparr>rtp_timestamp := ts\<rparr>
     in (st, [h0, h1] @ seq_bytes @ to_be32 ts @ to_be32 ssrc @ payload))"

definition rtp_unpack :: "rtp_state \<Rightarrow> bytes \<Rightarrow> (rtp_state \<times> (rtp_error + bytes)) option" where
  "rtp_unpack st packet =
    (if length packet < 12 then Some (st, Inl InvalidPacket) else do {
     header \<leftarrow> slice packet 0 12;
     h0 \<leftarrow> idx header 0;
     if drop_bit 6 h0 \<noteq> rtp_version st then Some (st, Inl InvalidVersion)
     else if h0 AND 0x20 \<noteq> 0 then Some (st, Inl UnsupportedPadding)
     else if h0 AND 0x10 \<noteq> 0 then Some (st, Inl UnsupportedExtension)
     else if h0 AND 0x0F \<noteq> 0 then Some (st, Inl UnsupportedCsrcCount)
     else do {
     h1 \<leftarrow> idx header 1;
     if h1 AND 0x80 \<noteq> 0 then Some (st, Inl UnsupportedMarker)
     else if h1 AND 0x7F \<noteq> rtp_payload_type st then Some (st, Inl InvalidPayloadType)
     else do {
     s0 \<leftarrow> idx header 8; s1 \<leftarrow> idx header 9; s2 \<leftarrow> idx header 10; s3 \<leftarrow> idx header 11;
     let ssrc = be32 s0 s1 s2 s3;
     let current_ssrc = rtp_ssrc st;
     payload \<leftarrow> slice_from packet 12;
     if current_ssrc = 0 then Some (st\<lparr>rtp_ssrc := ssrc\<rparr>, Inr payload)
     else if ssrc \<noteq> current_ssrc then Some (st, Inl InvalidSsrc)
     else Some (st, Inr payload) }}})"

section \<open>A sender and a receiver\<close>

lemma rtp_unpack_no_panic: "rtp_unpack st packet \<noteq> None"
  unfolding rtp_unpack_def by (intro no_panic) (auto simp: slice_eq_Some_iff)

text \<open>A state as \<open>new\<close> makes it, but for the sequence number, the time stamp and the source.\<close>

definition rtp_plain :: "rtp_state \<Rightarrow> bool" where
  "rtp_plain st \<longleftrightarrow> rtp_version st = 2 \<and> \<not> rtp_padding st \<and> \<not> rtp_extension st \<and> rtp_csrc_count st = 0
     \<and> \<not> rtp_marker st \<and> rtp_payload_type st = 33"

fun rtp_send :: "rtp_state \<Rightarrow> (nat \<times> u32 \<times> bytes) list \<Rightarrow> rtp_state \<times> bytes list" where
  "rtp_send st [] = (st, [])"
| "rtp_send st ((now, rnd, payload) # rest) =
    (let (st', packet) = rtp_pack st now rnd payload; (st'', packets) = rtp_send st' rest
     in (st'', packet # packets))"

fun rtp_receive :: "rtp_state \<Rightarrow> bytes list \<Rightarrow> (rtp_state \<times> (rtp_error + bytes) list) option" where
  "rtp_receive st [] = Some (st, [])"
| "rtp_receive st (packet # rest) = do {
     (st', r) \<leftarrow> rtp_unpack st packet;
     (st'', rs) \<leftarrow> rtp_receive st' rest;
     Some (st'', r # rs) }"

lemma rtp_pack_unpack:
  assumes "rtp_plain tx" "rtp_plain rx" "rtp_pack tx now rnd payload = (tx', packet)"
    and "rtp_ssrc rx = 0 \<or> rtp_ssrc rx = rtp_ssrc tx'"
  shows "rtp_unpack rx packet = Some (rx\<lparr>rtp_ssrc := rtp_ssrc tx'\<rparr>, Inr payload)"
    and "rtp_plain tx'" and "rtp_sequence tx' = rtp_sequence tx + 1"
    and "be16 (packet ! 2) (packet ! 3) = rtp_sequence tx"
    and "rtp_ssrc tx' = (if rtp_ssrc tx = 0 then rnd else rtp_ssrc tx)"
proof -
  show "rtp_plain tx'" "rtp_sequence tx' = rtp_sequence tx + 1"
      "rtp_ssrc tx' = (if rtp_ssrc tx = 0 then rnd else rtp_ssrc tx)"
    using assms(1,3) by (auto simp: rtp_pack_def rtp_plain_def Let_def split: if_splits prod.splits)
  obtain ts where packet: "packet = [0x80, 33] @ to_be16 (rtp_sequence tx) @ to_be32 ts @ to_be32 (rtp_ssrc tx') @ payload"
    using assms(1,3) by (auto simp: rtp_pack_def rtp_plain_def bool_u8_def Let_def split: if_splits prod.splits)
  show "be16 (packet ! 2) (packet ! 3) = rtp_sequence tx"
    by (simp add: packet to_be16_def)
  have f: "12 \<le> length packet" "packet ! 0 = 0x80" "packet ! 1 = 33" "drop 12 packet = payload" "packet \<noteq> []"
      "packet ! 8 = ucast (drop_bit 24 (rtp_ssrc tx'))" "packet ! 9 = ucast (drop_bit 16 (rtp_ssrc tx'))"
      "packet ! 10 = ucast (drop_bit 8 (rtp_ssrc tx'))" "packet ! 11 = ucast (rtp_ssrc tx')"
    by (simp_all add: packet to_be16_def to_be32_def)
  show "rtp_unpack rx packet = Some (rx\<lparr>rtp_ssrc := rtp_ssrc tx'\<rparr>, Inr payload)"
    using assms(2,4) f by (auto simp: rtp_unpack_def rtp_plain_def Let_def)
qed

lemma rtp_stream:
  assumes "rtp_plain tx" "rtp_plain rx" "list_all (\<lambda>(now, rnd, payload). rnd \<noteq> 0) items"
    and "rtp_ssrc rx = 0 \<or> rtp_ssrc rx = rtp_ssrc tx \<and> rtp_ssrc tx \<noteq> 0"
  shows "\<exists>rx'. rtp_receive rx (snd (rtp_send tx items)) = Some (rx', map (\<lambda>(now, rnd, payload). Inr payload) items)"
  using assms
proof (induction items arbitrary: tx rx)
  case (Cons item items)
  obtain now rnd payload where item: "item = (now, rnd, payload)" by (cases item) auto
  obtain tx' packet where pack: "rtp_pack tx now rnd payload = (tx', packet)" by fastforce
  have ssrc: "rtp_ssrc tx' = (if rtp_ssrc tx = 0 then rnd else rtp_ssrc tx)"
    using Cons.prems(1) pack by (auto simp: rtp_pack_def Let_def split: if_splits prod.splits)
  have src: "rtp_ssrc rx = 0 \<or> rtp_ssrc rx = rtp_ssrc tx'"
    using Cons.prems(4) ssrc by auto
  note step = rtp_pack_unpack [OF Cons.prems(1,2) pack src]
  have "\<exists>rx'. rtp_receive (rx\<lparr>rtp_ssrc := rtp_ssrc tx'\<rparr>) (snd (rtp_send tx' items))
      = Some (rx', map (\<lambda>(now, rnd, payload). Inr payload) items)"
    using Cons.prems(2,3) step(2) ssrc by (intro Cons.IH) (auto simp: rtp_plain_def item)
  then show ?case
    using step(1) by (auto simp: item pack split_beta)
qed simp

definition rtp_seq :: "bytes \<Rightarrow> u16" where
  "rtp_seq packet = be16 (packet ! 2) (packet ! 3)"

lemma rtp_send_seq:
  "map rtp_seq (snd (rtp_send tx items)) = map (\<lambda>i. rtp_sequence tx + of_nat i) [0..<length items]"
proof (induction items arbitrary: tx)
  case (Cons item items)
  obtain now rnd payload where item: "item = (now, rnd, payload)" by (cases item) auto
  obtain tx' packet where pack: "rtp_pack tx now rnd payload = (tx', packet)" by fastforce
  have "rtp_sequence tx' = rtp_sequence tx + 1" "rtp_seq packet = rtp_sequence tx"
    using pack by (auto simp: rtp_pack_def rtp_seq_def to_be16_def Let_def split: if_splits prod.splits)
  then show ?case
    using Cons [of tx'] by (simp add: item pack split_beta upt_conv_Cons map_Suc_upt [symmetric] add.assoc del: upt_Suc)
qed simp

text \<open>
  A receiver that listens to one sender gets exactly the payloads that were sent, in
  order and without an error, and the packets are numbered consecutively; the source
  identifier drawn by the sender must not be 0, which both sides take for \<open>unset\<close>.
\<close>

theorem rtp_send_receive:
  assumes "list_all (\<lambda>(now, rnd, payload). rnd \<noteq> 0) items"
  shows "(\<exists>rx. rtp_receive rtp_new (snd (rtp_send rtp_new items)) = Some (rx, map (\<lambda>(now, rnd, payload). Inr payload) items))
    \<and> map rtp_seq (snd (rtp_send rtp_new items)) = map of_nat [0..<length items]"
proof
  show "\<exists>rx. rtp_receive rtp_new (snd (rtp_send rtp_new items)) = Some (rx, map (\<lambda>(now, rnd, payload). Inr payload) items)"
    by (rule rtp_stream) (use assms in \<open>simp_all add: rtp_plain_def rtp_new_def\<close>)
  show "map rtp_seq (snd (rtp_send rtp_new items)) = map of_nat [0..<length items]"
    using rtp_send_seq [of rtp_new items] by (simp add: rtp_new_def)
qed

theorem rtp_send_receive_witness:
  "\<exists>rx. rtp_receive rtp_new (snd (rtp_send rtp_new [(0, 7, [1, 2]), (1000000, 9, [3])])) = Some (rx, [Inr [1, 2], Inr [3]])"
  using rtp_send_receive [of "[(0, 7, [1, 2]), (1000000, 9, [3])]"] by simp

end
