(* ===== verification/Bit_Reader.thy ===== *)
theory Bit_Reader
  imports Rust_Prelude
begin

text \<open>
  The bit reader of \<open>pes/golomb.rs\<close>, which reads the parameter sets of H.264: a cache of 64 bits in
  front of a byte slice, and the Exp-Golomb codes on top of it.

  \<^item> The counter of the cache is a byte and wraps below zero when the data are exhausted; the shift
    amounts are then reduced modulo 64. Both are written out.
  \<^item> The loop that counts zero bits has no bound of its own. It is a \<open>partial_function\<close>, whose value
    \<open>None\<close> means that the loop does not end.
\<close>

unbundle bit_operations_syntax

section \<open>The reader\<close>

record bit_reader =
  br_data :: bytes
  br_pos :: usize
  br_cache :: u64
  br_cache_bits :: u8

definition br_new :: "bytes \<Rightarrow> bit_reader" where
  "br_new data = \<lparr>br_data = data, br_pos = 0, br_cache = 0, br_cache_bits = 0\<rparr>"

function refill :: "bit_reader \<Rightarrow> bit_reader" where
  "refill r =
    (if br_cache_bits r \<le> 56 then
       let byte_pos = br_pos r div 8
       in if byte_pos < length (br_data r)
          then refill (r\<lparr>br_cache := push_bit 8 (br_cache r) OR ucast (br_data r ! byte_pos),
                  br_cache_bits := br_cache_bits r + 8, br_pos := br_pos r + 8\<rparr>)
          else r
     else r)"
  by pat_completeness auto
termination
  by (relation "measure (\<lambda>r. length (br_data r) - br_pos r div 8)") auto

declare refill.simps [simp del]

definition read_bits :: "bit_reader \<Rightarrow> u8 \<Rightarrow> bit_reader \<times> u32" where
  "read_bits r n =
    (let r = (if br_cache_bits r < n then refill r else r);
         shift = br_cache_bits r - n;
         val = shr64 (br_cache r) (unat shift) AND (shl64 1 (unat n) - 1);
         r = r\<lparr>br_cache_bits := br_cache_bits r - n\<rparr>;
         r = r\<lparr>br_cache := br_cache r AND (shl64 1 (unat (br_cache_bits r)) - 1)\<rparr>
     in (r, ucast val))"

definition read_bit :: "bit_reader \<Rightarrow> bit_reader \<times> u8" where
  "read_bit r = (let (r, val) = read_bits r 1 in (r, ucast val))"

text \<open>The counter of zero bits is an \<open>i32\<close>; only its low bits are used, so it is kept as a word.\<close>

partial_function (option) ue_zeros :: "bit_reader \<Rightarrow> u32 \<Rightarrow> (bit_reader \<times> u32) option" where
  "ue_zeros r leading_zero_bits =
    (if snd (read_bit r) = 0 then ue_zeros (fst (read_bit r)) (leading_zero_bits + 1)
     else Some (fst (read_bit r), leading_zero_bits))"

definition read_ue :: "bit_reader \<Rightarrow> (bit_reader \<times> u32) option" where
  "read_ue r = do {
     (r, leading_zero_bits) \<leftarrow> ue_zeros r 0;
     if leading_zero_bits = 0 then Some (r, 0)
     else let (r, suffix) = read_bits r (ucast leading_zero_bits)
          in Some (r, (push_bit (unat leading_zero_bits mod 32) 1 - 1) + suffix) }"

text \<open>The wrapped value of an \<open>i32\<close>; its quotient truncates.\<close>

definition i32 :: "int \<Rightarrow> int" where
  "i32 x = signed_take_bit 31 x"

definition read_se :: "bit_reader \<Rightarrow> (bit_reader \<times> int) option" where
  "read_se r = do {
     (r, code) \<leftarrow> read_ue r;
     let code_num = sint code;
     Some (r, if code AND 1 = 0 then - (sgn code_num * (\<bar>code_num\<bar> div 2))
              else let c = i32 (code_num + 1) in sgn c * (\<bar>c\<bar> div 2)) }"

section \<open>The bits that are left\<close>

definition byte_bits :: "u8 \<Rightarrow> bool list" where
  "byte_bits b = map (bit b) (rev [0..<8])"

definition stream_bits :: "bit_reader \<Rightarrow> bool list" where
  "stream_bits r = map (bit (br_cache r)) (rev [0..<unat (br_cache_bits r)])
     @ concat (map byte_bits (drop (br_pos r div 8) (br_data r)))"

definition bits_val :: "bool list \<Rightarrow> nat" where
  "bits_val bs = horner_sum of_bool 2 (rev bs)"

definition br_inv :: "bit_reader \<Rightarrow> bool" where
  "br_inv r \<longleftrightarrow> unat (br_cache_bits r) \<le> 64 \<and> br_pos r mod 8 = 0
     \<and> take_bit (unat (br_cache_bits r)) (br_cache r) = br_cache r"

lemma br_inv_new: "br_inv (br_new data)"
  by (simp add: br_inv_def br_new_def)

lemma stream_bits_new: "stream_bits (br_new data) = concat (map byte_bits data)"
  by (simp add: stream_bits_def br_new_def)

lemma rev_upt_add: "rev [0..<k + n] = map (\<lambda>i. i + n) (rev [0..<k]) @ rev [0..<n]"
  by (induction k) auto

lemma cache_push:
  assumes "k + 8 \<le> 64"
  shows "map (bit (push_bit 8 c OR ucast b)) (rev [0..<k + 8]) = map (bit (c :: u64)) (rev [0..<k]) @ byte_bits b"
proof -
  have "bit (push_bit 8 c OR ucast b) (i + 8) = bit c i" if "i < k" for i
    using that assms by (simp add: bit_simps bit_beyond8)
  moreover have "bit (push_bit 8 c OR ucast b) i = bit b i" if "i < 8" for i
    using that by (simp add: bit_simps)
  ultimately show ?thesis
    by (simp add: rev_upt_add byte_bits_def)
qed

lemma bits_val_word: "bits_val (map (bit w) (rev [0..<n])) = unat (take_bit n w)" for w :: "'a :: len word"
proof -
  have "bits_val (map (bit w) (rev [0..<n])) = horner_sum of_bool 2 (map (bit (unat w)) [0..<n])"
    by (simp add: bits_val_def rev_map bit_simps cong: map_cong)
  also have "\<dots> = take_bit n (unat w)"
    by (rule horner_sum_bit_eq_take_bit)
  finally show ?thesis by (simp add: unsigned_take_bit_eq)
qed

lemma length_byte_bits [simp]: "length (byte_bits b) = 8"
  by (simp add: byte_bits_def)

lemma take_bit_push_byte:
  "take_bit k c = c \<Longrightarrow> k + 8 \<le> 64 \<Longrightarrow> take_bit (k + 8) (push_bit 8 c OR ucast (b :: u8)) = (push_bit 8 c OR ucast b :: u64)"
proof -
  assume *: "take_bit k c = c" "k + 8 \<le> 64"
  have "i < k + 8" if "bit c (i - 8)" for i
  proof -
    have "i - 8 < k" using that *(1) by (metis bit_take_bit_iff)
    then show ?thesis by simp
  qed
  then show ?thesis
    using *(2) by (intro bit_eqI) (auto simp: bit_simps bit_beyond8)
qed

lemma refill_spec:
  "br_inv r \<Longrightarrow> br_inv (refill r) \<and> stream_bits (refill r) = stream_bits r
     \<and> min 57 (length (stream_bits r)) \<le> unat (br_cache_bits (refill r))"
proof (induction r rule: refill.induct)
  case (1 r)
  show ?case
  proof (cases "br_cache_bits r \<le> 56 \<and> br_pos r div 8 < length (br_data r)")
    case True
    define b where "b = br_data r ! (br_pos r div 8)"
    define r' where "r' = r\<lparr>br_cache := push_bit 8 (br_cache r) OR ucast b,
      br_cache_bits := br_cache_bits r + 8, br_pos := br_pos r + 8\<rparr>"
    have k: "unat (br_cache_bits r) \<le> 56"
      using True by (simp add: word_le_nat_alt)
    then have k8: "unat (br_cache_bits r + 8) = unat (br_cache_bits r) + 8"
      by (simp add: unat_word_ariths)
    have inv: "br_inv r'"
      using 1(2) k by (auto simp: br_inv_def r'_def k8 intro!: take_bit_push_byte [simplified])
    have "drop (br_pos r div 8) (br_data r) = b # drop (br_pos r div 8 + 1) (br_data r)"
      using True by (simp add: b_def Cons_nth_drop_Suc)
    then have str: "stream_bits r' = stream_bits r"
      using k cache_push [of "unat (br_cache_bits r)" "br_cache r" b] by (simp add: stream_bits_def r'_def k8 div_add_self2)
    have "refill r = refill r'"
      using True by (simp add: refill.simps [of r] r'_def b_def)
    then show ?thesis
      using 1(1) [OF _ refl] True inv str by (simp add: r'_def b_def)
  next
    case False
    then have "refill r = r" "57 \<le> unat (br_cache_bits r) \<or> length (stream_bits r) = unat (br_cache_bits r)"
      by (auto simp: refill.simps [of r] stream_bits_def word_le_nat_alt)
    then show ?thesis using 1(2) by auto
  qed
qed

lemma mask_take_bit: "n < 64 \<Longrightarrow> (x :: u64) AND (shl64 1 n - 1) = take_bit n x"
  by (simp add: shl64_def take_bit_eq_mask mask_eq_exp_minus_1 push_bit_of_1)

lemma length_stream_bits: "length (stream_bits r) = unat (br_cache_bits r) + 8 * (length (br_data r) - br_pos r div 8)"
  by (simp add: stream_bits_def length_concat comp_def sum_list_triv)

lemma read_bits_spec:
  assumes "br_inv r" "0 < unat n" "unat n \<le> 32" "unat n \<le> length (stream_bits r)"
  shows "\<exists>r'. read_bits r n = (r', of_nat (bits_val (take (unat n) (stream_bits r))))
     \<and> br_inv r' \<and> stream_bits r' = drop (unat n) (stream_bits r)"
proof -
  define q where "q = (if br_cache_bits r < n then refill r else r)"
  define k where "k = unat (br_cache_bits q)"
  define m where "m = k - unat n"
  have q: "br_inv q" "stream_bits q = stream_bits r" and nk: "unat n \<le> k"
    using assms refill_spec [OF assms(1)] by (auto simp: q_def k_def word_less_nat_alt)
  have k: "k \<le> 64" "take_bit k (br_cache q) = br_cache q"
    using q(1) by (simp_all add: br_inv_def k_def)
  have m: "unat (br_cache_bits q - n) = m" "m < 64" "k = m + unat n"
    using nk k(1) assms(2) by (simp_all add: m_def k_def unat_sub word_le_nat_alt)
  let ?c = "br_cache q" and ?rest = "concat (map byte_bits (drop (br_pos q div 8) (br_data q)))"
  have split: "map (bit ?c) (rev [0..<k]) = map (bit (drop_bit m ?c)) (rev [0..<unat n]) @ map (bit ?c) (rev [0..<m])"
    using rev_upt_add [of "unat n" m] by (simp add: m(3) add.commute bit_simps)
  then have str: "stream_bits r = map (bit (drop_bit m ?c)) (rev [0..<unat n]) @ map (bit ?c) (rev [0..<m]) @ ?rest"
    using q(2) by (simp add: stream_bits_def k_def)
  have val: "shr64 ?c m AND (shl64 1 (unat n) - 1) = take_bit (unat n) (drop_bit m ?c)"
    using m(2) assms(3) by (simp add: mask_take_bit shr64_def)
  have cut: "?c AND (shl64 1 m - 1) = take_bit m ?c"
    using m(2) by (rule mask_take_bit)
  let ?r = "q\<lparr>br_cache_bits := br_cache_bits q - n, br_cache := take_bit m ?c\<rparr>"
  have "read_bits r n = (?r, ucast (take_bit (unat n) (drop_bit m ?c)))"
    unfolding read_bits_def q_def [symmetric] Let_def by (simp add: m(1) val cut)
  moreover have "(ucast (take_bit (unat n) (drop_bit m ?c)) :: u32) = of_nat (bits_val (take (unat n) (stream_bits r)))"
    by (simp add: str bits_val_word)
  moreover have "br_inv ?r"
    using q(1) m by (simp add: br_inv_def)
  moreover have "stream_bits ?r = map (bit ?c) (rev [0..<m]) @ ?rest"
    by (auto simp: stream_bits_def m(1) bit_simps)
  then have "stream_bits ?r = drop (unat n) (stream_bits r)"
    by (simp add: str del: drop_map)
  ultimately show ?thesis by (intro exI [of _ ?r]) simp
qed

lemma read_bit_spec:
  assumes "br_inv r" "stream_bits r = b # bs"
  shows "\<exists>r'. read_bit r = (r', of_bool b) \<and> br_inv r' \<and> stream_bits r' = bs"
  using read_bits_spec [OF assms(1), of 1] assms(2)
  by (auto simp: read_bit_def bits_val_def)

section \<open>Exp-Golomb codes\<close>

lemma ue_zeros_spec:
  "br_inv r \<Longrightarrow> stream_bits r = replicate k False @ True # bs \<Longrightarrow>
   \<exists>r'. ue_zeros r z = Some (r', z + of_nat k) \<and> br_inv r' \<and> stream_bits r' = bs"
proof (induction k arbitrary: r z)
  case 0
  then show ?case
    using read_bit_spec [of r True bs] by (auto simp: ue_zeros.simps [of r])
next
  case (Suc k)
  then obtain r' where "read_bit r = (r', 0)" "br_inv r'" "stream_bits r' = replicate k False @ True # bs"
    using read_bit_spec [of r False "replicate k False @ True # bs"] by auto
  then show ?case
    using Suc.IH [of r' "z + 1"] by (auto simp: ue_zeros.simps [of r] algebra_simps)
qed

lemma read_ue_spec:
  assumes "br_inv r" "stream_bits r = replicate (length suffix) False @ True # suffix @ rest" "length suffix \<le> 31"
  shows "\<exists>r'. read_ue r = Some (r', of_nat (2 ^ length suffix - 1 + bits_val suffix)) \<and> br_inv r' \<and> stream_bits r' = rest"
proof -
  let ?k = "length suffix"
  obtain r1 where zeros: "ue_zeros r 0 = Some (r1, of_nat ?k)" "br_inv r1" "stream_bits r1 = suffix @ rest"
    using ue_zeros_spec [OF assms(1,2), of 0] by auto
  have k: "unat (of_nat ?k :: u32) = ?k" "unat (ucast (of_nat ?k :: u32) :: u8) = ?k"
    using assms(3) by (simp_all add: unsigned_ucast_eq unsigned_of_nat take_bit_nat_eq_self)
  show ?thesis
  proof (cases "suffix = []")
    case True
    then show ?thesis using zeros by (simp add: read_ue_def bits_val_def)
  next
    case False
    then have nz: "(of_nat ?k :: u32) \<noteq> 0"
      using k(1) by (metis length_0_conv unat_0)
    obtain r2 where "read_bits r1 (ucast (of_nat ?k :: u32)) = (r2, of_nat (bits_val suffix))" "br_inv r2" "stream_bits r2 = rest"
      using read_bits_spec [OF zeros(2), of "ucast (of_nat ?k :: u32)"] False assms(3) zeros(3) k(2) by auto
    moreover have "(of_nat (2 ^ ?k - 1 + bits_val suffix) :: u32) = 2 ^ ?k - 1 + of_nat (bits_val suffix)"
      unfolding of_nat_add by (simp add: of_nat_diff)
    ultimately show ?thesis
      using zeros(1) nz k(1) assms(3) by (simp add: read_ue_def push_bit_of_1 del: of_nat_add)
  qed
qed

text \<open>The encoder of the standard: as many zeros as the successor of the number has bits after the first.\<close>

fun bit_len :: "nat \<Rightarrow> nat" where
  "bit_len v = (if v = 0 then 0 else Suc (bit_len (v div 2)))"

declare bit_len.simps [simp del]

definition nat_bits :: "nat \<Rightarrow> nat \<Rightarrow> bool list" where
  "nat_bits n v = map (bit v) (rev [0..<n])"

definition ue_bits :: "nat \<Rightarrow> bool list" where
  "ue_bits v = (let k = bit_len (v + 1) - 1 in replicate k False @ nat_bits (k + 1) (v + 1))"

lemma bit_len_bounds: "0 < v \<Longrightarrow> 2 ^ (bit_len v - 1) \<le> v \<and> v < 2 ^ bit_len v \<and> 0 < bit_len v"
proof (induction v rule: bit_len.induct)
  case (1 v)
  show ?case
  proof (cases "v div 2 = 0")
    case True
    then show ?thesis using 1(2) by (simp add: bit_len.simps [of v] bit_len.simps [of 0])
  next
    case False
    then have IH: "2 ^ (bit_len (v div 2) - 1) \<le> v div 2" "v div 2 < 2 ^ bit_len (v div 2)" "0 < bit_len (v div 2)"
      using 1 by auto
    obtain m where m: "bit_len (v div 2) = Suc m" using IH(3) by (cases "bit_len (v div 2)") auto
    show ?thesis
      using IH 1(2) by (simp add: bit_len.simps [of v] m) linarith
  qed
qed

lemma nat_bits_Suc: "nat_bits (Suc n) v = bit v n # nat_bits n v"
  by (simp add: nat_bits_def)

lemma bits_val_nat_bits: "bits_val (nat_bits n v) = v mod 2 ^ n"
  by (simp add: bits_val_def nat_bits_def rev_map horner_sum_bit_eq_take_bit take_bit_eq_mod)

lemma length_nat_bits [simp]: "length (nat_bits n v) = n"
  by (simp add: nat_bits_def)

lemma ue_bits_eq:
  obtains k where "ue_bits v = replicate k False @ True # nat_bits k (v + 1)" "2 ^ k \<le> v + 1" "v + 1 < 2 * 2 ^ k"
proof -
  define k where "k = bit_len (v + 1) - 1"
  have b: "2 ^ k \<le> v + 1" "v + 1 < 2 * 2 ^ k"
    using bit_len_bounds [of "v + 1"] by (auto simp: k_def simp flip: power_Suc)
  then have "(v + 1) div 2 ^ k = 1"
    by (intro div_nat_eqI) auto
  then have "bit (v + 1) k"
    by (simp add: bit_iff_odd)
  moreover have "ue_bits v = replicate k False @ nat_bits (Suc k) (v + 1)"
    by (simp add: ue_bits_def k_def Let_def)
  ultimately show thesis
    using that [of k] b by (simp add: nat_bits_Suc)
qed

lemma read_ue_code:
  assumes "br_inv r" "stream_bits r = ue_bits v @ rest" "v < 2 ^ 32 - 1"
  shows "\<exists>r'. read_ue r = Some (r', of_nat v) \<and> br_inv r' \<and> stream_bits r' = rest"
proof -
  obtain k where k: "ue_bits v = replicate k False @ True # nat_bits k (v + 1)" "2 ^ k \<le> v + 1" "v + 1 < 2 * 2 ^ k"
    by (rule ue_bits_eq)
  have "(2 :: nat) ^ k < 2 ^ 32" using k(2) assms(3) by linarith
  then have "k \<le> 31" using power_less_imp_less_exp [of "2 :: nat" k 32] by simp
  have "(v + 1) mod 2 ^ k = v + 1 - 2 ^ k"
    using k(2,3) by (simp add: mod_if)
  then have "2 ^ k - 1 + bits_val (nat_bits k (v + 1)) = v"
    using k(2) by (simp add: bits_val_nat_bits)
  then show ?thesis
    using read_ue_spec [of r "nat_bits k (v + 1)" rest] assms k(1) \<open>k \<le> 31\<close> by simp
qed

text \<open>
  C37. Every unsigned Exp-Golomb code is read back: when the bits that are left begin with the
  code of a number below \<open>2 ^ 32 - 1\<close>, the reader returns the number and stands right behind the
  code, wherever the code lies in the bytes and however full the cache is.
\<close>

theorem read_ue_decodes:
  assumes "br_inv r" "stream_bits r = ue_bits v @ rest" "v < 2 ^ 32 - 1"
  shows "\<exists>r'. read_ue r = Some (r', of_nat v) \<and> br_inv r' \<and> stream_bits r' = rest"
  using assms by (rule read_ue_code)

theorem read_ue_decodes_witness:
  "\<exists>r'. read_ue (br_new [0x29]) = Some (r', 4) \<and> stream_bits r' = [False, False, True]"
proof -
  have "stream_bits (br_new [0x29]) = ue_bits 4 @ [False, False, True]"
    by (simp add: stream_bits_new byte_bits_def ue_bits_def nat_bits_def bit_len.simps upt_rec bit_0)
  then show ?thesis
    using read_ue_decodes [OF br_inv_new, of "[0x29]" 4] by auto
qed

section \<open>When the count of zero bits ends\<close>

text \<open>Only zeros are left: in the cache and in the bytes not yet read.\<close>

definition only_zeros :: "bit_reader \<Rightarrow> bool" where
  "only_zeros r \<longleftrightarrow> br_cache r = 0 \<and> (\<forall>b \<in> set (drop (br_pos r div 8) (br_data r)). b = 0)"

lemma only_zeros_refill: "only_zeros r \<Longrightarrow> only_zeros (refill r)"
proof (induction r rule: refill.induct)
  case (1 r)
  show ?case
  proof (cases "br_cache_bits r \<le> 56 \<and> br_pos r div 8 < length (br_data r)")
    case True
    let ?k = "br_pos r div 8"
    have d: "drop ?k (br_data r) = br_data r ! ?k # drop (Suc ?k) (br_data r)"
      using True by (simp add: Cons_nth_drop_Suc)
    then have "br_data r ! ?k = 0" "\<forall>b \<in> set (drop (Suc ?k) (br_data r)). b = 0"
      using 1(2) unfolding only_zeros_def by auto
    then have "only_zeros (r\<lparr>br_cache := push_bit 8 (br_cache r) OR ucast (br_data r ! ?k),
        br_cache_bits := br_cache_bits r + 8, br_pos := br_pos r + 8\<rparr>)"
      using 1(2) by (simp add: only_zeros_def div_add_self2)
    then show ?thesis
      using 1(1) [OF _ refl] True by (simp add: refill.simps [of r])
  next
    case False
    then show ?thesis using 1(2) by (auto simp: refill.simps [of r] Let_def)
  qed
qed

lemma only_zeros_read_bit:
  assumes "only_zeros r"
  shows "snd (read_bit r) = 0 \<and> only_zeros (fst (read_bit r))"
proof -
  define q where "q = (if br_cache_bits r < 1 then refill r else r)"
  have q: "only_zeros q" using assms only_zeros_refill by (simp add: q_def)
  then have "br_cache q = 0" by (simp add: only_zeros_def)
  then show ?thesis
    using q unfolding read_bit_def read_bits_def q_def [symmetric] Let_def
    by (simp add: only_zeros_def shr64_def)
qed

lemma ue_zeros_some_one: "ue_zeros r z = Some y \<Longrightarrow> \<not> only_zeros r"
proof (rule ue_zeros.raw_induct [of "\<lambda>r z y. \<not> only_zeros r"])
  fix ue r z y
  assume IH: "\<And>r z y. ue r z = Some y \<Longrightarrow> \<not> only_zeros r"
    and step: "(if snd (read_bit r) = 0 then ue (fst (read_bit r)) (z + 1) else Some (fst (read_bit r), z)) = Some y"
  show "\<not> only_zeros r"
  proof
    assume "only_zeros r"
    from only_zeros_read_bit [OF this] show False
      using step IH by auto
  qed
qed

lemma ue_zeros_diverges: "only_zeros r \<Longrightarrow> ue_zeros r z = None"
  using ue_zeros_some_one by fastforce

lemma stream_bits_zeros:
  assumes "br_inv r" "True \<notin> set (stream_bits r)"
  shows "only_zeros r"
proof -
  have "br_cache r = 0"
  proof (rule bit_eqI)
    fix n
    show "bit (br_cache r) n = bit (0 :: u64) n"
      using assms bit_take_bit_iff [of "unat (br_cache_bits r)" "br_cache r" n]
      by (auto simp: stream_bits_def br_inv_def image_iff)
  qed
  moreover have "b = 0" if "b \<in> set (drop (br_pos r div 8) (br_data r))" for b
  proof (rule bit_eqI)
    fix n assume "possible_bit TYPE(u8) n"
    then show "bit b n = bit (0 :: u8) n"
      using assms(2) that by (auto simp: stream_bits_def byte_bits_def image_iff)
  qed
  ultimately show ?thesis by (simp add: only_zeros_def)
qed

text \<open>
  C38. The reader of Exp-Golomb codes returns exactly when there is a one among the bits that are
  left; on data that end in zeros it counts zero bits forever.
\<close>

theorem read_ue_ends_iff:
  assumes "br_inv r"
  shows "read_ue r \<noteq> None \<longleftrightarrow> True \<in> set (stream_bits r)"
proof
  assume "True \<in> set (stream_bits r)"
  then obtain zs bs where split: "stream_bits r = zs @ True # bs" "True \<notin> set zs"
    using split_list_first by metis
  then have "zs = replicate (length zs) False"
    by (metis (full_types) replicate_length_same)
  then obtain r' where "ue_zeros r 0 = Some (r', of_nat (length zs))"
    using ue_zeros_spec [OF assms, of "length zs" bs 0] split(1) by auto
  then show "read_ue r \<noteq> None" by (auto simp: read_ue_def split_beta)
next
  assume some: "read_ue r \<noteq> None"
  show "True \<in> set (stream_bits r)"
  proof (rule ccontr)
    assume "True \<notin> set (stream_bits r)"
    then have "ue_zeros r 0 = None"
      by (intro ue_zeros_diverges stream_bits_zeros assms)
    then show False using some by (simp add: read_ue_def)
  qed
qed

theorem read_ue_ends_iff_witness:
  "read_ue (br_new [0, 0]) = None \<and> read_ue (br_new [0, 1]) \<noteq> None"
proof
  show "read_ue (br_new [0, 0]) = None"
    using read_ue_ends_iff [OF br_inv_new, of "[0, 0]"] by (fastforce simp: stream_bits_new byte_bits_def)
  show "read_ue (br_new [0, 1]) \<noteq> None"
    unfolding read_ue_ends_iff [OF br_inv_new] by (simp add: stream_bits_new byte_bits_def upt_rec bit_0)
qed

end
