(* ===== verification/Es_Parsers.thy ===== *)
theory Es_Parsers
  imports Bit_Reader Rust_Float
begin

text \<open>
  The parsers of elementary streams (\<open>pes/es_parsers.rs\<close>) and their results (\<open>pes/es.rs\<close>): sequence
  headers of MPEG-2, headers of MPEG and AAC audio, and sequence parameter sets of H.264.

  A parser returns \<open>None\<close> when it does not return: it panics, or it reads an Exp-Golomb code from data
  that end in zeros. The \<open>Option\<close> of the code is the inner option.
\<close>

unbundle bit_operations_syntax

section \<open>Results\<close>

record es2 =
  es2_stream_type :: u8
  es2_horizontal_size :: "u16 option"
  es2_vertical_size :: "u16 option"
  es2_aspect_ratio :: "u8 option"
  es2_frame_rate :: "u8 option"
  es2_bitrate :: "u32 option"

record es_audio =
  ea_stream_type :: u8
  ea_id :: "u8 option"
  ea_layer :: "u8 option"
  ea_bit_rate_index :: "u8 option"
  ea_sampling_frequency :: "u8 option"
  ea_mode :: "u8 option"
  ea_mode_extension :: "u8 option"
  ea_copyright :: "u8 option"
  ea_original :: "u8 option"
  ea_emphasis :: "u8 option"

record es15 =
  es15_stream_type :: u8
  es15_id :: "u8 option"
  es15_profile :: "u8 option"
  es15_sampling_frequency :: "u8 option"
  es15_channel_configuration :: "u8 option"
  es15_copyright :: "u8 option"
  es15_original :: "u8 option"

record es27 =
  es27_stream_type :: u8
  es27_profile_idc :: "u8 option"
  es27_level_idc :: "u8 option"
  es27_seq_parameter_set_id :: "u32 option"
  es27_horizontal_size :: "u32 option"
  es27_vertical_size :: "u32 option"
  es27_frame_rate :: "u32 option"

datatype es = EsUnknown u8 | Es2 es2 | Es3 es_audio | Es4 es_audio | Es15 es15 | Es27 es27

definition es2_new :: es2 where
  "es2_new = \<lparr>es2_stream_type = 2, es2_horizontal_size = None, es2_vertical_size = None,
     es2_aspect_ratio = None, es2_frame_rate = None, es2_bitrate = None\<rparr>"

definition es27_new :: es27 where
  "es27_new = \<lparr>es27_stream_type = 27, es27_profile_idc = None, es27_level_idc = None,
     es27_seq_parameter_set_id = None, es27_horizontal_size = None, es27_vertical_size = None,
     es27_frame_rate = None\<rparr>"

section \<open>Searching\<close>

definition read_u32_be :: "bytes \<Rightarrow> usize \<Rightarrow> u32 option" where
  "read_u32_be data offset =
    (if offset + 4 \<le> length data
     then Some (be32 (data ! offset) (data ! (offset + 1)) (data ! (offset + 2)) (data ! (offset + 3)))
     else None)"

definition find_byte :: "bytes \<Rightarrow> u8 \<Rightarrow> usize \<Rightarrow> usize option" where
  "find_byte data v start =
    (if start \<le> length data then List.find (\<lambda>i. data ! i = v) [start..<length data] else None)"

lemma find_byte_ge: "find_byte data v start = Some pos \<Longrightarrow> start \<le> pos \<and> pos < length data"
  by (auto simp: find_byte_def find_Some_iff split: if_splits)

function find_header_from :: "bytes \<Rightarrow> usize \<Rightarrow> u32 option" where
  "find_header_from data es_pointer =
    (if es_pointer < length data then
       (case find_byte data 0xFF es_pointer of None \<Rightarrow> None
        | Some pos \<Rightarrow>
            if pos + 4 > length data then None
            else case read_u32_be data pos of
                Some tmp \<Rightarrow> if drop_bit 20 tmp = 0xFFF then Some tmp else find_header_from data (pos + 2)
              | None \<Rightarrow> find_header_from data (pos + 2))
     else None)"
  by pat_completeness auto
termination
  by (relation "measure (\<lambda>(data, p). length data - p)") (auto dest: find_byte_ge)

declare find_header_from.simps [simp del]

definition find_mpeg_audio_header :: "bytes \<Rightarrow> u32 option" where
  "find_mpeg_audio_header data = find_header_from data 0"

section \<open>MPEG-2 video and audio\<close>

definition find_data :: "bytes \<Rightarrow> bytes option" where
  "find_data data =
    (case List.find (\<lambda>i. data ! i = 0x00 \<and> data ! (i + 1) = 0x00 \<and> data ! (i + 2) = 0x01 \<and> data ! (i + 3) = 0xB3
          \<and> length (drop i data) \<ge> 8) [0..<length data - 8] of
       None \<Rightarrow> None
     | Some i \<Rightarrow> Some (drop i data))"

definition parse_es2 :: "bytes \<Rightarrow> es option" where
  "parse_es2 data =
    (case find_data data of None \<Rightarrow> None
     | Some data \<Rightarrow>
         if (case read_u32_be data 0 of Some code \<Rightarrow> code \<noteq> 0x000001B3 | None \<Rightarrow> False) then None
         else let es = es2_new;
                  es = (case read_u32_be data 4 of None \<Rightarrow> es
                    | Some tmp \<Rightarrow> es\<lparr>es2_horizontal_size := Some (ucast (drop_bit 20 tmp)),
                        es2_vertical_size := Some (ucast (drop_bit 8 tmp AND 0x0FFF)),
                        es2_aspect_ratio := Some (ucast (drop_bit 4 tmp AND 0x0F)),
                        es2_frame_rate := Some (ucast (tmp AND 0x0F))\<rparr>);
                  es = (case read_u32_be data 8 of None \<Rightarrow> es
                    | Some tmp \<Rightarrow> es\<lparr>es2_bitrate := Some (drop_bit 14 tmp)\<rparr>)
              in Some (Es2 es))"

text \<open>\<open>EsParser3\<close> and \<open>EsParser4\<close> read the same fields.\<close>

definition audio_fields :: "u8 \<Rightarrow> u32 \<Rightarrow> es_audio" where
  "audio_fields stream_type header =
     \<lparr>ea_stream_type = stream_type, ea_id = Some (ucast (drop_bit 19 header AND 0x1)),
      ea_layer = Some (ucast (drop_bit 17 header AND 0x3)),
      ea_bit_rate_index = Some (ucast (drop_bit 12 header AND 0xF)),
      ea_sampling_frequency = Some (ucast (drop_bit 10 header AND 0x3)),
      ea_mode = Some (ucast (drop_bit 6 header AND 0x3)),
      ea_mode_extension = Some (ucast (drop_bit 4 header AND 0x3)),
      ea_copyright = Some (ucast (drop_bit 3 header AND 0x1)),
      ea_original = Some (ucast (drop_bit 2 header AND 0x1)),
      ea_emphasis = Some (ucast (header AND 0x3))\<rparr>"

definition parse_es3 :: "bytes \<Rightarrow> es option" where
  "parse_es3 data = map_option (\<lambda>header. Es3 (audio_fields 3 header)) (find_mpeg_audio_header data)"

definition parse_es4 :: "bytes \<Rightarrow> es option" where
  "parse_es4 data = map_option (\<lambda>header. Es4 (audio_fields 4 header)) (find_mpeg_audio_header data)"

definition parse_es15 :: "bytes \<Rightarrow> es option" where
  "parse_es15 data = map_option (\<lambda>header. Es15
     \<lparr>es15_stream_type = 15, es15_id = Some (ucast (drop_bit 19 header AND 0x1)),
      es15_profile = Some (ucast (drop_bit 16 header AND 0x3)),
      es15_sampling_frequency = Some (ucast (drop_bit 12 header AND 0xF)),
      es15_channel_configuration = Some (ucast (drop_bit 9 header AND 0x7)),
      es15_copyright = Some (ucast (drop_bit 8 header AND 0x1)),
      es15_original = Some (ucast (drop_bit 7 header AND 0x1))\<rparr>) (find_mpeg_audio_header data)"

definition parse_es_unknown :: "bytes \<Rightarrow> es option" where
  "parse_es_unknown data = Some (EsUnknown 0)"

section \<open>H.264\<close>

text \<open>The end of a NAL unit: the next start code of three or four bytes, or the end of the data.\<close>

definition next_start_code :: "bytes \<Rightarrow> usize \<Rightarrow> usize" where
  "next_start_code data data_start =
    (case List.find (\<lambda>j. data ! j = 0 \<and> data ! (j + 1) = 0 \<and>
          (data ! (j + 2) = 1 \<or> j + 3 < length data \<and> data ! (j + 2) = 0 \<and> data ! (j + 3) = 1))
        [data_start..<length data - 2] of
       None \<Rightarrow> length data | Some j \<Rightarrow> j)"

fun trim_zeros :: "bytes \<Rightarrow> usize \<Rightarrow> usize \<Rightarrow> usize" where
  "trim_zeros data data_start 0 = 0"
| "trim_zeros data data_start (Suc e) =
    (if Suc e > data_start \<and> data ! e = 0 then trim_zeros data data_start e else Suc e)"

definition is_start_code :: "bytes \<Rightarrow> usize \<Rightarrow> bool option" where
  "is_start_code data i = do {
     b0 \<leftarrow> idx data i;
     if b0 \<noteq> 0 then Some False else do {
     b1 \<leftarrow> idx data (i + 1);
     if b1 \<noteq> 0 then Some False else do {
     b2 \<leftarrow> idx data (i + 2);
     Some (b2 = 1) }}}"

lemma is_start_code_Some: "is_start_code data i = Some b \<Longrightarrow> i < length data"
  by (auto simp: is_start_code_def bind_eq_Some_conv idx_eq_Some_iff)

lemma next_start_code_ge: "data_start \<le> length data \<Longrightarrow> data_start \<le> next_start_code data data_start"
  by (auto simp: next_start_code_def find_Some_iff split: option.split)

text \<open>A start code at \<open>i\<close> needs three bytes; \<open>i + 3\<close> may be the end of the data.\<close>

lemma is_start_code_True: "is_start_code data i = Some True \<Longrightarrow> i + 3 \<le> length data"
  by (auto simp: is_start_code_def bind_eq_Some_conv idx_eq_Some_iff split: if_splits)

lemma start_code_progress:
  "is_start_code data i = Some True \<Longrightarrow> length data - next_start_code data (i + 3) < length data - i"
  using is_start_code_True [of data i] next_start_code_ge [of "i + 3" data] by linarith

function find_sps_from :: "bytes \<Rightarrow> usize \<Rightarrow> bytes option option" where
  "find_sps_from data i =
    (if i < usize_sub (length data) 2 then
       (case is_start_code data i of None \<Rightarrow> None
        | Some True \<Rightarrow>
            let data_start = i + 3;
                next_start = next_start_code data data_start
            in if data_start < length data \<and> data ! data_start AND 0x1F = 7
               then map_option Some (slice data (data_start + 1) (trim_zeros data data_start next_start))
               else find_sps_from data next_start
        | Some False \<Rightarrow> find_sps_from data (i + 1))
     else Some None)"
  by pat_completeness auto
termination
  by (relation "measure (\<lambda>(data, i). length data - i)")
     (auto dest: is_start_code_Some start_code_progress)

declare find_sps_from.simps [simp del]

definition find_sps :: "bytes \<Rightarrow> bytes option option" where
  "find_sps data = find_sps_from data 0"

text \<open>Removal of the bytes \<open>0x03\<close> that keep start codes out of the payload.\<close>

fun unescape :: "nat \<Rightarrow> bytes \<Rightarrow> bytes" where
  "unescape zero_count [] = []"
| "unescape zero_count (b # rest) =
    (if zero_count = 2 \<and> b = 0x03 then unescape 0 rest
     else b # unescape (if b = 0 then zero_count + 1 else 0) rest)"

definition ebsp_to_rbsp :: "bytes \<Rightarrow> bytes" where
  "ebsp_to_rbsp data = unescape 0 data"

text \<open>One scaling list: the remainder of Rust has the sign of the dividend.\<close>

definition i32_rem :: "int \<Rightarrow> int \<Rightarrow> int" where
  "i32_rem a b = sgn a * (\<bar>a\<bar> mod \<bar>b\<bar>)"

fun scaling_list :: "nat \<Rightarrow> bit_reader \<Rightarrow> int \<Rightarrow> int \<Rightarrow> bit_reader option" where
  "scaling_list 0 br last_scale next_scale = Some br"
| "scaling_list (Suc c) br last_scale next_scale = do {
     (br, next_scale) \<leftarrow> (if next_scale \<noteq> 0 then do {
         (br, delta_scale) \<leftarrow> read_se br;
         Some (br, i32_rem (i32 (i32 (last_scale + delta_scale) + 256)) 256) } else Some (br, next_scale));
     scaling_list c br (if next_scale = 0 then last_scale else next_scale) next_scale }"

definition scaling_lists :: "nat \<Rightarrow> bit_reader \<Rightarrow> bit_reader option" where
  "scaling_lists count br = foldM (\<lambda>br i.
     let (br, seq_scaling_list_present_flag) = read_bit br
     in if seq_scaling_list_present_flag = 1 then scaling_list (if i < 6 then 16 else 64) br 8 8 else Some br)
     br [0..<count]"

text \<open>The part of the high profiles: the chroma type and the units of cropping.\<close>

definition sps_chroma :: "u8 \<Rightarrow> bit_reader \<Rightarrow> (bit_reader \<times> u32 \<times> u32 \<times> u8) option" where
  "sps_chroma profile_idc br =
    (if profile_idc \<in> {100, 110, 122, 244, 44} then do {
       (br, chroma_format_idc) \<leftarrow> read_ue br;
       let (sub_width_c, sub_height_c) = (if chroma_format_idc = 1 then (2, 2)
          else if chroma_format_idc = 2 then (2, 1) else if chroma_format_idc = 3 then (1, 1) else (0, 0));
       let (br, chroma_array_type, sub_width_c, sub_height_c) = (if chroma_format_idc = 3 then
            let (br, separate_colour_plane_flag) = read_bit br
            in if separate_colour_plane_flag = 1 then (br, 1, 0, 0) else (br, 0, sub_width_c, sub_height_c)
          else (br, 1, sub_width_c, sub_height_c));
       (br, _) \<leftarrow> read_ue br;
       (br, _) \<leftarrow> read_ue br;
       let (br, _) = read_bit br;
       let (br, seq_scaling_matrix_present_flag) = read_bit br;
       br \<leftarrow> (if seq_scaling_matrix_present_flag = 1
          then scaling_lists (if chroma_format_idc \<noteq> 3 then 8 else 12) br else Some br);
       Some (br, chroma_array_type, sub_width_c, sub_height_c) }
     else Some (br, 1, 2, 2))"

fun skip_se :: "nat \<Rightarrow> bit_reader \<Rightarrow> bit_reader option" where
  "skip_se 0 br = Some br"
| "skip_se (Suc n) br = do { (br, _) \<leftarrow> read_se br; skip_se n br }"

definition sps_poc :: "bit_reader \<Rightarrow> bit_reader option" where
  "sps_poc br = do {
     (br, pic_order_cnt_type) \<leftarrow> read_ue br;
     if pic_order_cnt_type = 0 then do { (br, _) \<leftarrow> read_ue br; Some br }
     else if pic_order_cnt_type = 1 then do {
       let (br, _) = read_bit br;
       (br, _) \<leftarrow> read_se br;
       (br, _) \<leftarrow> read_se br;
       (br, n) \<leftarrow> read_ue br;
       skip_se (unat n) br }
     else Some br }"

definition read_ue_if :: "bool \<Rightarrow> bit_reader \<Rightarrow> (bit_reader \<times> u32) option" where
  "read_ue_if c br = (if c then read_ue br else Some (br, 0))"

text \<open>The usability information: only the timing is kept. \<open>round\<close> rounds half away from zero.\<close>

definition f64_round :: "rat \<Rightarrow> rat" where
  "f64_round x = sgn x * of_int \<lfloor>\<bar>x\<bar> + 1 / 2\<rfloor>"

definition sps_vui :: "bit_reader \<Rightarrow> (bit_reader \<times> u32 option) option" where
  "sps_vui br = do {
     let (br, aspect_ratio_info_present_flag) = read_bit br;
     let (br, aspect_ratio_idc) = (if aspect_ratio_info_present_flag = 1 then read_bits br 8 else (br, 0));
     let br = (if aspect_ratio_idc = 255 then fst (read_bits (fst (read_bits br 16)) 16) else br);
     let (br, overscan_info_present_flag) = read_bit br;
     let br = (if overscan_info_present_flag = 1 then fst (read_bit br) else br);
     let (br, video_signal_type_present_flag) = read_bit br;
     let br = (if video_signal_type_present_flag = 1 then
          let br = fst (read_bits br 3);
              br = fst (read_bit br);
              (br, colour_description_present_flag) = read_bit br
          in if colour_description_present_flag = 1
             then fst (read_bits (fst (read_bits (fst (read_bits br 8)) 8)) 8) else br
        else br);
     let (br, chroma_loc_info_present_flag) = read_bit br;
     (br, _) \<leftarrow> read_ue_if (chroma_loc_info_present_flag = 1) br;
     (br, _) \<leftarrow> read_ue_if (chroma_loc_info_present_flag = 1) br;
     let (br, timing_info_present_flag) = read_bit br;
     if timing_info_present_flag = 1 then
       (let (br, num_units_in_tick) = read_bits br 32;
            (br, time_scale) = read_bits br 32;
            br = fst (read_bit br)
        in if num_units_in_tick \<noteq> 0 \<and> time_scale \<noteq> 0
           then Some (br, Some (f64_to_u32 (f64_round (fl 53 (of_nat (unat time_scale) / (2 * of_nat (unat num_units_in_tick)))))))
           else Some (br, None))
     else Some (br, None) }"

definition parse_rbsp :: "bytes \<Rightarrow> es27 option" where
  "parse_rbsp rbsp =
    (if length rbsp < 3 then Some es27_new else do {
     let br = br_new rbsp;
     let (br, profile) = read_bits br 8;
     let profile_idc = ucast profile;
     let br = fst (read_bits br 8);
     let (br, level) = read_bits br 8;
     (br, seq_parameter_set_id) \<leftarrow> read_ue br;
     let es = es27_new\<lparr>es27_profile_idc := Some profile_idc, es27_level_idc := Some (ucast level),
        es27_seq_parameter_set_id := Some seq_parameter_set_id\<rparr>;
     (br, chroma_array_type, sub_width_c, sub_height_c) \<leftarrow> sps_chroma profile_idc br;
     (br, _) \<leftarrow> read_ue br;
     br \<leftarrow> sps_poc br;
     (br, _) \<leftarrow> read_ue br;
     let br = fst (read_bit br);
     (br, pic_width_in_mbs_minus1) \<leftarrow> read_ue br;
     (br, pic_height_in_map_units_minus1) \<leftarrow> read_ue br;
     let (br, frame_mbs_only_flag) = read_bit br;
     let br = (if frame_mbs_only_flag = 0 then fst (read_bit br) else br);
     let br = fst (read_bit br);
     let (br, frame_cropping_flag) = read_bit br;
     (br, _) \<leftarrow> read_ue_if (frame_cropping_flag = 1) br;
     (br, frame_crop_right_offset) \<leftarrow> read_ue_if (frame_cropping_flag = 1) br;
     (br, _) \<leftarrow> read_ue_if (frame_cropping_flag = 1) br;
     (br, frame_crop_bottom_offset) \<leftarrow> read_ue_if (frame_cropping_flag = 1) br;
     let (br, vui_parameters_present_flag) = read_bit br;
     (br, frame_rate) \<leftarrow> (if vui_parameters_present_flag = 1 then sps_vui br else Some (br, None));
     let es = (case frame_rate of None \<Rightarrow> es | Some fr \<Rightarrow> es\<lparr>es27_frame_rate := Some fr\<rparr>);
     let (crop_unit_x, crop_unit_y) = (if chroma_array_type = 0 then (1, 2 - frame_mbs_only_flag)
        else (sub_width_c, sub_height_c * (2 - frame_mbs_only_flag)));
     let width = (pic_width_in_mbs_minus1 + 1) * 16 - crop_unit_x * frame_crop_right_offset;
     let height = (2 - ucast frame_mbs_only_flag) * (pic_height_in_map_units_minus1 + 1) * 16
        - ucast crop_unit_y * frame_crop_bottom_offset;
     let es = (if width > 0 then es\<lparr>es27_horizontal_size := Some width\<rparr> else es);
     let es = (if height > 0 then es\<lparr>es27_vertical_size := Some height\<rparr> else es);
     Some es })"

definition parse_es27 :: "bytes \<Rightarrow> es option option" where
  "parse_es27 data = do {
     sps \<leftarrow> find_sps data;
     case sps of None \<Rightarrow> Some None
     | Some ebsp \<Rightarrow> do {
         es \<leftarrow> parse_rbsp (ebsp_to_rbsp ebsp);
         Some (Some (Es27 es)) }}"

text \<open>The choice of the parser by the stream type.\<close>

definition parse_es :: "u8 \<Rightarrow> bytes \<Rightarrow> es option option" where
  "parse_es stream_type data =
    (if stream_type = 2 then Some (parse_es2 data) else if stream_type = 3 then Some (parse_es3 data)
     else if stream_type = 4 then Some (parse_es4 data) else if stream_type = 15 then Some (parse_es15 data)
     else if stream_type = 27 then parse_es27 data else Some (parse_es_unknown data))"

end
