(* ===== verification/Es_Props.thy ===== *)
theory Es_Props
  imports Es_Parsers
begin

text \<open>
  A sequence parameter set of H.264, from the byte stream with its units, start codes and emulation
  prevention to the size of the picture.
\<close>

unbundle bit_operations_syntax

section \<open>Emulation prevention\<close>

text \<open>The encoder of the standard: a byte \<open>0x03\<close> before a byte up to 3 that follows two zeros.\<close>

fun escape :: "nat \<Rightarrow> bytes \<Rightarrow> bytes" where
  "escape zeros [] = []"
| "escape zeros (b # rest) =
    (if zeros = 2 \<and> b \<le> 3 then 0x03 # b # escape (if b = 0 then 1 else 0) rest
     else b # escape (if b = 0 then zeros + 1 else 0) rest)"

lemma unescape_escape: "zeros \<le> 2 \<Longrightarrow> unescape zeros (escape zeros bs) = bs"
proof (induction bs arbitrary: zeros)
  case (Cons b bs)
  show ?case
  proof (cases "zeros = 2 \<and> b \<le> 3")
    case True
    then show ?thesis using Cons.IH [of "if b = 0 then 1 else 0"] by auto
  next
    case False
    have "b = 0 \<longrightarrow> b \<le> 3" "b = 3 \<longrightarrow> b \<le> 3" by auto
    then show ?thesis using False Cons by (auto simp del: le_zero_eq)
  qed
qed simp

text \<open>What the escaped bytes never have: a start code, or a zero run that hides one.\<close>

fun no_start_code :: "bytes \<Rightarrow> bool" where
  "no_start_code (a # b # c # rest) \<longleftrightarrow> \<not> (a = 0 \<and> b = 0 \<and> c \<le> 2) \<and> no_start_code (b # c # rest)"
| "no_start_code _ \<longleftrightarrow> True"

lemma no_start_code_cons: "a \<noteq> 0 \<Longrightarrow> no_start_code (a # bs) = no_start_code bs"
  by (cases bs rule: no_start_code.cases) auto

lemma no_start_code_cons2: "b \<noteq> 0 \<Longrightarrow> no_start_code (a # b # bs) = no_start_code (b # bs)"
  by (cases bs) auto

lemma no_start_code_escape:
  "no_start_code (escape 0 bs) \<and> no_start_code (0 # escape 1 bs) \<and> no_start_code (0 # 0 # escape 2 bs)"
proof (induction bs)
  case (Cons b bs)
  show ?case
  proof (cases "b = 0")
    case True
    have two: "Suc (Suc 0) = 2" by simp
    from True show ?thesis using Cons by (simp add: no_start_code_cons two)
  next
    case False
    have gt: "\<not> b \<le> 2" if "\<not> b \<le> 3"
      using that order_trans [of b 2 3] by auto
    show ?thesis using Cons False gt by (auto simp: no_start_code_cons no_start_code_cons2)
  qed
qed simp

lemma no_start_code_nth:
  "no_start_code bs \<Longrightarrow> j + 2 < length bs \<Longrightarrow> \<not> (bs ! j = 0 \<and> bs ! (j + 1) = 0 \<and> bs ! (j + 2) \<le> 2)"
proof (induction bs arbitrary: j rule: no_start_code.induct)
  case (1 a b c rest)
  then show ?case by (cases j) auto
qed auto

lemma escape_eq_Nil [simp]: "escape zeros bs = [] \<longleftrightarrow> bs = []"
  by (cases bs) auto

lemma escape_last: "bs \<noteq> [] \<Longrightarrow> last (escape zeros bs) = last bs"
  by (induction bs arbitrary: zeros) auto

lemma trim_zeros_last: "0 < e \<Longrightarrow> data ! (e - 1) \<noteq> 0 \<Longrightarrow> trim_zeros data s e = e"
  by (cases e) auto

section \<open>Reading fields\<close>

text \<open>A reader that stands at the given bits, and what the three ways of reading do there.\<close>

definition at_bits :: "bit_reader \<Rightarrow> bool list \<Rightarrow> bool" where
  "at_bits r bs \<longleftrightarrow> br_inv r \<and> stream_bits r = bs"

lemma at_read_ue:
  assumes "at_bits r (ue_bits v @ bs)" "v < 2 ^ 32 - 1"
  obtains r' where "read_ue r = Some (r', of_nat v)" "at_bits r' bs"
  using read_ue_code [of r v bs] assms unfolding at_bits_def by blast

lemma at_read_bits:
  assumes "at_bits r (nat_bits (unat n) v @ bs)" "0 < unat n" "unat n \<le> 32" "v < 2 ^ unat n"
  obtains r' where "read_bits r n = (r', of_nat v)" "at_bits r' bs"
  using read_bits_spec [of r n] assms unfolding at_bits_def by (auto simp: bits_val_nat_bits)

lemma at_read_byte:
  assumes "at_bits r (nat_bits 8 v @ bs)" "v < 256"
  obtains r' where "read_bits r 8 = (r', of_nat v)" "at_bits r' bs"
  by (rule at_read_bits [of r 8 v bs]) (use assms that in auto)

lemma at_read_bit:
  assumes "at_bits r (b # bs)"
  obtains r' where "read_bit r = (r', of_bool b)" "at_bits r' bs"
  using read_bit_spec [of r b bs] assms unfolding at_bits_def by blast


section \<open>Units in a byte stream\<close>

text \<open>
  A unit of the byte stream: the start code, the header, the payload with its emulation prevention, and zero bytes up to the next
  start code (one of them makes that a start code of four bytes).
\<close>

definition nal_unit :: "u8 \<times> bytes \<times> nat \<Rightarrow> bytes" where
  "nal_unit = (\<lambda>(hdr, rbsp, zeros). [0, 0, 1, hdr] @ escape 0 rbsp @ replicate zeros 0)"

definition nal_units :: "(u8 \<times> bytes \<times> nat) list \<Rightarrow> bytes" where
  "nal_units us = concat (map nal_unit us)"

definition nal_ok :: "u8 \<times> bytes \<times> nat \<Rightarrow> bool" where
  "nal_ok = (\<lambda>(hdr, rbsp, zeros). hdr \<noteq> 0 \<and> rbsp \<noteq> [] \<and> last rbsp \<noteq> 0)"

definition nal_type :: "u8 \<times> bytes \<times> nat \<Rightarrow> nat" where
  "nal_type = (\<lambda>(hdr, rbsp, zeros). unat (hdr AND 0x1F))"

lemma find_upt:
  assumes "List.find P [a..<b] = Some j"
  shows "a \<le> j \<and> j < b \<and> P j \<and> (\<forall>i. a \<le> i \<longrightarrow> i < j \<longrightarrow> \<not> P i)"
proof -
  obtain k where k: "k < b - a" "P (a + k)" "j = a + k" and first: "\<forall>i < k. \<not> P ([a..<b] ! i)"
    using assms by (auto simp: find_Some_iff)
  have "\<not> P i" if "a \<le> i" "i < j" for i
    using first [rule_format, of "i - a"] that k by simp
  then show ?thesis using k by auto
qed

lemma next_start_code_bounds:
  fixes xs u post :: bytes and z :: nat
  assumes "u \<noteq> []" "no_start_code u" "last u \<noteq> 0" "post = [] \<or> (\<exists>more. post = [0, 0, 1] @ more)"
  defines "d \<equiv> xs @ u @ replicate z 0 @ post"
  shows "\<exists>k \<le> z. next_start_code d (length xs) = length xs + length u + k"
proof -
  let ?P = "\<lambda>j. d ! j = 0 \<and> d ! (j + 1) = 0 \<and> (d ! (j + 2) = 1 \<or> j + 3 < length d \<and> d ! (j + 2) = 0 \<and> d ! (j + 3) = 1)"
  have inside: "d ! (length xs + m) = u ! m" if "m < length u" for m
    using that by (simp add: d_def nth_append)
  have no: "\<not> ?P j" if ge: "length xs \<le> j" and lt: "j < length xs + length u" for j
  proof -
    obtain m where m: "j = length xs + m" using le_Suc_ex [OF ge] by blast
    then have ml: "m < length u" using lt by simp
    have last: "u ! (length u - 1) \<noteq> 0" using assms(1,3) by (simp add: last_conv_nth)
    consider "m + 2 < length u" | "m = length u - 1" | "m + 1 = length u - 1" "m + 1 < length u"
      using ml by linarith
    then show ?thesis
    proof cases
      case 1
      then have "\<not> (u ! m = 0 \<and> u ! (m + 1) = 0 \<and> u ! (m + 2) \<le> 2)"
        by (intro no_start_code_nth [OF assms(2)])
      moreover have "d ! j = u ! m" "d ! (j + 1) = u ! (m + 1)" "d ! (j + 2) = u ! (m + 2)"
        using 1 ml inside [of m] inside [of "m + 1"] inside [of "m + 2"] by (simp_all add: m add.assoc)
      ultimately show ?thesis by auto
    next
      case 2
      then show ?thesis using last inside [of m] ml m by simp
    next
      case 3
      then have "d ! (j + 1) \<noteq> 0" using last inside [of "m + 1"] by (metis m add.assoc)
      then show ?thesis by blast
    qed
  qed
  show ?thesis
  proof (cases "List.find ?P [length xs..<length d - 2]")
    case None
    have "\<not> ?P (length xs + length u + z)" if "post = [0, 0, 1] @ more" for more
      using None that unfolding find_None_iff by (auto simp: d_def)
    moreover have "?P (length xs + length u + z)" if "post = [0, 0, 1] @ more" for more
      using that by (simp add: d_def nth_append)
    ultimately have "post = []" using assms(4) by blast
    moreover have "next_start_code d (length xs) = length d"
      unfolding next_start_code_def None by simp
    ultimately show ?thesis by (intro exI [of _ z]) (simp add: d_def)
  next
    case (Some j)
    then have j: "length xs \<le> j" "j < length d - 2" "?P j" and first: "\<And>i. length xs \<le> i \<Longrightarrow> i < j \<Longrightarrow> \<not> ?P i"
      using find_upt [OF Some] by blast+
    have ge: "length xs + length u \<le> j" using no [OF j(1)] j(3) by (meson not_less)
    have "j \<le> length xs + length u + z"
    proof (cases "post = []")
      case True
      then show ?thesis using j(2) by (simp add: d_def)
    next
      case False
      then have "?P (length xs + length u + z)" using assms(4) by (auto simp: d_def nth_append)
      then show ?thesis using first [of "length xs + length u + z"] by (meson not_less le_add1 order_trans)
    qed
    moreover have "next_start_code d (length xs) = j"
      unfolding next_start_code_def Some by simp
    ultimately show ?thesis
      using ge by (intro exI [of _ "j - length xs - length u"]) simp
  qed
qed

lemma trim_zeros_run:
  assumes "0 < e" "d ! (e - 1) \<noteq> 0" "\<And>i. i < k \<Longrightarrow> d ! (e + i) = 0" "s \<le> e"
  shows "trim_zeros d s (e + k) = e"
  using assms(3)
proof (induction k)
  case 0
  then show ?case using trim_zeros_last [OF assms(1,2)] by simp
next
  case (Suc k)
  then show ?case using assms(4) by simp
qed

lemma is_start_code_at:
  "is_start_code (xs @ a # b # c # ys) (length xs) = Some (a = 0 \<and> b = 0 \<and> c = 1)"
  by (simp add: is_start_code_def idx_def nth_append)

lemma find_sps_skip_zeros:
  "find_sps_from (xs @ replicate z 0 @ [0, 0, 1] @ rest) (length xs)
     = find_sps_from (xs @ replicate z 0 @ [0, 0, 1] @ rest) (length xs + z)"
proof (induction z arbitrary: xs)
  case (Suc z)
  let ?d = "xs @ replicate (Suc z) 0 @ [0, 0, 1] @ rest"
  obtain b c ys where bc: "replicate z 0 @ [0, 0, 1] @ rest = b # c # ys" "\<not> (b = 0 \<and> c = (1 :: u8))"
    by (cases z rule: nat.exhaust; cases "z - 1") auto
  from bc(1) have d: "?d = xs @ 0 # b # c # ys" by simp
  have "find_sps_from ?d (length xs) = find_sps_from ?d (length xs + 1)"
    unfolding find_sps_from.simps [of ?d "length xs"] unfolding d is_start_code_at using bc(2) by auto
  also have "\<dots> = find_sps_from ?d (length xs + 1 + z)"
    using Suc.IH [of "xs @ [0]"] by simp
  finally show ?case by simp
qed simp

lemma nal_units_start: "nal_units us = [] \<or> (\<exists>rest. nal_units us = [0, 0, 1] @ rest)"
  by (cases us) (auto simp: nal_units_def nal_unit_def)

lemma find_sps_unit:
  assumes "nal_ok (hdr, rbsp, z)"
  defines "u \<equiv> hdr # escape 0 rbsp"
  shows "\<exists>m \<le> z. find_sps_from (xs @ replicate k 0 @ [0, 0, 1] @ u @ replicate z 0 @ nal_units post) (length xs)
    = (if hdr AND 0x1F = 7 then Some (Some (escape 0 rbsp))
       else find_sps_from (xs @ replicate k 0 @ [0, 0, 1] @ u @ replicate z 0 @ nal_units post) (length xs + k + 3 + length u + m))"
proof -
  define ys where "ys = xs @ replicate k 0 @ [0, 0, 1]"
  define d where "d = ys @ u @ replicate z 0 @ nal_units post"
  have len: "length ys = length xs + k + 3" by (simp add: ys_def)
  have u: "u \<noteq> []" "no_start_code u" "last u \<noteq> 0"
    using assms(1) escape_last [of rbsp 0] no_start_code_escape [of rbsp] by (auto simp: u_def nal_ok_def no_start_code_cons)
  obtain m where m: "m \<le> z" "next_start_code d (length ys) = length ys + length u + m"
    using next_start_code_bounds [OF u nal_units_start] unfolding d_def by blast
  have at: "d ! length ys = hdr" "length ys < length d" by (simp_all add: d_def u_def)
  have "d ! (length ys + length u - 1) = last u"
    using u(1) by (cases u rule: rev_cases) (simp_all add: d_def nth_append)
  moreover have "d ! (length ys + length u + i) = 0" if "i < m" for i
    using that m(1) by (simp add: d_def nth_append)
  ultimately have trim: "trim_zeros d (length ys) (length ys + length u + m) = length ys + length u"
    using u by (intro trim_zeros_run) (auto simp: add.assoc)
  have slice: "slice d (length ys + 1) (length ys + length u) = Some (escape 0 rbsp)"
    by (simp add: d_def u_def slice_def)
  have code: "is_start_code d (length xs + k) = Some True"
    using is_start_code_at [of "xs @ replicate k 0" 0 0 1] by (simp add: d_def ys_def)
  have room: "length xs + k < length d - 2" using at(2) len by simp
  have "find_sps_from d (length xs) = find_sps_from d (length xs + k)"
    using find_sps_skip_zeros [of xs k "u @ replicate z 0 @ nal_units post"] by (simp add: d_def ys_def)
  also have "\<dots> = (if hdr AND 0x1F = 7 then Some (Some (escape 0 rbsp)) else find_sps_from d (length ys + length u + m))"
    using len at code m(2) trim slice room unfolding find_sps_from.simps [of d "length xs + k"]
    by (simp add: Let_def del: slice_Some)
  finally have "find_sps_from d (length xs) = (if hdr AND 0x1F = 7 then Some (Some (escape 0 rbsp))
      else find_sps_from d (length xs + k + 3 + length u + m))" by (simp only: len)
  moreover have "d = xs @ replicate k 0 @ [0, 0, 1] @ u @ replicate z 0 @ nal_units post" by (simp add: d_def ys_def)
  ultimately show ?thesis using m(1) by blast
qed

lemma find_sps_units:
  assumes "\<forall>u \<in> set pre. nal_ok u \<and> nal_type u \<noteq> 7" "nal_ok (hdr, rbsp, z)" "hdr AND 0x1F = 7"
  shows "find_sps_from (xs @ replicate k 0 @ nal_units (pre @ (hdr, rbsp, z) # post)) (length xs) = Some (Some (escape 0 rbsp))"
  using assms(1)
proof (induction pre arbitrary: xs k)
  case Nil
  show ?case
    using find_sps_unit [OF assms(2), of xs k post] assms(3) by (auto simp: nal_units_def nal_unit_def)
next
  case (Cons w pre)
  obtain h r y where w: "w = (h, r, y)" by (cases w)
  let ?us = "pre @ (hdr, rbsp, z) # post" and ?d = "xs @ replicate k 0 @ nal_units ((w # pre) @ (hdr, rbsp, z) # post)"
  have d: "?d = xs @ replicate k 0 @ [0, 0, 1] @ (h # escape 0 r) @ replicate y 0 @ nal_units ?us"
    by (simp add: w nal_units_def nal_unit_def)
  have ok: "nal_ok (h, r, y)" "h AND 0x1F \<noteq> 7"
    using Cons.prems by (auto simp: w nal_type_def)
  obtain m where m: "m \<le> y" "find_sps_from ?d (length xs) = find_sps_from ?d (length xs + k + 3 + length (h # escape 0 r) + m)"
    using find_sps_unit [OF ok(1), of xs k ?us] ok(2) unfolding d by auto
  let ?xs = "xs @ replicate k 0 @ [0, 0, 1] @ (h # escape 0 r) @ replicate m 0"
  have eq: "?d = ?xs @ replicate (y - m) 0 @ nal_units ?us"
    using m(1) replicate_add [of m "y - m" "0 :: u8"] unfolding d by simp
  have len: "length xs + k + 3 + length (h # escape 0 r) + m = length ?xs" by simp
  have rec: "find_sps_from (?xs @ replicate (y - m) 0 @ nal_units ?us) (length ?xs) = Some (Some (escape 0 rbsp))"
    by (rule Cons.IH) (use Cons.prems in simp)
  show ?case
    by (simp only: m(2) len) (simp only: eq rec)
qed

section \<open>A sequence parameter set\<close>

text \<open>The chroma part of the high profiles, without scaling matrices; signed values are given by their code numbers.\<close>

datatype chroma_fields = Chroma (c_format: nat) (c_luma: nat) (c_depth: nat) (c_bypass: bool)

datatype poc_fields = Poc0 nat | Poc1 bool nat nat "nat list" | Poc2

datatype crop_fields = Crop (c_left: nat) (c_right: nat) (c_top: nat) (c_bottom: nat)

record sps_fields =
  f_profile :: nat
  f_constraints :: nat
  f_level :: nat
  f_id :: nat
  f_chroma :: "chroma_fields option"
  f_log2_frame_num :: nat
  f_poc :: poc_fields
  f_ref_frames :: nat
  f_gaps :: bool
  f_width :: nat
  f_height :: nat
  f_frame_mbs_only :: bool
  f_adaptive :: bool
  f_direct :: bool
  f_crop :: "crop_fields option"

definition chroma_bits :: "chroma_fields \<Rightarrow> bool list" where
  "chroma_bits c = ue_bits (c_format c) @ (if c_format c = 3 then [False] else [])
     @ ue_bits (c_luma c) @ ue_bits (c_depth c) @ [c_bypass c, False]"

primrec poc_bits :: "poc_fields \<Rightarrow> bool list" where
  "poc_bits (Poc0 n) = ue_bits 0 @ ue_bits n"
| "poc_bits (Poc1 b x y zs) = ue_bits 1 @ b # ue_bits x @ ue_bits y @ ue_bits (length zs) @ concat (map ue_bits zs)"
| "poc_bits Poc2 = ue_bits 2"

definition crop_bits :: "crop_fields \<Rightarrow> bool list" where
  "crop_bits c = ue_bits (c_left c) @ ue_bits (c_right c) @ ue_bits (c_top c) @ ue_bits (c_bottom c)"

definition sps_bits :: "sps_fields \<Rightarrow> bool list" where
  "sps_bits f = nat_bits 8 (f_profile f) @ nat_bits 8 (f_constraints f) @ nat_bits 8 (f_level f) @ ue_bits (f_id f)
     @ (case f_chroma f of None \<Rightarrow> [] | Some c \<Rightarrow> chroma_bits c)
     @ ue_bits (f_log2_frame_num f) @ poc_bits (f_poc f)
     @ ue_bits (f_ref_frames f) @ f_gaps f # ue_bits (f_width f) @ ue_bits (f_height f)
     @ f_frame_mbs_only f # (if f_frame_mbs_only f then [] else [f_adaptive f]) @ f_direct f
     # (f_crop f \<noteq> None) # (case f_crop f of None \<Rightarrow> [] | Some c \<Rightarrow> crop_bits c) @ [False]"

text \<open>The units of cropping by the chroma format, and the fields per frame: two in interlaced streams.\<close>

definition crop_x :: "sps_fields \<Rightarrow> nat" where
  "crop_x f = (case f_chroma f of None \<Rightarrow> 2 | Some c \<Rightarrow> if c_format c = 3 then 1 else 2)"

definition crop_y :: "sps_fields \<Rightarrow> nat" where
  "crop_y f = (case f_chroma f of None \<Rightarrow> 2 | Some c \<Rightarrow> if c_format c = 1 then 2 else 1)"

definition field_factor :: "sps_fields \<Rightarrow> nat" where
  "field_factor f = (if f_frame_mbs_only f then 1 else 2)"

definition crop_of :: "sps_fields \<Rightarrow> crop_fields" where
  "crop_of f = (case f_crop f of None \<Rightarrow> Crop 0 0 0 0 | Some c \<Rightarrow> c)"

primrec poc_ok :: "poc_fields \<Rightarrow> bool" where
  "poc_ok (Poc0 n) \<longleftrightarrow> n < 13"
| "poc_ok (Poc1 b x y zs) \<longleftrightarrow> list_all (\<lambda>v. v < 2 ^ 32 - 1) (x # y # zs) \<and> length zs < 256"
| "poc_ok Poc2 \<longleftrightarrow> True"

definition sps_fields_ok :: "sps_fields \<Rightarrow> bool" where
  "sps_fields_ok f \<longleftrightarrow> f_profile f < 256 \<and> f_constraints f < 256 \<and> f_level f < 256 \<and> f_id f < 32
     \<and> (f_profile f \<in> {100, 110, 122, 244, 44} \<longleftrightarrow> f_chroma f \<noteq> None)
     \<and> (case f_chroma f of None \<Rightarrow> True | Some c \<Rightarrow> c_format c \<in> {1, 2, 3} \<and> c_luma c < 7 \<and> c_depth c < 7)
     \<and> f_log2_frame_num f < 13 \<and> poc_ok (f_poc f) \<and> f_ref_frames f < 17 \<and> f_width f < 65536 \<and> f_height f < 65536
     \<and> c_left (crop_of f) < 1048576 \<and> c_top (crop_of f) < 1048576
     \<and> crop_x f * c_right (crop_of f) < 16 * (f_width f + 1) \<and> crop_y f * c_bottom (crop_of f) < 16 * (f_height f + 1)"

lemma of_nat_size:
  assumes "u * r < 16 * (w + 1)" "w < (65536 :: nat)" "k = 1 \<or> k = (2 :: nat)"
  shows "(of_nat k * (of_nat w + 1) * 16 - of_nat (u * k) * of_nat r :: u32) = of_nat (k * (16 * (w + 1) - u * r))"
    and "(of_nat (k * (16 * (w + 1) - u * r)) :: u32) > 0"
proof -
  have d: "(of_nat (16 * (w + 1) - u * r) :: u32) = of_nat (16 * (w + 1)) - of_nat (u * r)"
    using assms(1) by (intro of_nat_diff) simp
  show "(of_nat k * (of_nat w + 1) * 16 - of_nat (u * k) * of_nat r :: u32) = of_nat (k * (16 * (w + 1) - u * r))"
    unfolding of_nat_mult [of k "16 * (w + 1) - u * r"] d by (simp add: algebra_simps)
  define x where "x = k * (16 * (w + 1) - u * r)"
  have x: "0 < x" "x < 2 ^ 32" using assms by (auto simp: x_def)
  then have "unat (of_nat x :: u32) = x" by (simp add: unsigned_of_nat take_bit_nat_eq_self)
  then show "(of_nat (k * (16 * (w + 1) - u * r)) :: u32) > 0"
    unfolding x_def [symmetric] word_less_nat_alt using x(1) by simp
qed

lemma length_ge_3: "concat (map byte_bits rbsp) = sps_bits f @ tail \<Longrightarrow> \<not> length rbsp < 3"
proof -
  assume *: "concat (map byte_bits rbsp) = sps_bits f @ tail"
  have "8 * length rbsp = length (concat (map byte_bits rbsp))"
    by (simp add: length_concat comp_def sum_list_triv)
  also have "\<dots> \<ge> 24"
    unfolding * by (simp add: sps_bits_def)
  finally show ?thesis by simp
qed

lemma of_nat_eq_byte: "n < 256 \<Longrightarrow> m < 256 \<Longrightarrow> (of_nat n :: u8) = of_nat m \<longleftrightarrow> n = m"
  by (simp add: word_of_nat_eq_iff take_bit_nat_eq_self)

lemma at_read_se:
  assumes "at_bits r (ue_bits v @ bs)" "v < 2 ^ 32 - 1"
  obtains r' x where "read_se r = Some (r', x)" "at_bits r' bs"
  by (rule at_read_ue [OF assms]) (use that in \<open>auto simp: read_se_def Let_def\<close>)

lemma skip_se_reads:
  "at_bits r (concat (map ue_bits zs) @ bs) \<Longrightarrow> list_all (\<lambda>v. v < 2 ^ 32 - 1) zs
     \<Longrightarrow> \<exists>r'. skip_se (length zs) r = Some r' \<and> at_bits r' bs"
proof (induction zs arbitrary: r)
  case (Cons z zs)
  obtain r1 x where "read_se r = Some (r1, x)" "at_bits r1 (concat (map ue_bits zs) @ bs)"
    by (rule at_read_se [of r z "concat (map ue_bits zs) @ bs"]) (use Cons.prems in auto)
  then show ?case using Cons.IH [of r1] Cons.prems by auto
qed simp

lemma sps_poc_reads:
  assumes "at_bits r (poc_bits p @ bs)" "poc_ok p"
  obtains r' where "sps_poc r = Some r'" "at_bits r' bs"
proof (cases p)
  case (Poc0 n)
  from assms(1) have "at_bits r (ue_bits 0 @ ue_bits n @ bs)" by (simp add: Poc0)
  then show thesis
    using assms(2) Poc0 that by (auto elim!: at_read_ue simp: sps_poc_def)
next
  case (Poc1 b x y zs)
  from assms(1) have r: "at_bits r (ue_bits 1 @ b # ue_bits x @ ue_bits y @ ue_bits (length zs) @ concat (map ue_bits zs) @ bs)"
    by (simp add: Poc1)
  have ok: "x < 2 ^ 32 - 1" "y < 2 ^ 32 - 1" "length zs < 2 ^ 32 - 1" "list_all (\<lambda>v. v < 2 ^ 32 - 1) zs" "length zs < 256"
    using assms(2) Poc1 by auto
  obtain r1 where r1: "read_ue r = Some (r1, of_nat 1)" "at_bits r1 (b # ue_bits x @ ue_bits y @ ue_bits (length zs) @ concat (map ue_bits zs) @ bs)"
    by (rule at_read_ue [OF r]) simp
  obtain r2 where r2: "read_bit r1 = (r2, of_bool b)" "at_bits r2 (ue_bits x @ ue_bits y @ ue_bits (length zs) @ concat (map ue_bits zs) @ bs)"
    by (rule at_read_bit [OF r1(2)])
  obtain r3 x' where r3: "read_se r2 = Some (r3, x')" "at_bits r3 (ue_bits y @ ue_bits (length zs) @ concat (map ue_bits zs) @ bs)"
    by (rule at_read_se [OF r2(2) ok(1)])
  obtain r4 y' where r4: "read_se r3 = Some (r4, y')" "at_bits r4 (ue_bits (length zs) @ concat (map ue_bits zs) @ bs)"
    by (rule at_read_se [OF r3(2) ok(2)])
  obtain r5 where r5: "read_ue r4 = Some (r5, of_nat (length zs))" "at_bits r5 (concat (map ue_bits zs) @ bs)"
    by (rule at_read_ue [OF r4(2) ok(3)])
  have "unat (of_nat (length zs) :: u32) = length zs"
    using ok(5) by (simp add: unsigned_of_nat take_bit_nat_eq_self)
  then show thesis
    using skip_se_reads [OF r5(2) ok(4)] r1 r2 r3 r4 r5 that by (auto simp: sps_poc_def)
next
  case Poc2
  from assms(1) have "at_bits r (ue_bits 2 @ bs)" by (simp add: Poc2)
  then show thesis
    using that by (auto elim!: at_read_ue simp: sps_poc_def)
qed


lemma sps_chroma_reads:
  assumes "at_bits r ((case f_chroma f of None \<Rightarrow> [] | Some c \<Rightarrow> chroma_bits c) @ bs)" "sps_fields_ok f"
  obtains r' cat sw sh where "sps_chroma (of_nat (f_profile f)) r = Some (r', cat, sw, sh)" "at_bits r' bs"
    "\<And>mbs. (if cat = 0 then (1, 2 - mbs) else (sw, sh * (2 - mbs))) = (of_nat (crop_x f), of_nat (crop_y f) * (2 - mbs))"
proof -
  have p: "f_profile f < 256" "f_profile f \<in> {100, 110, 122, 244, 44} \<longleftrightarrow> f_chroma f \<noteq> None"
    using assms(2) by (simp_all add: sps_fields_ok_def)
  have prof: "(of_nat (f_profile f) :: u8) \<in> {100, 110, 122, 244, 44} \<longleftrightarrow> f_chroma f \<noteq> None"
    using p of_nat_eq_byte [of "f_profile f" 100] of_nat_eq_byte [of "f_profile f" 110] of_nat_eq_byte [of "f_profile f" 122]
      of_nat_eq_byte [of "f_profile f" 244] of_nat_eq_byte [of "f_profile f" 44] by simp
  show thesis
  proof (cases "f_chroma f")
    case None
    then show thesis using assms(1) prof that [of r 1 2 2] by (auto simp: sps_chroma_def crop_x_def crop_y_def)
  next
    case (Some c)
    have c: "c_format c \<in> {1, 2, 3}" "c_luma c < 7" "c_depth c < 7"
      using assms(2) Some by (auto simp: sps_fields_ok_def)
    have "at_bits r (ue_bits (c_format c) @ (if c_format c = 3 then [False] else [])
        @ ue_bits (c_luma c) @ ue_bits (c_depth c) @ c_bypass c # False # bs)"
      using assms(1) Some by (simp add: chroma_bits_def)
    then obtain r1 where r1: "read_ue r = Some (r1, of_nat (c_format c))"
        "at_bits r1 ((if c_format c = 3 then [False] else []) @ ue_bits (c_luma c) @ ue_bits (c_depth c) @ c_bypass c # False # bs)"
      by (rule at_read_ue) (use c in auto)
    obtain r2 where r2: "c_format c = 3 \<Longrightarrow> read_bit r1 = (r2, 0)" "c_format c \<noteq> 3 \<Longrightarrow> r2 = r1"
        "at_bits r2 (ue_bits (c_luma c) @ ue_bits (c_depth c) @ c_bypass c # False # bs)"
      using r1(2) by (cases "c_format c = 3") (auto elim: at_read_bit)
    obtain r3 where r3: "read_ue r2 = Some (r3, of_nat (c_luma c))" "at_bits r3 (ue_bits (c_depth c) @ c_bypass c # False # bs)"
      by (rule at_read_ue [OF r2(3)]) (use c in simp)
    obtain r4 where r4: "read_ue r3 = Some (r4, of_nat (c_depth c))" "at_bits r4 (c_bypass c # False # bs)"
      by (rule at_read_ue [OF r3(2)]) (use c in simp)
    obtain r5 where r5: "read_bit r4 = (r5, of_bool (c_bypass c))" "at_bits r5 (False # bs)"
      by (rule at_read_bit [OF r4(2)])
    obtain r6 where r6: "read_bit r5 = (r6, of_bool False)" "at_bits r6 bs"
      by (rule at_read_bit [OF r5(2)])
    have in_set: "(of_nat (f_profile f) :: u8) \<in> {100, 110, 122, 244, 44}" using prof Some by simp
    consider "c_format c = 1" | "c_format c = 2" | "c_format c = 3" using c(1) by auto
    then show thesis
    proof cases
      case 1
      then show thesis using Some that [of r6 1 2 2] in_set r1 r2(2) r3 r4 r5 r6
        by (simp add: sps_chroma_def crop_x_def crop_y_def)
    next
      case 2
      then show thesis using Some that [of r6 1 2 1] in_set r1 r2(2) r3 r4 r5 r6
        by (simp add: sps_chroma_def crop_x_def crop_y_def)
    next
      case 3
      then show thesis using Some that [of r6 0 1 1] in_set r1 r2(1) r3 r4 r5 r6
        by (simp add: sps_chroma_def crop_x_def crop_y_def)
    qed
  qed
qed

lemma crop_reads:
  assumes "at_bits r ((case f_crop f of None \<Rightarrow> [] | Some c \<Rightarrow> crop_bits c) @ bs)" "sps_fields_ok f"
  obtains r1 r2 r3 r4 where "read_ue_if (f_crop f \<noteq> None) r = Some (r1, of_nat (c_left (crop_of f)))"
    "read_ue_if (f_crop f \<noteq> None) r1 = Some (r2, of_nat (c_right (crop_of f)))"
    "read_ue_if (f_crop f \<noteq> None) r2 = Some (r3, of_nat (c_top (crop_of f)))"
    "read_ue_if (f_crop f \<noteq> None) r3 = Some (r4, of_nat (c_bottom (crop_of f)))" "at_bits r4 bs"
proof (cases "f_crop f")
  case None
  then show thesis using assms(1) that by (auto simp: read_ue_if_def crop_of_def)
next
  case (Some c)
  have big: "2 ^ 32 - 1 = (4294967295 :: nat)" by simp
  have xy: "1 \<le> crop_x f" "1 \<le> crop_y f" by (auto simp: crop_x_def crop_y_def split: option.split)
  have lim: "c_left c < 1048576" "c_top c < 1048576" "f_width f < 65536" "f_height f < 65536"
      "crop_x f * c_right c < 16 * (f_width f + 1)" "crop_y f * c_bottom c < 16 * (f_height f + 1)"
    using assms(2) Some by (simp_all add: sps_fields_ok_def crop_of_def)
  have lt: "a < 4294967295" if "a \<le> p" "p < 16 * (w + 1)" "w < 65536" for a p w :: nat
    using that by simp
  have "c_right c \<le> crop_x f * c_right c" "c_bottom c \<le> crop_y f * c_bottom c" using xy by simp_all
  then have ok: "c_left c < 2 ^ 32 - 1" "c_right c < 2 ^ 32 - 1" "c_top c < 2 ^ 32 - 1" "c_bottom c < 2 ^ 32 - 1"
    using lim(1,2) lt [OF _ lim(5,3)] lt [OF _ lim(6,4)] unfolding big by simp_all
  have r: "at_bits r (ue_bits (c_left c) @ ue_bits (c_right c) @ ue_bits (c_top c) @ ue_bits (c_bottom c) @ bs)"
    using assms(1) Some by (simp add: crop_bits_def)
  obtain r1 where r1: "read_ue r = Some (r1, of_nat (c_left c))" "at_bits r1 (ue_bits (c_right c) @ ue_bits (c_top c) @ ue_bits (c_bottom c) @ bs)"
    by (rule at_read_ue [OF r ok(1)])
  obtain r2 where r2: "read_ue r1 = Some (r2, of_nat (c_right c))" "at_bits r2 (ue_bits (c_top c) @ ue_bits (c_bottom c) @ bs)"
    by (rule at_read_ue [OF r1(2) ok(2)])
  obtain r3 where r3: "read_ue r2 = Some (r3, of_nat (c_top c))" "at_bits r3 (ue_bits (c_bottom c) @ bs)"
    by (rule at_read_ue [OF r2(2) ok(3)])
  obtain r4 where r4: "read_ue r3 = Some (r4, of_nat (c_bottom c))" "at_bits r4 bs"
    by (rule at_read_ue [OF r3(2) ok(4)])
  show thesis using that [of r1 r2 r3 r4] r1 r2 r3 r4 Some by (simp add: read_ue_if_def crop_of_def)
qed

text \<open>The size the parser reports.\<close>

definition sps_width :: "sps_fields \<Rightarrow> nat" where
  "sps_width f = 16 * (f_width f + 1) - crop_x f * c_right (crop_of f)"

definition sps_height :: "sps_fields \<Rightarrow> nat" where
  "sps_height f = field_factor f * (16 * (f_height f + 1) - crop_y f * c_bottom (crop_of f))"

lemma parse_rbsp_sps:
  assumes "concat (map byte_bits rbsp) = sps_bits f @ tail" "sps_fields_ok f"
  shows "parse_rbsp rbsp = Some \<lparr>es27_stream_type = 27, es27_profile_idc = Some (of_nat (f_profile f)),
     es27_level_idc = Some (of_nat (f_level f)), es27_seq_parameter_set_id = Some (of_nat (f_id f)),
     es27_horizontal_size = Some (of_nat (sps_width f)), es27_vertical_size = Some (of_nat (sps_height f)),
     es27_frame_rate = None\<rparr>"
proof -
  note ok = assms(2) [unfolded sps_fields_ok_def]
  have r0: "at_bits (br_new rbsp) (nat_bits 8 (f_profile f) @ nat_bits 8 (f_constraints f) @ nat_bits 8 (f_level f)
     @ ue_bits (f_id f) @ (case f_chroma f of None \<Rightarrow> [] | Some c \<Rightarrow> chroma_bits c)
     @ ue_bits (f_log2_frame_num f) @ poc_bits (f_poc f)
     @ ue_bits (f_ref_frames f) @ f_gaps f # ue_bits (f_width f) @ ue_bits (f_height f)
     @ f_frame_mbs_only f # (if f_frame_mbs_only f then [] else [f_adaptive f]) @ f_direct f # (f_crop f \<noteq> None)
     # (case f_crop f of None \<Rightarrow> [] | Some c \<Rightarrow> crop_bits c) @ False # tail)"
    using assms(1) by (simp add: at_bits_def br_inv_new stream_bits_new sps_bits_def)
  have size: "(of_nat (f_width f) + 1) * 16 - of_nat (crop_x f) * of_nat (c_right (crop_of f)) = (of_nat (sps_width f) :: u32)"
    "(of_nat (sps_width f) :: u32) > 0"
    using of_nat_size [of "crop_x f" "c_right (crop_of f)" "f_width f" 1] ok by (simp_all add: sps_width_def)
  have size1: "(of_nat (f_height f) + 1) * 16 - of_nat (crop_y f) * of_nat (c_bottom (crop_of f)) = (of_nat (sps_height f) :: u32)"
    "(of_nat (sps_height f) :: u32) > 0" if "f_frame_mbs_only f"
    using of_nat_size [of "crop_y f" "c_bottom (crop_of f)" "f_height f" 1] ok that by (simp_all add: sps_height_def field_factor_def)
  have size2: "2 * (of_nat (f_height f) + 1) * 16 - of_nat (crop_y f * 2) * of_nat (c_bottom (crop_of f)) = (of_nat (sps_height f) :: u32)"
    "(of_nat (sps_height f) :: u32) > 0" if "\<not> f_frame_mbs_only f"
    using of_nat_size [of "crop_y f" "c_bottom (crop_of f)" "f_height f" 2] ok that by (simp_all add: sps_height_def field_factor_def)
  have unit_y: "ucast (of_nat (crop_y f) * 2 :: u8) = (of_nat (crop_y f * 2) :: u32)" "ucast (of_nat (crop_y f) :: u8) = (of_nat (crop_y f) :: u32)"
    by (auto simp: crop_y_def split: option.split)
  have prof: "(ucast (of_nat (f_profile f) :: u32) :: u8) = of_nat (f_profile f)" "(ucast (of_nat (f_level f) :: u32) :: u8) = of_nat (f_level f)"
    using ok by (auto simp: unsigned_of_nat take_bit_nat_eq_self)
  note fields = parse_rbsp_def es27_new_def
  from r0 show ?thesis
    apply -
    apply (erule at_read_byte, use ok in simp)+
    apply (erule at_read_ue, use ok in simp)
    apply (erule sps_chroma_reads [OF _ assms(2)])
    apply (erule at_read_ue, use ok in simp)
    apply (erule sps_poc_reads, use ok in simp)
    apply (erule at_read_ue, use ok in simp)
    apply (erule at_read_bit)
    apply (erule at_read_ue, use ok in simp)+
    apply (cases "f_frame_mbs_only f"; simp only: if_True if_False append_Nil append_Cons)
     apply (erule at_read_bit)+
     apply (erule crop_reads [OF _ assms(2)])
     apply (erule at_read_bit)
     subgoal using length_ge_3 [OF assms(1)] prof size size1 unit_y by (cases "f_crop f = None") (simp_all add: fields)
    apply (erule at_read_bit)+
    apply (erule crop_reads [OF _ assms(2)])
    apply (erule at_read_bit)
    subgoal using length_ge_3 [OF assms(1)] prof size size2 unit_y by (cases "f_crop f = None") (simp_all add: fields)
    done
qed


section \<open>From the byte stream to the size of the picture\<close>

text \<open>C39. A sequence parameter set in a byte stream is found and read. The stream has any number of leading zero bytes, units of other
  types, the first unit of type 7, and any units after it; start codes have three bytes or, after a zero byte, four; every payload up
  to that unit ends with a byte that is not zero and has its emulation prevention. The parser finds the unit, removes the prevention
  bytes and reports profile, level, identifier and size. The set may be of any profile, those with a chroma part with the chroma format 4:2:0, 4:2:2 or 4:4:4 in one colour plane and without
  scaling matrices, with any of the three types of picture order count, with or without cropping, and without usability information. The size reported is the whole macroblocks less
  the crop on the right and at the bottom in the units of the chroma format, twice the height when the stream is interlaced; the crop on the left and at the
  top is read but not subtracted, so this is the size of the picture when these two are zero.\<close>

theorem parse_es27_reads_sps:
  assumes "concat (map byte_bits rbsp) = sps_bits f @ tail" "sps_fields_ok f"
    and "hdr AND 0x1F = 7" "last rbsp \<noteq> 0"
    and "\<forall>u \<in> set earlier. nal_ok u \<and> nal_type u \<noteq> 7"
  shows "parse_es27 (replicate k 0 @ nal_units (earlier @ (hdr, rbsp, zeros) # later)) = Some (Some (Es27
    \<lparr>es27_stream_type = 27, es27_profile_idc = Some (of_nat (f_profile f)),
     es27_level_idc = Some (of_nat (f_level f)), es27_seq_parameter_set_id = Some (of_nat (f_id f)),
     es27_horizontal_size = Some (of_nat (16 * (f_width f + 1) - crop_x f * c_right (crop_of f))),
     es27_vertical_size = Some (of_nat (field_factor f * (16 * (f_height f + 1) - crop_y f * c_bottom (crop_of f)))),
     es27_frame_rate = None\<rparr>))"
proof -
  have "rbsp \<noteq> []" using length_ge_3 [OF assms(1)] by auto
  moreover have "hdr \<noteq> 0" using assms(3) by auto
  ultimately have "nal_ok (hdr, rbsp, zeros)" using assms(4) by (simp add: nal_ok_def)
  from find_sps_units [OF assms(5) this assms(3), of "[]" k later]
  have "find_sps (replicate k 0 @ nal_units (earlier @ (hdr, rbsp, zeros) # later)) = Some (Some (escape 0 rbsp))"
    by (simp add: find_sps_def)
  moreover have "ebsp_to_rbsp (escape 0 rbsp) = rbsp"
    by (simp add: ebsp_to_rbsp_def unescape_escape)
  ultimately show ?thesis
    by (simp add: parse_es27_def parse_rbsp_sps [OF assms(1,2)] sps_width_def sps_height_def)
qed

definition full_hd :: sps_fields where
  "full_hd = \<lparr>f_profile = 66, f_constraints = 0, f_level = 40, f_id = 0, f_chroma = None, f_log2_frame_num = 0, f_poc = Poc0 2,
     f_ref_frames = 1, f_gaps = False, f_width = 119, f_height = 67, f_frame_mbs_only = True, f_adaptive = False,
     f_direct = True, f_crop = Some (Crop 0 0 0 4)\<rparr>"

theorem parse_es27_reads_sps_witness:
  "parse_es27 [0, 0, 0, 1, 0x09, 0xF0, 0, 0, 0, 1, 0x67, 66, 0, 40, 237, 0, 240, 4, 79, 202, 128, 0, 0, 1, 0x68, 0xCE]
   = Some (Some (Es27
    \<lparr>es27_stream_type = 27, es27_profile_idc = Some 66, es27_level_idc = Some 40, es27_seq_parameter_set_id = Some 0,
     es27_horizontal_size = Some 1920, es27_vertical_size = Some 1080, es27_frame_rate = None\<rparr>))"
proof -
  have "concat (map byte_bits [66, 0, 40, 237, 0, 240, 4, 79, 202, 128])
     = sps_bits full_hd @ [True, False, False, False, False, False, False, False]"
    by (simp add: byte_bits_def sps_bits_def crop_bits_def full_hd_def ue_bits_def nat_bits_def bit_len.simps upt_rec bit_0 bit_Suc)
  moreover have "sps_fields_ok full_hd"
    by (simp add: sps_fields_ok_def full_hd_def crop_of_def crop_x_def crop_y_def)
  ultimately show ?thesis
    using parse_es27_reads_sps [of "[66, 0, 40, 237, 0, 240, 4, 79, 202, 128]" full_hd
        "[True, False, False, False, False, False, False, False]" "0x67" "[(0x09, [0xF0], 1)]" 1 0 "[(0x68, [0xCE], 0)]"]
    by (simp add: field_factor_def full_hd_def crop_of_def crop_x_def crop_y_def nal_units_def nal_unit_def nal_ok_def nal_type_def)
qed

end
