(* ===== verification/Pes_Parser.thy ===== *)
theory Pes_Parser
  imports Es_Props Psi_Section
begin

text \<open>
  \<open>pes/parser.rs\<close> and \<open>pes/pes.rs\<close>: reassembly of the packets of an elementary stream from transport
  packets, per PID, and the header of a PES packet. The buffer is the list of its bytes.
\<close>

unbundle bit_operations_syntax

section \<open>A PES packet\<close>

record pes =
  pes_stream_id :: u8
  pes_scrabling :: u8
  pes_priority :: u8
  pes_alignment_indicator :: u8
  pes_copyright :: u8
  pes_original_or_copy :: u8
  pes_flags_pts_dts :: u8
  pes_flag_escr :: u8
  pes_flag_es_rate :: u8
  pes_flag_dsm_trick_mode :: u8
  pes_flag_additional_copy_info :: u8
  pes_flag_crc :: u8
  pes_flag_extension :: u8
  pes_es :: "es option"

definition pes_new :: pes where
  "pes_new = \<lparr>pes_stream_id = 0, pes_scrabling = 0, pes_priority = 0, pes_alignment_indicator = 0, pes_copyright = 0,
     pes_original_or_copy = 0, pes_flags_pts_dts = 0, pes_flag_escr = 0, pes_flag_es_rate = 0,
     pes_flag_dsm_trick_mode = 0, pes_flag_additional_copy_info = 0, pes_flag_crc = 0, pes_flag_extension = 0,
     pes_es = None\<rparr>"

text \<open>The fields of the flag word.\<close>

definition pes_set_flags :: "u16 \<Rightarrow> pes \<Rightarrow> pes" where
  "pes_set_flags flags p = p\<lparr>
     pes_scrabling := ucast (drop_bit 12 flags AND 0x03),
     pes_priority := ucast (drop_bit 11 flags AND 0x01),
     pes_alignment_indicator := ucast (drop_bit 10 flags AND 0x01),
     pes_copyright := ucast (drop_bit 9 flags AND 0x01),
     pes_original_or_copy := ucast (drop_bit 8 flags AND 0x01),
     pes_flags_pts_dts := ucast (drop_bit 6 flags AND 0x03),
     pes_flag_escr := ucast (drop_bit 5 flags AND 0x01),
     pes_flag_es_rate := ucast (drop_bit 4 flags AND 0x01),
     pes_flag_dsm_trick_mode := ucast (drop_bit 3 flags AND 0x01),
     pes_flag_additional_copy_info := ucast (drop_bit 2 flags AND 0x01),
     pes_flag_crc := ucast (drop_bit 1 flags AND 0x01),
     pes_flag_extension := ucast (flags AND 0x01)\<rparr>"

text \<open>
  \<open>Parser::parse\<close>. Outer \<open>None\<close>: the parser of the elementary stream does not return. The length of the
  packet is read and not used; the stream id is taken from the byte with the marker bits.
\<close>

definition pes_parse :: "bytes \<Rightarrow> u16 \<Rightarrow> u8 option \<Rightarrow> pes option option" where
  "pes_parse data pid stream_type =
    (if length data < 4 then Some None else do {
     b0 \<leftarrow> idx data 0;
     b1 \<leftarrow> idx data 1;
     b2 \<leftarrow> idx data 2;
     b3 \<leftarrow> idx data 3;
     let start_code = be32 b0 b1 b2 b3;
     if drop_bit 8 start_code \<noteq> 0x000001 then Some None
     else if length data < 4 + 3 then Some None
     else do {
     tmp_marker \<leftarrow> idx data 6;
     if drop_bit 6 tmp_marker \<noteq> 0x02 then Some None else do {
     let pes = pes_new\<lparr>pes_stream_id := tmp_marker AND 0xFF\<rparr>;
     if length data < 6 + 2 then Some None else do {
     f0 \<leftarrow> idx data 6;
     f1 \<leftarrow> idx data 7;
     let pes = pes_set_flags (be16 f0 f1) pes;
     if length data \<le> 8 then Some None else do {
     pes_header_len \<leftarrow> idx data 8;
     let pointer = 8 + (1 + unat pes_header_len);
     if length data < pointer then Some None else
     case stream_type of
       None \<Rightarrow> Some (Some pes)
     | Some stream_type \<Rightarrow> do {
         es_data \<leftarrow> slice_from data pointer;
         es \<leftarrow> parse_es stream_type es_data;
         Some (Some (pes\<lparr>pes_es := es\<rparr>)) }}}}}})"

section \<open>Reassembly\<close>

record pes_reassembler =
  pr_pid :: u16
  pr_stream_type :: u8
  pr_buffer :: bytes

definition pr_new :: "u16 \<Rightarrow> u8 \<Rightarrow> pes_reassembler" where
  "pr_new pid stream_type = \<lparr>pr_pid = pid, pr_stream_type = stream_type, pr_buffer = []\<rparr>"

text \<open>Where the payload begins; inner \<open>None\<close> when there is none.\<close>

definition pes_offset :: "bytes \<Rightarrow> usize option option" where
  "pes_offset packet = do {
     b3 \<leftarrow> idx packet 3;
     let af_control = drop_bit 4 b3 AND 0x03;
     if af_control = 0 then Some None
     else if af_control = 1 then Some (Some 4)
     else if af_control = 2 then Some None
     else do {
       b4 \<leftarrow> idx packet 4;
       Some (Some (4 + (1 + unat b4))) }}"

text \<open>
  A result is returned early: the buffer keeps its bytes and the packet that ended it is not taken.
\<close>

definition pr_push :: "pes_reassembler \<Rightarrow> bytes \<Rightarrow> (pes_reassembler \<times> pes option) option" where
  "pr_push r packet =
    (if length packet < 188 then Some (r, None) else do {
     b0 \<leftarrow> idx packet 0;
     if b0 \<noteq> 0x47 then Some (r, None) else do {
     b1 \<leftarrow> idx packet 1;
     b2 \<leftarrow> idx packet 2;
     let pid = pid13 b1 b2;
     if pid \<noteq> pr_pid r then Some (r, None) else do {
     let pusi = (b1 AND 0x40 \<noteq> 0);
     offset \<leftarrow> pes_offset packet;
     case offset of None \<Rightarrow> Some (r, None) | Some offset \<Rightarrow>
     if pusi then do {
       result \<leftarrow> (if pr_buffer r \<noteq> [] then pes_parse (pr_buffer r) pid (Some (pr_stream_type r)) else Some None);
       case result of
         Some res \<Rightarrow>
           if pes_es res \<noteq> None then Some (r, Some res)
           else do { payload \<leftarrow> slice_from packet offset; Some (r\<lparr>pr_buffer := payload\<rparr>, None) }
       | None \<Rightarrow> do { payload \<leftarrow> slice_from packet offset; Some (r\<lparr>pr_buffer := payload\<rparr>, None) } }
     else if pr_buffer r \<noteq> [] then do {
       payload \<leftarrow> slice_from packet offset;
       Some (r\<lparr>pr_buffer := pr_buffer r @ payload\<rparr>, None) }
     else Some (r, None) }}})"

record pes_reassembler_map =
  prm_per_pid :: "u16 \<rightharpoonup> pes_reassembler"

definition prm_new :: pes_reassembler_map where
  "prm_new = \<lparr>prm_per_pid = Map.empty\<rparr>"

definition prm_push :: "pes_reassembler_map \<Rightarrow> bytes \<Rightarrow> (u16 \<rightharpoonup> u8)
    \<Rightarrow> (pes_reassembler_map \<times> pes option) option" where
  "prm_push m packet pid_to_stream =
    (if length packet < TS_PACKET_SIZE then Some (m, None) else do {
     b0 \<leftarrow> idx packet 0;
     if b0 \<noteq> TS_SYNC_BYTE then Some (m, None) else do {
     pid \<leftarrow> pkt_pid packet;
     case pid_to_stream pid of None \<Rightarrow> Some (m, None) | Some stream_type \<Rightarrow> do {
       let reasm = (case prm_per_pid m pid of None \<Rightarrow> pr_new pid stream_type | Some r \<Rightarrow> r);
       (reasm, out) \<leftarrow> pr_push reasm packet;
       Some (m\<lparr>prm_per_pid := (prm_per_pid m)(pid \<mapsto> reasm)\<rparr>, out) }}})"

section \<open>What the packets carry\<close>

definition ts_pusi :: "bytes \<Rightarrow> bool" where
  "ts_pusi p \<longleftrightarrow> p ! 1 AND 0x40 \<noteq> 0"

definition ts_afc :: "bytes \<Rightarrow> u8" where
  "ts_afc p = drop_bit 4 (p ! 3) AND 0x03"

text \<open>A packet with payload whose adaptation field ends inside it, and that payload.\<close>

definition pes_packet :: "bytes \<Rightarrow> bool" where
  "pes_packet p \<longleftrightarrow> ts_packet_ok p \<and> (ts_afc p = 1 \<or> ts_afc p = 3 \<and> 5 + unat (p ! 4) \<le> length p)"

definition pes_payload :: "bytes \<Rightarrow> bytes" where
  "pes_payload p = drop (if ts_afc p = 1 then 4 else 5 + unat (p ! 4)) p"

lemma pes_offset_packet:
  "pes_packet p \<Longrightarrow> \<exists>k. pes_offset p = Some (Some k) \<and> slice_from p k = Some (pes_payload p)"
  by (auto simp: pes_packet_def ts_packet_ok_def TS_PACKET_SIZE_def pes_offset_def ts_afc_def pes_payload_def)

lemma pr_push_eq:
  assumes "pes_packet p" "ts_pid p = pr_pid r"
  shows "pr_push r p =
    (if \<not> ts_pusi p then Some (if pr_buffer r = [] then r else r\<lparr>pr_buffer := pr_buffer r @ pes_payload p\<rparr>, None)
     else do {
       result \<leftarrow> (if pr_buffer r = [] then Some None else pes_parse (pr_buffer r) (pr_pid r) (Some (pr_stream_type r)));
       Some (case result of
         Some res \<Rightarrow> if pes_es res \<noteq> None then (r, Some res) else (r\<lparr>pr_buffer := pes_payload p\<rparr>, None)
       | None \<Rightarrow> (r\<lparr>pr_buffer := pes_payload p\<rparr>, None)) })"
proof -
  obtain k where k: "pes_offset p = Some (Some k)" "slice_from p k = Some (pes_payload p)"
    using pes_offset_packet [OF assms(1)] by blast
  have len: "188 \<le> length p" "p ! 0 = 0x47" "1 < length p" "2 < length p" "p \<noteq> []" "\<not> length p < 188"
    using assms(1) by (auto simp: pes_packet_def ts_packet_ok_def TS_PACKET_SIZE_def TS_SYNC_BYTE_def)
  show ?thesis
    using assms(2) len by (auto simp: pr_push_def ts_pid_def ts_pusi_def k Let_def split: option.splits Option.bind_splits)
qed

text \<open>The packets after the one that begins the unit are collected.\<close>

lemma pr_collect:
  assumes "\<forall>p \<in> set ps. pes_packet p \<and> ts_pid p = pr_pid r \<and> \<not> ts_pusi p" "pr_buffer r \<noteq> []"
  shows "push_each pr_push r ps =
    Some (r\<lparr>pr_buffer := pr_buffer r @ concat (map pes_payload ps)\<rparr>, replicate (length ps) None)"
  using assms by (induction ps arbitrary: r) (auto simp: pr_push_eq)

lemma push_each_append:
  "push_each push s (ps @ qs) = do {
     (s', os) \<leftarrow> push_each push s ps;
     (s'', os') \<leftarrow> push_each push s' qs;
     Some (s'', os @ os') }"
  by (induction ps arbitrary: s) (auto simp: bind_assoc split: Option.bind_splits)

section \<open>The encoder\<close>

text \<open>
  The header of ISO/IEC 13818-1, field by field: the two bytes of flags after the length, in numbers and not with the shifts and masks of the
  code. The first one begins with the bits 10.
\<close>

record pes_header =
  hd_scrambling :: nat
  hd_priority :: bool
  hd_alignment :: bool
  hd_copyright :: bool
  hd_original :: bool
  hd_pts_dts :: nat
  hd_escr :: bool
  hd_es_rate :: bool
  hd_trick_mode :: bool
  hd_copy_info :: bool
  hd_crc :: bool
  hd_extension :: bool

definition pes_header_ok :: "pes_header \<Rightarrow> bool" where
  "pes_header_ok f \<longleftrightarrow> hd_scrambling f < 4 \<and> hd_pts_dts f < 4"

definition flags_hi :: "pes_header \<Rightarrow> nat" where
  "flags_hi f = 128 + 16 * hd_scrambling f + 8 * of_bool (hd_priority f) + 4 * of_bool (hd_alignment f)
     + 2 * of_bool (hd_copyright f) + of_bool (hd_original f)"

definition flags_lo :: "pes_header \<Rightarrow> nat" where
  "flags_lo f = 64 * hd_pts_dts f + 32 * of_bool (hd_escr f) + 16 * of_bool (hd_es_rate f) + 8 * of_bool (hd_trick_mode f)
     + 4 * of_bool (hd_copy_info f) + 2 * of_bool (hd_crc f) + of_bool (hd_extension f)"

definition pes_bytes :: "u8 \<Rightarrow> u16 \<Rightarrow> pes_header \<Rightarrow> bytes \<Rightarrow> bytes \<Rightarrow> bytes" where
  "pes_bytes stream_id len f hdr data =
     [0x00, 0x00, 0x01, stream_id] @ to_be16 len @ [of_nat (flags_hi f), of_nat (flags_lo f), of_nat (length hdr)] @ hdr @ data"

text \<open>What is to be reported of it. (The stream id reported is the first byte of flags, not the stream id of the header.)\<close>

definition pes_of :: "pes_header \<Rightarrow> es option \<Rightarrow> pes" where
  "pes_of f es = \<lparr>pes_stream_id = of_nat (flags_hi f), pes_scrabling = of_nat (hd_scrambling f), pes_priority = of_bool (hd_priority f),
     pes_alignment_indicator = of_bool (hd_alignment f), pes_copyright = of_bool (hd_copyright f),
     pes_original_or_copy = of_bool (hd_original f), pes_flags_pts_dts = of_nat (hd_pts_dts f), pes_flag_escr = of_bool (hd_escr f),
     pes_flag_es_rate = of_bool (hd_es_rate f), pes_flag_dsm_trick_mode = of_bool (hd_trick_mode f),
     pes_flag_additional_copy_info = of_bool (hd_copy_info f), pes_flag_crc = of_bool (hd_crc f),
     pes_flag_extension = of_bool (hd_extension f), pes_es = es\<rparr>"

text \<open>The fields of the flag word, by byte.\<close>

lemma flag_word_hi:
  fixes f0 f1 :: u8
  shows "ucast (drop_bit 12 (be16 f0 f1) AND 0x03) = drop_bit 4 f0 AND 0x03"
    "ucast (drop_bit 11 (be16 f0 f1) AND 0x01) = drop_bit 3 f0 AND 0x01" "ucast (drop_bit 10 (be16 f0 f1) AND 0x01) = drop_bit 2 f0 AND 0x01"
    "ucast (drop_bit 9 (be16 f0 f1) AND 0x01) = drop_bit 1 f0 AND 0x01" "ucast (drop_bit 8 (be16 f0 f1) AND 0x01) = f0 AND 0x01"
  unfolding be16_def by (rule word_eq_bits, simp add: word_bits del: One_nat_def)+

lemma flag_word_lo:
  fixes f0 f1 :: u8
  shows "ucast (drop_bit 6 (be16 f0 f1) AND 0x03) = drop_bit 6 f1 AND 0x03"
    "ucast (drop_bit 5 (be16 f0 f1) AND 0x01) = drop_bit 5 f1 AND 0x01" "ucast (drop_bit 4 (be16 f0 f1) AND 0x01) = drop_bit 4 f1 AND 0x01"
    "ucast (drop_bit 3 (be16 f0 f1) AND 0x01) = drop_bit 3 f1 AND 0x01" "ucast (drop_bit 2 (be16 f0 f1) AND 0x01) = drop_bit 2 f1 AND 0x01"
    "ucast (drop_bit 1 (be16 f0 f1) AND 0x01) = drop_bit 1 f1 AND 0x01" "ucast (be16 f0 f1 AND 0x01) = f1 AND 0x01"
  unfolding be16_def by (rule word_eq_bits, simp add: word_bits del: One_nat_def)+

text \<open>A byte by its digits: the number \<open>of_bool b + 2 * m\<close> has the lowest bit \<open>b\<close>.\<close>

lemma digit [simp]: "(of_bool b + 2 * m) div 2 = (m :: nat)" "odd (of_bool b + 2 * m) = b"
  by auto

lemma byte_drop:
  assumes "n < 256"
  shows "drop_bit k (of_nat n :: u8) = of_nat (n div 2 ^ k)"
proof -
  have n: "unat (of_nat n :: u8) = n" using assms by (rule unat_of_nat_u8)
  have "unat (drop_bit k (of_nat n :: u8)) = n div 2 ^ k"
    by (simp only: unsigned_drop_bit_eq n) (use assms in \<open>simp add: take_bit_eq_mod drop_bit_eq_div\<close>)
  moreover have "n div 2 ^ k < 256" using assms div_le_dividend le_less_trans by blast
  ultimately show ?thesis by (simp add: word_unat_eq_iff unat_of_nat_u8)
qed

lemma and_1_of_nat: "(of_nat n :: u8) AND 1 = of_bool (odd n)"
proof -
  have "(of_nat n :: u8) AND of_nat 1 = of_nat (n AND 1)" by (rule of_nat_and_eq [symmetric])
  also have "n AND 1 = of_bool (odd n)" by (simp add: and_one_eq odd_iff_mod_2_eq_one)
  finally show ?thesis by simp
qed

lemma and_3_of_nat: "(of_nat n :: u8) AND 3 = of_nat (n mod 4)"
proof -
  have "(of_nat n :: u8) AND of_nat 3 = of_nat (n AND 3)" by (rule of_nat_and_eq [symmetric])
  also have "n AND 3 = n mod 4" using take_bit_eq_mask [of 2 n] by (simp add: take_bit_eq_mod mask_eq_exp_minus_1)
  finally show ?thesis by simp
qed

lemma digits_div:
  "(of_bool b + 2 * m) div 4 = (m :: nat) div 2" "(of_bool b + 2 * m) div 8 = m div 4" "(of_bool b + 2 * m) div 16 = m div 8"
  "(of_bool b + 2 * m) div 32 = m div 16" "(of_bool b + 2 * m) div 64 = m div 32"
  using div_mult2_eq [of "of_bool b + 2 * m" 2 2] div_mult2_eq [of "of_bool b + 2 * m" 2 4] div_mult2_eq [of "of_bool b + 2 * m" 2 8]
    div_mult2_eq [of "of_bool b + 2 * m" 2 16] div_mult2_eq [of "of_bool b + 2 * m" 2 32] by simp_all

lemma powers: "2 ^ 1 = (2 :: nat)" "2 ^ 2 = (4 :: nat)" "2 ^ 3 = (8 :: nat)" "2 ^ 4 = (16 :: nat)" "2 ^ 5 = (32 :: nat)" "2 ^ 6 = (64 :: nat)"
  by simp_all

lemma flags_hi_fields:
  assumes "pes_header_ok f"
  defines "w \<equiv> of_nat (flags_hi f) :: u8"
  shows "drop_bit 4 w AND 0x03 = of_nat (hd_scrambling f)" "drop_bit 3 w AND 0x01 = of_bool (hd_priority f)"
    "drop_bit 2 w AND 0x01 = of_bool (hd_alignment f)" "drop_bit 1 w AND 0x01 = of_bool (hd_copyright f)"
    "w AND 0x01 = of_bool (hd_original f)" "drop_bit 6 w = 2"
proof -
  have s: "hd_scrambling f < 4" using assms(1) by (simp add: pes_header_ok_def)
  have "t < 4 \<Longrightarrow> (8 + t) mod 4 = t \<and> (8 + t) div 4 = (2 :: nat)" for t by presburger
  then have s': "(8 + hd_scrambling f) mod 4 = hd_scrambling f" "(8 + hd_scrambling f) div 4 = 2" using s by blast+
  have n: "flags_hi f = of_bool (hd_original f) + 2 * (of_bool (hd_copyright f) + 2 * (of_bool (hd_alignment f)
      + 2 * (of_bool (hd_priority f) + 2 * (8 + hd_scrambling f))))"
    by (simp add: flags_hi_def)
  have lt: "flags_hi f < 256" using s unfolding flags_hi_def by (auto simp: of_bool_def)
  show "w AND 0x01 = of_bool (hd_original f)"
    unfolding w_def and_1_of_nat unfolding n digit ..
  show "drop_bit 3 w AND 0x01 = of_bool (hd_priority f)" "drop_bit 2 w AND 0x01 = of_bool (hd_alignment f)"
    "drop_bit 1 w AND 0x01 = of_bool (hd_copyright f)"
    unfolding w_def byte_drop [OF lt] and_1_of_nat unfolding n powers by (simp_all only: digits_div digit)
  show "drop_bit 4 w AND 0x03 = of_nat (hd_scrambling f)" "drop_bit 6 w = 2"
    unfolding w_def byte_drop [OF lt] and_3_of_nat unfolding n powers digits_div digit s' by simp_all
qed

lemma flags_lo_fields:
  assumes "pes_header_ok f"
  defines "w \<equiv> of_nat (flags_lo f) :: u8"
  shows "drop_bit 6 w AND 0x03 = of_nat (hd_pts_dts f)" "drop_bit 5 w AND 0x01 = of_bool (hd_escr f)"
    "drop_bit 4 w AND 0x01 = of_bool (hd_es_rate f)" "drop_bit 3 w AND 0x01 = of_bool (hd_trick_mode f)"
    "drop_bit 2 w AND 0x01 = of_bool (hd_copy_info f)" "drop_bit 1 w AND 0x01 = of_bool (hd_crc f)"
    "w AND 0x01 = of_bool (hd_extension f)"
proof -
  have p: "hd_pts_dts f < 4" using assms(1) by (simp add: pes_header_ok_def)
  have n: "flags_lo f = of_bool (hd_extension f) + 2 * (of_bool (hd_crc f) + 2 * (of_bool (hd_copy_info f)
      + 2 * (of_bool (hd_trick_mode f) + 2 * (of_bool (hd_es_rate f) + 2 * (of_bool (hd_escr f) + 2 * hd_pts_dts f)))))"
    by (simp add: flags_lo_def)
  have lt: "flags_lo f < 256" using p unfolding flags_lo_def by (auto simp: of_bool_def)
  show "w AND 0x01 = of_bool (hd_extension f)"
    unfolding w_def and_1_of_nat unfolding n digit ..
  show "drop_bit 5 w AND 0x01 = of_bool (hd_escr f)" "drop_bit 4 w AND 0x01 = of_bool (hd_es_rate f)"
    "drop_bit 3 w AND 0x01 = of_bool (hd_trick_mode f)" "drop_bit 2 w AND 0x01 = of_bool (hd_copy_info f)"
    "drop_bit 1 w AND 0x01 = of_bool (hd_crc f)"
    unfolding w_def byte_drop [OF lt] and_1_of_nat unfolding n powers by (simp_all only: digits_div digit)
  show "drop_bit 6 w AND 0x03 = of_nat (hd_pts_dts f)"
    unfolding w_def byte_drop [OF lt] and_3_of_nat unfolding n powers digits_div digit using p by simp
qed

lemma pes_set_flags_header:
  assumes "pes_header_ok f"
  shows "(pes_set_flags (be16 (of_nat (flags_hi f)) (of_nat (flags_lo f))) (pes_new\<lparr>pes_stream_id := of_nat (flags_hi f)\<rparr>))\<lparr>pes_es := es\<rparr> = pes_of f es"
  unfolding pes_set_flags_def flag_word_hi flag_word_lo flags_hi_fields [OF assms] flags_lo_fields [OF assms]
  by (simp add: pes_new_def pes_of_def)

lemma start_code_prefix: "drop_bit 8 (be32 0 0 1 b) = 1"
  by (rule word_eq_bits) (simp add: be32_def word_bits bit_simps del: One_nat_def)

lemma and_mask_byte: "b AND 0xFF = (b :: u8)"
  by (rule word_eq_bits) (simp add: word_bits bit_simps del: One_nat_def)

lemma pes_parse_bytes:
  assumes "pes_header_ok f" "length hdr < 256" "parse_es stream_type data = Some es"
  shows "pes_parse (pes_bytes stream_id len f hdr data) pid (Some stream_type) = Some (Some (pes_of f es))"
proof -
  let ?d = "pes_bytes stream_id len f hdr data"
  define f0 f1 where "f0 = (of_nat (flags_hi f) :: u8)" and "f1 = (of_nat (flags_lo f) :: u8)"
  have u: "unat (of_nat (length hdr) :: u8) = length hdr" using assms(2) by (rule unat_of_nat_u8)
  have d: "idx ?d 0 = Some 0" "idx ?d 1 = Some 0" "idx ?d 2 = Some 1" "idx ?d 3 = Some stream_id" "idx ?d 6 = Some f0"
    "idx ?d 7 = Some f1" "idx ?d 8 = Some (of_nat (length hdr))" "length ?d = 9 + length hdr + length data"
    by (simp_all add: pes_bytes_def to_be16_def idx_def f0_def f1_def)
  have "drop (9 + length hdr) ?d = drop (length hdr) (drop 9 ?d)" by (simp add: add.commute)
  also have "\<dots> = data" by (simp add: pes_bytes_def to_be16_def)
  finally have rest: "slice_from ?d (9 + length hdr) = Some data" using d(8) by (simp add: slice_from_def)
  have marker: "drop_bit 6 f0 = 2" using flags_hi_fields(6) [OF assms(1)] by (simp add: f0_def)
  show ?thesis
    using assms(3) d(2) marker pes_set_flags_header [OF assms(1), of es, folded f0_def f1_def]
    by (simp add: pes_parse_def d rest u start_code_prefix and_mask_byte Let_def)
qed

section \<open>Reassembly of many streams\<close>

definition prm_get :: "(u16 \<rightharpoonup> u8) \<Rightarrow> pes_reassembler_map \<Rightarrow> u16 \<Rightarrow> pes_reassembler" where
  "prm_get streams m pid = (case prm_per_pid m pid of None \<Rightarrow> pr_new pid (the (streams pid)) | Some r \<Rightarrow> r)"

definition prm_accepts :: "(u16 \<rightharpoonup> u8) \<Rightarrow> u16 \<Rightarrow> bytes \<Rightarrow> bool" where
  "prm_accepts streams pid p \<longleftrightarrow> ts_packet_ok p \<and> ts_pid p = pid \<and> streams pid \<noteq> None"

lemma prm_push_eq:
  "prm_push m p streams = (if ts_packet_ok p \<and> streams (ts_pid p) \<noteq> None then do {
       (r, out) \<leftarrow> pr_push (prm_get streams m (ts_pid p)) p;
       Some (m\<lparr>prm_per_pid := (prm_per_pid m)(ts_pid p \<mapsto> r)\<rparr>, out) }
     else Some (m, None))"
  by (cases p) (auto simp: prm_push_def ts_packet_ok_def ts_pid_def prm_get_def TS_PACKET_SIZE_def Let_def
      split: option.splits)

interpretation units: demultiplexer pr_push "\<lambda>m p. prm_push m p streams" "prm_get streams" "prm_accepts streams"
  for streams
  by unfold_locales (auto simp: prm_push_eq prm_get_def prm_accepts_def split: if_splits Option.bind_splits)

text \<open>
  The reassembler of a PID can take a unit when nothing that it holds would be reported: it is new or empty, or what it
  holds is no PES packet or one in which the parser of the stream type finds nothing.
\<close>

definition nothing_held :: "(u16 \<rightharpoonup> u8) \<Rightarrow> u16 \<Rightarrow> u8 \<Rightarrow> pes_reassembler_map \<Rightarrow> bool" where
  "nothing_held streams pid stream_type m \<longleftrightarrow>
     (let r = prm_get streams m pid
      in pr_pid r = pid \<and> pr_stream_type r = stream_type
       \<and> (pr_buffer r = [] \<or> (\<exists>p. pes_parse (pr_buffer r) pid (Some stream_type) = Some p \<and> (\<forall>q. p = Some q \<longrightarrow> pes_es q = None))))"

lemma nothing_held_new: "streams pid = Some stream_type \<Longrightarrow> nothing_held streams pid stream_type prm_new"
  by (simp add: nothing_held_def prm_get_def prm_new_def pr_new_def Let_def)

text \<open>
  C40. A PES packet that was cut into transport packets is put together and read again. Let the map of reassemblers hold nothing
  for a known PID that would be reported, as a new map does. When the packets of the PID are a first one with the start
  flag, any number without it, and the first one of the next unit,
  and their payloads are the bytes of a PES packet with any flags, then nothing is reported for all but the last of them, and
  for the last one every field of the two bytes of flags and what the parser of the stream type finds in the data. Packets of
  other PIDs may come in between. This is about the first unit of a PID in which something is found: the packet that ends it is not taken, and the unit is reported again at
  the next start (see the header of the development).
\<close>

theorem pes_units_reassembled:
  assumes "push_each (\<lambda>m p. prm_push m p streams) m0 packets = Some (m, outs)"
    and "streams pid = Some stream_type" "nothing_held streams pid stream_type m0"
    and "filter (\<lambda>p. ts_packet_ok p \<and> ts_pid p = pid) packets = first # conts @ [next_first]"
    and "list_all pes_packet (first # conts @ [next_first])"
    and "ts_pusi first" "list_all (\<lambda>p. \<not> ts_pusi p) conts" "ts_pusi next_first" "pes_payload first \<noteq> []"
    and "concat (map pes_payload (first # conts)) = pes_bytes stream_id len f hdr data"
    and "pes_header_ok f" "length hdr < 256" "parse_es stream_type data = Some (Some es)"
  shows "map snd (filter (\<lambda>(p, out). ts_packet_ok p \<and> ts_pid p = pid) (zip packets outs))
    = replicate (Suc (length conts)) None @ [Some (pes_of f (Some es))]"
proof -
  define r where "r = prm_get streams m0 pid"
  have r: "pr_pid r = pid" "pr_stream_type r = stream_type"
      "pr_buffer r = [] \<or> (\<exists>p. pes_parse (pr_buffer r) pid (Some stream_type) = Some p \<and> (\<forall>q. p = Some q \<longrightarrow> pes_es q = None))"
    using assms(3) by (simp_all add: nothing_held_def r_def Let_def)
  have acc: "prm_accepts streams pid = (\<lambda>p. ts_packet_ok p \<and> ts_pid p = pid)"
    using assms(2) by (auto simp: prm_accepts_def fun_eq_iff)
  have pids: "\<forall>p \<in> set (first # conts @ [next_first]). ts_pid p = pid"
    unfolding assms(4) [symmetric] by simp
  let ?buf = "pes_payload first @ concat (map pes_payload conts)"
  have one: "pr_push r first = Some (r\<lparr>pr_buffer := pes_payload first\<rparr>, None)"
    using assms(5,6) pids r by (auto simp: pr_push_eq split: option.split)
  have rest: "push_each pr_push (r\<lparr>pr_buffer := pes_payload first\<rparr>) conts
      = Some (r\<lparr>pr_buffer := ?buf\<rparr>, replicate (length conts) None)"
    using pr_collect [of conts "r\<lparr>pr_buffer := pes_payload first\<rparr>"] assms(5,7,9) pids r
    by (simp add: list_all_iff)
  have buf: "?buf = pes_bytes stream_id len f hdr data" using assms(10) by simp
  have "pes_parse ?buf pid (Some stream_type) = Some (Some (pes_of f (Some es)))"
    unfolding buf using assms(11-13) by (rule pes_parse_bytes)
  then have last: "pr_push (r\<lparr>pr_buffer := ?buf\<rparr>) next_first
      = Some (r\<lparr>pr_buffer := ?buf\<rparr>, Some (pes_of f (Some es)))"
    using assms(5,8,9) pids r by (auto simp: pr_push_eq pes_of_def)
  have "push_each pr_push r (first # conts @ [next_first])
      = Some (r\<lparr>pr_buffer := ?buf\<rparr>, replicate (Suc (length conts)) None @ [Some (pes_of f (Some es))])"
    using one rest last by (simp add: push_each_append)
  then show ?thesis
    using units.push_each_filter [OF assms(1), of pid] by (simp add: acc assms(4) r_def)
qed

text \<open>Two units of an MPEG-1 layer II stream, 160 kbit/s at 48 kHz, each in one packet.\<close>

definition audio_data :: bytes where
  "audio_data = [0xFF, 0xFD, 0x94, 0x04] @ replicate 171 0"

definition plain_header :: pes_header where
  "plain_header = \<lparr>hd_scrambling = 0, hd_priority = False, hd_alignment = False, hd_copyright = False, hd_original = False, hd_pts_dts = 0,
     hd_escr = False, hd_es_rate = False, hd_trick_mode = False, hd_copy_info = False, hd_crc = False, hd_extension = False\<rparr>"

lemma plain_header_ok: "pes_header_ok plain_header"
  by (simp add: pes_header_ok_def plain_header_def)

definition audio_packet :: bytes where
  "audio_packet = [0x47, 0x41, 0x00, 0x10] @ pes_bytes 0xC0 0 plain_header [] audio_data"

lemma audio_packet_ok: "pes_packet audio_packet" "ts_packet_ok audio_packet" "ts_pid audio_packet = 0x100" "ts_pusi audio_packet"
    "pes_payload audio_packet = pes_bytes 0xC0 0 plain_header [] audio_data"
  by (simp_all add: pes_packet_def ts_packet_ok_def ts_afc_def ts_pid_def ts_pusi_def pes_payload_def audio_packet_def
      TS_PACKET_SIZE_def TS_SYNC_BYTE_def pes_bytes_def audio_data_def pid13_def)

lemma audio_es: "parse_es 3 audio_data = Some (Some (Es3 (audio_fields 3 0xFFFD9404)))"
proof -
  have "find_byte audio_data 0xFF 0 = Some 0"
    by (simp add: find_byte_def audio_data_def upt_rec [of 0])
  moreover have "read_u32_be audio_data 0 = Some 0xFFFD9404" "length audio_data = 175"
    by (simp_all add: read_u32_be_def audio_data_def be32_def)
  ultimately have "find_mpeg_audio_header audio_data = Some 0xFFFD9404"
    by (simp add: find_mpeg_audio_header_def find_header_from.simps [of _ 0])
  then show ?thesis
    by (simp add: parse_es_def parse_es3_def)
qed

theorem pes_units_reassembled_witness:
  "\<exists>m. push_each (\<lambda>m p. prm_push m p [0x100 \<mapsto> 3]) prm_new [audio_packet, audio_packet]
     = Some (m, [None, Some (pes_of plain_header (Some (Es3 (audio_fields 3 0xFFFD9404))))])"
proof -
  have nonempty: "pes_bytes 0xC0 0 plain_header [] audio_data \<noteq> []" by (simp add: pes_bytes_def)
  obtain m outs where run: "push_each (\<lambda>m p. prm_push m p [0x100 \<mapsto> 3]) prm_new [audio_packet, audio_packet] = Some (m, outs)"
      and len: "length outs = 2"
    using pes_parse_bytes [OF plain_header_ok, of "[]" 3 audio_data] audio_es nonempty
    by (auto simp: prm_push_eq audio_packet_ok prm_get_def prm_new_def pr_new_def pr_push_eq pes_of_def)
  have "map snd (filter (\<lambda>(p, out). ts_packet_ok p \<and> ts_pid p = 0x100) (zip [audio_packet, audio_packet] outs))
    = replicate (Suc (length ([] :: bytes list))) None @ [Some (pes_of plain_header (Some (Es3 (audio_fields 3 0xFFFD9404))))]"
    using nonempty by (intro pes_units_reassembled [OF run, of "0x100" 3 audio_packet "[]" audio_packet "0xC0" 0 plain_header "[]" audio_data])
      (simp_all add: audio_packet_ok audio_es nothing_held_new plain_header_ok)
  moreover obtain o1 o2 where "outs = [o1, o2]" using len by (auto simp: length_Suc_conv numeral_2_eq_2)
  ultimately show ?thesis
    using run by (auto simp: audio_packet_ok)
qed

end
