(* ===== verification/Rust_Text.thy ===== *)
theory Rust_Text
  imports Rust_Float
begin

text \<open>
  Numbers as texts, the way \<open>format!\<close> writes them, and reading them back.
\<close>

definition digit :: "nat \<Rightarrow> char" where
  "digit d = char_of (48 + d)"

fun show_nat :: "nat \<Rightarrow> string" where
  "show_nat n = (if n < 10 then [digit n] else show_nat (n div 10) @ [digit (n mod 10)])"

declare show_nat.simps [simp del]

definition show_word :: "'a::len word \<Rightarrow> string" where
  "show_word w = show_nat (unat w)"

text \<open>A number that is not negative, with one digit after the point: the exact value rounded.\<close>

definition show_fixed1 :: "rat \<Rightarrow> string" where
  "show_fixed1 x = (let n = nat (round_even (10 * x)) in show_nat (n div 10) @ ''.'' @ show_nat (n mod 10))"

definition unwrap_or :: "'a \<Rightarrow> 'a option \<Rightarrow> 'a" where
  "unwrap_or d x = (case x of None \<Rightarrow> d | Some v \<Rightarrow> v)"

lemma unwrap_or_simps [simp]: "unwrap_or d None = d" "unwrap_or d (Some v) = v"
  by (simp_all add: unwrap_or_def)

text \<open>Reading a number back.\<close>

definition digit_val :: "char \<Rightarrow> nat" where
  "digit_val c = of_char c - 48"

definition read_nat :: "string \<Rightarrow> nat" where
  "read_nat s = foldl (\<lambda>n c. 10 * n + digit_val c) 0 s"

lemma digit_val_digit: "d < 10 \<Longrightarrow> digit_val (digit d) = d"
  by (simp add: digit_val_def digit_def)

lemma read_show_nat [simp]: "read_nat (show_nat n) = n"
proof (induction n rule: show_nat.induct)
  case (1 n)
  show ?case
  proof (cases "n < 10")
    case True
    then show ?thesis by (simp add: show_nat.simps read_nat_def digit_val_digit)
  next
    case False
    then have "read_nat (show_nat n) = 10 * read_nat (show_nat (n div 10)) + digit_val (digit (n mod 10))"
      by (subst show_nat.simps) (simp add: read_nat_def)
    then show ?thesis using 1 False by (simp add: digit_val_digit)
  qed
qed

lemma show_nat_inject [simp]: "show_nat m = show_nat n \<longleftrightarrow> m = n"
  by (metis read_show_nat)

text \<open>A tenth keeps its digits in single precision.\<close>

lemma round_even_near: "\<bar>x - of_int n\<bar> < 1 / 2 \<Longrightarrow> round_even x = n"
proof -
  assume *: "\<bar>x - of_int n\<bar> < 1 / 2"
  have "\<bar>of_int (round_even x) - x\<bar> \<le> 1 / 2" by (rule round_even_error)
  then have "\<bar>of_int (round_even x) - (of_int n :: rat)\<bar> < 1"
    using * by linarith
  then have "of_int \<bar>round_even x - n\<bar> < (1 :: rat)" by simp
  then show ?thesis by linarith
qed

lemma show_fixed1_tenth:
  assumes "n < 2 ^ 20"
  shows "show_fixed1 (fl 24 (of_nat n / 10)) = show_nat (n div 10) @ ''.'' @ show_nat (n mod 10)"
proof -
  let ?x = "fl 24 (of_nat n / 10)"
  have "\<bar>?x - of_nat n / 10\<bar> \<le> of_nat n / 10 / 2 ^ 24"
    using fl_error [of 23 "of_nat n / 10"] by simp
  moreover have "of_nat n < (2 ^ 20 :: rat)"
    using assms by (metis of_nat_less_iff of_nat_numeral of_nat_power)
  ultimately have "\<bar>10 * ?x - of_int (int n)\<bar> < 1 / 2"
    by (simp add: abs_le_iff abs_less_iff field_simps)
  then have "round_even (10 * ?x) = int n"
    by (rule round_even_near)
  then show ?thesis by (simp add: show_fixed1_def)
qed

end
