(* ===== verification/Es_Description.thy ===== *)
theory Es_Description
  imports Pes_Parser Rust_Text
begin

text \<open>
  \<open>pes/es.rs\<close>: the texts that describe an elementary stream. A text is the list of its (ASCII) characters.
\<close>

unbundle bit_operations_syntax

section \<open>MPEG-2 video\<close>

definition aspect_ratio_str :: "es2 \<Rightarrow> string" where
  "aspect_ratio_str e = (case es2_aspect_ratio e of None \<Rightarrow> ''None'' | Some v \<Rightarrow>
      if v = 2 then ''4:3''
      else if v = 3 then ''16:9''
      else if v = 4 then ''2.21:1''
      else ''None'')"

definition frame_rate_str :: "es2 \<Rightarrow> string" where
  "frame_rate_str e = (case es2_frame_rate e of None \<Rightarrow> ''None'' | Some v \<Rightarrow>
      if v = 3 then ''25''
      else if v = 6 then ''50''
      else if v = 1 then ''24000/1001''
      else if v = 2 then ''24''
      else if v = 4 then ''30000/1001''
      else if v = 5 then ''30''
      else if v = 7 then ''60000/1001''
      else if v = 8 then ''60''
      else ''None'')"

definition es2_bitrate_str :: "es2 \<Rightarrow> string" where
  "es2_bitrate_str e = (case es2_bitrate e of
     None \<Rightarrow> ''-''
   | Some b \<Rightarrow> if b = 0x3FFFF then ''VBR'' else show_word ((b * 400 + 999) div 1000) @ '' kbit/s'')"

definition es2_description :: "es2 \<Rightarrow> string" where
  "es2_description e =
    (let h = unwrap_or 0 (es2_horizontal_size e);
         v = unwrap_or 0 (es2_vertical_size e)
     in ''Video: mpeg2video '' @ show_word h @ ''x'' @ show_word v @ '', '' @ aspect_ratio_str e @ '', ''
        @ frame_rate_str e @ '' fps, '' @ es2_bitrate_str e)"

section \<open>MPEG audio\<close>

text \<open>The streams of types 3 and 4 differ in the names of modes and frequencies and in the bit rates.\<close>

definition layer_str :: "es_audio \<Rightarrow> string" where
  "layer_str e = (case ea_layer e of None \<Rightarrow> ''None'' | Some v \<Rightarrow>
      if v = 3 then ''Layer I''
      else if v = 2 then ''Layer II''
      else if v = 1 then ''Layer III''
      else ''None'')"

definition mode_str_es3 :: "es_audio \<Rightarrow> string" where
  "mode_str_es3 e = (case ea_mode e of None \<Rightarrow> ''None'' | Some v \<Rightarrow>
      if v = 0 then ''stereo''
      else if v = 1 then ''joint_stereo (intensity_stereo and/or ms_stereo)''
      else if v = 2 then ''dual_channel''
      else if v = 3 then ''single_channel''
      else ''None'')"

definition sampling_freq_es3 :: "es_audio \<Rightarrow> string" where
  "sampling_freq_es3 e = (case ea_sampling_frequency e of None \<Rightarrow> ''None'' | Some v \<Rightarrow>
      if v = 0 then ''44.1kHz''
      else if v = 1 then ''48kHz''
      else if v = 2 then ''32kHz''
      else ''None'')"

definition mode_str_es4 :: "es_audio \<Rightarrow> string" where
  "mode_str_es4 e = (case ea_mode e of None \<Rightarrow> ''None'' | Some v \<Rightarrow>
      if v = 0 then ''stereo''
      else if v = 1 then ''joint_stereo (intensity_stereo and/or ms_stereo)''
      else if v = 2 then ''dual_channel''
      else if v = 3 then ''mono''
      else ''None'')"

definition sampling_freq_es4 :: "es_audio \<Rightarrow> string" where
  "sampling_freq_es4 e = (case ea_sampling_frequency e of None \<Rightarrow> ''None'' | Some v \<Rightarrow>
      if v = 0 then ''22.5kHz''
      else if v = 1 then ''24kHz''
      else if v = 2 then ''16kHz''
      else ''None'')"

definition by_layer :: "u8 \<Rightarrow> string \<Rightarrow> string \<Rightarrow> string \<Rightarrow> string" where
  "by_layer layer one two three = (if layer = 3 then one else if layer = 2 then two else three)"

definition bit_rate_es3 :: "u8 \<Rightarrow> u8 \<Rightarrow> string option" where
  "bit_rate_es3 bit_rate_index layer =
    (if layer \<noteq> 3 \<and> layer \<noteq> 2 \<and> layer \<noteq> 1 then None
     else if bit_rate_index = 1 then Some (by_layer layer ''32 kbit/s'' ''32 kbit/s'' ''32 kbit/s'')
     else if bit_rate_index = 2 then Some (by_layer layer ''64 kbit/s'' ''48 kbit/s'' ''40 kbit/s'')
     else if bit_rate_index = 3 then Some (by_layer layer ''96 kbit/s'' ''56 kbit/s'' ''48 kbit/s'')
     else if bit_rate_index = 4 then Some (by_layer layer ''128 kbit/s'' ''64 kbit/s'' ''56 kbit/s'')
     else if bit_rate_index = 5 then Some (by_layer layer ''160 kbit/s'' ''80 kbit/s'' ''64 kbit/s'')
     else if bit_rate_index = 6 then Some (by_layer layer ''192 kbit/s'' ''96 kbit/s'' ''80 kbit/s'')
     else if bit_rate_index = 7 then Some (by_layer layer ''224 kbit/s'' ''112 kbit/s'' ''96 kbit/s'')
     else if bit_rate_index = 8 then Some (by_layer layer ''256 kbit/s'' ''128 kbit/s'' ''112 kbit/s'')
     else if bit_rate_index = 9 then Some (by_layer layer ''288 kbit/s'' ''160 kbit/s'' ''128 kbit/s'')
     else if bit_rate_index = 10 then Some (by_layer layer ''320 kbit/s'' ''192 kbit/s'' ''160 kbit/s'')
     else if bit_rate_index = 11 then Some (by_layer layer ''352 kbit/s'' ''224 kbit/s'' ''192 kbit/s'')
     else if bit_rate_index = 12 then Some (by_layer layer ''384 kbit/s'' ''256 kbit/s'' ''224 kbit/s'')
     else if bit_rate_index = 13 then Some (by_layer layer ''416 kbit/s'' ''320 kbit/s'' ''256 kbit/s'')
     else if bit_rate_index = 14 then Some (by_layer layer ''448 kbit/s'' ''384 kbit/s'' ''320 kbit/s'')
     else None)"

definition bit_rate_es4 :: "u8 \<Rightarrow> u8 \<Rightarrow> string option" where
  "bit_rate_es4 bit_rate_index layer =
    (if layer \<noteq> 3 \<and> layer \<noteq> 2 \<and> layer \<noteq> 1 then None
     else if bit_rate_index = 1 then Some (by_layer layer ''32 kbit/s'' ''8 kbit/s'' ''8 kbit/s'')
     else if bit_rate_index = 2 then Some (by_layer layer ''48 kbit/s'' ''16 kbit/s'' ''16 kbit/s'')
     else if bit_rate_index = 3 then Some (by_layer layer ''56 kbit/s'' ''24 kbit/s'' ''24 kbit/s'')
     else if bit_rate_index = 4 then Some (by_layer layer ''64 kbit/s'' ''32 kbit/s'' ''32 kbit/s'')
     else if bit_rate_index = 5 then Some (by_layer layer ''80 kbit/s'' ''40 kbit/s'' ''40 kbit/s'')
     else if bit_rate_index = 6 then Some (by_layer layer ''96 kbit/s'' ''48 kbit/s'' ''48 kbit/s'')
     else if bit_rate_index = 7 then Some (by_layer layer ''112 kbit/s'' ''56 kbit/s'' ''56 kbit/s'')
     else if bit_rate_index = 8 then Some (by_layer layer ''128 kbit/s'' ''64 kbit/s'' ''64 kbit/s'')
     else if bit_rate_index = 9 then Some (by_layer layer ''144 kbit/s'' ''80 kbit/s'' ''80 kbit/s'')
     else if bit_rate_index = 10 then Some (by_layer layer ''160 kbit/s'' ''96 kbit/s'' ''96 kbit/s'')
     else if bit_rate_index = 11 then Some (by_layer layer ''176 kbit/s'' ''112 kbit/s'' ''112 kbit/s'')
     else if bit_rate_index = 12 then Some (by_layer layer ''192 kbit/s'' ''128 kbit/s'' ''128 kbit/s'')
     else if bit_rate_index = 13 then Some (by_layer layer ''224 kbit/s'' ''144 kbit/s'' ''144 kbit/s'')
     else if bit_rate_index = 14 then Some (by_layer layer ''256 kbit/s'' ''160 kbit/s'' ''160 kbit/s'')
     else None)"

definition bit_rate_str :: "(u8 \<Rightarrow> u8 \<Rightarrow> string option) \<Rightarrow> es_audio \<Rightarrow> string" where
  "bit_rate_str bit_rate e = (case (ea_bit_rate_index e, ea_layer e) of
     (Some b, Some l) \<Rightarrow> unwrap_or ''0'' (bit_rate b l)
   | _ \<Rightarrow> ''0'')"

definition es3_description :: "es_audio \<Rightarrow> string" where
  "es3_description e = ''Audio: mp2 ('' @ layer_str e @ '') '' @ mode_str_es3 e @ '', '' @ sampling_freq_es3 e
     @ '', '' @ bit_rate_str bit_rate_es3 e"

definition es4_description :: "es_audio \<Rightarrow> string" where
  "es4_description e = ''Audio: mp2 ('' @ layer_str e @ '') '' @ mode_str_es4 e @ '', '' @ sampling_freq_es4 e
     @ '', '' @ bit_rate_str bit_rate_es4 e"

section \<open>AAC\<close>

definition profile_es15 :: "es15 \<Rightarrow> string" where
  "profile_es15 e = (case es15_profile e of None \<Rightarrow> ''None'' | Some v \<Rightarrow>
      if v = 0 then ''Main''
      else if v = 1 then ''LC''
      else if v = 2 then ''SSR''
      else ''None'')"

definition sampling_freq_es15 :: "es15 \<Rightarrow> string" where
  "sampling_freq_es15 e = (case es15_sampling_frequency e of None \<Rightarrow> ''None'' | Some v \<Rightarrow>
      if v = 0 then ''96KHz''
      else if v = 1 then ''88.2KHz''
      else if v = 2 then ''64KHz''
      else if v = 3 then ''48KHz''
      else if v = 4 then ''44.1KHz''
      else if v = 5 then ''32KHz''
      else if v = 6 then ''24KHz''
      else if v = 7 then ''22.05KHz''
      else if v = 8 then ''16KHz''
      else if v = 9 then ''12KHz''
      else if v = 10 then ''11.025KHz''
      else if v = 11 then ''8KHz''
      else ''None'')"

definition channel_configuration_es15 :: "es15 \<Rightarrow> string" where
  "channel_configuration_es15 e = (case es15_channel_configuration e of None \<Rightarrow> ''Unknown'' | Some v \<Rightarrow>
      if v = 1 then ''Mono''
      else if v = 2 then ''Stereo''
      else if v = 3 then ''3.0''
      else if v = 4 then ''4.0''
      else if v = 5 then ''5.0''
      else if v = 6 then ''5.1 Surround''
      else if v = 7 then ''7.1 Surround''
      else ''Unknown'')"

definition es15_description :: "es15 \<Rightarrow> string" where
  "es15_description e = ''Audio aac ('' @ profile_es15 e @ ''), '' @ channel_configuration_es15 e @ '', '' @ sampling_freq_es15 e"

section \<open>H.264\<close>

definition profile_es27 :: "es27 \<Rightarrow> string" where
  "profile_es27 e = (case es27_profile_idc e of None \<Rightarrow> ''None'' | Some v \<Rightarrow>
      if v = 66 then ''Baseline''
      else if v = 77 then ''Main''
      else if v = 88 then ''Extended''
      else if v = 100 then ''High''
      else if v = 110 then ''Hight 10''
      else if v = 122 then ''High 4:2:2''
      else if v = 244 then ''High 4:4:4 Predictive''
      else if v = 44 then ''CAVLC 4:4:4 Intra''
      else ''None'')"

text \<open>The level is divided by ten in single precision and printed with one digit.\<close>

definition es27_level_str :: "es27 \<Rightarrow> string" where
  "es27_level_str e = (case es27_level_idc e of
     None \<Rightarrow> ''0.0''
   | Some v \<Rightarrow> show_fixed1 (fl 24 (of_nat (unat v) / 10)))"

definition es27_description :: "es27 \<Rightarrow> string" where
  "es27_description e =
    (let h = unwrap_or 0 (es27_horizontal_size e);
         v = unwrap_or 0 (es27_vertical_size e);
         fr = unwrap_or 0 (es27_frame_rate e)
     in ''Video: h264 ('' @ profile_es27 e @ ''), '' @ show_word h @ ''x'' @ show_word v @ '', level ''
        @ es27_level_str e @ '', '' @ show_word fr @ '' fps'')"

section \<open>Any stream\<close>

fun description :: "es \<Rightarrow> string" where
  "description (EsUnknown stream_type) = ''Unknown: '' @ show_word stream_type"
| "description (Es2 e) = es2_description e"
| "description (Es3 e) = es3_description e"
| "description (Es4 e) = es4_description e"
| "description (Es15 e) = es15_description e"
| "description (Es27 e) = es27_description e"

section \<open>Fields of a header\<close>

definition hdr_field :: "u32 \<Rightarrow> nat \<Rightarrow> nat \<Rightarrow> nat" where
  "hdr_field w k m = unat w div 2 ^ k mod 2 ^ m"

lemma unat_field: "unat (take_bit m (drop_bit k w)) = hdr_field w k m"
  unfolding hdr_field_def unsigned_take_bit_eq unat_drop_bit_eq by (simp only: take_bit_eq_mod drop_bit_eq_div)

lemma ucast_field:
  assumes "m \<le> LENGTH('a::len)"
  shows "(ucast (take_bit m (drop_bit k w)) :: 'a word) = of_nat (hdr_field w k m)"
  unfolding unat_field [symmetric] by simp

lemma field_masks: "(w :: u32) AND 0x1 = take_bit 1 w" "w AND 0x3 = take_bit 2 w" "w AND 0xF = take_bit 4 w"
    "w AND 0xFFF = take_bit 12 w"
  by (simp_all add: take_bit_eq_mask mask_numeral)

lemma hdr_field_less: "hdr_field w k m < 2 ^ m"
  by (simp add: hdr_field_def)

lemma less_16: "n < 16 \<Longrightarrow> n = 15 \<or> n = 14 \<or> n = 13 \<or> n = 12 \<or> n = 11 \<or> n = 10 \<or> 
     n = 9 \<or> n = 8 \<or> n = 7 \<or> n = 6 \<or> n = 5 \<or> n = 4 \<or> n = 3 \<or> n = 2 \<or> n = 1 \<or> n = (0 :: nat)"
  by arith

lemma less_4: "n < 4 \<Longrightarrow> n = 0 \<or> n = 1 \<or> n = 2 \<or> n = (3 :: nat)"
  by arith

section \<open>Audio headers\<close>

text \<open>The bit rates of ISO/IEC 11172-3 (layers I, II, III) and of the low sampling frequencies of 13818-3, in kbit/s.\<close>

fun mpeg1_rates :: "nat \<Rightarrow> nat list" where
  "mpeg1_rates l =
    (if l = 3 then map (\<lambda>i. 32 * i) [1..<15]
     else if l = 2 then [32, 48, 56, 64, 80, 96, 112, 128, 160, 192, 224, 256, 320, 384]
     else [32, 40, 48, 56, 64, 80, 96, 112, 128, 160, 192, 224, 256, 320])"

fun mpeg2_rates :: "nat \<Rightarrow> nat list" where
  "mpeg2_rates l =
    (if l = 3 then [32, 48, 56, 64, 80, 96, 112, 128, 144, 160, 176, 192, 224, 256]
     else [8, 16, 24, 32, 40, 48, 56, 64, 80, 96, 112, 128, 144, 160])"

definition rate_text :: "nat list \<Rightarrow> nat \<Rightarrow> nat \<Rightarrow> string" where
  "rate_text rates l i = (if l = 0 \<or> i = 0 \<or> i = 15 then ''0'' else show_nat (rates ! (i - 1)) @ '' kbit/s'')"

lemma show_rates:
  "show_nat 8 = ''8''"
  "show_nat 16 = ''16''"
  "show_nat 24 = ''24''"
  "show_nat 32 = ''32''"
  "show_nat 40 = ''40''"
  "show_nat 48 = ''48''"
  "show_nat 56 = ''56''"
  "show_nat 64 = ''64''"
  "show_nat 80 = ''80''"
  "show_nat 96 = ''96''"
  "show_nat 112 = ''112''"
  "show_nat 128 = ''128''"
  "show_nat 144 = ''144''"
  "show_nat 160 = ''160''"
  "show_nat 176 = ''176''"
  "show_nat 192 = ''192''"
  "show_nat 224 = ''224''"
  "show_nat 256 = ''256''"
  "show_nat 288 = ''288''"
  "show_nat 320 = ''320''"
  "show_nat 352 = ''352''"
  "show_nat 384 = ''384''"
  "show_nat 416 = ''416''"
  "show_nat 448 = ''448''"
  by (simp_all add: show_nat.simps digit_def char_of_def bit_0)

lemma bit_rate_es3_table:
  assumes "l < 4" "i < 16"
  shows "unwrap_or ''0'' (bit_rate_es3 (of_nat i) (of_nat l)) = rate_text (mpeg1_rates l) l i"
  using less_4 [OF assms(1)] less_16 [OF assms(2)]
  by (elim disjE) (simp_all add: bit_rate_es3_def by_layer_def rate_text_def show_rates)

lemma bit_rate_es4_table:
  assumes "l < 4" "i < 16"
  shows "unwrap_or ''0'' (bit_rate_es4 (of_nat i) (of_nat l)) = rate_text (mpeg2_rates l) l i"
  using less_4 [OF assms(1)] less_16 [OF assms(2)]
  by (elim disjE) (simp_all add: bit_rate_es4_def by_layer_def rate_text_def show_rates)

lemma find_header_here:
  assumes "drop_bit 20 header = 0xFFF"
  shows "find_mpeg_audio_header (to_be32 header @ rest) = Some header"
proof -
  have "ucast (drop_bit 24 header) = (0xFF :: u8)"
  proof -
    have "drop_bit 24 header = drop_bit 4 (drop_bit 20 header)" by simp
    then show ?thesis unfolding assms by simp
  qed
  then have "find_byte (to_be32 header @ rest) 0xFF 0 = Some 0"
    by (simp add: find_byte_def to_be32_def upt_rec [of 0])
  moreover have "read_u32_be (to_be32 header @ rest) 0 = Some header"
    by (simp add: read_u32_be_def to_be32_def)
  ultimately show ?thesis
    using assms by (simp add: find_mpeg_audio_header_def find_header_from.simps [of _ 0])
qed

text \<open>
  An audio stream is described by its header: from the four bytes of the header of a frame of MPEG-1 audio
  (stream type 3) or of the low sampling frequencies (stream type 4) at the head of the data come the layer, the
  mode, the sampling frequency, and the bit rate of the tables of the standards; a layer or a rate index without
  meaning there gives \<open>0\<close>. (The text of one frequency of type 4 is \<open>22.5kHz\<close> where the standard has 22.05.)
\<close>

theorem audio_described:
  assumes "drop_bit 20 header = 0xFFF"
  defines "l \<equiv> hdr_field header 17 2" and "i \<equiv> hdr_field header 12 4"
    and "sf \<equiv> hdr_field header 10 2" and "md \<equiv> hdr_field header 6 2"
  shows "\<exists>es3 es4. parse_es 3 (to_be32 header @ rest) = Some (Some es3) \<and> parse_es 4 (to_be32 header @ rest) = Some (Some es4)
    \<and> description es3 = ''Audio: mp2 ('' @ [''None'', ''Layer III'', ''Layer II'', ''Layer I''] ! l @ '') ''
        @ [''stereo'', ''joint_stereo (intensity_stereo and/or ms_stereo)'', ''dual_channel'', ''single_channel''] ! md @ '', ''
        @ [''44.1kHz'', ''48kHz'', ''32kHz'', ''None''] ! sf @ '', '' @ rate_text (mpeg1_rates l) l i
    \<and> description es4 = ''Audio: mp2 ('' @ [''None'', ''Layer III'', ''Layer II'', ''Layer I''] ! l @ '') ''
        @ [''stereo'', ''joint_stereo (intensity_stereo and/or ms_stereo)'', ''dual_channel'', ''mono''] ! md @ '', ''
        @ [''22.5kHz'', ''24kHz'', ''16kHz'', ''None''] ! sf @ '', '' @ rate_text (mpeg2_rates l) l i"
proof -
  have less: "l < 4" "i < 16" "sf < 4" "md < 4"
    using hdr_field_less [of header 17 2] hdr_field_less [of header 12 4] hdr_field_less [of header 10 2]
      hdr_field_less [of header 6 2] by (simp_all add: l_def i_def sf_def md_def)
  let ?e = "\<lambda>t. audio_fields t header"
  have fields: "ea_layer (?e t) = Some (of_nat l)" "ea_bit_rate_index (?e t) = Some (of_nat i)"
    "ea_sampling_frequency (?e t) = Some (of_nat sf)" "ea_mode (?e t) = Some (of_nat md)" for t
    unfolding l_def i_def sf_def md_def by (simp_all add: audio_fields_def field_masks ucast_field)
  have layer: "layer_str (?e t) = [''None'', ''Layer III'', ''Layer II'', ''Layer I''] ! l" for t
    using less_4 [OF less(1)] by (auto simp: layer_str_def fields)
  have freq: "sampling_freq_es3 (?e t) = [''44.1kHz'', ''48kHz'', ''32kHz'', ''None''] ! sf"
    "sampling_freq_es4 (?e t) = [''22.5kHz'', ''24kHz'', ''16kHz'', ''None''] ! sf" for t
    using less_4 [OF less(3)] by (auto simp: sampling_freq_es3_def sampling_freq_es4_def fields)
  have mode: "mode_str_es3 (?e t) =
      [''stereo'', ''joint_stereo (intensity_stereo and/or ms_stereo)'', ''dual_channel'', ''single_channel''] ! md"
    "mode_str_es4 (?e t) = [''stereo'', ''joint_stereo (intensity_stereo and/or ms_stereo)'', ''dual_channel'', ''mono''] ! md" for t
    using less_4 [OF less(4)] by (auto simp: mode_str_es3_def mode_str_es4_def fields)
  have rate: "bit_rate_str bit_rate_es3 (?e t) = rate_text (mpeg1_rates l) l i"
    "bit_rate_str bit_rate_es4 (?e t) = rate_text (mpeg2_rates l) l i" for t
    using bit_rate_es3_table [OF less(1,2)] bit_rate_es4_table [OF less(1,2)] by (simp_all only: bit_rate_str_def fields prod.case option.case)
  have "parse_es 3 (to_be32 header @ rest) = Some (Some (Es3 (?e 3)))" "parse_es 4 (to_be32 header @ rest) = Some (Some (Es4 (?e 4)))"
    by (simp_all add: parse_es_def parse_es3_def parse_es4_def find_header_here [OF assms(1)])
  then show ?thesis
    by (simp only: description.simps es3_description_def es4_description_def layer freq mode rate option.inject ex_simps
        simp_thms es.inject)
qed

theorem audio_described_witness:
  "\<exists>es3 es4. parse_es 3 ([0xFF, 0xFD, 0x94, 0x04] @ [0]) = Some (Some es3) \<and> parse_es 4 ([0xFF, 0xFD, 0x94, 0x04] @ [0]) = Some (Some es4)
    \<and> description es3 = ''Audio: mp2 (Layer II) stereo, 48kHz, 160 kbit/s''
    \<and> description es4 = ''Audio: mp2 (Layer II) stereo, 24kHz, 80 kbit/s''"
proof -
  have "to_be32 0xFFFD9404 = [0xFF, 0xFD, 0x94, 0x04]" by (simp add: to_be32_def)
  then show ?thesis
    using audio_described [of "0xFFFD9404" "[0]"] by (simp add: hdr_field_def rate_text_def show_rates)
qed

section \<open>Video headers\<close>

text \<open>A sequence header of MPEG-2 video: sizes, aspect ratio, frame rate, bit rate in units of 400 bit/s, and the rest.\<close>

definition sequence_header :: "nat \<Rightarrow> nat \<Rightarrow> nat \<Rightarrow> nat \<Rightarrow> nat \<Rightarrow> nat \<Rightarrow> bytes" where
  "sequence_header h v a f b m = [0x00, 0x00, 0x01, 0xB3]
     @ to_be32 (of_nat (h * 2 ^ 20 + v * 2 ^ 8 + a * 2 ^ 4 + f)) @ to_be32 (of_nat (b * 2 ^ 14 + m))"

lemma hdr_field_of_nat: "n < 2 ^ 32 \<Longrightarrow> hdr_field (of_nat n) k m = n div 2 ^ k mod 2 ^ m"
  by (simp add: hdr_field_def unsigned_of_nat take_bit_nat_eq_self)

lemma radix: "lo < b \<Longrightarrow> (hi * b + lo) div b = (hi :: nat)"
  by simp

lemma mod_radix: "lo < b \<Longrightarrow> (hi * b + lo) mod b = (lo :: nat)"
  by simp

lemma top_field: "drop_bit k (w :: u32) = take_bit (32 - k) (drop_bit k w)"
  by (rule bit_word_eqI) (auto simp: bit_simps dest: bit_imp_le_length)

lemma hdr_field_low: "m \<le> LENGTH('a::len) \<Longrightarrow> (ucast (take_bit m (w :: u32)) :: 'a word) = of_nat (hdr_field w 0 m)"
  using ucast_field [of m 0 w, where 'a = 'a] by simp

lemma hdr_field_drop: "hdr_field (drop_bit k w) 0 m = hdr_field w k m"
  unfolding unat_field [symmetric] by simp

lemma read_sequence_header:
  "find_data ([0x00, 0x00, 0x01, 0xB3] @ to_be32 w @ to_be32 x @ rest) = Some ([0x00, 0x00, 0x01, 0xB3] @ to_be32 w @ to_be32 x @ rest)"
  "read_u32_be ([0x00, 0x00, 0x01, 0xB3] @ to_be32 w @ to_be32 x @ rest) 0 = Some 0x000001B3"
  "read_u32_be ([0x00, 0x00, 0x01, 0xB3] @ to_be32 w @ to_be32 x @ rest) 4 = Some w"
  "read_u32_be ([0x00, 0x00, 0x01, 0xB3] @ to_be32 w @ to_be32 x @ rest) 8 = Some x"
  by (simp_all add: find_data_def read_u32_be_def to_be32_def upt_rec [of 0]) (simp add: be32_def)

lemma parse_es2_words:
  "parse_es 2 ([0x00, 0x00, 0x01, 0xB3] @ to_be32 w @ to_be32 x @ rest) = Some (Some (Es2 \<lparr>es2_stream_type = 2,
    es2_horizontal_size = Some (of_nat (hdr_field w 20 12)), es2_vertical_size = Some (of_nat (hdr_field w 8 12)),
    es2_aspect_ratio = Some (of_nat (hdr_field w 4 4)), es2_frame_rate = Some (of_nat (hdr_field w 0 4)),
    es2_bitrate = Some (of_nat (hdr_field x 14 18))\<rparr>))"
proof -
  have "(ucast (drop_bit 20 w) :: u16) = of_nat (hdr_field w 20 12)" "drop_bit 14 x = of_nat (hdr_field x 14 18)"
    by (subst top_field, simp add: ucast_field, subst top_field, simp add: unat_field [symmetric])
  moreover define d where "d = [0x00, 0x00, 0x01, 0xB3] @ to_be32 w @ to_be32 x @ rest"
  moreover note read_sequence_header [of w x rest, folded d_def]
  ultimately show ?thesis
    unfolding d_def [symmetric] by (simp add: parse_es_def parse_es2_def es2_new_def field_masks ucast_field hdr_field_low hdr_field_drop)
qed

lemma parse_sequence_header:
  assumes "h < 4096" "v < 4096" "a < 16" "f < 16" "b < 2 ^ 18" "m < 2 ^ 14"
  shows "parse_es 2 (sequence_header h v a f b m @ rest) = Some (Some (Es2 \<lparr>es2_stream_type = 2,
    es2_horizontal_size = Some (of_nat h), es2_vertical_size = Some (of_nat v), es2_aspect_ratio = Some (of_nat a),
    es2_frame_rate = Some (of_nat f), es2_bitrate = Some (of_nat b)\<rparr>))"
proof -
  let ?w = "of_nat (h * 2 ^ 20 + v * 2 ^ 8 + a * 2 ^ 4 + f) :: u32" and ?x = "of_nat (b * 2 ^ 14 + m) :: u32"
  have n: "h * 2 ^ 20 + v * 2 ^ 8 + a * 2 ^ 4 + f < 2 ^ 32" "b * 2 ^ 14 + m < 2 ^ 32"
    using assms by simp_all
  have f: "hdr_field ?w 20 12 = h" "hdr_field ?w 8 12 = v" "hdr_field ?w 4 4 = a" "hdr_field ?w 0 4 = f" "hdr_field ?x 14 18 = b"
    unfolding hdr_field_of_nat [OF n(1)] hdr_field_of_nat [OF n(2)]
    using radix [of "v * 2 ^ 8 + a * 2 ^ 4 + f" "2 ^ 20" h] radix [of "a * 2 ^ 4 + f" "2 ^ 8" "h * 2 ^ 12 + v"]
      radix [of f "2 ^ 4" "h * 2 ^ 16 + v * 2 ^ 4 + a"] radix [of f 1 "h * 2 ^ 20 + v * 2 ^ 8 + a * 2 ^ 4"]
      radix [of m "2 ^ 14" b] mod_radix [of v "2 ^ 12" h] mod_radix [of a "2 ^ 4" "h * 2 ^ 12 + v"]
      mod_radix [of f "2 ^ 4" "h * 2 ^ 16 + v * 2 ^ 4 + a"] assms
    by (simp_all add: algebra_simps)
  show ?thesis
    by (simp only: sequence_header_def append.assoc parse_es2_words f)
qed

lemma kbit_ceiling: "(b * 400 + 999) div 1000 = nat \<lceil>of_nat (400 * b) / 1000 :: rat\<rceil>"
proof -
  let ?n = "(b * 400 + 999) div 1000"
  have "1000 * ?n \<le> b * 400 + 999" "b * 400 + 999 < 1000 * ?n + 1000"
    using mult_div_mod_eq [of 1000 "b * 400 + 999"] mod_less_divisor [of 1000 "b * 400 + 999"] by linarith+
  then have "1000 * ?n < 400 * b + 1000" "400 * b \<le> 1000 * ?n" by linarith+
  then have "of_nat (1000 * ?n) < (of_nat (400 * b + 1000) :: rat)" "of_nat (400 * b) \<le> (of_nat (1000 * ?n) :: rat)"
    by (simp_all only: of_nat_less_iff of_nat_le_iff)
  then have "of_nat ?n - 1 < (of_nat (400 * b) / 1000 :: rat)" "(of_nat (400 * b) / 1000 :: rat) \<le> of_nat ?n"
    by (simp_all add: field_simps)
  then have "\<lceil>of_nat (400 * b) / 1000 :: rat\<rceil> = int ?n" by (intro ceiling_unique) simp_all
  then show ?thesis by simp
qed

lemma of_nat_eq_u32: "n < 2 ^ 32 \<Longrightarrow> m < 2 ^ 32 \<Longrightarrow> (of_nat n :: u32) = of_nat m \<longleftrightarrow> n = m"
  by (simp add: word_of_nat_eq_iff take_bit_nat_eq_self)

text \<open>
  A video stream is described by its sequence header: the size, the aspect ratio and the frame rate of the
  tables of the standard, and the bit rate in kbit/s rounded up, without overflow in the 32-bit arithmetic, or \<open>VBR\<close>
  for the value that stands for a variable rate.
\<close>

theorem video_described:
  assumes "h < 4096" "v < 4096" "a < 16" "f < 16" "b < 2 ^ 18" "m < 2 ^ 14"
  shows "\<exists>es. parse_es 2 (sequence_header h v a f b m @ rest) = Some (Some es)
    \<and> description es = ''Video: mpeg2video '' @ show_nat h @ ''x'' @ show_nat v @ '', ''
        @ (if 2 \<le> a \<and> a \<le> 4 then [''4:3'', ''16:9'', ''2.21:1''] ! (a - 2) else ''None'') @ '', ''
        @ (if 1 \<le> f \<and> f \<le> 8 then [''24000/1001'', ''24'', ''25'', ''30000/1001'', ''30'', ''50'', ''60000/1001'', ''60''] ! (f - 1)
           else ''None'') @ '' fps, ''
        @ (if b = 2 ^ 18 - 1 then ''VBR'' else show_nat (nat \<lceil>of_nat (400 * b) / 1000 :: rat\<rceil>) @ '' kbit/s'')"
proof -
  let ?e = "\<lparr>es2_stream_type = 2, es2_horizontal_size = Some (of_nat h), es2_vertical_size = Some (of_nat v),
    es2_aspect_ratio = Some (of_nat a), es2_frame_rate = Some (of_nat f), es2_bitrate = Some (of_nat b)\<rparr>"
  have size: "show_word (of_nat h :: u16) = show_nat h" "show_word (of_nat v :: u16) = show_nat v"
    using assms by (simp_all add: show_word_def unat_of_nat_u16)
  have aspect: "aspect_ratio_str ?e = (if 2 \<le> a \<and> a \<le> 4 then [''4:3'', ''16:9'', ''2.21:1''] ! (a - 2) else ''None'')"
    using less_16 [OF assms(3)] by (elim disjE) (simp_all add: aspect_ratio_str_def)
  have rate: "frame_rate_str ?e = (if 1 \<le> f \<and> f \<le> 8
      then [''24000/1001'', ''24'', ''25'', ''30000/1001'', ''30'', ''50'', ''60000/1001'', ''60''] ! (f - 1) else ''None'')"
    using less_16 [OF assms(4)] by (elim disjE) (simp_all add: frame_rate_str_def)
  have "unat (of_nat (b * 400 + 999) :: u32) = b * 400 + 999"
    using assms(5) by (simp only: unsigned_of_nat) (simp add: take_bit_nat_eq_self)
  then have "unat ((of_nat b * 400 + 999) div 1000 :: u32) = (b * 400 + 999) div 1000"
    by (simp add: unat_div_distrib)
  also have "\<dots> = nat \<lceil>of_nat (400 * b) / 1000 :: rat\<rceil>" by (rule kbit_ceiling)
  finally have "show_word ((of_nat b * 400 + 999) div 1000 :: u32) = show_nat (nat \<lceil>of_nat (400 * b) / 1000 :: rat\<rceil>)"
    by (simp only: show_word_def)
  moreover have "(of_nat b :: u32) = 0x3FFFF \<longleftrightarrow> b = 2 ^ 18 - 1"
    using of_nat_eq_u32 [of b "2 ^ 18 - 1"] assms(5) by simp
  ultimately have bits: "es2_bitrate_str ?e =
      (if b = 2 ^ 18 - 1 then ''VBR'' else show_nat (nat \<lceil>of_nat (400 * b) / 1000 :: rat\<rceil>) @ '' kbit/s'')"
    by (simp only: es2_bitrate_str_def es2.simps option.case)
  have "parse_es 2 (sequence_header h v a f b m @ rest) = Some (Some (Es2 ?e))"
    using assms by (rule parse_sequence_header)
  moreover have "description (Es2 ?e) = ''Video: mpeg2video '' @ show_word (of_nat h :: u16) @ ''x'' @ show_word (of_nat v :: u16) @ '', ''
      @ aspect_ratio_str ?e @ '', '' @ frame_rate_str ?e @ '' fps, '' @ es2_bitrate_str ?e"
    by (simp add: es2_description_def)
  ultimately show ?thesis
    unfolding size aspect rate bits by blast
qed

theorem video_described_witness:
  "\<exists>es. parse_es 2 (sequence_header 720 576 3 3 37500 0x3FFF @ []) = Some (Some es)
    \<and> description es = ''Video: mpeg2video 720x576, 16:9, 25 fps, 15000 kbit/s''"
  using video_described [of 720 576 3 3 37500 "0x3FFF" "[]"]
  by (simp add: show_nat.simps digit_def char_of_def bit_0)

section \<open>A misread header and the level\<close>

text \<open>
  The header of an AAC stream in ADTS (low complexity, 48 kHz, stereo) is read two bits off: the text names the wrong
  frequency and the wrong channels.
\<close>

lemma adts_misread:
  "map_option (map_option description) (parse_es 15 [0xFF, 0xF1, 0x4C, 0x80])
     = Some (Some ''Audio aac (LC), 5.1 Surround, 44.1KHz'')"
proof -
  have "to_be32 0xFFF14C80 = [0xFF, 0xF1, 0x4C, 0x80]" by (simp add: to_be32_def)
  then have "find_mpeg_audio_header [0xFF, 0xF1, 0x4C, 0x80] = Some 0xFFF14C80"
    using find_header_here [of "0xFFF14C80" "[]"] by simp
  then show ?thesis
    by (simp add: parse_es_def parse_es15_def es15_description_def profile_es15_def channel_configuration_es15_def
        sampling_freq_es15_def)
qed

text \<open>The level of H.264 keeps its decimal digits through the division in single precision.\<close>

lemma es27_level_str_digits:
  "es27_level_idc e = Some v \<Longrightarrow> es27_level_str e = show_nat (unat v div 10) @ ''.'' @ show_nat (unat v mod 10)"
  using show_fixed1_tenth [OF order.strict_trans [OF unat_u8_less [of v]]] by (simp only: es27_level_str_def option.case) simp

end
