(* ===== verification/Worker_Status.thy ===== *)
theory Worker_Status
  imports Ts_Packet
begin

text \<open>
  The parts of \<open>workers/mod.rs\<close> that all tasks of a worker share: the helper, through which they report to the
  management server whether the worker is dirty, and the sender of chunks. A helper is cloned for every task; the
  clones have one status and one channel to the server. Every method is taken as one atomic step. An instant is a
  number of nanoseconds of the monotonic clock. The type of the texts is a parameter.
\<close>

section \<open>Sending chunks\<close>

definition BROADCAST_CHUNK_SIZE :: usize where
  "BROADCAST_CHUNK_SIZE = 64 * TS_PACKET_SIZE"

text \<open>\<open>slice::chunks\<close>: pieces of \<open>n\<close> elements, the last one may be shorter.\<close>

function chunks :: "usize \<Rightarrow> 'a list \<Rightarrow> 'a list list" where
  "chunks n xs = (if n = 0 \<or> xs = [] then [] else take n xs # chunks n (drop n xs))"
  by pat_completeness auto
termination
  by (relation "measure (length \<circ> snd)") auto

declare chunks.simps [simp del]

text \<open>The channel keeps what was sent; a send to nobody is ignored.\<close>

definition send_broadcast_chunks :: "bytes list \<Rightarrow> bytes \<Rightarrow> bytes list \<times> usize" where
  "send_broadcast_chunks tx chunk =
    (let len = length chunk in
     if len \<le> BROADCAST_CHUNK_SIZE then (tx @ [chunk], len)
     else (foldl (\<lambda>tx data. tx @ [data]) tx (chunks BROADCAST_CHUNK_SIZE chunk), len))"

lemma concat_chunks: "n \<noteq> 0 \<Longrightarrow> concat (chunks n xs) = xs"
  by (induction n xs rule: chunks.induct) (subst chunks.simps, simp)

lemma chunks_sizes: "d \<in> set (chunks n xs) \<Longrightarrow> length d \<le> n \<and> d \<noteq> []"
proof (induction n xs rule: chunks.induct)
  case (1 n xs)
  then show ?case by (subst (asm) (2) chunks.simps) (auto split: if_splits)
qed

text \<open>Every chunk but the last is full, so packets of a stream that is aligned stay whole.\<close>

lemma chunks_full: "n \<noteq> 0 \<Longrightarrow> d \<in> set (butlast (chunks n xs)) \<Longrightarrow> length d = n"
proof (induction n xs rule: chunks.induct)
  case (1 n xs)
  have "chunks n (drop n xs) \<noteq> [] \<Longrightarrow> n \<le> length xs"
    by (subst (asm) chunks.simps) (auto split: if_splits)
  then show ?case
    using 1 by (subst (asm) (3) chunks.simps) (auto split: if_splits)
qed

lemma foldl_snoc: "foldl (\<lambda>tx d. tx @ [d]) tx ds = tx @ ds"
  by (induction ds arbitrary: tx) auto

lemma send_broadcast_chunks_sent:
  "\<exists>ds. send_broadcast_chunks tx chunk = (tx @ ds, length chunk) \<and> concat ds = chunk
     \<and> (\<forall>d \<in> set ds. length d \<le> 64 * 188) \<and> (\<forall>d \<in> set (butlast ds). length d = 64 * 188)"
proof (cases "length chunk \<le> BROADCAST_CHUNK_SIZE")
  case True
  then show ?thesis
    by (intro exI [of _ "[chunk]"]) (simp add: send_broadcast_chunks_def BROADCAST_CHUNK_SIZE_def TS_PACKET_SIZE_def)
next
  case False
  have size: "BROADCAST_CHUNK_SIZE = 64 * 188" "BROADCAST_CHUNK_SIZE \<noteq> 0"
    by (simp_all add: BROADCAST_CHUNK_SIZE_def TS_PACKET_SIZE_def)
  let ?ds = "chunks BROADCAST_CHUNK_SIZE chunk"
  have "\<forall>d \<in> set ?ds. length d \<le> 64 * 188" "\<forall>d \<in> set (butlast ?ds). length d = 64 * 188"
    using chunks_sizes [of _ BROADCAST_CHUNK_SIZE chunk] chunks_full [of BROADCAST_CHUNK_SIZE _ chunk] unfolding size(1) by auto
  with False show ?thesis
    by (intro exI [of _ ?ds]) (simp add: send_broadcast_chunks_def foldl_snoc concat_chunks size(2))
qed

section \<open>The helper\<close>

datatype log_level = Info | Warn | Pause | Play

definition log_level_str :: "log_level \<Rightarrow> string" where
  "log_level_str l = (case l of Info \<Rightarrow> ''0'' | Warn \<Rightarrow> ''1'' | Pause \<Rightarrow> ''10'' | Play \<Rightarrow> ''11'')"

datatype cmd = MarkDirty | UnMarkDirty

definition cmd_str :: "cmd \<Rightarrow> string" where
  "cmd_str c = (case c of MarkDirty \<Rightarrow> ''mark_dirty'' | UnMarkDirty \<Rightarrow> ''unmark_dirty'')"

datatype 'm api_message =
    ApiLog (api_worker: u32) (api_output: u32) 'm log_level
  | ApiCmd (api_worker: u32) (api_output: u32) cmd

record 'm worker_status =
  ws_dirty :: bool
  ws_last_dirty_time :: "nat option"
  ws_unmark_message :: "'m option"

text \<open>The channel to the server, when there is one, keeps what was sent; the log file its lines.\<close>

record 'm helper =
  he_worker_id :: u32
  he_output_id :: u32
  he_namespace :: string
  he_api_tx :: "'m api_message list option"
  he_status :: "'m worker_status"
  he_log :: "(string \<times> 'm) list"

definition DIRTY_TIMEOUT :: nat where
  "DIRTY_TIMEOUT = 30 * 1000000000"

definition helper_new :: "u32 \<Rightarrow> 'm helper" where
  "helper_new worker_id = \<lparr>he_worker_id = worker_id, he_output_id = 0, he_namespace = ''main'', he_api_tx = None,
     he_status = \<lparr>ws_dirty = False, ws_last_dirty_time = None, ws_unmark_message = None\<rparr>, he_log = []\<rparr>"

definition set_output_id :: "u32 \<Rightarrow> 'm helper \<Rightarrow> 'm helper" where
  "set_output_id i h = h\<lparr>he_output_id := i\<rparr>"

definition set_namespace :: "string \<Rightarrow> 'm helper \<Rightarrow> 'm helper" where
  "set_namespace ns h = h\<lparr>he_namespace := ns\<rparr>"

definition set_api_config :: "'m helper \<Rightarrow> 'm helper" where
  "set_api_config h = h\<lparr>he_api_tx := Some []\<rparr>"

definition set_dirty :: "bool \<Rightarrow> 'm helper \<Rightarrow> 'm helper" where
  "set_dirty b h = h\<lparr>he_status := (he_status h)\<lparr>ws_dirty := b\<rparr>\<rparr>"

definition is_dirty :: "'m helper \<Rightarrow> bool" where
  "is_dirty h = ws_dirty (he_status h)"

definition set_last_dirty_time :: "nat option \<Rightarrow> 'm helper \<Rightarrow> 'm helper" where
  "set_last_dirty_time t h = h\<lparr>he_status := (he_status h)\<lparr>ws_last_dirty_time := t\<rparr>\<rparr>"

definition get_last_dirty_time :: "'m helper \<Rightarrow> nat option" where
  "get_last_dirty_time h = ws_last_dirty_time (he_status h)"

definition set_unmark_message :: "'m option \<Rightarrow> 'm helper \<Rightarrow> 'm helper" where
  "set_unmark_message m h = h\<lparr>he_status := (he_status h)\<lparr>ws_unmark_message := m\<rparr>\<rparr>"

definition get_unmark_message :: "'m helper \<Rightarrow> 'm option" where
  "get_unmark_message h = ws_unmark_message (he_status h)"

definition helper_log :: "'m \<Rightarrow> 'm helper \<Rightarrow> 'm helper" where
  "helper_log message h = h\<lparr>he_log := he_log h @ [(he_namespace h, message)]\<rparr>"

definition send_api_message :: "'m api_message \<Rightarrow> 'm helper \<Rightarrow> 'm helper" where
  "send_api_message message h = (case he_api_tx h of None \<Rightarrow> h | Some tx \<Rightarrow> h\<lparr>he_api_tx := Some (tx @ [message])\<rparr>)"

definition send_log :: "'m \<Rightarrow> log_level \<Rightarrow> 'm helper \<Rightarrow> 'm helper" where
  "send_log message level h =
    (let h = helper_log message h
     in send_api_message (ApiLog (he_worker_id h) (he_output_id h) message level) h)"

definition log_info :: "'m \<Rightarrow> 'm helper \<Rightarrow> 'm helper" where "log_info message h = send_log message Info h"
definition log_warn :: "'m \<Rightarrow> 'm helper \<Rightarrow> 'm helper" where "log_warn message h = send_log message Warn h"
definition log_pause :: "'m \<Rightarrow> 'm helper \<Rightarrow> 'm helper" where "log_pause message h = send_log message Pause h"
definition log_play :: "'m \<Rightarrow> 'm helper \<Rightarrow> 'm helper" where "log_play message h = send_log message Play h"

definition send_cmd :: "cmd \<Rightarrow> 'm helper \<Rightarrow> 'm helper" where
  "send_cmd c h = send_api_message (ApiCmd (he_worker_id h) (he_output_id h) c) h"

definition cmd_mark_dirty :: "'m helper \<Rightarrow> 'm helper" where
  "cmd_mark_dirty h = send_cmd MarkDirty (set_dirty True h)"

definition mark_dirty :: "nat \<Rightarrow> 'm \<Rightarrow> 'm helper \<Rightarrow> 'm helper" where
  "mark_dirty now message h =
    (let h = set_last_dirty_time (Some now) h
     in if \<not> is_dirty h then log_warn message (cmd_mark_dirty h) else h)"

definition unmark_dirty :: "'m \<Rightarrow> 'm helper \<Rightarrow> 'm helper" where
  "unmark_dirty message h = set_unmark_message (Some message) h"

definition cmd_unmark_dirty_now :: "'m helper \<Rightarrow> 'm helper" where
  "cmd_unmark_dirty_now h =
    (let h = set_dirty False h;
         h = set_last_dirty_time None h;
         h = send_cmd UnMarkDirty h
     in case get_unmark_message h of
          Some message \<Rightarrow> set_unmark_message None (log_info message h)
        | None \<Rightarrow> h)"

text \<open>\<open>cmd_unmark_dirty\<close> has the same body behind its condition.\<close>

definition cmd_unmark_dirty :: "nat \<Rightarrow> 'm helper \<Rightarrow> 'm helper" where
  "cmd_unmark_dirty now h =
    (if (case get_last_dirty_time h of Some t \<Rightarrow> now - t > DIRTY_TIMEOUT | None \<Rightarrow> False)
     then cmd_unmark_dirty_now h else h)"

lemmas status_defs = set_dirty_def is_dirty_def set_last_dirty_time_def get_last_dirty_time_def set_unmark_message_def
  get_unmark_message_def helper_log_def send_api_message_def send_log_def log_info_def log_warn_def send_cmd_def
  cmd_mark_dirty_def mark_dirty_def unmark_dirty_def cmd_unmark_dirty_now_def cmd_unmark_dirty_def set_output_id_def

section \<open>The protocol with the management server\<close>

text \<open>
  What happens to a worker: a task (by the number of its output) marks it dirty or leaves a text for the time when it is
  clean again, and the supervisor looks at it every few seconds.
\<close>

datatype 'm status_event = Mark u32 nat 'm | Restored u32 'm | Poll nat

fun run_event :: "'m helper \<Rightarrow> 'm status_event \<Rightarrow> 'm helper" where
  "run_event h (Mark out now m) = mark_dirty now m (set_output_id out h)"
| "run_event h (Restored out m) = unmark_dirty m (set_output_id out h)"
| "run_event h (Poll now) = cmd_unmark_dirty now (set_output_id 0 h)"

text \<open>
  The promise: since when the worker is dirty, the text that waits, and what the server was told. Only the first mark
  is told, and only the first look more than thirty seconds after the last mark ends the state.
\<close>

record 'm status_spec =
  sp_since :: "nat option"
  sp_text :: "'m option"
  sp_told :: "'m api_message list"

fun spec_event :: "u32 \<Rightarrow> 'm status_spec \<Rightarrow> 'm status_event \<Rightarrow> 'm status_spec" where
  "spec_event w s (Mark out now m) = s\<lparr>sp_since := Some now, sp_told := sp_told s
     @ (if sp_since s = None then [ApiCmd w out MarkDirty, ApiLog w out m Warn] else [])\<rparr>"
| "spec_event w s (Restored out m) = s\<lparr>sp_text := Some m\<rparr>"
| "spec_event w s (Poll now) =
    (case sp_since s of None \<Rightarrow> s
     | Some t \<Rightarrow> if t + 30 * 1000000000 < now
         then \<lparr>sp_since = None, sp_text = None, sp_told = sp_told s @ [ApiCmd w 0 UnMarkDirty]
            @ (case sp_text s of None \<Rightarrow> [] | Some m \<Rightarrow> [ApiLog w 0 m Info])\<rparr>
         else s)"

definition spec_new :: "'m status_spec" where
  "spec_new = \<lparr>sp_since = None, sp_text = None, sp_told = []\<rparr>"

definition status_sim :: "u32 \<Rightarrow> 'm status_spec \<Rightarrow> 'm helper \<Rightarrow> bool" where
  "status_sim w s h \<longleftrightarrow> he_worker_id h = w \<and> is_dirty h = (sp_since s \<noteq> None) \<and> get_last_dirty_time h = sp_since s
     \<and> get_unmark_message h = sp_text s \<and> he_api_tx h = Some (sp_told s)"

lemma status_sim_step: "status_sim w s h \<Longrightarrow> status_sim w (spec_event w s e) (run_event h e)"
  by (cases e) (auto simp: status_sim_def status_defs DIRTY_TIMEOUT_def Let_def split: option.splits)

lemma status_sim_run: "status_sim w s h \<Longrightarrow> status_sim w (foldl (spec_event w) s es) (foldl run_event h es)"
  by (induction es arbitrary: s h) (auto dest: status_sim_step)

lemma status_sim_new: "status_sim w spec_new (set_api_config (helper_new w))"
  by (simp add: status_sim_def spec_new_def set_api_config_def helper_new_def status_defs)

text \<open>The commands among what was told.\<close>

definition commands :: "'m api_message list \<Rightarrow> cmd list" where
  "commands ms = [c. ApiCmd _ _ c \<leftarrow> ms]"

definition alternating :: "nat \<Rightarrow> cmd list" where
  "alternating n = map (\<lambda>i. if even i then MarkDirty else UnMarkDirty) [0..<n]"

lemma commands_append [simp]: "commands (xs @ ys) = commands xs @ commands ys"
  by (simp add: commands_def)

lemma commands_simps [simp]: "commands [] = []" "commands (ApiCmd w i c # xs) = c # commands xs"
    "commands (ApiLog w i m l # xs) = commands xs"
  by (simp_all add: commands_def)

lemma alternating_Suc: "alternating (Suc n) = alternating n @ [if even n then MarkDirty else UnMarkDirty]"
  by (simp add: alternating_def)

definition told_ok :: "'m status_spec \<Rightarrow> bool" where
  "told_ok s \<longleftrightarrow> (\<exists>n. commands (sp_told s) = alternating n \<and> (odd n \<longleftrightarrow> sp_since s \<noteq> None))"

lemma told_ok_step: "told_ok s \<Longrightarrow> told_ok (spec_event w s e)"
proof -
  assume "told_ok s"
  then obtain n where n: "commands (sp_told s) = alternating n" "odd n \<longleftrightarrow> sp_since s \<noteq> None"
    by (auto simp: told_ok_def)
  show ?thesis
    using n by (cases e) (auto simp: told_ok_def alternating_Suc split: option.splits intro: exI [of _ n] exI [of _ "Suc n"])
qed

lemma told_ok_run: "told_ok s \<Longrightarrow> told_ok (foldl (spec_event w) s es)"
  by (induction es arbitrary: s) (auto dest: told_ok_step)

text \<open>
  C8. The server is told the truth and nothing twice: over any marks, texts and looks of the supervisor the helper
  behaves like the promise above; the commands sent are \<open>mark_dirty\<close> and \<open>unmark_dirty\<close> in turn, and the
  worker is dirty exactly when the last one is \<open>mark_dirty\<close>.
\<close>

theorem status_protocol:
  "let h = foldl run_event (set_api_config (helper_new w)) es; s = foldl (spec_event w) spec_new es in
     is_dirty h = (sp_since s \<noteq> None) \<and> get_last_dirty_time h = sp_since s \<and> get_unmark_message h = sp_text s
     \<and> he_api_tx h = Some (sp_told s)
     \<and> (\<exists>n. commands (sp_told s) = alternating n \<and> (is_dirty h \<longleftrightarrow> odd n))"
proof -
  have "status_sim w (foldl (spec_event w) spec_new es) (foldl run_event (set_api_config (helper_new w)) es)"
    by (rule status_sim_run [OF status_sim_new])
  moreover have "told_ok (foldl (spec_event w) spec_new es)"
    by (rule told_ok_run) (auto simp: told_ok_def spec_new_def alternating_def)
  ultimately show ?thesis
    by (auto simp: status_sim_def told_ok_def Let_def)
qed

text \<open>
  A worker that is marked by \<open>cmd_mark_dirty\<close> alone, as \<open>output_unix.rs\<close> does, has no time of the last mark: no look of
  the supervisor ever clears it.
\<close>

lemma cmd_mark_dirty_sticks:
  "is_dirty (foldl run_event (cmd_mark_dirty (set_api_config (helper_new w))) (map Poll ts))"
proof -
  have "is_dirty h \<and> get_last_dirty_time h = None \<Longrightarrow> is_dirty (foldl run_event h (map Poll ts))" for h :: "'a helper"
    by (induction ts arbitrary: h) (simp_all add: status_defs)
  then show ?thesis
    by (simp add: status_defs set_api_config_def helper_new_def)
qed

end
