(* ===== verification/Workers.thy ===== *)
theory Workers
  imports Worker_Status Config
begin

text \<open>
  The workers of \<open>workers/mod.rs\<close> and \<open>wait_and_abort\<close> of \<open>misc.rs\<close>. A worker is one input task and a task per output.
  The runtime of tokio is a list of the tasks that were spawned (the handle of a task is its place in the list), which
  of them have finished, and which of them were told to cancel (every task has a token of its own). The tasks themselves
  are input and output loops over sockets and pipes; here they are named by the configuration they were started with.
\<close>

section \<open>Tasks\<close>

datatype input_kind = InHttp | InUdp | InRtp | InHls | InFfmpeg | InUnix
datatype output_kind = OutHttp | OutUdp | OutRtp | OutUnix

text \<open>The body of a task; a type without a body ends at once.\<close>

definition input_kind_of :: "rstring \<Rightarrow> input_kind option" where
  "input_kind_of task_type =
    (if task_type = [0x68, 0x74, 0x74, 0x70] then Some InHttp
     else if task_type = [0x75, 0x64, 0x70] then Some InUdp
     else if task_type = [0x72, 0x74, 0x70] then Some InRtp
     else if task_type = [0x68, 0x6C, 0x73] then Some InHls
     else if task_type = [0x66, 0x66, 0x6D, 0x70, 0x65, 0x67] then Some InFfmpeg
     else if task_type = [0x75, 0x6E, 0x69, 0x78] then Some InUnix
     else None)"

definition output_kind_of :: "rstring \<Rightarrow> output_kind option" where
  "output_kind_of task_type =
    (if task_type = [0x68, 0x74, 0x74, 0x70] then Some OutHttp
     else if task_type = [0x75, 0x64, 0x70] then Some OutUdp
     else if task_type = [0x72, 0x74, 0x70] then Some OutRtp
     else if task_type = [0x75, 0x6E, 0x69, 0x78] then Some OutUnix
     else None)"

datatype task = InputTask "input_kind option" stream | OutputTask "output_kind option" output_config
  | EpgRun epg_config | RouterRun http_router_config

type_synonym handle = nat

record runtime =
  rt_tasks :: "task list"
  rt_finished :: "handle set"
  rt_cancelled :: "handle set"

definition spawn :: "task \<Rightarrow> runtime \<Rightarrow> handle \<times> runtime" where
  "spawn t rt = (length (rt_tasks rt), rt\<lparr>rt_tasks := rt_tasks rt @ [t]\<rparr>)"

definition cancel_all :: "handle set \<Rightarrow> runtime \<Rightarrow> runtime" where
  "cancel_all hs rt = rt\<lparr>rt_cancelled := rt_cancelled rt \<union> hs\<rparr>"

definition is_finished :: "runtime \<Rightarrow> handle \<Rightarrow> bool" where
  "is_finished rt h \<longleftrightarrow> h \<in> rt_finished rt"

text \<open>How a task that was told to cancel ends within three seconds, or that it does not and is aborted.\<close>

datatype ending = Ends | Panics | TimesOut
datatype waited = Aborted bool | JoinError

definition wait_and_abort :: "ending \<Rightarrow> handle \<Rightarrow> runtime \<Rightarrow> waited \<times> runtime" where
  "wait_and_abort e h rt =
    (if is_finished rt h then (Aborted False, rt)
     else let rt' = rt\<lparr>rt_finished := insert h (rt_finished rt)\<rparr>
          in case e of Ends \<Rightarrow> (Aborted False, rt') | Panics \<Rightarrow> (JoinError, rt') | TimesOut \<Rightarrow> (Aborted True, rt'))"

section \<open>Workers\<close>

datatype worker_msg =
    OutputTypeUnsupported rstring
  | RemoteFinished
  | OutputRestarted u32
  | OutputStopped u32
  | OutputAborting u32
  | OutputError u32
  | RemoteStopped
  | RemoteAborting
  | RemoteError

record worker =
  wk_config :: stream
  wk_remote :: handle
  wk_outputs :: "u32 \<rightharpoonup> handle"
  wk_helper :: "worker_msg helper"

definition spawn_remote :: "stream \<Rightarrow> runtime \<Rightarrow> handle \<times> runtime" where
  "spawn_remote config rt = spawn (InputTask (input_kind_of (s_task_type config)) config) rt"

definition spawn_output :: "output_config \<Rightarrow> runtime \<Rightarrow> handle \<times> runtime" where
  "spawn_output out rt = spawn (OutputTask (output_kind_of (o_task_type out)) out) rt"

type_synonym outputs_state = "(u32 \<rightharpoonup> handle) \<times> worker_msg helper \<times> runtime"

definition new_output :: "outputs_state \<Rightarrow> output_config \<Rightarrow> outputs_state" where
  "new_output st out = (case st of (outputs, helper, rt) \<Rightarrow>
     if \<not> is_task_type_allowed (o_task_type out)
     then (outputs, helper_log (OutputTypeUnsupported (o_task_type out)) helper, rt)
     else let (h, rt) = spawn_output out rt in (outputs(o_id out \<mapsto> h), helper, rt))"

definition worker_new :: "stream \<Rightarrow> worker_msg helper \<Rightarrow> runtime \<Rightarrow> worker \<times> runtime" where
  "worker_new config helper rt =
    (let (remote, rt) = spawn_remote config rt;
         (outputs, helper, rt) = foldl new_output (Map.empty, helper, rt) (s_outputs config)
     in (\<lparr>wk_config = config, wk_remote = remote, wk_outputs = outputs, wk_helper = helper\<rparr>, rt))"

text \<open>The check of the supervisor: \<open>True\<close> when the input task has ended.\<close>

definition retain_outputs :: "runtime \<Rightarrow> (u32 \<rightharpoonup> handle) \<Rightarrow> (u32 \<rightharpoonup> handle)" where
  "retain_outputs rt outputs = (\<lambda>i. case outputs i of Some h \<Rightarrow> if is_finished rt h then None else Some h | None \<Rightarrow> None)"

definition respawn_output :: "outputs_state \<Rightarrow> output_config \<Rightarrow> outputs_state" where
  "respawn_output st out = (case st of (outputs, helper, rt) \<Rightarrow>
     if outputs (o_id out) \<noteq> None then st
     else if \<not> is_task_type_allowed (o_task_type out)
     then (outputs, helper_log (OutputTypeUnsupported (o_task_type out)) helper, rt)
     else let (h, rt) = spawn_output out rt
          in (outputs(o_id out \<mapsto> h), helper_log (OutputRestarted (o_id out)) helper, rt))"

definition worker_monitor :: "worker \<Rightarrow> runtime \<Rightarrow> bool \<times> worker \<times> runtime" where
  "worker_monitor w rt =
    (if is_finished rt (wk_remote w) then
       (True, w\<lparr>wk_helper := helper_log RemoteFinished (wk_helper w), wk_outputs := Map.empty\<rparr>,
        cancel_all (ran (wk_outputs w)) rt)
     else
       let (outputs, helper, rt) = foldl respawn_output (retain_outputs rt (wk_outputs w), wk_helper w, rt) (s_outputs (wk_config w))
       in (False, w\<lparr>wk_outputs := outputs, wk_helper := helper\<rparr>, rt))"

text \<open>
  Stopping. The order in which the map of outputs is walked is an argument, and how each task ends.
\<close>

definition output_waited_msg :: "u32 \<Rightarrow> waited \<Rightarrow> worker_msg" where
  "output_waited_msg i r = (case r of Aborted True \<Rightarrow> OutputStopped i | Aborted False \<Rightarrow> OutputAborting i
     | JoinError \<Rightarrow> OutputError i)"

definition remote_waited_msg :: "waited \<Rightarrow> worker_msg" where
  "remote_waited_msg r = (case r of Aborted True \<Rightarrow> RemoteStopped | Aborted False \<Rightarrow> RemoteAborting
     | JoinError \<Rightarrow> RemoteError)"

fun stop_outputs :: "(handle \<Rightarrow> ending) \<Rightarrow> (u32 \<times> handle) list \<Rightarrow> worker_msg helper \<times> runtime \<Rightarrow> worker_msg helper \<times> runtime" where
  "stop_outputs ends [] st = st"
| "stop_outputs ends ((i, h) # rest) (helper, rt) =
    (let (r, rt) = wait_and_abort (ends h) h rt
     in stop_outputs ends rest (helper_log (output_waited_msg i r) helper, rt))"

definition worker_stop :: "(handle \<Rightarrow> ending) \<Rightarrow> ((u32 \<rightharpoonup> handle) \<Rightarrow> (u32 \<times> handle) list) \<Rightarrow> worker \<Rightarrow> runtime
    \<Rightarrow> worker_msg helper \<times> runtime" where
  "worker_stop ends walk w rt =
    (let rt = cancel_all (ran (wk_outputs w)) rt;
         rt = cancel_all {wk_remote w} rt;
         (helper, rt) = stop_outputs ends (walk (wk_outputs w)) (wk_helper w, rt);
         (r, rt) = wait_and_abort (ends (wk_remote w)) (wk_remote w) rt
     in (helper_log (remote_waited_msg r) helper, rt))"

definition worker_stop_output :: "(handle \<Rightarrow> ending) \<Rightarrow> u32 \<Rightarrow> worker \<Rightarrow> runtime \<Rightarrow> worker \<times> runtime" where
  "worker_stop_output ends i w rt = (case wk_outputs w i of
     None \<Rightarrow> (w, rt)
   | Some h \<Rightarrow>
       let (r, rt') = wait_and_abort (ends h) h (cancel_all {h} rt)
       in (w\<lparr>wk_outputs := (wk_outputs w)(i := None), wk_helper := helper_log (output_waited_msg i r) (wk_helper w)\<rparr>, rt'))"

text \<open>A dump is an input task that reads an output back.\<close>

definition start_dump_task :: "stream \<Rightarrow> runtime \<Rightarrow> handle \<times> runtime" where
  "start_dump_task config rt = spawn_remote config rt"

definition stop_dump_task :: "(handle \<Rightarrow> ending) \<Rightarrow> handle \<Rightarrow> runtime \<Rightarrow> waited \<times> runtime" where
  "stop_dump_task ends h rt = wait_and_abort (ends h) h (cancel_all {h} rt)"

section \<open>Growing runtimes\<close>

definition rt_grows :: "runtime \<Rightarrow> runtime \<Rightarrow> bool" where
  "rt_grows rt rt' \<longleftrightarrow> (\<exists>ts. rt' = rt\<lparr>rt_tasks := rt_tasks rt @ ts\<rparr>)"

lemma rt_grows_refl [simp]: "rt_grows rt rt"
  by (auto simp: rt_grows_def intro!: exI [of _ "[]"])

lemma rt_grows_trans: "rt_grows a b \<Longrightarrow> rt_grows b c \<Longrightarrow> rt_grows a c"
  by (auto simp: rt_grows_def)

lemma rt_grows_simps:
  assumes "rt_grows rt rt'"
  shows "rt_finished rt' = rt_finished rt" "rt_cancelled rt' = rt_cancelled rt" "length (rt_tasks rt) \<le> length (rt_tasks rt')"
  using assms by (auto simp: rt_grows_def)

lemma rt_grows_nth: "rt_grows rt rt' \<Longrightarrow> h < length (rt_tasks rt) \<Longrightarrow> rt_tasks rt' ! h = rt_tasks rt ! h"
  by (auto simp: rt_grows_def nth_append)

lemma spawn_grows: "spawn t rt = (h, rt') \<Longrightarrow> rt_grows rt rt' \<and> h = length (rt_tasks rt) \<and> length (rt_tasks rt') = Suc h
    \<and> rt_tasks rt' ! h = t"
  by (auto simp: spawn_def rt_grows_def)

text \<open>
  A map of outputs whose tasks were spawned at \<open>n\<close> or later: handles of different outputs differ, and each task runs
  an output of the configuration, as it is configured, that has the id it is kept under.
\<close>

definition outs_wf :: "output_config list \<Rightarrow> nat \<Rightarrow> (u32 \<rightharpoonup> handle) \<Rightarrow> runtime \<Rightarrow> bool" where
  "outs_wf cfg n outputs rt \<longleftrightarrow> (\<forall>i h. outputs i = Some h \<longrightarrow> n \<le> h \<and> h < length (rt_tasks rt)
     \<and> (\<exists>out \<in> set cfg. o_id out = i \<and> rt_tasks rt ! h = OutputTask (output_kind_of (o_task_type out)) out))
     \<and> inj_on outputs (dom outputs)"

lemma outs_wf_empty [simp]: "outs_wf cfg n Map.empty rt"
  by (simp add: outs_wf_def)

lemma outs_wf_grows: "outs_wf cfg n outputs rt \<Longrightarrow> rt_grows rt rt' \<Longrightarrow> outs_wf cfg n outputs rt'"
  unfolding outs_wf_def using rt_grows_simps(3) [of rt rt'] rt_grows_nth [of rt rt'] by (metis order.strict_trans2)

lemma outs_wf_sub: "outs_wf cfg n outputs rt \<Longrightarrow> outputs' \<subseteq>\<^sub>m outputs \<Longrightarrow> outs_wf cfg n outputs' rt"
  unfolding outs_wf_def by (auto simp: map_le_def inj_on_def dom_def)

lemma outs_wf_spawn:
  assumes "outs_wf cfg n outputs rt" "spawn_output out rt = (h, rt')" "n \<le> length (rt_tasks rt)" "out \<in> set cfg"
  shows "outs_wf cfg n (outputs(o_id out \<mapsto> h)) rt' \<and> rt_grows rt rt' \<and> h = length (rt_tasks rt)"
proof -
  note new = spawn_grows [OF assms(2) [unfolded spawn_output_def]]
  have wf: "outs_wf cfg n outputs rt'" using assms(1) new by (blast intro: outs_wf_grows)
  have "outputs i \<noteq> Some h" for i
    using assms(1) new unfolding outs_wf_def by force
  then have "inj_on (outputs(o_id out \<mapsto> h)) (dom (outputs(o_id out \<mapsto> h)))"
    using wf unfolding outs_wf_def inj_on_def by (metis (full_types) dom_fun_upd fun_upd_other fun_upd_same insertE option.simps(3))
  then show ?thesis
    using wf new assms(3,4) by (auto simp: outs_wf_def)
qed

lemma new_output_step:
  assumes "new_output (outputs, helper, rt) out = (outputs', helper', rt')"
    and "outs_wf cfg n outputs rt" "n \<le> length (rt_tasks rt)" "out \<in> set cfg"
  shows "outs_wf cfg n outputs' rt' \<and> rt_grows rt rt'
    \<and> dom outputs' = dom outputs \<union> (if is_task_type_allowed (o_task_type out) then {o_id out} else {})"
  using assms outs_wf_spawn [OF assms(2) _ assms(3,4)]
  by (cases "spawn_output out rt") (auto simp: new_output_def split: if_splits)

lemma new_outputs:
  assumes "foldl new_output (outputs, helper, rt) outs = (outputs', helper', rt')"
    and "outs_wf cfg n outputs rt" "n \<le> length (rt_tasks rt)" "set outs \<subseteq> set cfg"
  shows "outs_wf cfg n outputs' rt' \<and> rt_grows rt rt'
    \<and> dom outputs' = dom outputs \<union> o_id ` {out \<in> set outs. is_task_type_allowed (o_task_type out)}"
  using assms
proof (induction outs arbitrary: outputs helper rt)
  case (Cons out outs)
  obtain o1 h1 rt1 where step: "new_output (outputs, helper, rt) out = (o1, h1, rt1)" by (metis prod_cases3)
  have "out \<in> set cfg" "set outs \<subseteq> set cfg" using Cons.prems(4) by auto
  note one = new_output_step [OF step Cons.prems(2,3) this(1)]
  have "foldl new_output (o1, h1, rt1) outs = (outputs', helper', rt')" using Cons.prems(1) step by simp
  note rest = Cons.IH [OF this]
  show ?case
    using one rest rt_grows_simps(3) [of rt rt1] Cons.prems(3,4) by (auto intro: rt_grows_trans split: if_splits)
qed auto

lemma respawn_output_step:
  assumes "respawn_output (outputs, helper, rt) out = (outputs', helper', rt')"
    and "outs_wf cfg n outputs rt" "n \<le> length (rt_tasks rt)" "out \<in> set cfg"
  shows "outs_wf cfg n outputs' rt' \<and> rt_grows rt rt' \<and> outputs \<subseteq>\<^sub>m outputs'
    \<and> dom outputs' = dom outputs \<union> (if is_task_type_allowed (o_task_type out) then {o_id out} else {})
    \<and> (\<forall>i. outputs i = None \<longrightarrow> (\<forall>h. outputs' i = Some h \<longrightarrow> length (rt_tasks rt) \<le> h))"
  using assms outs_wf_spawn [OF assms(2) _ assms(3,4)]
  by (cases "spawn_output out rt") (auto simp: respawn_output_def map_le_def split: if_splits)

lemma respawn_outputs:
  assumes "foldl respawn_output (outputs, helper, rt) outs = (outputs', helper', rt')"
    and "outs_wf cfg n outputs rt" "n \<le> length (rt_tasks rt)" "set outs \<subseteq> set cfg"
  shows "outs_wf cfg n outputs' rt' \<and> rt_grows rt rt' \<and> outputs \<subseteq>\<^sub>m outputs'
    \<and> dom outputs' = dom outputs \<union> o_id ` {out \<in> set outs. is_task_type_allowed (o_task_type out)}
    \<and> (\<forall>i. outputs i = None \<longrightarrow> (\<forall>h. outputs' i = Some h \<longrightarrow> length (rt_tasks rt) \<le> h))"
  using assms
proof (induction outs arbitrary: outputs helper rt)
  case (Cons out outs)
  obtain o1 h1 rt1 where step: "respawn_output (outputs, helper, rt) out = (o1, h1, rt1)" by (metis prod_cases3)
  have "out \<in> set cfg" "set outs \<subseteq> set cfg" using Cons.prems(4) by auto
  note one = respawn_output_step [OF step Cons.prems(2,3) this(1)]
  have fold: "foldl respawn_output (o1, h1, rt1) outs = (outputs', helper', rt')" using Cons.prems(1) step by simp
  have len: "length (rt_tasks rt) \<le> length (rt_tasks rt1)" using one rt_grows_simps(3) by blast
  have rest: "outs_wf cfg n outputs' rt' \<and> rt_grows rt1 rt' \<and> o1 \<subseteq>\<^sub>m outputs'
    \<and> dom outputs' = dom o1 \<union> o_id ` {out \<in> set outs. is_task_type_allowed (o_task_type out)}
    \<and> (\<forall>i. o1 i = None \<longrightarrow> (\<forall>h. outputs' i = Some h \<longrightarrow> length (rt_tasks rt1) \<le> h))"
    using Cons.IH [OF fold] one len Cons.prems(3,4) by simp
  have "\<forall>i. outputs i = None \<longrightarrow> (\<forall>h. outputs' i = Some h \<longrightarrow> length (rt_tasks rt) \<le> h)"
    using one rest len by (metis domI map_le_def option.exhaust option.inject order_trans)
  then show ?case
    using one rest by (auto intro: rt_grows_trans map_le_trans split: if_splits)
qed auto

section \<open>A worker in order\<close>

definition worker_ok :: "worker \<Rightarrow> runtime \<Rightarrow> bool" where
  "worker_ok w rt \<longleftrightarrow> wk_remote w < length (rt_tasks rt) \<and> outs_wf (s_outputs (wk_config w)) (Suc (wk_remote w)) (wk_outputs w) rt
     \<and> rt_tasks rt ! wk_remote w = InputTask (input_kind_of (s_task_type (wk_config w))) (wk_config w)"

definition worker_handles :: "worker \<Rightarrow> handle set" where
  "worker_handles w = insert (wk_remote w) (ran (wk_outputs w))"

definition rt_ok :: "runtime \<Rightarrow> bool" where
  "rt_ok rt \<longleftrightarrow> rt_finished rt \<subseteq> {..<length (rt_tasks rt)}"

lemma worker_handles_range:
  assumes "worker_ok w rt" "h \<in> worker_handles w"
  shows "wk_remote w \<le> h \<and> h < length (rt_tasks rt)"
proof (cases "h = wk_remote w")
  case True
  then show ?thesis using assms(1) by (simp add: worker_ok_def)
next
  case False
  then obtain i where "wk_outputs w i = Some h" using assms(2) by (auto simp: worker_handles_def ran_def)
  then have "Suc (wk_remote w) \<le> h \<and> h < length (rt_tasks rt)"
    using assms(1) unfolding worker_ok_def outs_wf_def by blast
  then show ?thesis by simp
qed

lemma worker_ok_grows: "worker_ok w rt \<Longrightarrow> rt_grows rt rt' \<Longrightarrow> worker_ok w rt'"
  unfolding worker_ok_def using rt_grows_simps(3) [of rt rt'] rt_grows_nth [of rt rt'] outs_wf_grows by fastforce

lemma rt_ok_grows: "rt_ok rt \<Longrightarrow> rt_grows rt rt' \<Longrightarrow> rt_ok rt'"
  using rt_grows_simps [of rt rt'] by (auto simp: rt_ok_def)

lemma worker_new_ok:
  assumes "worker_new config helper rt = (w, rt')"
  shows "worker_ok w rt' \<and> rt_grows rt rt' \<and> wk_remote w = length (rt_tasks rt) \<and> wk_config w = config
    \<and> dom (wk_outputs w) = o_id ` {out \<in> set (s_outputs config). is_task_type_allowed (o_task_type out)}"
proof -
  obtain remote rt1 where remote: "spawn_remote config rt = (remote, rt1)" by (metis surj_pair)
  obtain outputs helper' where outs: "foldl new_output (Map.empty, helper, rt1) (s_outputs config) = (outputs, helper', rt')"
      and w: "w = \<lparr>wk_config = config, wk_remote = remote, wk_outputs = outputs, wk_helper = helper'\<rparr>"
    using assms by (auto simp: worker_new_def remote split: prod.splits)
  note one = spawn_grows [OF remote [unfolded spawn_remote_def]]
  then have "Suc remote \<le> length (rt_tasks rt1)" by simp
  note more = new_outputs [OF outs outs_wf_empty this subset_refl]
  show ?thesis
    using one more rt_grows_simps(3) [of rt1 rt'] rt_grows_nth [of rt1 rt' remote]
    by (auto simp: w worker_ok_def intro: rt_grows_trans)
qed

lemma worker_new_handles:
  assumes "worker_new config helper rt = (w, rt')" "h \<in> worker_handles w"
  shows "length (rt_tasks rt) \<le> h"
  using worker_new_ok [OF assms(1)] worker_handles_range [of w rt' h] assms(2) by simp

lemma retain_outputs_le: "retain_outputs rt outputs \<subseteq>\<^sub>m outputs"
  by (auto simp: map_le_def retain_outputs_def dom_def split: option.splits if_splits)

lemma worker_monitor_running:
  assumes "worker_monitor w rt = (fin, w', rt')" "worker_ok w rt" "\<not> is_finished rt (wk_remote w)" "rt_ok rt"
  shows "\<not> fin \<and> worker_ok w' rt' \<and> rt_grows rt rt' \<and> wk_config w' = wk_config w \<and> wk_remote w' = wk_remote w
    \<and> dom (wk_outputs w') = dom (retain_outputs rt (wk_outputs w))
        \<union> o_id ` {out \<in> set (s_outputs (wk_config w)). is_task_type_allowed (o_task_type out)}
    \<and> (\<forall>i h. wk_outputs w' i = Some h \<longrightarrow> \<not> is_finished rt' h \<and> (h < length (rt_tasks rt) \<longrightarrow> wk_outputs w i = Some h))
    \<and> (\<forall>i h. wk_outputs w i = Some h \<longrightarrow> \<not> is_finished rt h \<longrightarrow> wk_outputs w' i = Some h)"
proof -
  let ?kept = "retain_outputs rt (wk_outputs w)"
  obtain outputs helper where fold: "foldl respawn_output (?kept, wk_helper w, rt) (s_outputs (wk_config w)) = (outputs, helper, rt')"
      and w': "w' = w\<lparr>wk_outputs := outputs, wk_helper := helper\<rparr>" and fin: "\<not> fin"
    using assms(1,3) by (auto simp: worker_monitor_def split: prod.splits)
  have wf: "outs_wf (s_outputs (wk_config w)) (Suc (wk_remote w)) ?kept rt" "Suc (wk_remote w) \<le> length (rt_tasks rt)"
    using assms(2) retain_outputs_le outs_wf_sub by (auto simp: worker_ok_def)
  note r = respawn_outputs [OF fold wf subset_refl]
  have ok: "worker_ok w' rt'"
    using r assms(2) rt_grows_simps(3) [of rt rt'] rt_grows_nth [of rt rt' "wk_remote w"] by (auto simp: w' worker_ok_def)
  have live: "\<not> is_finished rt' h \<and> (h < length (rt_tasks rt) \<longrightarrow> wk_outputs w i = Some h)" if out: "outputs i = Some h" for i h
  proof (cases "?kept i")
    case None
    then have "length (rt_tasks rt) \<le> h" using r out by blast
    then show ?thesis
      using r assms(4) by (auto simp: is_finished_def rt_ok_def rt_grows_simps)
  next
    case (Some h')
    then have "?kept i = Some h" using r out unfolding map_le_def by (metis domI)
    then show ?thesis
      using r by (auto simp: retain_outputs_def is_finished_def rt_grows_simps split: option.splits if_splits)
  qed
  have kept: "outputs i = Some h" if "wk_outputs w i = Some h" "\<not> is_finished rt h" for i h
  proof -
    have "?kept i = Some h" using that by (simp add: retain_outputs_def)
    then show ?thesis using r unfolding map_le_def by (metis domI)
  qed
  have "dom outputs = dom ?kept \<union> o_id ` {out \<in> set (s_outputs (wk_config w)). is_task_type_allowed (o_task_type out)}"
    "rt_grows rt rt'"
    using r by blast+
  moreover have sel: "wk_outputs w' = outputs" "wk_config w' = wk_config w" "wk_remote w' = wk_remote w"
    by (simp_all add: w')
  ultimately show ?thesis
    unfolding sel using ok live kept fin by (intro conjI allI impI) blast+
qed

lemma worker_monitor_finished:
  assumes "is_finished rt (wk_remote w)"
  shows "worker_monitor w rt = (True, w\<lparr>wk_helper := helper_log RemoteFinished (wk_helper w), wk_outputs := Map.empty\<rparr>,
    cancel_all (ran (wk_outputs w)) rt)"
  using assms by (simp add: worker_monitor_def)

section \<open>Stopping a worker\<close>

definition walks :: "((u32 \<rightharpoonup> handle) \<Rightarrow> (u32 \<times> handle) list) \<Rightarrow> bool" where
  "walks walk \<longleftrightarrow> (\<forall>outputs. finite (dom outputs) \<longrightarrow> set (walk outputs) = {(i, h). outputs i = Some h})"

lemma wait_and_abort_rt: "wait_and_abort e h rt = (r, rt') \<Longrightarrow> rt' = rt\<lparr>rt_finished := insert h (rt_finished rt)\<rparr>"
  by (auto simp: wait_and_abort_def is_finished_def insert_absorb Let_def split: if_splits ending.splits)

lemma stop_outputs_rt:
  "stop_outputs ends outs (helper, rt) = (helper', rt') \<Longrightarrow> rt' = rt\<lparr>rt_finished := rt_finished rt \<union> snd ` set outs\<rparr>"
proof (induction outs arbitrary: helper rt)
  case (Cons x outs)
  obtain i h where x: "x = (i, h)" by (cases x)
  obtain r rt1 where w: "wait_and_abort (ends h) h rt = (r, rt1)" by (metis surj_pair)
  have "stop_outputs ends outs (helper_log (output_waited_msg i r) helper, rt1) = (helper', rt')"
    using Cons.prems by (simp add: x w)
  from Cons.IH [OF this] wait_and_abort_rt [OF w] show ?case by (simp add: x insert_commute)
qed simp

lemma worker_stop_rt:
  assumes "worker_stop ends walk w rt = (helper, rt')" "walks walk" "finite (dom (wk_outputs w))"
  shows "rt' = rt\<lparr>rt_finished := rt_finished rt \<union> worker_handles w, rt_cancelled := rt_cancelled rt \<union> worker_handles w\<rparr>"
proof -
  let ?rt = "cancel_all {wk_remote w} (cancel_all (ran (wk_outputs w)) rt)"
  obtain h1 rt1 where outs: "stop_outputs ends (walk (wk_outputs w)) (wk_helper w, ?rt) = (h1, rt1)" by (metis surj_pair)
  obtain r where remote: "wait_and_abort (ends (wk_remote w)) (wk_remote w) rt1 = (r, rt')"
    using assms(1) by (auto simp: worker_stop_def outs Let_def split: prod.splits)
  have "snd ` set (walk (wk_outputs w)) = ran (wk_outputs w)"
    using assms(2,3) by (force simp: walks_def ran_def)
  then show ?thesis
    using stop_outputs_rt [OF outs] wait_and_abort_rt [OF remote] by (simp add: cancel_all_def worker_handles_def Un_assoc)
qed

text \<open>
  C7. The check of a worker keeps its outputs running. The worker is one in order (\<open>worker_ok\<close>, which holds of every worker the supervisor has), and the types of its outputs
  are allowed. When the input task runs, then after the check there is a task for exactly the ids of the configured outputs; every one of these tasks runs an output of
  the configuration with that id, exactly as it is configured (so, when the ids are distinct, each configured output runs), none of the tasks has finished, and a task that was running
  is not touched. Nothing is cancelled. When the input task has ended, all outputs are
  cancelled and forgotten, and the check says so.
\<close>

theorem worker_monitor_restores:
  assumes "worker_ok w rt" "rt_ok rt"
    and "list_all (\<lambda>out. is_task_type_allowed (o_task_type out)) (s_outputs (wk_config w))"
    and "worker_monitor w rt = (fin, w', rt')"
  shows "fin = is_finished rt (wk_remote w) \<and> wk_config w' = wk_config w \<and> wk_remote w' = wk_remote w
    \<and> (if fin then wk_outputs w' = Map.empty \<and> rt' = rt\<lparr>rt_cancelled := rt_cancelled rt \<union> ran (wk_outputs w)\<rparr>
       else dom (wk_outputs w') = o_id ` set (s_outputs (wk_config w))
         \<and> (\<forall>i h. wk_outputs w' i = Some h \<longrightarrow> \<not> is_finished rt' h
              \<and> (\<exists>out \<in> set (s_outputs (wk_config w)). o_id out = i
                   \<and> rt_tasks rt' ! h = OutputTask (output_kind_of (o_task_type out)) out))
         \<and> (\<forall>i h. wk_outputs w i = Some h \<longrightarrow> \<not> is_finished rt h \<longrightarrow> wk_outputs w' i = Some h)
         \<and> rt_finished rt' = rt_finished rt \<and> rt_cancelled rt' = rt_cancelled rt)"
proof (cases "is_finished rt (wk_remote w)")
  case True
  then show ?thesis
    using assms(4) worker_monitor_finished [OF True] by (auto simp: cancel_all_def)
next
  case False
  note m = worker_monitor_running [OF assms(4,1) False assms(2)]
  then have grows: "rt_grows rt rt'" by blast
  have allowed: "{out \<in> set (s_outputs (wk_config w)). is_task_type_allowed (o_task_type out)} = set (s_outputs (wk_config w))"
    using assms(3) by (auto simp: list_all_iff)
  have "dom (wk_outputs w) \<subseteq> o_id ` set (s_outputs (wk_config w))"
    using assms(1) by (fastforce simp: worker_ok_def outs_wf_def)
  moreover have "dom (retain_outputs rt (wk_outputs w)) \<subseteq> dom (wk_outputs w)"
    using map_le_implies_dom_le [OF retain_outputs_le] .
  ultimately have dm: "dom (wk_outputs w') = o_id ` set (s_outputs (wk_config w))"
    using m unfolding allowed by blast
  have fin: "\<not> fin" and same: "wk_config w' = wk_config w" "wk_remote w' = wk_remote w"
    using m by blast+
  have runs: "\<exists>out \<in> set (s_outputs (wk_config w)). o_id out = i \<and> rt_tasks rt' ! h = OutputTask (output_kind_of (o_task_type out)) out"
    if "wk_outputs w' i = Some h" for i h
    using m that same unfolding worker_ok_def outs_wf_def by metis
  have live: "\<not> is_finished rt' h" if "wk_outputs w' i = Some h" for i h
    using m that by blast
  have kept: "wk_outputs w' i = Some h" if "wk_outputs w i = Some h" "\<not> is_finished rt h" for i h
    using m that by blast
  show ?thesis
    unfolding if_not_P [OF fin]
    by (intro conjI allI impI; (fact dm same rt_grows_simps [OF grows] | erule runs live | erule (1) kept | simp only: fin False))
qed

text \<open>A worker with one output, which has ended.\<close>

definition udp_output :: output_config where
  "udp_output = \<lparr>o_id = 7, o_name = [], o_output_url = [], o_task_type = [0x75, 0x64, 0x70], o_biss_key = [], o_ca_flag = 0,
     o_pkt_size = 1316, o_cbr = 0, o_proxy = False, o_allow = [], o_programs = [], o_err_count = 0\<rparr>"

definition udp_stream :: stream where
  "udp_stream = \<lparr>s_id = 5, s_remote_url = [], s_biss_key = [], s_name = [], s_task_type = [0x75, 0x64, 0x70],
     s_outputs = [udp_output], s_err_count = 0\<rparr>"

definition udp_runtime :: runtime where
  "udp_runtime = \<lparr>rt_tasks = [InputTask (Some InUdp) udp_stream, OutputTask (Some OutUdp) udp_output], rt_finished = {1}, rt_cancelled = {}\<rparr>"

definition udp_worker :: worker where
  "udp_worker = \<lparr>wk_config = udp_stream, wk_remote = 0, wk_outputs = [7 \<mapsto> 1], wk_helper = helper_new 5\<rparr>"

lemma udp_worker_ok: "worker_ok udp_worker udp_runtime" "rt_ok udp_runtime"
  by (auto simp: worker_ok_def outs_wf_def rt_ok_def udp_worker_def udp_runtime_def udp_stream_def udp_output_def
      input_kind_of_def output_kind_of_def intro!: exI [of _ udp_output])

theorem worker_monitor_restores_witness:
  "\<exists>w' rt' h. worker_monitor udp_worker udp_runtime = (False, w', rt') \<and> dom (wk_outputs w') = {7}
     \<and> wk_outputs w' 7 = Some h \<and> \<not> is_finished rt' h \<and> rt_tasks rt' ! h = OutputTask (Some OutUdp) udp_output"
proof -
  obtain fin w' rt' where run: "worker_monitor udp_worker udp_runtime = (fin, w', rt')" by (metis prod_cases3)
  have "list_all (\<lambda>out. is_task_type_allowed (o_task_type out)) (s_outputs (wk_config udp_worker))"
    by (simp add: udp_worker_def udp_stream_def udp_output_def is_task_type_allowed_def ALLOWED_TASK_TYPES_def)
  note m = worker_monitor_restores [OF udp_worker_ok this run]
  have udp: "\<not> is_finished udp_runtime (wk_remote udp_worker)" "s_outputs (wk_config udp_worker) = [udp_output]" "o_id udp_output = 7"
      "output_kind_of (o_task_type udp_output) = Some OutUdp"
    by (simp_all add: udp_worker_def udp_runtime_def udp_stream_def udp_output_def is_finished_def output_kind_of_def)
  have fin: "\<not> fin" using m udp(1) by simp
  have dm: "dom (wk_outputs w') = {7}" using m fin udp(2,3) by simp
  then obtain h where h: "wk_outputs w' 7 = Some h" by auto
  have "\<not> is_finished rt' h \<and> (\<exists>out \<in> set (s_outputs (wk_config udp_worker)). o_id out = 7
      \<and> rt_tasks rt' ! h = OutputTask (output_kind_of (o_task_type out)) out)"
    using m fin h by simp
  then show ?thesis
    using run fin dm h udp(2,4) by (intro exI [of _ w'] exI [of _ rt'] exI [of _ h]) simp
qed

end
