(* ===== verification/Supervisor.thy ===== *)
theory Supervisor
  imports Workers
begin

text \<open>
  \<open>supervisor.rs\<close>: the state of the supervisor and its operations. The HTTP server starts every operation as a task of
  its own, so operations interleave. Starting, stopping and restarting a worker are modelled step by step: a step ends
  where the code waits for a lock, for a task, or holds no lock (\<^emph>\<open>workers\<close> is a lock for readers and writers that is
  held for one access, \<^emph>\<open>workers_lock\<close> the set of workers that are being worked on, entered and left explicitly). The other
  operations are one step each: those that only change the state hold its lock from beginning to end, and those that stop
  a task take it out of the state first and then wait for it alone. Time, the parser of JSON, the file system,
  the walk over hash maps and the way tasks end are arguments.
\<close>

section \<open>State\<close>

datatype sv_error =
    ValidationError config_error
  | ParseError
  | LockContention
  | ConfigNotLoaded
  | WriteFailed
  | ConfigNotFound
  | StreamNotFound u32
  | WorkerNotFound u32
  | OutputNotFound u32
  | DumpNotFound u32
  | EpgRunning u32
  | EpgConfigNotFound u32
  | EpgNotRunning
  | JoinFailed
  | RouterNotRunning u32
  | ProbeInProcess u32

record supervisor =
  sv_src_config :: "rstring option"
  sv_config :: "config option"
  sv_dirty :: bool
  sv_last_update :: int
  sv_workers :: "u32 \<rightharpoonup> worker"
  sv_workers_lock :: "u32 set"
  sv_probe_lock :: "u32 set"
  sv_dumps :: "u32 \<rightharpoonup> handle"
  sv_epg :: "u32 \<rightharpoonup> handle"
  sv_http_router :: "u32 \<rightharpoonup> handle"
  sv_rt :: runtime

definition sv_new :: supervisor where
  "sv_new = \<lparr>sv_src_config = None, sv_config = None, sv_dirty = False, sv_last_update = 0, sv_workers = Map.empty,
     sv_workers_lock = {}, sv_probe_lock = {}, sv_dumps = Map.empty, sv_epg = Map.empty, sv_http_router = Map.empty,
     sv_rt = \<lparr>rt_tasks = [], rt_finished = {}, rt_cancelled = {}\<rparr>\<rparr>"

record sv_env =
  ve_parse :: "rstring \<Rightarrow> config option"
  ve_ends :: "handle \<Rightarrow> ending"
  ve_walk :: "(u32 \<rightharpoonup> handle) \<Rightarrow> (u32 \<times> handle) list"

section \<open>Configuration\<close>

definition SAVE_PERIOD_SEC :: int where
  "SAVE_PERIOD_SEC = 900"

definition sv_get_config :: "supervisor \<Rightarrow> rstring" where
  "sv_get_config s = (case sv_src_config s of None \<Rightarrow> [] | Some c \<Rightarrow> c)"

text \<open>The two locks may not be free within 50 ms.\<close>

definition sv_load :: "sv_env \<Rightarrow> bool \<Rightarrow> rstring \<Rightarrow> supervisor \<Rightarrow> (sv_error + unit) \<times> supervisor" where
  "sv_load env in_time cfg_json s = (case ve_parse env cfg_json of
     None \<Rightarrow> (Inl ParseError, s)
   | Some cfg \<Rightarrow> (case validate_config cfg of
       Inl e \<Rightarrow> (Inl (ValidationError e), s)
     | Inr _ \<Rightarrow> if in_time then (Inr (), s\<lparr>sv_src_config := Some cfg_json, sv_config := Some cfg\<rparr>)
         else (Inl LockContention, s)))"

definition sv_mark_dirty :: "int \<Rightarrow> supervisor \<Rightarrow> supervisor" where
  "sv_mark_dirty now s = s\<lparr>sv_dirty := True, sv_last_update := now\<rparr>"

text \<open>Saving returns what was written, when it was.\<close>

definition sv_save :: "bool \<Rightarrow> supervisor \<Rightarrow> (sv_error + rstring) \<times> supervisor" where
  "sv_save write_ok s = (case sv_src_config s of
     None \<Rightarrow> (Inl ConfigNotLoaded, s)
   | Some src_config \<Rightarrow> if write_ok then (Inr src_config, s\<lparr>sv_dirty := False\<rparr>) else (Inl WriteFailed, s))"

section \<open>Starting, stopping and restarting workers\<close>

definition workers_start :: "u32 \<Rightarrow> supervisor \<Rightarrow> (sv_error + worker) \<times> supervisor" where
  "workers_start i s = (case sv_config s of
     None \<Rightarrow> (Inl ConfigNotFound, s)
   | Some config \<Rightarrow> (case get_stream config i of
       None \<Rightarrow> (Inl (StreamNotFound i), s)
     | Some stream \<Rightarrow>
         let helper = set_api_config (helper_new i);
             (w, rt) = worker_new stream helper (sv_rt s)
         in (Inr w, s\<lparr>sv_rt := rt\<rparr>)))"

text \<open>Where an operation stands, with what it holds in its hands.\<close>

datatype op =
    StartCheck u32
  | StartLock u32
  | StartNew u32
  | InsertWorker u32 worker
  | StopCheck u32
  | StopLock u32
  | StopRemove u32
  | StopWait u32 worker
  | RestartLock u32
  | RestartRemove u32
  | RestartStop u32 worker
  | Unlock u32 "sv_error + unit"
  | Done "sv_error + unit"

fun advance :: "sv_env \<Rightarrow> op \<Rightarrow> supervisor \<Rightarrow> op \<times> supervisor" where
  "advance env (StartCheck i) s = (if sv_workers s i \<noteq> None then (Done (Inr ()), s) else (StartLock i, s))"
| "advance env (StartLock i) s =
    (if i \<in> sv_workers_lock s then (Done (Inr ()), s)
     else (StartNew i, s\<lparr>sv_workers_lock := insert i (sv_workers_lock s)\<rparr>))"
| "advance env (StartNew i) s = (case workers_start i s of
     (Inl e, s) \<Rightarrow> (Unlock i (Inl e), s)
   | (Inr w, s) \<Rightarrow> (InsertWorker i w, s))"
| "advance env (InsertWorker i w) s = (Unlock i (Inr ()), s\<lparr>sv_workers := (sv_workers s)(i \<mapsto> w)\<rparr>)"
| "advance env (StopCheck i) s = (if sv_workers s i = None then (Done (Inr ()), s) else (StopLock i, s))"
| "advance env (StopLock i) s =
    (if i \<in> sv_workers_lock s then (Done (Inr ()), s)
     else (StopRemove i, s\<lparr>sv_workers_lock := insert i (sv_workers_lock s)\<rparr>))"
| "advance env (StopRemove i) s = (case sv_workers s i of
     None \<Rightarrow> (Unlock i (Inl (WorkerNotFound i)), s)
   | Some w \<Rightarrow> (StopWait i w, s\<lparr>sv_workers := (sv_workers s)(i := None)\<rparr>))"
| "advance env (StopWait i w) s =
    (Unlock i (Inr ()), s\<lparr>sv_rt := snd (worker_stop (ve_ends env) (ve_walk env) w (sv_rt s))\<rparr>)"
| "advance env (RestartLock i) s =
    (if i \<in> sv_workers_lock s then (Done (Inr ()), s)
     else (RestartRemove i, s\<lparr>sv_workers_lock := insert i (sv_workers_lock s)\<rparr>))"
| "advance env (RestartRemove i) s = (case sv_workers s i of
     None \<Rightarrow> (Unlock i (Inl (WorkerNotFound i)), s)
   | Some w \<Rightarrow> (RestartStop i w, s\<lparr>sv_workers := (sv_workers s)(i := None)\<rparr>))"
| "advance env (RestartStop i w) s =
    (StartNew i, s\<lparr>sv_rt := snd (worker_stop (ve_ends env) (ve_walk env) w (sv_rt s))\<rparr>)"
| "advance env (Unlock i r) s = (Done r, s\<lparr>sv_workers_lock := sv_workers_lock s - {i}\<rparr>)"
| "advance env (Done r) s = (Done r, s)"

text \<open>An operation alone, from its first step to its end: no operation has more than seven steps.\<close>

fun run_op :: "sv_env \<Rightarrow> nat \<Rightarrow> op \<Rightarrow> supervisor \<Rightarrow> op \<times> supervisor" where
  "run_op env 0 op s = (op, s)"
| "run_op env (Suc n) op s = (case advance env op s of (op', s') \<Rightarrow> run_op env n op' s')"

definition op_done :: "op \<Rightarrow> bool" where
  "op_done op \<longleftrightarrow> (\<exists>r. op = Done r)"

definition start_worker :: "sv_env \<Rightarrow> u32 \<Rightarrow> supervisor \<Rightarrow> op \<times> supervisor" where
  "start_worker env i s = run_op env 7 (StartCheck i) s"

definition stop_worker :: "sv_env \<Rightarrow> u32 \<Rightarrow> supervisor \<Rightarrow> op \<times> supervisor" where
  "stop_worker env i s = run_op env 7 (StopCheck i) s"

definition restart_worker :: "sv_env \<Rightarrow> u32 \<Rightarrow> supervisor \<Rightarrow> op \<times> supervisor" where
  "restart_worker env i s = run_op env 7 (RestartLock i) s"

text \<open>All streams of the configuration, one after the other; an error of one does not stop the others.\<close>

definition startall_worker :: "sv_env \<Rightarrow> supervisor \<Rightarrow> supervisor" where
  "startall_worker env s = (case sv_config s of None \<Rightarrow> s
     | Some config \<Rightarrow> foldl (\<lambda>s i. snd (start_worker env i s)) s (map s_id (c_streams config)))"

definition stopall_worker :: "sv_env \<Rightarrow> supervisor \<Rightarrow> supervisor" where
  "stopall_worker env s = (case sv_config s of None \<Rightarrow> s
     | Some config \<Rightarrow> foldl (\<lambda>s i. snd (stop_worker env i s)) s (map s_id (c_streams config)))"

section \<open>The monitor\<close>

text \<open>
  One round: save when the configuration has been dirty for long enough, check all workers (in the order of the walk),
  and hand out what is to be started again.
\<close>

definition monitor_save :: "int \<Rightarrow> bool \<Rightarrow> supervisor \<Rightarrow> supervisor" where
  "monitor_save now write_ok s =
    (if sv_dirty s \<and> now - sv_last_update s > SAVE_PERIOD_SEC then snd (sv_save write_ok s) else s)"

definition monitor_worker :: "supervisor \<times> u32 list \<Rightarrow> u32 \<Rightarrow> supervisor \<times> u32 list" where
  "monitor_worker st i = (case st of (s, restart_ids) \<Rightarrow> (case sv_workers s i of
     None \<Rightarrow> st
   | Some w \<Rightarrow> (case worker_monitor w (sv_rt s) of (finished, w, rt) \<Rightarrow>
       if finished then (s\<lparr>sv_workers := (sv_workers s)(i := None), sv_rt := rt\<rparr>, restart_ids @ [i])
       else (s\<lparr>sv_workers := (sv_workers s)(i \<mapsto> w), sv_rt := rt\<rparr>, restart_ids))))"

definition monitor_workers :: "u32 list \<Rightarrow> supervisor \<Rightarrow> supervisor \<times> op list" where
  "monitor_workers walk s = (case foldl monitor_worker (s, []) walk of (s, ids) \<Rightarrow> (s, map RestartLock ids))"

definition monitor_epg :: "u32 list \<Rightarrow> supervisor \<Rightarrow> supervisor \<times> u32 list" where
  "monitor_epg walk s =
    (let ended = filter (\<lambda>i. case sv_epg s i of None \<Rightarrow> False | Some h \<Rightarrow> is_finished (sv_rt s) h) walk
     in (s\<lparr>sv_epg := (\<lambda>i. if i \<in> set ended then None else sv_epg s i)\<rparr>, ended))"

section \<open>Programme guides, routers and dumps\<close>

definition epg_start :: "u32 \<Rightarrow> supervisor \<Rightarrow> (sv_error + unit) \<times> supervisor" where
  "epg_start i s =
    (if sv_epg s i \<noteq> None then (Inl (EpgRunning i), s)
     else case sv_config s of
       None \<Rightarrow> (Inl ConfigNotLoaded, s)
     | Some config \<Rightarrow> (case List.find (\<lambda>c. ec_id c = i) (c_epg_configs config) of
         None \<Rightarrow> (Inl (EpgConfigNotFound i), s)
       | Some epg_config \<Rightarrow>
           let (h, rt) = spawn (EpgRun epg_config) (sv_rt s)
           in (Inr (), s\<lparr>sv_epg := (sv_epg s)(i \<mapsto> h), sv_rt := rt\<rparr>)))"

definition waited_result :: "waited \<Rightarrow> sv_error + unit" where
  "waited_result r = (case r of Aborted _ \<Rightarrow> Inr () | JoinError \<Rightarrow> Inl JoinFailed)"

definition epg_stop :: "sv_env \<Rightarrow> u32 \<Rightarrow> supervisor \<Rightarrow> (sv_error + unit) \<times> supervisor" where
  "epg_stop env i s = (case sv_epg s i of
     None \<Rightarrow> (Inl EpgNotRunning, s)
   | Some h \<Rightarrow>
       let (r, rt) = wait_and_abort (ve_ends env h) h (cancel_all {h} (sv_rt s))
       in (waited_result r, s\<lparr>sv_epg := (sv_epg s)(i := None), sv_rt := rt\<rparr>))"

definition router_start :: "supervisor \<Rightarrow> http_router_config \<Rightarrow> supervisor" where
  "router_start s config_router =
    (let i = hrc_id config_router in
     if sv_http_router s i \<noteq> None then s
     else let (h, rt) = spawn (RouterRun config_router) (sv_rt s)
          in s\<lparr>sv_http_router := (sv_http_router s)(i \<mapsto> h), sv_rt := rt\<rparr>)"

definition http_router_start :: "supervisor \<Rightarrow> (sv_error + unit) \<times> supervisor" where
  "http_router_start s = (case sv_config s of
     None \<Rightarrow> (Inl ConfigNotLoaded, s)
   | Some config \<Rightarrow> (Inr (), foldl router_start s (c_http_routers config)))"

text \<open>The routers in the order of the walk; one that failed ends the loop.\<close>

fun http_router_stop :: "sv_env \<Rightarrow> u32 list \<Rightarrow> supervisor \<Rightarrow> (sv_error + unit) \<times> supervisor" where
  "http_router_stop env [] s = (Inr (), s)"
| "http_router_stop env (i # rest) s = (case sv_http_router s i of
     None \<Rightarrow> (Inl (RouterNotRunning i), s)
   | Some h \<Rightarrow>
       let (r, rt) = wait_and_abort (ve_ends env h) h (cancel_all {h} (sv_rt s));
           s = s\<lparr>sv_http_router := (sv_http_router s)(i := None), sv_rt := rt\<rparr>
       in case waited_result r of Inl e \<Rightarrow> (Inl e, s) | Inr _ \<Rightarrow> http_router_stop env rest s)"

text \<open>The stream that reads an output back: \<open>http://\<close>, \<open>udp://\<close> or \<open>rtp://\<close> before the address, and \<open>_dump\<close> after the name.\<close>

definition dump_config :: "u32 \<Rightarrow> worker \<Rightarrow> stream option" where
  "dump_config i w = (case wk_outputs w i of None \<Rightarrow> None
   | Some _ \<Rightarrow> (case List.find (\<lambda>out. o_id out = i) (s_outputs (wk_config w)) of None \<Rightarrow> None
     | Some out \<Rightarrow>
         let output_url = o_output_url out; t = o_task_type out;
             url = (if t = [0x68, 0x74, 0x74, 0x70] then Some ([0x68, 0x74, 0x74, 0x70, 0x3A, 0x2F, 0x2F] @ output_url)
               else if t = [0x75, 0x64, 0x70] then Some ([0x75, 0x64, 0x70, 0x3A, 0x2F, 0x2F] @ output_url)
               else if t = [0x72, 0x74, 0x70] then Some ([0x72, 0x74, 0x70, 0x3A, 0x2F, 0x2F] @ output_url)
               else if t = [0x75, 0x6E, 0x69, 0x78] then Some output_url
               else None)
         in map_option (\<lambda>url. \<lparr>s_id = s_id (wk_config w), s_remote_url = url, s_biss_key = o_biss_key out,
              s_name = o_name out @ [0x5F, 0x64, 0x75, 0x6D, 0x70], s_task_type = t, s_outputs = [], s_err_count = 0\<rparr>) url))"

text \<open>The workers in the order of the walk; the first one that has the output is taken.\<close>

fun find_dump :: "u32 \<Rightarrow> worker list \<Rightarrow> stream option" where
  "find_dump i [] = None"
| "find_dump i (w # ws) = (case dump_config i w of Some c \<Rightarrow> Some c | None \<Rightarrow> find_dump i ws)"

definition start_dump :: "worker list \<Rightarrow> u32 \<Rightarrow> supervisor \<Rightarrow> (sv_error + u32) \<times> supervisor" where
  "start_dump walk i s = (case find_dump i walk of
     None \<Rightarrow> (Inl (OutputNotFound i), s)
   | Some config \<Rightarrow>
       let (h, rt) = start_dump_task config (sv_rt s)
       in (Inr i, s\<lparr>sv_dumps := (sv_dumps s)(i \<mapsto> h), sv_rt := rt\<rparr>))"

definition stop_dump :: "sv_env \<Rightarrow> u32 \<Rightarrow> supervisor \<Rightarrow> (sv_error + unit) \<times> supervisor" where
  "stop_dump env i s = (case sv_dumps s i of
     None \<Rightarrow> (Inl (DumpNotFound i), s)
   | Some h \<Rightarrow> (Inr (), s\<lparr>sv_dumps := (sv_dumps s)(i := None), sv_rt := snd (stop_dump_task (ve_ends env) h (sv_rt s))\<rparr>))"

text \<open>A probe takes its lock, reads the input of the worker, and gives the lock back whatever happens.\<close>

definition probe_begin :: "u32 \<Rightarrow> supervisor \<Rightarrow> (sv_error + unit) \<times> supervisor" where
  "probe_begin i s =
    (if i \<in> sv_probe_lock s then (Inl (ProbeInProcess i), s)
     else (Inr (), s\<lparr>sv_probe_lock := insert i (sv_probe_lock s)\<rparr>))"

definition probe_end :: "u32 \<Rightarrow> supervisor \<Rightarrow> supervisor" where
  "probe_end i s = s\<lparr>sv_probe_lock := sv_probe_lock s - {i}\<rparr>"

section \<open>All operations together\<close>

text \<open>
  The state with the operations on workers that are under way. A round of the monitor, a request and the end of a task
  may come at any time.
\<close>

type_synonym sv_state = "supervisor \<times> op list"

inductive sv_step :: "sv_env \<Rightarrow> sv_state \<Rightarrow> sv_state \<Rightarrow> bool" for env where
  op_step: "k < length ops \<Longrightarrow> advance env (ops ! k) s = (op', s') \<Longrightarrow> sv_step env (s, ops) (s', ops[k := op'])"
| request_start: "sv_step env (s, ops) (s, ops @ [StartCheck i])"
| request_stop: "sv_step env (s, ops) (s, ops @ [StopCheck i])"
| monitor_round: "monitor_workers walk s = (s', restarts) \<Longrightarrow> sv_step env (s, ops) (s', ops @ restarts)"
| monitor_saves: "sv_step env (s, ops) (monitor_save now write_ok s, ops)"
| monitor_guides: "monitor_epg walk s = (s', ended) \<Longrightarrow> sv_step env (s, ops) (s', ops)"
| task_ends: "h < length (rt_tasks (sv_rt s)) \<Longrightarrow>
    sv_step env (s, ops) (s\<lparr>sv_rt := (sv_rt s)\<lparr>rt_finished := insert h (rt_finished (sv_rt s))\<rparr>\<rparr>, ops)"
| load: "sv_load env in_time cfg_json s = (r, s') \<Longrightarrow> sv_step env (s, ops) (s', ops)"
| mark: "sv_step env (s, ops) (sv_mark_dirty now s, ops)"
| save: "sv_save write_ok s = (saved, s') \<Longrightarrow> sv_step env (s, ops) (s', ops)"
| guide_start: "epg_start i s = (r, s') \<Longrightarrow> sv_step env (s, ops) (s', ops)"
| guide_stop: "epg_stop env i s = (r, s') \<Longrightarrow> sv_step env (s, ops) (s', ops)"
| routers_start: "http_router_start s = (r, s') \<Longrightarrow> sv_step env (s, ops) (s', ops)"
| routers_stop: "http_router_stop env walk s = (r, s') \<Longrightarrow> sv_step env (s, ops) (s', ops)"
| dump_start: "start_dump ws i s = (started, s') \<Longrightarrow> sv_step env (s, ops) (s', ops)"
| dump_stop: "stop_dump env i s = (r, s') \<Longrightarrow> sv_step env (s, ops) (s', ops)"
| probe_starts: "probe_begin i s = (r, s') \<Longrightarrow> sv_step env (s, ops) (s', ops)"
| probe_ends: "sv_step env (s, ops) (probe_end i s, ops)"

inductive sv_reachable :: "sv_env \<Rightarrow> sv_state \<Rightarrow> bool" for env where
  initial: "sv_reachable env (sv_new, [])"
| then_step: "sv_reachable env st \<Longrightarrow> sv_step env st st' \<Longrightarrow> sv_reachable env st'"

end
