(* ===== verification/Supervisor_Props.thy ===== *)
theory Supervisor_Props
  imports Supervisor "HOL-Library.Multiset"
begin

text \<open>
  What holds in every state the supervisor can reach, whatever operations interleave: the lock of a worker excludes a second
  operation on it, and no task belongs to two workers. Then what single operations do.
\<close>

section \<open>The lock\<close>

text \<open>The worker whose lock an operation holds.\<close>

fun held :: "op \<Rightarrow> u32 option" where
  "held (StartNew i) = Some i"
| "held (InsertWorker i w) = Some i"
| "held (StopRemove i) = Some i"
| "held (StopWait i w) = Some i"
| "held (RestartRemove i) = Some i"
| "held (RestartStop i w) = Some i"
| "held (Unlock i r) = Some i"
| "held _ = None"

definition held_ms :: "op \<Rightarrow> u32 multiset" where
  "held_ms op = (case held op of None \<Rightarrow> {#} | Some i \<Rightarrow> {#i#})"

definition held_by :: "op list \<Rightarrow> u32 multiset" where
  "held_by ops = sum_list (map held_ms ops)"

definition lock_inv :: "sv_state \<Rightarrow> bool" where
  "lock_inv st \<longleftrightarrow> finite (sv_workers_lock (fst st)) \<and> held_by (snd st) = mset_set (sv_workers_lock (fst st))"

lemma workers_start_lock:
  "workers_start i s = (r, s') \<Longrightarrow> sv_workers_lock s' = sv_workers_lock s \<and> sv_workers s' = sv_workers s"
  by (auto simp: workers_start_def split: option.splits prod.splits)

lemma advance_lock:
  assumes "advance env op s = (op', s')" "finite (sv_workers_lock s)" "\<And>i. held op = Some i \<Longrightarrow> i \<in> sv_workers_lock s"
  shows "finite (sv_workers_lock s') \<and> mset_set (sv_workers_lock s') + held_ms op = mset_set (sv_workers_lock s) + held_ms op'"
proof (cases op)
  case (StartNew i)
  then show ?thesis
    using assms(1,2) workers_start_lock [of i s] by (auto simp: held_ms_def split: sum.splits prod.splits)
qed (use assms in \<open>auto simp: held_ms_def mset_set.remove split: if_splits option.splits\<close>)

lemma held_by_append [simp]: "held_by (xs @ ys) = held_by xs + held_by ys"
  by (simp add: held_by_def)

lemma held_by_update:
  assumes "k < length ops"
  shows "held_by (ops[k := op']) + held_ms (ops ! k) = held_by ops + held_ms op'"
proof -
  have "held_by (ops[k := op']) = held_by (take k ops) + (held_ms op' + held_by (drop (Suc k) ops))"
    using assms by (simp add: upd_conv_take_nth_drop held_by_def)
  moreover have "held_by ops = held_by (take k ops) + (held_ms (ops ! k) + held_by (drop (Suc k) ops))"
    using assms by (subst id_take_nth_drop [of k]) (simp_all add: held_by_def)
  ultimately show ?thesis by (simp add: ac_simps)
qed

lemma held_by_nth: "k < length ops \<Longrightarrow> held_ms (ops ! k) \<subseteq># held_by ops"
  using id_take_nth_drop [of k ops] held_by_append [of "take k ops" "ops ! k # drop (Suc k) ops"]
  by (simp add: held_by_def)

lemma held_by_two:
  assumes "j < k" "k < length ops"
  shows "held_ms (ops ! j) + held_ms (ops ! k) \<subseteq># held_by ops"
proof -
  have "held_ms (ops ! j) \<subseteq># held_by (take k ops)" using held_by_nth [of j "take k ops"] assms by simp
  moreover have "held_by ops = held_by (take k ops) + (held_ms (ops ! k) + held_by (drop (Suc k) ops))"
    using assms by (subst id_take_nth_drop [of k]) (simp_all add: held_by_def)
  ultimately show ?thesis
    by (simp only:) (intro mset_subset_eq_mono_add, simp_all)
qed

lemma lock_inv_held:
  assumes "lock_inv (s, ops)" "k < length ops" "held (ops ! k) = Some i"
  shows "i \<in> sv_workers_lock s"
proof -
  have "{#i#} \<subseteq># mset_set (sv_workers_lock s)"
    using held_by_nth [OF assms(2)] assms(1,3) by (simp add: lock_inv_def held_ms_def)
  then show ?thesis using assms(1) by (simp add: lock_inv_def)
qed

lemma lock_inv_exclusive:
  assumes "lock_inv (s, ops)" "j < k" "k < length ops" "held (ops ! j) = Some i"
  shows "held (ops ! k) \<noteq> Some i"
proof
  assume "held (ops ! k) = Some i"
  then have "{#i, i#} \<subseteq># mset_set (sv_workers_lock s)"
    using held_by_two [OF assms(2,3)] assms(1,4) by (simp add: lock_inv_def held_ms_def)
  then have "2 \<le> count (mset_set (sv_workers_lock s)) i" by (drule_tac a = i in mset_subset_eq_count) simp
  then show False by (simp add: count_mset_set' split: if_splits)
qed

lemma lock_inv_advance:
  assumes "lock_inv (s, ops)" "k < length ops" "advance env (ops ! k) s = (op', s')"
  shows "lock_inv (s', ops[k := op'])"
proof -
  have "finite (sv_workers_lock s') \<and> mset_set (sv_workers_lock s') + held_ms (ops ! k) = mset_set (sv_workers_lock s) + held_ms op'"
    using assms lock_inv_held by (intro advance_lock) (auto simp: lock_inv_def)
  moreover have "held_by (ops[k := op']) + held_ms (ops ! k) = mset_set (sv_workers_lock s) + held_ms op'"
    using held_by_update [OF assms(2)] assms(1) by (simp add: lock_inv_def)
  ultimately show ?thesis
    by (metis add_right_cancel fst_conv lock_inv_def snd_conv)
qed

section \<open>The tasks of workers\<close>

text \<open>Workers that somebody has: the map, or an operation that is about to insert or to stop one.\<close>

datatype owner = InMap u32 | InOp nat

fun op_worker :: "op \<Rightarrow> worker option" where
  "op_worker (InsertWorker i w) = Some w"
| "op_worker (StopWait i w) = Some w"
| "op_worker (RestartStop i w) = Some w"
| "op_worker _ = None"

fun owned :: "sv_state \<Rightarrow> owner \<Rightarrow> worker option" where
  "owned (s, ops) (InMap i) = sv_workers s i"
| "owned (s, ops) (InOp k) = (if k < length ops then op_worker (ops ! k) else None)"

definition own_inv :: "(owner \<Rightarrow> worker option) \<Rightarrow> runtime \<Rightarrow> bool" where
  "own_inv f rt \<longleftrightarrow> rt_ok rt \<and> (\<forall>a w. f a = Some w \<longrightarrow> worker_ok w rt)
     \<and> (\<forall>a b v w. f a = Some v \<longrightarrow> f b = Some w \<longrightarrow> a \<noteq> b \<longrightarrow> worker_handles v \<inter> worker_handles w = {})"

text \<open>A worker may be dropped or change hands, and what is new in a worker is a new task.\<close>

lemma own_inv_sub:
  assumes "own_inv f rt" "\<And>a w. g a = Some w \<Longrightarrow> f (p a) = Some w" "inj p"
  shows "own_inv g rt"
  unfolding own_inv_def
proof (intro conjI allI impI)
  show "rt_ok rt" using assms(1) by (simp add: own_inv_def)
  show "worker_ok w rt" if "g a = Some w" for a w
    using assms(1) assms(2) [OF that] by (auto simp: own_inv_def)
  show "worker_handles v \<inter> worker_handles w = {}" if "g a = Some v" "g b = Some w" "a \<noteq> b" for a b v w
  proof -
    have "p a \<noteq> p b" using that(3) assms(3) by (simp add: inj_eq)
    then show ?thesis
      using assms(1) assms(2) [OF that(1)] assms(2) [OF that(2)] unfolding own_inv_def by blast
  qed
qed

lemma own_inv_update:
  assumes inv: "own_inv f rt" and grows: "rt_grows rt rt'" and ok: "worker_ok w' rt'"
    and new: "\<And>h. h \<in> worker_handles w' \<Longrightarrow> (\<exists>w. f a = Some w \<and> h \<in> worker_handles w) \<or> length (rt_tasks rt) \<le> h"
  shows "own_inv (f(a \<mapsto> w')) rt'"
proof -
  have old: "h < length (rt_tasks rt)" if "f b = Some w" "h \<in> worker_handles w" for b w h
    using inv that worker_handles_range unfolding own_inv_def by blast
  have disj: "worker_handles w' \<inter> worker_handles w = {}" if "f b = Some w" "b \<noteq> a" for b w
  proof -
    have "h \<notin> worker_handles w" if "h \<in> worker_handles w'" for h
      using new [OF that] \<open>f b = Some w\<close> \<open>b \<noteq> a\<close> old [of b w h] inv unfolding own_inv_def
      by (metis disjoint_iff linorder_not_less)
    then show ?thesis by blast
  qed
  have "rt_ok rt'" using inv grows rt_ok_grows by (auto simp: own_inv_def)
  moreover have "worker_ok w rt'" if "(f(a \<mapsto> w')) b = Some w" for b w
    using that ok inv worker_ok_grows [OF _ grows] by (auto simp: own_inv_def split: if_splits)
  moreover have "worker_handles v \<inter> worker_handles w = {}"
    if "(f(a \<mapsto> w')) b = Some v" "(f(a \<mapsto> w')) c = Some w" "b \<noteq> c" for b c v w
    using that disj inv unfolding own_inv_def by (auto split: if_splits) 
  ultimately show ?thesis unfolding own_inv_def by blast
qed

lemma worker_ok_cong: "rt_tasks rt' = rt_tasks rt \<Longrightarrow> worker_ok w rt' = worker_ok w rt"
  by (simp add: worker_ok_def outs_wf_def)

lemma worker_ok_tasks: "worker_ok w rt \<Longrightarrow> rt_tasks rt' = rt_tasks rt @ ts \<Longrightarrow> worker_ok w rt'"
proof -
  assume "worker_ok w rt" "rt_tasks rt' = rt_tasks rt @ ts"
  moreover have "rt_grows rt (rt\<lparr>rt_tasks := rt_tasks rt @ ts\<rparr>)" by (auto simp: rt_grows_def)
  ultimately show ?thesis
    using worker_ok_grows [of w rt "rt\<lparr>rt_tasks := rt_tasks rt @ ts\<rparr>"]
      worker_ok_cong [of rt' "rt\<lparr>rt_tasks := rt_tasks rt @ ts\<rparr>" w] by simp
qed

lemma own_inv_tasks: "own_inv f rt \<Longrightarrow> rt_tasks rt' = rt_tasks rt @ ts \<Longrightarrow> rt_ok rt' \<Longrightarrow> own_inv f rt'"
  unfolding own_inv_def using worker_ok_tasks by blast

text \<open>The other tasks of the supervisor exist.\<close>

definition aux_handles :: "supervisor \<Rightarrow> handle set" where
  "aux_handles s = ran (sv_epg s) \<union> ran (sv_dumps s) \<union> ran (sv_http_router s)"

definition aux_inv :: "supervisor \<Rightarrow> bool" where
  "aux_inv s \<longleftrightarrow> aux_handles s \<subseteq> {..<length (rt_tasks (sv_rt s))}"

definition sv_inv :: "sv_state \<Rightarrow> bool" where
  "sv_inv st \<longleftrightarrow> lock_inv st \<and> own_inv (owned st) (sv_rt (fst st)) \<and> aux_inv (fst st)"

text \<open>Steps that leave workers and their lock alone.\<close>

definition sv_frame :: "supervisor \<Rightarrow> supervisor \<Rightarrow> bool" where
  "sv_frame s s' \<longleftrightarrow> sv_workers s' = sv_workers s \<and> sv_workers_lock s' = sv_workers_lock s
     \<and> (\<exists>ts. rt_tasks (sv_rt s') = rt_tasks (sv_rt s) @ ts) \<and> (rt_ok (sv_rt s) \<and> aux_inv s \<longrightarrow> rt_ok (sv_rt s') \<and> aux_inv s')"

lemma sv_frame_refl [simp]: "sv_frame s s"
  by (simp add: sv_frame_def)

lemma sv_frame_trans: "sv_frame a b \<Longrightarrow> sv_frame b c \<Longrightarrow> sv_frame a c"
  by (auto simp: sv_frame_def)

lemma owned_eq: "sv_workers s' = sv_workers s \<Longrightarrow> owned (s', ops) = owned (s, ops)"
proof
  fix a assume "sv_workers s' = sv_workers s"
  then show "owned (s', ops) a = owned (s, ops) a" by (cases a) simp_all
qed

lemma owned_append: "list_all (\<lambda>op. op_worker op = None) ops' \<Longrightarrow> owned (s, ops @ ops') = owned (s, ops)"
proof
  fix a assume "list_all (\<lambda>op. op_worker op = None) ops'"
  then show "owned (s, ops @ ops') a = owned (s, ops) a"
    by (cases a) (auto simp: nth_append list_all_length)
qed

lemma held_by_none: "list_all (\<lambda>op. held op = None) ops \<Longrightarrow> held_by ops = {#}"
  by (induction ops) (auto simp: held_by_def held_ms_def)

lemma sv_inv_frame:
  assumes "sv_inv (s, ops)" "sv_frame s s'"
  shows "sv_inv (s', ops)"
proof -
  obtain ts where "rt_tasks (sv_rt s') = rt_tasks (sv_rt s) @ ts" using assms(2) by (auto simp: sv_frame_def)
  moreover have "rt_ok (sv_rt s') \<and> aux_inv s'"
    using assms by (auto simp: sv_inv_def sv_frame_def own_inv_def)
  ultimately have "own_inv (owned (s, ops)) (sv_rt s') \<and> aux_inv s'"
    using assms(1) own_inv_tasks by (auto simp: sv_inv_def)
  then show ?thesis
    using assms owned_eq [of s' s ops] by (auto simp: sv_inv_def sv_frame_def lock_inv_def)
qed

lemma sv_inv_append:
  "sv_inv (s, ops) \<Longrightarrow> list_all (\<lambda>op. held op = None \<and> op_worker op = None) ops' \<Longrightarrow> sv_inv (s, ops @ ops')"
  by (simp add: sv_inv_def lock_inv_def owned_append held_by_none list_all_iff)

lemma ran_upd_subset: "ran (m(i \<mapsto> h)) \<subseteq> insert h (ran m)" "ran (m(i := None)) \<subseteq> ran m"
  by (auto simp: ran_def)

lemma frame_spawned:
  assumes "spawn t (sv_rt s) = (h, rt)" "sv_workers s' = sv_workers s" "sv_workers_lock s' = sv_workers_lock s" "sv_rt s' = rt"
    and "aux_handles s' \<subseteq> insert h (aux_handles s)"
  shows "sv_frame s s'"
proof -
  have rt: "rt_tasks rt = rt_tasks (sv_rt s) @ [t]" "rt_finished rt = rt_finished (sv_rt s)" "h = length (rt_tasks (sv_rt s))"
    using assms(1) by (auto simp: spawn_def)
  have "aux_inv s'" if "aux_inv s"
  proof -
    have "aux_handles s' \<subseteq> insert h {..<h}" using that assms(5) rt(3) unfolding aux_inv_def by blast
    also have "\<dots> = {..<Suc h}" by auto
    finally show ?thesis by (simp add: aux_inv_def assms(4) rt)
  qed
  then show ?thesis
    using assms rt by (auto simp: sv_frame_def rt_ok_def)
qed

lemma frame_waited:
  assumes "wait_and_abort e h (cancel_all {h} (sv_rt s)) = (r, rt)"
    and "sv_workers s' = sv_workers s" "sv_workers_lock s' = sv_workers_lock s" "sv_rt s' = rt"
    and "aux_handles s' \<subseteq> aux_handles s" "h \<in> aux_handles s"
  shows "sv_frame s s'"
  using assms(2-) wait_and_abort_rt [OF assms(1)]
  by (auto simp: sv_frame_def aux_inv_def rt_ok_def cancel_all_def)

lemma frame_fields:
  assumes "sv_workers s' = sv_workers s" "sv_workers_lock s' = sv_workers_lock s" "sv_rt s' = sv_rt s"
    and "aux_handles s' \<subseteq> aux_handles s"
  shows "sv_frame s s'"
  using assms by (auto simp: sv_frame_def aux_inv_def)

lemmas aux_simps = aux_handles_def ran_def

lemma epg_start_frame: "epg_start i s = (r, s') \<Longrightarrow> sv_frame s s'"
  by (auto simp: epg_start_def aux_simps split: if_splits option.splits prod.splits intro!: frame_spawned)

lemma epg_stop_frame: "epg_stop env i s = (r, s') \<Longrightarrow> sv_frame s s'"
  by (auto simp: epg_stop_def aux_simps split: if_splits option.splits prod.splits intro!: frame_waited)

lemma router_start_frame: "sv_frame s (router_start s c)"
  by (auto simp: router_start_def aux_simps Let_def split: prod.splits if_splits intro!: frame_spawned)

lemma routers_start_frame: "sv_frame s (foldl router_start s cs)"
  by (induction cs arbitrary: s) (auto intro: sv_frame_trans router_start_frame)

lemma http_router_stop_frame: "http_router_stop env walk s = (r, s') \<Longrightarrow> sv_frame s s'"
proof (induction walk arbitrary: s)
  case (Cons i walk)
  show ?case
  proof (cases "sv_http_router s i")
    case (Some h)
    obtain r1 rt1 where w: "wait_and_abort (ve_ends env h) h (cancel_all {h} (sv_rt s)) = (r1, rt1)" by (metis surj_pair)
    let ?s = "s\<lparr>sv_http_router := (sv_http_router s)(i := None), sv_rt := rt1\<rparr>"
    have "sv_frame s ?s"
      by (rule frame_waited [OF w]) (use Some in \<open>auto simp: aux_simps\<close>)
    then show ?thesis
      using Cons.prems Cons.IH [of ?s] Some w by (auto simp: Let_def split: sum.splits intro: sv_frame_trans)
  qed (use Cons.prems in auto)
qed simp

lemma start_dump_frame: "start_dump ws i s = (r, s') \<Longrightarrow> sv_frame s s'"
  by (auto simp: start_dump_def start_dump_task_def spawn_remote_def aux_simps split: if_splits option.splits prod.splits
      intro!: frame_spawned)

lemma stop_dump_frame: "stop_dump env i s = (r, s') \<Longrightarrow> sv_frame s s'"
  by (auto simp: stop_dump_def stop_dump_task_def aux_simps split: if_splits option.splits prod.splits
      intro!: frame_waited [OF prod.collapse [symmetric]])

lemma sv_save_frame: "sv_save ok s = (r, s') \<Longrightarrow> sv_frame s s'"
  by (auto simp: sv_save_def aux_simps split: option.splits if_splits intro!: frame_fields)

lemma sv_load_frame: "sv_load env ok c s = (r, s') \<Longrightarrow> sv_frame s s'"
  by (auto simp: sv_load_def aux_simps split: option.splits if_splits sum.splits intro!: frame_fields)

lemma monitor_save_frame: "sv_frame s (monitor_save now ok s)"
  using sv_save_frame [of ok s] by (auto simp: monitor_save_def intro: sv_save_frame [OF prod.collapse [symmetric]])

lemma monitor_epg_frame: "monitor_epg walk s = (s', ended) \<Longrightarrow> sv_frame s s'"
  by (auto simp: monitor_epg_def aux_simps Let_def split: if_splits intro!: frame_fields)

section \<open>Steps on workers\<close>

text \<open>Handing a worker from one place to another.\<close>

definition swap :: "owner \<Rightarrow> owner \<Rightarrow> owner \<Rightarrow> owner" where
  "swap a b c = (if c = a then b else if c = b then a else c)"

lemma inj_swap: "inj (swap a b)"
  by (auto simp: inj_def swap_def split: if_splits)

lemma owned_update:
  "owned (s, ops[k := op']) a = (if a = InOp k \<and> k < length ops then op_worker op' else owned (s, ops) a)"
  by (cases a) auto

lemma own_inv_keep:
  assumes "own_inv (owned (s, ops)) rt" "sv_workers s' \<subseteq>\<^sub>m sv_workers s" "op_worker op' = None"
  shows "own_inv (owned (s', ops[k := op'])) rt"
proof (rule own_inv_sub [where p = id, OF assms(1)])
  show "owned (s, ops) (id a) = Some w" if "owned (s', ops[k := op']) a = Some w" for a w
    using that assms(2,3) unfolding owned_update by (cases a) (auto simp: map_le_def dom_def split: if_splits)
qed simp

lemma own_inv_insert:
  assumes "own_inv (owned (s, ops)) rt" "k < length ops" "op_worker (ops ! k) = Some w" "op_worker op' = None"
    and "sv_workers s' = (sv_workers s)(i \<mapsto> w)"
  shows "own_inv (owned (s', ops[k := op'])) rt"
proof (rule own_inv_sub [where p = "swap (InMap i) (InOp k)", OF assms(1) _ inj_swap])
  show "owned (s, ops) (swap (InMap i) (InOp k) a) = Some v" if "owned (s', ops[k := op']) a = Some v" for a v
    using that assms(2-) by (cases a) (auto simp: swap_def nth_list_update split: if_splits)
qed

lemma own_inv_remove:
  assumes "own_inv (owned (s, ops)) rt" "k < length ops" "sv_workers s i = Some w" "op_worker op' = Some w"
    and "sv_workers s' = (sv_workers s)(i := None)"
  shows "own_inv (owned (s', ops[k := op'])) rt"
proof (rule own_inv_sub [where p = "swap (InMap i) (InOp k)", OF assms(1) _ inj_swap])
  show "owned (s, ops) (swap (InMap i) (InOp k) a) = Some v" if "owned (s', ops[k := op']) a = Some v" for a v
    using that assms(2-) by (cases a) (auto simp: swap_def nth_list_update split: if_splits)
qed

lemma worker_stop_tasks:
  assumes "walks walk" "worker_ok w rt" "rt_ok rt"
  shows "rt_tasks (snd (worker_stop ends walk w rt)) = rt_tasks rt \<and> rt_ok (snd (worker_stop ends walk w rt))"
proof -
  have "snd (worker_stop ends walk w rt)
      = rt\<lparr>rt_finished := rt_finished rt \<union> worker_handles w, rt_cancelled := rt_cancelled rt \<union> worker_handles w\<rparr>"
    using worker_stop_rt [OF prod.collapse [symmetric] assms(1)] by simp
  then show ?thesis
    using assms(3) worker_handles_range [OF assms(2)] by (auto simp: rt_ok_def)
qed

lemma aux_inv_tasks: "aux_inv s \<Longrightarrow> aux_handles s' = aux_handles s \<Longrightarrow> length (rt_tasks (sv_rt s)) \<le> length (rt_tasks (sv_rt s'))
    \<Longrightarrow> aux_inv s'"
  by (auto simp: aux_inv_def)

lemma advance_aux: "advance env op s = (op', s') \<Longrightarrow> aux_handles s' = aux_handles s"
  by (cases op) (auto simp: aux_handles_def workers_start_def split: if_splits option.splits prod.splits sum.splits)

lemma workers_start_Inr:
  assumes "workers_start i s = (Inr w, s')"
  obtains config stream rt where "sv_config s = Some config" "get_stream config i = Some stream"
    "worker_new stream (set_api_config (helper_new i)) (sv_rt s) = (w, rt)" "s' = s\<lparr>sv_rt := rt\<rparr>"
  using assms by (cases "sv_config s"; cases "get_stream (the (sv_config s)) i")
    (auto simp: workers_start_def split: prod.splits)

lemma workers_start_Inl: "workers_start i s = (Inl e, s') \<Longrightarrow> s' = s"
  by (auto simp: workers_start_def split: option.splits prod.splits)

lemma advance_own:
  assumes inv: "own_inv (owned (s, ops)) (sv_rt s)" and k: "k < length ops"
    and adv: "advance env (ops ! k) s = (op', s')" and walk: "walks (ve_walk env)"
  shows "own_inv (owned (s', ops[k := op'])) (sv_rt s') \<and> (\<exists>ts. rt_tasks (sv_rt s') = rt_tasks (sv_rt s) @ ts)"
proof (cases "ops ! k")
  case (StartNew i)
  show ?thesis
  proof (cases "fst (workers_start i s)")
    case (Inl e)
    then obtain s1 where start: "workers_start i s = (Inl e, s1)" by (metis prod.collapse)
    then have "s' = s" "op' = Unlock i (Inl e)"
      using adv StartNew workers_start_Inl [OF start] by auto
    then show ?thesis using own_inv_keep [OF inv, of s op' k] by simp
  next
    case (Inr w)
    then obtain s1 where start: "workers_start i s = (Inr w, s1)" by (metis prod.collapse)
    then have op': "op' = InsertWorker i w" "s1 = s'" using adv StartNew by auto
    from start obtain config stream rt where new: "worker_new stream (set_api_config (helper_new i)) (sv_rt s) = (w, rt)"
        and s': "s' = s\<lparr>sv_rt := rt\<rparr>" "op' = InsertWorker i w"
      using op' by (auto elim: workers_start_Inr)
    note w = worker_new_ok [OF new]
    have "own_inv ((owned (s, ops))(InOp k \<mapsto> w)) rt"
      by (rule own_inv_update [OF inv]) (use w worker_new_handles [OF new] in auto)
    moreover have "owned (s', ops[k := op']) = (owned (s, ops))(InOp k \<mapsto> w)"
      using k s' owned_eq [of s' s ops] by (intro ext) (simp add: owned_update)
    ultimately show ?thesis
      using w s' by (auto simp: rt_grows_def)
  qed
next
  case (InsertWorker i w)
  then show ?thesis
    using adv by (auto intro!: own_inv_insert [OF inv k])
next
  case (StopRemove i)
  then show ?thesis
    using adv own_inv_keep [OF inv, of s'] own_inv_remove [OF inv k, of i _ op' s'] by (auto split: option.splits)
next
  case (RestartRemove i)
  then show ?thesis
    using adv own_inv_keep [OF inv, of s'] own_inv_remove [OF inv k, of i _ op' s'] by (auto split: option.splits)
next
  case (StopWait i w)
  then have w: "owned (s, ops) (InOp k) = Some w" using k by simp
  let ?rt = "snd (worker_stop (ve_ends env) (ve_walk env) w (sv_rt s))"
  have rt: "rt_tasks ?rt = rt_tasks (sv_rt s) \<and> rt_ok ?rt"
    using inv w unfolding own_inv_def by (intro worker_stop_tasks walk) blast+
  then have "own_inv (owned (s, ops)) ?rt" using own_inv_tasks [OF inv, of ?rt "[]"] by simp
  moreover have "s' = s\<lparr>sv_rt := ?rt\<rparr>" "op_worker op' = None" using adv StopWait by auto
  ultimately show ?thesis
    using own_inv_keep [of s ops ?rt s' op' k] rt by simp
next
  case (RestartStop i w)
  then have w: "owned (s, ops) (InOp k) = Some w" using k by simp
  let ?rt = "snd (worker_stop (ve_ends env) (ve_walk env) w (sv_rt s))"
  have rt: "rt_tasks ?rt = rt_tasks (sv_rt s) \<and> rt_ok ?rt"
    using inv w unfolding own_inv_def by (intro worker_stop_tasks walk) blast+
  then have "own_inv (owned (s, ops)) ?rt" using own_inv_tasks [OF inv, of ?rt "[]"] by simp
  moreover have "s' = s\<lparr>sv_rt := ?rt\<rparr>" "op_worker op' = None" using adv RestartStop by auto
  ultimately show ?thesis
    using own_inv_keep [of s ops ?rt s' op' k] rt by simp
next
  case (Done r)
  then have "op' = ops ! k" "s' = s" using adv by auto
  then show ?thesis using inv by simp
qed (use adv inv in \<open>auto split: if_splits intro!: own_inv_keep\<close>)

lemma sv_inv_advance:
  assumes "sv_inv (s, ops)" "k < length ops" "advance env (ops ! k) s = (op', s')" "walks (ve_walk env)"
  shows "sv_inv (s', ops[k := op'])"
proof -
  obtain ts where own: "own_inv (owned (s', ops[k := op'])) (sv_rt s')" "rt_tasks (sv_rt s') = rt_tasks (sv_rt s) @ ts"
    using assms(1) advance_own [OF _ assms(2-4)] by (auto simp: sv_inv_def)
  moreover have "aux_inv s'"
    using assms(1) own(2) by (intro aux_inv_tasks [of s, OF _ advance_aux [OF assms(3)]]) (auto simp: sv_inv_def)
  ultimately show ?thesis
    using assms lock_inv_advance by (auto simp: sv_inv_def)
qed

lemma sv_inv_monitor_worker:
  assumes "sv_inv (s, ops)" "monitor_worker (s, ids) i = (s', ids')"
  shows "sv_inv (s', ops)"
proof (cases "sv_workers s i")
  case None
  then show ?thesis using assms by (simp add: monitor_worker_def)
next
  case (Some w)
  then have own: "owned (s, ops) (InMap i) = Some w" by simp
  have inv: "own_inv (owned (s, ops)) (sv_rt s)" "lock_inv (s, ops)" "aux_inv s" using assms(1) by (simp_all add: sv_inv_def)
  then have w: "worker_ok w (sv_rt s)" "rt_ok (sv_rt s)" using own unfolding own_inv_def by blast+
  obtain fin w' rt where m: "worker_monitor w (sv_rt s) = (fin, w', rt)" by (metis prod_cases3)
  show ?thesis
  proof (cases "is_finished (sv_rt s) (wk_remote w)")
    case True
    then have fin: "fin" "rt = cancel_all (ran (wk_outputs w)) (sv_rt s)"
      using m by (simp_all add: worker_monitor_finished)
    have s': "s' = s\<lparr>sv_workers := (sv_workers s)(i := None), sv_rt := rt\<rparr>"
      using assms(2) fin by (simp add: monitor_worker_def Some m)
    have rt: "rt_tasks rt = rt_tasks (sv_rt s) @ []" "rt_ok rt"
      using w(2) by (auto simp: fin cancel_all_def rt_ok_def)
    have "own_inv (owned (s', ops)) rt"
    proof (rule own_inv_sub [where p = id, OF own_inv_tasks [OF inv(1) rt]])
      show "owned (s, ops) (id a) = Some v" if "owned (s', ops) a = Some v" for a v
        using that by (cases a) (auto simp: s' split: if_splits)
    qed simp
    moreover have "aux_inv s'"
      by (rule aux_inv_tasks [OF inv(3)]) (simp_all add: s' aux_handles_def rt(1))
    ultimately show ?thesis using inv(2) by (simp add: sv_inv_def s' lock_inv_def)
  next
    case False
    note r = worker_monitor_running [OF m w(1) False w(2)]
    have s': "s' = s\<lparr>sv_workers := (sv_workers s)(i \<mapsto> w'), sv_rt := rt\<rparr>"
      using assms(2) r by (simp add: monitor_worker_def Some m)
    have "own_inv ((owned (s, ops))(InMap i \<mapsto> w')) rt"
    proof (rule own_inv_update [OF inv(1)])
      show "(\<exists>v. owned (s, ops) (InMap i) = Some v \<and> h \<in> worker_handles v) \<or> length (rt_tasks (sv_rt s)) \<le> h"
        if "h \<in> worker_handles w'" for h
      proof (cases "h < length (rt_tasks (sv_rt s))")
        case True
        have "wk_remote w' = wk_remote w" "\<And>j. wk_outputs w' j = Some h \<Longrightarrow> wk_outputs w j = Some h" using r True by blast+
        then have "h \<in> worker_handles w" using that by (auto simp: worker_handles_def ran_def)
        then show ?thesis using own by blast
      qed simp
    qed (use r in blast)+
    moreover have "owned (s', ops) = (owned (s, ops))(InMap i \<mapsto> w')"
    proof
      show "owned (s', ops) a = ((owned (s, ops))(InMap i \<mapsto> w')) a" for a by (cases a) (auto simp: s')
    qed
    moreover have "aux_inv s'"
    proof (rule aux_inv_tasks [OF inv(3)])
      have "rt_grows (sv_rt s) rt" using r by blast
      then show "length (rt_tasks (sv_rt s)) \<le> length (rt_tasks (sv_rt s'))" using rt_grows_simps(3) by (simp add: s')
    qed (simp add: s' aux_handles_def)
    ultimately show ?thesis using inv(2) by (simp add: sv_inv_def s' lock_inv_def)
  qed
qed

lemma sv_inv_monitor:
  "sv_inv (s, ops) \<Longrightarrow> foldl monitor_worker (s, ids) walk = (s', ids') \<Longrightarrow> sv_inv (s', ops)"
proof (induction walk arbitrary: s ids)
  case (Cons i walk)
  obtain s1 ids1 where m: "monitor_worker (s, ids) i = (s1, ids1)" by (metis surj_pair)
  then show ?case
    using Cons.IH [of s1 ids1] Cons.prems sv_inv_monitor_worker [OF Cons.prems(1) m] by simp
qed simp

lemma sv_inv_step: "sv_step env st st' \<Longrightarrow> walks (ve_walk env) \<Longrightarrow> sv_inv st \<Longrightarrow> sv_inv st'"
proof (induction rule: sv_step.induct)
  case (op_step k ops s op' s')
  then show ?case using sv_inv_advance by blast
next
  case (monitor_round walk s s' restarts ops)
  obtain s1 ids where f: "foldl monitor_worker (s, []) walk = (s1, ids)" by (metis surj_pair)
  then have "s' = s1" "restarts = map RestartLock ids" using monitor_round(1) by (auto simp: monitor_workers_def)
  then show ?case
    using sv_inv_append [OF sv_inv_monitor [OF monitor_round(3) f], of restarts] by (simp add: list_all_iff)
next
  case (task_ends h s ops)
  then show ?case
    by (elim sv_inv_frame) (auto simp: sv_frame_def rt_ok_def aux_inv_def aux_handles_def)
next
  case (routers_start s r s' ops)
  then show ?case
    using routers_start_frame [of s] sv_inv_frame by (auto simp: http_router_start_def split: option.splits)
qed (auto intro: sv_inv_frame sv_inv_append monitor_save_frame monitor_epg_frame sv_load_frame sv_save_frame epg_start_frame
    epg_stop_frame http_router_stop_frame start_dump_frame stop_dump_frame
    simp: sv_mark_dirty_def probe_begin_def probe_end_def sv_frame_def aux_inv_def aux_handles_def split: if_splits)

lemma sv_inv_reachable: "sv_reachable env st \<Longrightarrow> walks (ve_walk env) \<Longrightarrow> sv_inv st"
proof (induction rule: sv_reachable.induct)
  case initial
  have "own_inv (owned (sv_new, [])) (sv_rt sv_new)"
    unfolding own_inv_def
  proof (intro conjI allI impI)
    have "owned (sv_new, []) a = None" for a by (cases a) (simp_all add: sv_new_def)
    then show "worker_ok w (sv_rt sv_new)" if "owned (sv_new, []) a = Some w" for a w using that by simp
    show "worker_handles v \<inter> worker_handles w = {}" if "owned (sv_new, []) a = Some v" for a v w
      using that \<open>\<And>a. owned (sv_new, []) a = None\<close> by simp
  qed (simp add: rt_ok_def sv_new_def)
  then show ?case
    by (simp add: sv_inv_def lock_inv_def aux_inv_def aux_handles_def held_by_def sv_new_def)
next
  case (then_step st st')
  then show ?case using sv_inv_step by blast
qed

section \<open>What the supervisor guarantees\<close>

text \<open>
  C5. In every state the supervisor can reach, however requests, rounds of the monitor and the ends of tasks interleave: the set of
  locked workers is exactly the set of workers some operation is working on, no worker is worked on by two operations, every worker of
  the map has its input task and output tasks among the spawned ones, each running what its configuration says, and no task
  belongs to two workers.
\<close>

theorem workers_exclusive:
  assumes "sv_reachable env (s, ops)" "walks (ve_walk env)"
  shows "(\<forall>i. i \<in> sv_workers_lock s \<longleftrightarrow> (\<exists>k < length ops. held (ops ! k) = Some i))
    \<and> (\<forall>j k i. j < k \<longrightarrow> k < length ops \<longrightarrow> held (ops ! j) = Some i \<longrightarrow> held (ops ! k) \<noteq> Some i)
    \<and> (\<forall>i w. sv_workers s i = Some w \<longrightarrow> worker_ok w (sv_rt s))
    \<and> (\<forall>i j v w. i \<noteq> j \<longrightarrow> sv_workers s i = Some v \<longrightarrow> sv_workers s j = Some w \<longrightarrow> worker_handles v \<inter> worker_handles w = {})"
proof -
  have inv: "lock_inv (s, ops)" "own_inv (owned (s, ops)) (sv_rt s)"
    using sv_inv_reachable [OF assms] by (simp_all add: sv_inv_def)
  have "\<exists>k < length ops. held (ops ! k) = Some i" if "i \<in> sv_workers_lock s" for i
  proof -
    have "i \<in># held_by ops" using inv(1) that by (simp add: lock_inv_def)
    then obtain op where "op \<in> set ops" "i \<in># held_ms op" by (auto simp: held_by_def)
    then show ?thesis by (auto simp: held_ms_def in_set_conv_nth split: option.splits)
  qed
  moreover have "worker_ok w (sv_rt s)" if "sv_workers s i = Some w" for i w
    using inv(2) that unfolding own_inv_def by (metis owned.simps(1))
  moreover have "worker_handles v \<inter> worker_handles w = {}"
    if "i \<noteq> j" "sv_workers s i = Some v" "sv_workers s j = Some w" for i j v w
    using inv(2) that unfolding own_inv_def by (metis owned.simps(1) owner.inject(1))
  ultimately show ?thesis
    using lock_inv_held [OF inv(1)] lock_inv_exclusive [OF inv(1)] by blast
qed

text \<open>A walk over a map, key by key, and a supervisor that was asked to start a stream it does not know.\<close>

definition all_keys :: "u32 list" where
  "all_keys = map of_nat [0..<2 ^ 32]"

definition key_walk :: "(u32 \<rightharpoonup> handle) \<Rightarrow> (u32 \<times> handle) list" where
  "key_walk m = map (\<lambda>i. (i, the (m i))) (filter (\<lambda>i. m i \<noteq> None) all_keys)"

definition example_sv_env :: sv_env where
  "example_sv_env = \<lparr>ve_parse = (\<lambda>_. None), ve_ends = (\<lambda>_. Ends), ve_walk = key_walk\<rparr>"

lemma set_all_keys: "set all_keys = UNIV"
proof -
  have "w \<in> of_nat ` {0..<2 ^ 32}" for w :: u32
    using unsigned_less [of w, where 'a = nat] by (intro image_eqI [of _ _ "unat w"]) simp_all
  then show ?thesis unfolding all_keys_def by (simp only: set_map set_upt) blast
qed

lemma walks_key_walk: "walks key_walk"
  by (auto simp: walks_def key_walk_def set_all_keys image_iff)

theorem workers_exclusive_witness:
  "sv_reachable example_sv_env (sv_new\<lparr>sv_workers_lock := {5}\<rparr>, [StartNew 5])
   \<and> (\<forall>i. i \<in> sv_workers_lock (sv_new\<lparr>sv_workers_lock := {5}\<rparr>) \<longleftrightarrow> (\<exists>k < length [StartNew 5]. held ([StartNew 5] ! k) = Some i))"
proof -
  let ?e = example_sv_env
  have "sv_reachable ?e (sv_new, [] @ [StartCheck 5])"
    by (rule then_step [OF initial request_start])
  then have "sv_reachable ?e (sv_new, [StartCheck 5])" by simp
  then have "sv_reachable ?e (sv_new, [StartCheck 5][0 := StartLock 5])"
    by (rule then_step) (rule op_step, auto simp: sv_new_def)
  then have "sv_reachable ?e (sv_new, [StartLock 5])" by simp
  then have "sv_reachable ?e (sv_new\<lparr>sv_workers_lock := {5}\<rparr>, [StartLock 5][0 := StartNew 5])"
    by (rule then_step) (rule op_step, auto simp: sv_new_def)
  then have r: "sv_reachable ?e (sv_new\<lparr>sv_workers_lock := {5}\<rparr>, [StartNew 5])" by simp
  have "walks (ve_walk ?e)" using walks_key_walk by (simp add: example_sv_env_def)
  with r show ?thesis
    using workers_exclusive [OF r] by blast
qed

section \<open>One operation alone\<close>

text \<open>With different numbers for the outputs, every task that was spawned has a place in the map.\<close>

lemma new_outputs_grow:
  "foldl new_output (outputs, helper, rt) outs = (outputs', helper', rt') \<Longrightarrow> rt_grows rt rt'"
proof (induction outs arbitrary: outputs helper rt)
  case (Cons out outs)
  obtain o1 h1 rt1 where step: "new_output (outputs, helper, rt) out = (o1, h1, rt1)" by (metis prod_cases3)
  then have "rt_grows rt rt1"
    by (auto simp: new_output_def spawn_output_def spawn_def rt_grows_def split: if_splits intro: exI [of _ "[]"])
  then show ?case
    using Cons.IH [of o1 h1 rt1] Cons.prems step by (auto intro: rt_grows_trans)
qed simp

lemma new_outputs_ran:
  assumes "foldl new_output (outputs, helper, rt) outs = (outputs', helper', rt')"
    and "distinct (map o_id outs)" "dom outputs \<inter> o_id ` set outs = {}"
  shows "ran outputs' = ran outputs \<union> {length (rt_tasks rt)..<length (rt_tasks rt')}"
  using assms
proof (induction outs arbitrary: outputs helper rt)
  case (Cons out outs)
  obtain o1 h1 rt1 where step: "new_output (outputs, helper, rt) out = (o1, h1, rt1)" by (metis prod_cases3)
  have fold: "foldl new_output (o1, h1, rt1) outs = (outputs', helper', rt')" using Cons.prems(1) step by simp
  have free: "outputs (o_id out) = None" using Cons.prems(3) by (auto simp: dom_def)
  have one: "ran o1 = ran outputs \<union> {length (rt_tasks rt)..<length (rt_tasks rt1)} \<and> dom o1 \<subseteq> insert (o_id out) (dom outputs)
      \<and> length (rt_tasks rt) \<le> length (rt_tasks rt1)"
    using step free by (auto simp: new_output_def spawn_output_def spawn_def split: if_splits)
  have "dom o1 \<inter> o_id ` set outs \<subseteq> insert (o_id out) (dom outputs) \<inter> o_id ` set outs"
    using one by blast
  also have "\<dots> = {}"
    using Cons.prems(2,3) by auto
  finally have "dom o1 \<inter> o_id ` set outs = {}" by blast
  then have "ran outputs' = ran o1 \<union> {length (rt_tasks rt1)..<length (rt_tasks rt')}"
    using Cons.IH [OF fold] Cons.prems(2) by simp
  moreover have "length (rt_tasks rt1) \<le> length (rt_tasks rt')"
    using rt_grows_simps(3) [OF new_outputs_grow [OF fold]] .
  ultimately show ?case
    using one by auto
qed auto

lemma worker_new_all:
  assumes "worker_new config helper rt = (w, rt')" "distinct (map o_id (s_outputs config))"
  shows "worker_handles w = {length (rt_tasks rt)..<length (rt_tasks rt')}"
proof -
  obtain remote rt1 where remote: "spawn_remote config rt = (remote, rt1)" by (metis surj_pair)
  obtain outputs helper' where outs: "foldl new_output (Map.empty, helper, rt1) (s_outputs config) = (outputs, helper', rt')"
      and w: "w = \<lparr>wk_config = config, wk_remote = remote, wk_outputs = outputs, wk_helper = helper'\<rparr>"
    using assms(1) by (auto simp: worker_new_def remote split: prod.splits)
  have "remote = length (rt_tasks rt)" "length (rt_tasks rt1) = Suc (length (rt_tasks rt))"
    using remote by (auto simp: spawn_remote_def spawn_def)
  moreover have "length (rt_tasks rt1) \<le> length (rt_tasks rt')"
    using rt_grows_simps(3) [OF new_outputs_grow [OF outs]] .
  ultimately show ?thesis
    using new_outputs_ran [OF outs assms(2)] by (auto simp: w worker_handles_def)
qed

lemma start_worker_alone:
  assumes "sv_workers s i = None" "i \<notin> sv_workers_lock s" "sv_config s = Some config" "get_stream config i = Some stream"
    and "worker_new stream (set_api_config (helper_new i)) (sv_rt s) = (w, rt)"
  shows "start_worker env i s = (Done (Inr ()), s\<lparr>sv_workers := (sv_workers s)(i \<mapsto> w), sv_rt := rt\<rparr>)"
proof -
  have "workers_start i (s\<lparr>sv_workers_lock := insert i (sv_workers_lock s)\<rparr>)
      = (Inr w, s\<lparr>sv_workers_lock := insert i (sv_workers_lock s), sv_rt := rt\<rparr>)"
    using assms by (simp add: workers_start_def)
  then show ?thesis
    using assms(1,2) by (simp add: start_worker_def eval_nat_numeral)
qed

lemma stop_worker_alone:
  assumes "sv_workers s i = Some w" "i \<notin> sv_workers_lock s" "walks (ve_walk env)"
  shows "stop_worker env i s = (Done (Inr ()), s\<lparr>sv_workers := (sv_workers s)(i := None),
    sv_rt := (sv_rt s)\<lparr>rt_finished := rt_finished (sv_rt s) \<union> worker_handles w,
       rt_cancelled := rt_cancelled (sv_rt s) \<union> worker_handles w\<rparr>\<rparr>)"
proof -
  have "snd (worker_stop (ve_ends env) (ve_walk env) w (sv_rt s)) = (sv_rt s)\<lparr>rt_finished := rt_finished (sv_rt s) \<union> worker_handles w,
       rt_cancelled := rt_cancelled (sv_rt s) \<union> worker_handles w\<rparr>"
    using worker_stop_rt [OF prod.collapse [symmetric] assms(3)] by simp
  then show ?thesis
    using assms(1,2) by (simp add: stop_worker_def eval_nat_numeral)
qed


definition example_config :: config where
  "example_config = \<lparr>c_mgnt = \<lparr>mg_hash = [], mg_last_update = 0, mg_admin_url = [], mg_allow = []\<rparr>, c_epg_configs = [],
     c_streams = [udp_stream], c_http_routers = []\<rparr>"


section \<open>Three faults\<close>

text \<open>
  A valid configuration may have two outputs with the same id. Both are spawned, the second one takes the place of the first in the map, and
  stopping the stream neither cancels the first one nor waits for it.
\<close>

definition twin_stream :: stream where
  "twin_stream = udp_stream\<lparr>s_outputs := [udp_output, udp_output]\<rparr>"

lemma duplicate_output_leaks:
  assumes "walks (ve_walk env)"
  defines "s \<equiv> sv_new\<lparr>sv_config := Some (example_config\<lparr>c_streams := [twin_stream]\<rparr>)\<rparr>"
  shows "validate_config (example_config\<lparr>c_streams := [twin_stream]\<rparr>) = Inr ()"
    and "\<exists>s1 s2. start_worker env 5 s = (Done (Inr ()), s1) \<and> stop_worker env 5 s1 = (Done (Inr ()), s2)
      \<and> sv_workers s2 = Map.empty \<and> rt_tasks (sv_rt s2) ! 1 = OutputTask (Some OutUdp) udp_output
      \<and> 1 \<notin> rt_finished (sv_rt s2) \<and> 1 \<notin> rt_cancelled (sv_rt s2)"
proof -
  have allowed: "is_task_type_allowed (o_task_type udp_output)" "is_task_type_allowed (s_task_type udp_stream)" "o_id udp_output = 7"
      "output_kind_of (o_task_type udp_output) = Some OutUdp"
    by (simp_all add: udp_stream_def udp_output_def is_task_type_allowed_def ALLOWED_TASK_TYPES_def output_kind_of_def)
  then show "validate_config (example_config\<lparr>c_streams := [twin_stream]\<rparr>) = Inr ()"
    by (simp add: validate_config_def example_config_def twin_stream_def)
  obtain w rt where new: "worker_new twin_stream (set_api_config (helper_new 5)) (sv_rt s) = (w, rt)" by (metis surj_pair)
  then have w: "rt_tasks rt ! 1 = OutputTask (Some OutUdp) udp_output" "rt_finished rt = {}" "rt_cancelled rt = {}"
      "wk_remote w = 0" "wk_outputs w = [7 \<mapsto> 2]"
    using allowed by (auto simp: worker_new_def twin_stream_def new_output_def spawn_remote_def spawn_output_def spawn_def s_def sv_new_def
        numeral_2_eq_2 simp del: fun_upd_apply)
  have s: "sv_workers s 5 = None" "5 \<notin> sv_workers_lock s" "sv_config s = Some (example_config\<lparr>c_streams := [twin_stream]\<rparr>)"
      "get_stream (example_config\<lparr>c_streams := [twin_stream]\<rparr>) 5 = Some twin_stream"
    by (simp_all add: s_def sv_new_def get_stream_def twin_stream_def udp_stream_def)
  let ?s1 = "s\<lparr>sv_workers := (sv_workers s)(5 \<mapsto> w), sv_rt := rt\<rparr>"
  have "1 \<notin> worker_handles w" using w by (simp add: worker_handles_def)
  then show "\<exists>s1 s2. start_worker env 5 s = (Done (Inr ()), s1) \<and> stop_worker env 5 s1 = (Done (Inr ()), s2)
      \<and> sv_workers s2 = Map.empty \<and> rt_tasks (sv_rt s2) ! 1 = OutputTask (Some OutUdp) udp_output
      \<and> 1 \<notin> rt_finished (sv_rt s2) \<and> 1 \<notin> rt_cancelled (sv_rt s2)"
    using start_worker_alone [OF s new] stop_worker_alone [of ?s1 5 w env] s w assms(1)
    by (simp add: s_def sv_new_def fun_eq_iff)
qed

text \<open>
  A worker whose input task has ended is taken out of the map by the monitor before the restart it asks for looks for it there: the
  restart fails and the stream stays stopped until somebody starts it again.
\<close>

lemma restart_after_removal:
  assumes "sv_workers s i = None" "i \<notin> sv_workers_lock s"
  shows "restart_worker env i s = (Done (Inl (WorkerNotFound i)), s)"
  using assms by (simp add: restart_worker_def eval_nat_numeral)

lemma monitor_gives_up:
  assumes "sv_workers s i = Some w" "is_finished (sv_rt s) (wk_remote w)" "i \<notin> sv_workers_lock s"
    and "monitor_workers [i] s = (s', restarts)"
  shows "restarts = [RestartLock i] \<and> sv_workers s' i = None \<and> restart_worker env i s' = (Done (Inl (WorkerNotFound i)), s')"
proof -
  have "s' = s\<lparr>sv_workers := (sv_workers s)(i := None), sv_rt := cancel_all (ran (wk_outputs w)) (sv_rt s)\<rparr>"
    "restarts = [RestartLock i]"
    using assms by (auto simp: monitor_workers_def monitor_worker_def worker_monitor_finished)
  then show ?thesis
    using assms(3) restart_after_removal [of s' i env] by simp
qed

text \<open>
  Two requests to start the same stream may both see that it is not in the map before either takes the lock. The second one starts
  a second worker in place of the first, whose tasks then run on without an owner.
\<close>

fun schedule :: "sv_env \<Rightarrow> nat list \<Rightarrow> sv_state \<Rightarrow> sv_state" where
  "schedule env [] st = st"
| "schedule env (k # ks) (s, ops) = (case advance env (ops ! k) s of (op', s') \<Rightarrow> schedule env ks (s', ops[k := op']))"

lemma schedule_reachable:
  "sv_reachable env (s, ops) \<Longrightarrow> \<forall>k \<in> set ks. k < length ops \<Longrightarrow> sv_reachable env (schedule env ks (s, ops))"
proof (induction ks arbitrary: s ops)
  case (Cons k ks)
  obtain op' s' where a: "advance env (ops ! k) s = (op', s')" by (metis surj_pair)
  have "sv_reachable env (s', ops[k := op'])"
    using Cons.prems by (intro then_step [OF _ op_step [OF _ a]]) auto
  from Cons.IH [OF this] Cons.prems(2) show ?case by (simp add: a)
qed simp

lemma start_race:
  assumes "ve_parse env json = Some example_config"
  shows "\<exists>s ops w. sv_reachable env (s, ops) \<and> list_all op_done ops \<and> sv_workers s = [5 \<mapsto> w] \<and> wk_remote w = 2
    \<and> rt_tasks (sv_rt s) ! 0 = InputTask (Some InUdp) udp_stream \<and> rt_finished (sv_rt s) = {} \<and> rt_cancelled (sv_rt s) = {}
    \<and> 0 \<notin> worker_handles w"
proof -
  let ?s = "sv_new\<lparr>sv_src_config := Some json, sv_config := Some example_config\<rparr>"
  have "validate_config example_config = Inr ()"
    by (simp add: validate_config_def example_config_def udp_stream_def udp_output_def is_task_type_allowed_def ALLOWED_TASK_TYPES_def)
  then have "sv_load env True json sv_new = (Inr (), ?s)" using assms by (simp add: sv_load_def)
  then have "sv_reachable env (?s, [])" by (rule then_step [OF initial load])
  from then_step [OF then_step [OF this request_start [of env _ _ 5]] request_start [of env _ _ 5]]
  have "sv_reachable env (?s, [StartCheck 5, StartCheck 5])" by simp
  from schedule_reachable [OF this, of "[0, 1, 1, 1, 1, 1, 0, 0, 0, 0]"]
  have "sv_reachable env (schedule env [0, 1, 1, 1, 1, 1, 0, 0, 0, 0] (?s, [StartCheck 5, StartCheck 5]))" by simp
  define st where "st = schedule env [0, 1, 1, 1, 1, 1, 0, 0, 0, 0] (?s, [StartCheck 5, StartCheck 5])"
  have r: "sv_reachable env st" using \<open>sv_reachable env (schedule _ _ _)\<close> by (simp add: st_def)
  have "list_all op_done (snd st) \<and> (\<exists>w. sv_workers (fst st) = [5 \<mapsto> w] \<and> wk_remote w = 2 \<and> 0 \<notin> worker_handles w)
    \<and> rt_tasks (sv_rt (fst st)) ! 0 = InputTask (Some InUdp) udp_stream \<and> rt_finished (sv_rt (fst st)) = {}
    \<and> rt_cancelled (sv_rt (fst st)) = {}"
    unfolding st_def by (simp add: sv_new_def workers_start_def get_stream_def example_config_def udp_stream_def worker_new_def
       spawn_remote_def spawn_output_def spawn_def new_output_def udp_output_def is_task_type_allowed_def ALLOWED_TASK_TYPES_def
       op_done_def worker_handles_def input_kind_of_def) (intro exI conjI, rule refl, simp_all)
  then show ?thesis
    using r by (metis prod.collapse)
qed

end
