(* ===== verification/Http_Api.thy ===== *)
theory Http_Api
  imports Supervisor
begin

text \<open>
  The HTTP interface of the supervisor (\<open>server\<close> in \<open>supervisor.rs\<close>) and \<open>is_forbidden\<close> of \<open>misc.rs\<close>. A request is the route that matched
  with its parameters; the server answers at once and leaves the work to a task in the background, which reports an event
  when it is done. The parsers of addresses and networks are parameters, and so is what a network contains.
\<close>

section \<open>Access\<close>

fun no_net_contains :: "(rstring \<Rightarrow> 'net option) \<Rightarrow> ('net \<Rightarrow> 'ip \<Rightarrow> bool) \<Rightarrow> 'ip \<Rightarrow> rstring list \<Rightarrow> bool option" where
  "no_net_contains parse_net contains ip [] = Some True"
| "no_net_contains parse_net contains ip (net # nets) = do {
     ipnet \<leftarrow> parse_net net;
     if contains ipnet ip then Some False else no_net_contains parse_net contains ip nets }"

definition is_forbidden :: "(rstring \<Rightarrow> 'ip option) \<Rightarrow> (rstring \<Rightarrow> 'net option) \<Rightarrow> ('net \<Rightarrow> 'ip \<Rightarrow> bool) \<Rightarrow> rstring \<Rightarrow> rstring list \<Rightarrow> bool option" where
  "is_forbidden parse_ip parse_net contains ip ip_nets =
    (if ip_nets = [] then Some False else do {
     ip \<leftarrow> parse_ip ip;
     no_net_contains parse_net contains ip ip_nets })"

definition sv_is_forbidden :: "(rstring \<Rightarrow> 'ip option) \<Rightarrow> (rstring \<Rightarrow> 'net option) \<Rightarrow> ('net \<Rightarrow> 'ip \<Rightarrow> bool) \<Rightarrow> supervisor \<Rightarrow> rstring \<Rightarrow> bool option" where
  "sv_is_forbidden parse_ip parse_net contains s ip = (case sv_config s of
     Some config \<Rightarrow> is_forbidden parse_ip parse_net contains ip (mg_allow (c_mgnt config))
   | None \<Rightarrow> Some False)"

section \<open>Events\<close>

datatype events_type = OnStartStream | OnStopStream | OnStartOutput | OnStopOutput | OnError | OnProbe | OnSaveConfig | OnLoadConfig

definition events_type_str :: "events_type \<Rightarrow> string" where
  "events_type_str t = (case t of
     OnStartStream \<Rightarrow> ''on_start_stream'' | OnStopStream \<Rightarrow> ''on_stop_stream''
   | OnStartOutput \<Rightarrow> ''on_start_output'' | OnStopOutput \<Rightarrow> ''on_stop_output''
   | OnError \<Rightarrow> ''on_error'' | OnProbe \<Rightarrow> ''on_probe''
   | OnSaveConfig \<Rightarrow> ''on_save_config'' | OnLoadConfig \<Rightarrow> ''on_load_config'')"

datatype event_msg =
    NoText
  | StreamStarted u32
  | StreamStartFailed u32 sv_error
  | StreamStopped u32
  | StreamStopFailed u32 sv_error
  | ProbeDone u32
  | ProbeFailed u32 sv_error
  | ConfigLoaded
  | ConfigLoadFailed sv_error
  | ConfigSaved
  | ConfigSaveFailed sv_error

record event =
  ev_event :: string
  ev_success :: bool
  ev_message :: event_msg

definition event_new :: "events_type \<Rightarrow> event" where
  "event_new t = \<lparr>ev_event = events_type_str t, ev_success = True, ev_message = NoText\<rparr>"

definition event_success :: "event_msg \<Rightarrow> event \<Rightarrow> event" where
  "event_success m e = e\<lparr>ev_success := True, ev_message := m\<rparr>"

definition event_failed :: "event_msg \<Rightarrow> event \<Rightarrow> event" where
  "event_failed m e = e\<lparr>ev_success := False, ev_message := m\<rparr>"

section \<open>Routes\<close>

datatype router_request = AddKey rstring | RmKey rstring | AddAlias u32 rstring rstring | RmAlias u32 rstring | RoutersStart | RoutersStop
datatype task_request = GuideStart u32 | GuideStop u32 | ProbeStream u32
datatype dump_request = StartDump u32 | StopDump u32
datatype config_request = LoadConfig rstring | SaveConfig | GetConfig
datatype stats_request = ListWorkers | AllStats | StatsOf u32
datatype worker_request = StartAll | StopAll | StartStream u32 | StopStream u32

datatype request =
    ReqRoot
  | ReqRouter router_request
  | ReqTask task_request
  | ReqDump dump_request
  | ReqConfig config_request
  | ReqStats stats_request
  | ReqWorker worker_request
  | ReqOther rstring

datatype answer_msg =
    MuxerReady
  | WorkerProbing u32
  | ConfigLoading
  | ConfigSaving
  | AllStarting
  | AllStopping
  | WorkerStarted u32
  | WorkerStopped u32
  | NoRoute rstring

datatype response =
    Json bool answer_msg u32
  | JsonSuccess
  | JsonBody rstring
  | Statistics "u32 option"
  | WorkerList
  | DumpStream u32
  | DumpStopped u32
  | DumpNotStarted u32 sv_error
  | DumpNotStopped u32 sv_error
  | AccessDenied

text \<open>What goes on in the background, and the event it reports.\<close>

datatype background =
    BgOp op
  | BgStartAll
  | BgStopAll
  | BgEpgStart u32
  | BgEpgStop u32
  | BgRoutersStart
  | BgRoutersStop
  | BgProbe u32
  | BgLoad rstring
  | BgSave
  | BgAddKey rstring
  | BgRmKey rstring
  | BgAddAlias u32 rstring rstring
  | BgRmAlias u32 rstring

fun route_router :: "router_request \<Rightarrow> response \<times> background list" where
  "route_router (AddKey key) = (JsonSuccess, [BgAddKey key])"
| "route_router (RmKey key) = (JsonSuccess, [BgRmKey key])"
| "route_router (AddAlias i alias socket) = (JsonSuccess, [BgAddAlias i alias socket])"
| "route_router (RmAlias i alias) = (JsonSuccess, [BgRmAlias i alias])"
| "route_router RoutersStart = (JsonSuccess, [BgRoutersStart])"
| "route_router RoutersStop = (JsonSuccess, [BgRoutersStop])"

fun route_task :: "task_request \<Rightarrow> response \<times> background list" where
  "route_task (GuideStart i) = (JsonSuccess, [BgEpgStart i])"
| "route_task (GuideStop i) = (JsonSuccess, [BgEpgStop i])"
| "route_task (ProbeStream i) = (Json True (WorkerProbing i) i, [BgProbe i])"

fun route_dump :: "sv_env \<Rightarrow> worker list \<Rightarrow> dump_request \<Rightarrow> supervisor \<Rightarrow> response \<times> supervisor" where
  "route_dump env walk (StartDump i) s = (case start_dump walk i s of
     (Inr i, s) \<Rightarrow> (DumpStream i, s)
   | (Inl e, s) \<Rightarrow> (DumpNotStarted i e, s))"
| "route_dump env walk (StopDump i) s = (case stop_dump env i s of
     (Inr _, s) \<Rightarrow> (DumpStopped i, s)
   | (Inl e, s) \<Rightarrow> (DumpNotStopped i e, s))"

fun route_config :: "config_request \<Rightarrow> supervisor \<Rightarrow> response \<times> background list" where
  "route_config (LoadConfig cfg_json) s = (Json True ConfigLoading 0, [BgLoad cfg_json])"
| "route_config SaveConfig s = (Json True ConfigSaving 0, [BgSave])"
| "route_config GetConfig s = (JsonBody (sv_get_config s), [])"

text \<open>The lists are JSON made from the counters of the workers; they are named, not built.\<close>

fun route_stats :: "stats_request \<Rightarrow> response" where
  "route_stats ListWorkers = WorkerList"
| "route_stats AllStats = Statistics None"
| "route_stats (StatsOf i) = Statistics (Some i)"

fun route_worker :: "worker_request \<Rightarrow> response \<times> background list" where
  "route_worker StartAll = (Json True AllStarting 0, [BgStartAll])"
| "route_worker StopAll = (Json True AllStopping 0, [BgStopAll])"
| "route_worker (StartStream i) = (Json True (WorkerStarted i) i, [BgOp (StartCheck i)])"
| "route_worker (StopStream i) = (Json True (WorkerStopped i) i, [BgOp (StopCheck i)])"

fun route :: "sv_env \<Rightarrow> worker list \<Rightarrow> request \<Rightarrow> supervisor \<Rightarrow> response \<times> supervisor \<times> background list" where
  "route env walk ReqRoot s = (Json True MuxerReady 0, s, [])"
| "route env walk (ReqRouter r) s = (case route_router r of (a, bg) \<Rightarrow> (a, s, bg))"
| "route env walk (ReqTask r) s = (case route_task r of (a, bg) \<Rightarrow> (a, s, bg))"
| "route env walk (ReqDump r) s = (case route_dump env walk r s of (a, s) \<Rightarrow> (a, s, []))"
| "route env walk (ReqConfig r) s = (case route_config r s of (a, bg) \<Rightarrow> (a, s, bg))"
| "route env walk (ReqStats r) s = (route_stats r, s, [])"
| "route env walk (ReqWorker r) s = (case route_worker r of (a, bg) \<Rightarrow> (a, s, bg))"
| "route env walk (ReqOther uri) s = (Json False (NoRoute uri) 0, s, [])"

text \<open>The layer in front of all routes: only IPv4, and only who is allowed. \<open>None\<close>: the handler panics.\<close>

definition serve :: "(rstring \<Rightarrow> 'ip option) \<Rightarrow> (rstring \<Rightarrow> 'net option) \<Rightarrow> ('net \<Rightarrow> 'ip \<Rightarrow> bool) \<Rightarrow> sv_env \<Rightarrow> worker list
    \<Rightarrow> rstring option \<Rightarrow> request \<Rightarrow> supervisor \<Rightarrow> (response \<times> supervisor \<times> background list) option" where
  "serve parse_ip parse_net contains env walk ipv4 req s = (case ipv4 of
     None \<Rightarrow> Some (AccessDenied, s, [])
   | Some ip \<Rightarrow> do {
       forbidden \<leftarrow> sv_is_forbidden parse_ip parse_net contains s ip;
       if forbidden then Some (AccessDenied, s, []) else Some (route env walk req s) })"

text \<open>The events of the operations that report one.\<close>

definition start_event :: "u32 \<Rightarrow> sv_error + unit \<Rightarrow> event" where
  "start_event i r = (case r of
     Inr _ \<Rightarrow> event_success (StreamStarted i) (event_new OnStartStream)
   | Inl e \<Rightarrow> event_failed (StreamStartFailed i e) (event_new OnStartStream))"

definition stop_event :: "u32 \<Rightarrow> sv_error + unit \<Rightarrow> event" where
  "stop_event i r = (case r of
     Inr _ \<Rightarrow> event_success (StreamStopped i) (event_new OnStopStream)
   | Inl e \<Rightarrow> event_failed (StreamStopFailed i e) (event_new OnStopStream))"

definition probe_event :: "u32 \<Rightarrow> sv_error + unit \<Rightarrow> event" where
  "probe_event i r = (case r of
     Inr _ \<Rightarrow> event_success (ProbeDone i) (event_new OnProbe)
   | Inl e \<Rightarrow> event_failed (ProbeFailed i e) (event_new OnProbe))"

definition background_load :: "sv_env \<Rightarrow> bool \<Rightarrow> int \<Rightarrow> rstring \<Rightarrow> supervisor \<Rightarrow> supervisor \<times> event" where
  "background_load env in_time now cfg_json s = (case sv_load env in_time cfg_json s of
     (Inr _, s) \<Rightarrow> (sv_mark_dirty now s, event_success ConfigLoaded (event_new OnLoadConfig))
   | (Inl e, s) \<Rightarrow> (s, event_failed (ConfigLoadFailed e) (event_new OnLoadConfig)))"

definition background_save :: "bool \<Rightarrow> supervisor \<Rightarrow> supervisor \<times> event" where
  "background_save write_ok s = (case sv_save write_ok s of
     (Inr _, s) \<Rightarrow> (s, event_success ConfigSaved (event_new OnSaveConfig))
   | (Inl e, s) \<Rightarrow> (s, event_failed (ConfigSaveFailed e) (event_new OnSaveConfig)))"

section \<open>Who is let in\<close>

lemma no_net_contains_eq:
  "list_all (\<lambda>net. parse_net net \<noteq> None) nets \<Longrightarrow>
   no_net_contains parse_net contains ip nets = Some (\<not> list_ex (\<lambda>net. contains (the (parse_net net)) ip) nets)"
  by (induction nets) auto

text \<open>
  C9. Access is decided before anything happens: over IPv4, with a list of networks that are all well formed, a request is served
  exactly when there is no configuration yet, the list is empty, or a network of it contains the address; all others, and all
  that do not come over IPv4, get the answer that access is denied, and neither change the state nor start anything.
\<close>

theorem access_control:
  assumes "parse_ip ip = Some a" "\<And>config. sv_config s = Some config \<Longrightarrow> list_all (\<lambda>net. parse_net net \<noteq> None) (mg_allow (c_mgnt config))"
  shows "serve parse_ip parse_net contains env walk None req s = Some (AccessDenied, s, [])
    \<and> serve parse_ip parse_net contains env walk (Some ip) req s = Some
       (if (case sv_config s of None \<Rightarrow> True | Some config \<Rightarrow> mg_allow (c_mgnt config) = []
            \<or> (\<exists>net \<in> set (mg_allow (c_mgnt config)). contains (the (parse_net net)) a))
        then route env walk req s else (AccessDenied, s, []))"
  using assms no_net_contains_eq [of parse_net "mg_allow (c_mgnt (the (sv_config s)))" contains a]
  by (auto simp: serve_def sv_is_forbidden_def is_forbidden_def list_ex_iff split: option.splits)

text \<open>Networks as prefixes of addresses; a configuration that allows one of them.\<close>

definition closed_config :: config where
  "closed_config = \<lparr>c_mgnt = \<lparr>mg_hash = [], mg_last_update = 0, mg_admin_url = [], mg_allow = [[10, 0]]\<rparr>, c_epg_configs = [],
     c_streams = [], c_http_routers = []\<rparr>"

definition quiet_env :: sv_env where
  "quiet_env = \<lparr>ve_parse = (\<lambda>_. None), ve_ends = (\<lambda>_. Ends), ve_walk = (\<lambda>_. [])\<rparr>"

theorem access_control_witness:
  "serve Some Some (\<lambda>net ip. take (length net) ip = net) quiet_env [] (Some [192, 168, 0, 1]) (ReqWorker (StartStream 5)) (sv_new\<lparr>sv_config := Some closed_config\<rparr>)
     = Some (AccessDenied, sv_new\<lparr>sv_config := Some closed_config\<rparr>, [])
   \<and> serve Some Some (\<lambda>net ip. take (length net) ip = net) quiet_env [] (Some [10, 0, 0, 1]) (ReqWorker (StartStream 5)) (sv_new\<lparr>sv_config := Some closed_config\<rparr>)
     = Some (Json True (WorkerStarted 5) 5, sv_new\<lparr>sv_config := Some closed_config\<rparr>, [BgOp (StartCheck 5)])"
proof -
  let ?s = "sv_new\<lparr>sv_config := Some closed_config\<rparr>"
  have allow: "mg_allow (c_mgnt closed_config) = [[10, 0]]" by (simp add: closed_config_def)
  show ?thesis
    using access_control [of Some "[192, 168, 0, 1]" "[192, 168, 0, 1]" ?s Some "\<lambda>net ip. take (length net) ip = net" quiet_env "[]" "ReqWorker (StartStream 5)"]
      access_control [of Some "[10, 0, 0, 1]" "[10, 0, 0, 1]" ?s Some "\<lambda>net ip. take (length net) ip = net" quiet_env "[]" "ReqWorker (StartStream 5)"]
    by (simp add: allow)
qed

text \<open>A network that is not well formed, before one that contains the address, makes every request over IPv4 panic.\<close>

lemma bad_network_panics:
  "sv_config s = Some config \<Longrightarrow> mg_allow (c_mgnt config) = net # nets \<Longrightarrow> parse_net net = None
   \<Longrightarrow> serve parse_ip parse_net contains env walk (Some ip) req s = None"
  by (cases "parse_ip ip") (auto simp: serve_def sv_is_forbidden_def is_forbidden_def)

end
