(* ===== verification/Probe.thy ===== *)
theory Probe
  imports Psi_Sdt Psi_Pmt Psi_Pat Biss Es_Description "HOL-Library.AList"
begin

text \<open>
  \<open>probe.rs\<close>: the analysis of a stream on request. Data is collected until there are fifteen megabytes or
  five seconds are over; then the packets are walked once, through stages: the PAT, the SDT, the PMT of
  every program, the elementary streams. The map from PID to stream type is the association list of its
  entries, \<open>probe_info\<close> the list of programs. The two decoders of names are those of \<open>analyze_sdt\<close>.
\<close>

unbundle bit_operations_syntax

definition PROBE_BUFFER_SIZE :: usize where
  "PROBE_BUFFER_SIZE = 15 * 1024 * 1024"

record probe_program =
  pp_pat :: pat_info
  pp_pmt :: "pmt_info option"
  pp_sdt :: "sdt_info option"

definition probe_program_new :: "pat_info \<Rightarrow> probe_program" where
  "probe_program_new pat = \<lparr>pp_pat = pat, pp_pmt = None, pp_sdt = None\<rparr>"

definition set_pmt :: "pmt_info \<Rightarrow> probe_program \<Rightarrow> probe_program" where
  "set_pmt pmt p = p\<lparr>pp_pmt := Some pmt\<rparr>"

definition set_sdt :: "sdt_info \<Rightarrow> probe_program \<Rightarrow> probe_program" where
  "set_sdt sdt p = p\<lparr>pp_sdt := Some sdt\<rparr>"

type_synonym probe_info = "probe_program list"

record probe =
  pb_in_buff :: bytes
  pb_is_sync :: bool
  pb_is_pat :: bool
  pb_is_sdt :: bool
  pb_is_pmt :: bool
  pb_is_pes :: bool
  pb_pid_to_stream :: "(u16 \<times> u8) list"
  pb_psi_reasm :: section_reassembler_map
  pb_probe_info :: "probe_info option"

definition probe_new :: probe where
  "probe_new = \<lparr>pb_in_buff = [], pb_is_sync = False, pb_is_pat = False, pb_is_sdt = False, pb_is_pmt = False,
     pb_is_pes = False, pb_pid_to_stream = [], pb_psi_reasm = srm_new, pb_probe_info = None\<rparr>"

definition stream_allowed :: "u8 \<Rightarrow> bool" where
  "stream_allowed stream_type \<longleftrightarrow> stream_type \<in> {2, 3, 4, 15, 27}"

section \<open>Collecting\<close>

text \<open>
  The search for the raster is the loop of \<open>sync_buffer\<close>, whose result is empty and not synchronised when
  no sync byte is left; then \<open>write\<close> returns at once.
\<close>

definition probe_write :: "bytes \<Rightarrow> probe \<Rightarrow> probe \<times> bool" where
  "probe_write chunk p =
    (let p = p\<lparr>pb_in_buff := pb_in_buff p @ chunk\<rparr>;
         p = (if \<not> pb_is_sync p then
                let (buff, synced) = sync_buffer (pb_in_buff p) in p\<lparr>pb_in_buff := buff, pb_is_sync := synced\<rparr>
              else p)
     in if length (pb_in_buff p) < PROBE_BUFFER_SIZE then (p, False) else (p, True))"

section \<open>The stages\<close>

text \<open>\<open>iter_mut().find(P)\<close> and a change of what it found.\<close>

fun update_first :: "('a \<Rightarrow> bool) \<Rightarrow> ('a \<Rightarrow> 'a) \<Rightarrow> 'a list \<Rightarrow> 'a list" where
  "update_first P f [] = []"
| "update_first P f (x # xs) = (if P x then f x # xs else x # update_first P f xs)"

definition probe_push :: "bytes \<Rightarrow> probe \<Rightarrow> (probe \<times> bytes option) option" where
  "probe_push pkt p = do {
     (m, out) \<leftarrow> srm_push (pb_psi_reasm p) pkt;
     Some (p\<lparr>pb_psi_reasm := m\<rparr>, out) }"

definition probe_pat :: "bytes \<Rightarrow> probe \<Rightarrow> probe option" where
  "probe_pat pkt p = do {
     (p, out) \<leftarrow> probe_push pkt p;
     case out of None \<Rightarrow> Some p
     | Some section \<Rightarrow> do {
         pats \<leftarrow> analyze_pat section;
         Some (p\<lparr>pb_probe_info := Some (map probe_program_new pats), pb_is_pat := True\<rparr>) }}"

text \<open>\<open>unwrap\<close> of the information is a panic when there is none.\<close>

definition attach_sdt :: "probe \<Rightarrow> sdt_info \<Rightarrow> probe option" where
  "attach_sdt p sdt = do {
     info \<leftarrow> pb_probe_info p;
     Some (p\<lparr>pb_probe_info :=
       Some (update_first (\<lambda>pr. pi_prog_num (pp_pat pr) = sdt_service_id sdt) (set_sdt sdt) info)\<rparr>) }"

definition probe_sdt :: "(bytes \<Rightarrow> rstring) \<Rightarrow> (bytes \<Rightarrow> rstring) \<Rightarrow> bytes \<Rightarrow> probe \<Rightarrow> probe option" where
  "probe_sdt iso_8859_5 utf_16be pkt p = do {
     (p, out) \<leftarrow> probe_push pkt p;
     case out of None \<Rightarrow> Some p
     | Some section \<Rightarrow> do {
         sdts \<leftarrow> analyze_sdt iso_8859_5 utf_16be section;
         p \<leftarrow> foldM attach_sdt p sdts;
         Some (p\<lparr>pb_is_sdt := True\<rparr>) }}"

text \<open>
  The guard of the third arm: the packet belongs to the PMT of the first program that has none yet. When
  no program is left the stage is over.
\<close>

definition pmt_wanted :: "u16 \<Rightarrow> probe \<Rightarrow> (bool \<times> probe) option" where
  "pmt_wanted pid p = do {
     info \<leftarrow> pb_probe_info p;
     case List.find (\<lambda>pr. pp_pmt pr = None) info of
       Some pr \<Rightarrow> Some (pid = pi_pmt_pid (pp_pat pr), p)
     | None \<Rightarrow> Some (False, p\<lparr>pb_is_pmt := True\<rparr>) }"

definition note_streams :: "stream_info list \<Rightarrow> (u16 \<times> u8) list \<Rightarrow> (u16 \<times> u8) list" where
  "note_streams streams pid_to_stream =
    foldl (\<lambda>m s. if stream_allowed (si_stream_type s) then AList.update (si_pid s) (si_stream_type s) m else m)
      pid_to_stream streams"

definition probe_pmt :: "bytes \<Rightarrow> u16 \<Rightarrow> probe \<Rightarrow> probe option" where
  "probe_pmt pkt pid p = do {
     (p, out) \<leftarrow> probe_push pkt p;
     case out of None \<Rightarrow> Some p
     | Some section \<Rightarrow> do {
         pmt \<leftarrow> analyze_pmt section;
         let p = p\<lparr>pb_pid_to_stream := note_streams (pmt_streams pmt) (pb_pid_to_stream p)\<rparr>;
         info \<leftarrow> pb_probe_info p;
         Some (p\<lparr>pb_probe_info :=
           Some (update_first (\<lambda>pr. pi_pmt_pid (pp_pat pr) = pid) (set_pmt pmt) info)\<rparr>) }}"

text \<open>The texts of the descriptions are ASCII.\<close>

definition text_bytes :: "string \<Rightarrow> rstring" where
  "text_bytes s = map (\<lambda>c. of_nat (of_char c)) s"

definition describe :: "rstring \<Rightarrow> u16 \<Rightarrow> pmt_info \<Rightarrow> pmt_info" where
  "describe d pid pmt =
    pmt\<lparr>pmt_streams := update_first (\<lambda>s. si_pid s = pid) (\<lambda>s. s\<lparr>si_description := d\<rparr>) (pmt_streams pmt)\<rparr>"

definition has_stream :: "u16 \<Rightarrow> probe_program \<Rightarrow> bool" where
  "has_stream pid pr = (case pp_pmt pr of None \<Rightarrow> False | Some pmt \<Rightarrow> list_ex (\<lambda>s. si_pid s = pid) (pmt_streams pmt))"

text \<open>The first stream with the PID over the programs that have a PMT.\<close>

definition describe_stream :: "rstring \<Rightarrow> u16 \<Rightarrow> probe_info \<Rightarrow> probe_info option" where
  "describe_stream d pid info =
    (if list_ex (has_stream pid) info then
       Some (update_first (has_stream pid) (\<lambda>pr. pr\<lparr>pp_pmt := map_option (describe d pid) (pp_pmt pr)\<rparr>) info)
     else None)"

definition probe_pes :: "bytes \<Rightarrow> u16 \<Rightarrow> probe \<times> pes_reassembler_map \<Rightarrow> (probe \<times> pes_reassembler_map) option" where
  "probe_pes pkt pid = (\<lambda>(p, reasm). do {
     (reasm, out) \<leftarrow> prm_push reasm pkt (map_of (pb_pid_to_stream p));
     let p = (case Option.bind out pes_es of None \<Rightarrow> p
       | Some es \<Rightarrow> (case Option.bind (pb_probe_info p) (describe_stream (text_bytes (description es)) pid) of
           None \<Rightarrow> p
         | Some info \<Rightarrow> p\<lparr>pb_probe_info := Some info, pb_pid_to_stream := AList.delete pid (pb_pid_to_stream p)\<rparr>));
     Some ((if pb_pid_to_stream p = [] then p\<lparr>pb_is_pes := True\<rparr> else p), reasm) })"

text \<open>The \<open>match\<close> on the PID of one packet.\<close>

definition probe_packet :: "(bytes \<Rightarrow> rstring) \<Rightarrow> (bytes \<Rightarrow> rstring) \<Rightarrow> probe \<times> pes_reassembler_map \<Rightarrow> bytes
    \<Rightarrow> (probe \<times> pes_reassembler_map) option" where
  "probe_packet iso_8859_5 utf_16be = (\<lambda>(p, reasm) pkt. do {
     pid \<leftarrow> pkt_pid pkt;
     if pid = 0x1FFF then Some (p, reasm)
     else if pid = 0x0000 \<and> \<not> pb_is_pat p then do { p \<leftarrow> probe_pat pkt p; Some (p, reasm) }
     else if pid = 0x0011 \<and> pb_is_pat p \<and> \<not> pb_is_sdt p then do {
       p \<leftarrow> probe_sdt iso_8859_5 utf_16be pkt p; Some (p, reasm) }
     else do {
       (wanted, p) \<leftarrow> (if pb_is_pat p \<and> \<not> pb_is_pmt p then pmt_wanted pid p else Some (False, p));
       if wanted then do { p \<leftarrow> probe_pmt pkt pid p; Some (p, reasm) }
       else if pb_is_pmt p \<and> \<not> pb_is_pes p then probe_pes pkt pid (p, reasm)
       else Some (p, reasm) }})"

section \<open>The walk\<close>

text \<open>
  The loop of \<open>process\<close>: inner \<open>None\<close> when a packet does not start with the sync byte; the bytes before
  it are dropped.
\<close>

function probe_loop :: "(bytes \<Rightarrow> rstring) \<Rightarrow> (bytes \<Rightarrow> rstring) \<Rightarrow> usize \<Rightarrow> usize \<Rightarrow> probe \<times> pes_reassembler_map
    \<Rightarrow> (probe \<times> probe_info option) option" where
  "probe_loop iso_8859_5 utf_16be available_size pointer = (\<lambda>(p, reasm).
    if pointer < available_size then do {
      b \<leftarrow> idx (pb_in_buff p) pointer;
      if b = TS_SYNC_BYTE then do {
        pkt_data \<leftarrow> slice (pb_in_buff p) pointer (pointer + TS_PACKET_SIZE);
        s \<leftarrow> probe_packet iso_8859_5 utf_16be (p, reasm) pkt_data;
        probe_loop iso_8859_5 utf_16be available_size (pointer + TS_PACKET_SIZE) s }
      else Some (p\<lparr>pb_is_sync := False, pb_in_buff := drop pointer (pb_in_buff p)\<rparr>, None) }
    else Some (p, pb_probe_info p))"
  by pat_completeness auto
termination
  by (relation "measure (\<lambda>(d, e, n, k). n - k)") (auto simp: TS_PACKET_SIZE_def)

declare probe_loop.simps [simp del]

definition probe_process :: "(bytes \<Rightarrow> rstring) \<Rightarrow> (bytes \<Rightarrow> rstring) \<Rightarrow> probe \<Rightarrow> (probe \<times> probe_info option) option" where
  "probe_process iso_8859_5 utf_16be p =
    (if \<not> pb_is_sync p then Some (p, None)
     else probe_loop iso_8859_5 utf_16be ((length (pb_in_buff p) div TS_PACKET_SIZE) * TS_PACKET_SIZE) 0 (p, prm_new))"

section \<open>A request\<close>

datatype recv_error = Closed | Lagged

datatype probe_input = Chunk bytes | RecvError recv_error | Timeout

datatype probe_msg = NoMessage | ReceiveFailed recv_error | ProcessFailed

record probe_result =
  pres_id :: u32
  pres_status :: bool
  pres_error_msg :: probe_msg
  pres_programs :: probe_info

definition probe_result_new :: "u32 \<Rightarrow> probe_result" where
  "probe_result_new stream_id = \<lparr>pres_id = stream_id, pres_status = True, pres_error_msg = NoMessage, pres_programs = []\<rparr>"

text \<open>The loop over what arrives; \<open>None\<close> when it is still waiting at the end of the inputs.\<close>

fun probe_receive :: "probe \<times> probe_result \<Rightarrow> probe_input list \<Rightarrow> (probe \<times> probe_result) option" where
  "probe_receive (p, res) [] = None"
| "probe_receive (p, res) (Chunk chunk # ins) =
    (let (p, full) = probe_write chunk p in if full then Some (p, res) else probe_receive (p, res) ins)"
| "probe_receive (p, res) (RecvError Lagged # ins) = probe_receive (p, res) ins"
| "probe_receive (p, res) (RecvError Closed # ins) =
    Some (p, res\<lparr>pres_status := False, pres_error_msg := ReceiveFailed Closed\<rparr>)"
| "probe_receive (p, res) (Timeout # ins) = Some (p, res)"

definition probe_finish :: "(bytes \<Rightarrow> rstring) \<Rightarrow> (bytes \<Rightarrow> rstring) \<Rightarrow> probe \<times> probe_result \<Rightarrow> probe_result option" where
  "probe_finish iso_8859_5 utf_16be = (\<lambda>(p, res). do {
     (p, info) \<leftarrow> probe_process iso_8859_5 utf_16be p;
     Some (case info of
       Some programs \<Rightarrow> res\<lparr>pres_programs := programs\<rparr>
     | None \<Rightarrow> res\<lparr>pres_status := False, pres_error_msg := ProcessFailed\<rparr>) })"

definition probe_run :: "(bytes \<Rightarrow> rstring) \<Rightarrow> (bytes \<Rightarrow> rstring) \<Rightarrow> u32 \<Rightarrow> probe_input list \<Rightarrow> probe_result option" where
  "probe_run iso_8859_5 utf_16be stream_id ins =
    Option.bind (probe_receive (probe_new, probe_result_new stream_id) ins) (probe_finish iso_8859_5 utf_16be)"

section \<open>Collecting a stream that starts on the raster\<close>

lemma sync_at_start:
  "length b < 564 \<or> raster_at b 0 \<Longrightarrow> sync_buffer b = (b, 564 \<le> length b)"
  by (subst sync_buffer.simps) (auto simp: raster_at_def TS_PACKET_SIZE_def)

lemma raster_at_prefix: "raster_at b 0 \<Longrightarrow> 564 \<le> length a \<Longrightarrow> b = a @ c \<Longrightarrow> raster_at a 0"
  by (cases a) (auto simp: raster_at_def nth_append)

lemma probe_collects:
  assumes "raster_at (pre @ concat chunks) 0" "length (pre @ concat chunks) < PROBE_BUFFER_SIZE"
  shows "probe_receive (probe_new\<lparr>pb_in_buff := pre, pb_is_sync := (564 \<le> length pre)\<rparr>, res) (map Chunk chunks @ [Timeout])
    = Some (probe_new\<lparr>pb_in_buff := pre @ concat chunks, pb_is_sync := True\<rparr>, res)"
  using assms
proof (induction chunks arbitrary: pre)
  case Nil
  then show ?case by (simp add: raster_at_def)
next
  case (Cons c cs)
  have start: "sync_buffer (pre @ c) = (pre @ c, 564 \<le> length (pre @ c))"
    using raster_at_prefix [OF Cons.prems(1), of "pre @ c" "concat cs"] by (intro sync_at_start) (simp, linarith)
  have w: "probe_write c (probe_new\<lparr>pb_in_buff := pre, pb_is_sync := (564 \<le> length pre)\<rparr>)
      = (probe_new\<lparr>pb_in_buff := pre @ c, pb_is_sync := (564 \<le> length (pre @ c))\<rparr>, False)"
    using start Cons.prems(2) by (auto simp: probe_write_def Let_def)
  show ?case using w Cons.IH [of "pre @ c"] Cons.prems by simp
qed

section \<open>The walk over whole packets\<close>

lemma attach_sdts_buff: "foldM attach_sdt p sdts = Some p' \<Longrightarrow> pb_in_buff p' = pb_in_buff p"
  by (induction sdts arbitrary: p) (auto simp: attach_sdt_def split: Option.bind_splits)

lemma probe_push_buff: "probe_push pkt p = Some (p', out) \<Longrightarrow> pb_in_buff p' = pb_in_buff p"
  by (auto simp: probe_push_def split: Option.bind_splits)

lemma probe_pat_buff: "probe_pat pkt p = Some p' \<Longrightarrow> pb_in_buff p' = pb_in_buff p"
  by (auto simp: probe_pat_def split: Option.bind_splits option.splits dest!: probe_push_buff)

lemma probe_sdt_buff: "probe_sdt d e pkt p = Some p' \<Longrightarrow> pb_in_buff p' = pb_in_buff p"
  by (auto simp: probe_sdt_def split: Option.bind_splits option.splits dest!: probe_push_buff attach_sdts_buff)

lemma probe_pmt_buff: "probe_pmt pkt pid p = Some p' \<Longrightarrow> pb_in_buff p' = pb_in_buff p"
  by (auto simp: probe_pmt_def Let_def split: Option.bind_splits option.splits dest!: probe_push_buff)

lemma probe_pes_buff: "probe_pes pkt pid (p, r) = Some (p', r') \<Longrightarrow> pb_in_buff p' = pb_in_buff p"
  by (auto simp: probe_pes_def Let_def split: Option.bind_splits option.splits if_splits)

lemma pmt_wanted_buff: "pmt_wanted pid p = Some (w, p') \<Longrightarrow> pb_in_buff p' = pb_in_buff p"
  by (auto simp: pmt_wanted_def split: Option.bind_splits option.splits)

lemma probe_packet_buff:
  "probe_packet d e (p, r) pkt = Some (p', r') \<Longrightarrow> pb_in_buff p' = pb_in_buff p"
  by (auto simp: probe_packet_def split: if_splits Option.bind_splits
      dest!: probe_pat_buff probe_sdt_buff probe_pmt_buff probe_pes_buff pmt_wanted_buff)

lemma probe_loop_packets:
  assumes "list_all (\<lambda>q. length q = 188 \<and> q ! 0 = TS_SYNC_BYTE) qs"
    and "pb_in_buff p = pre @ concat qs @ rest"
  shows "probe_loop d e (length pre + 188 * length qs) (length pre) (p, r)
    = map_option (\<lambda>(p, r). (p, pb_probe_info p)) (foldM (probe_packet d e) (p, r) qs)"
  using assms
proof (induction qs arbitrary: pre p r)
  case Nil
  then show ?case by (simp add: probe_loop.simps)
next
  case (Cons q qs)
  have q: "length q = 188" "q ! 0 = TS_SYNC_BYTE" "q \<noteq> []" using Cons.prems(1) by auto
  have get: "idx (pb_in_buff p) (length pre) = Some TS_SYNC_BYTE"
      "slice (pb_in_buff p) (length pre) (length pre + TS_PACKET_SIZE) = Some q"
    using q Cons.prems(2) by (auto simp: idx_def slice_def nth_append TS_PACKET_SIZE_def)
  show ?case
  proof (cases "probe_packet d e (p, r) q")
    case None
    then show ?thesis using get by (subst probe_loop.simps) simp
  next
    case (Some pr)
    obtain p' r' where pr: "pr = (p', r')" by (cases pr)
    have "pb_in_buff p' = (pre @ q) @ concat qs @ rest"
      using probe_packet_buff Some Cons.prems(2) by (simp add: pr)
    then have "probe_loop d e (length (pre @ q) + 188 * length qs) (length (pre @ q)) (p', r')
        = map_option (\<lambda>(p, r). (p, pb_probe_info p)) (foldM (probe_packet d e) (p', r') qs)"
      using Cons.IH [of p' "pre @ q" r'] Cons.prems(1) by simp
    moreover have "length (pre @ q) + 188 * length qs = length pre + 188 * length (q # qs)"
      using q by simp
    ultimately show ?thesis
      using get Some pr q by (subst probe_loop.simps) (simp add: TS_PACKET_SIZE_def add.assoc)
  qed
qed

lemma probe_process_packets:
  assumes "list_all (\<lambda>q. length q = 188 \<and> q ! 0 = TS_SYNC_BYTE) qs" and "length rest < 188"
    and "pb_in_buff p = concat qs @ rest" and "pb_is_sync p"
  shows "probe_process d e p
    = map_option (\<lambda>(p, r). (p, pb_probe_info p)) (foldM (probe_packet d e) (p, prm_new) qs)"
proof -
  have "length (concat qs) = 188 * length qs" using assms(1) by (induction qs) auto
  then have "length (pb_in_buff p) div 188 * 188 = length ([] :: bytes) + 188 * length qs"
    using assms(2,3) by simp
  then show ?thesis
    using probe_loop_packets [OF assms(1), of p "[]" rest] assms(3,4)
    by (simp add: probe_process_def TS_PACKET_SIZE_def mult.commute)
qed

section \<open>A segment that carries one section\<close>

text \<open>
  Packets in a row, the last of which completes a section: those of its PID are the section cut into
  packets.
\<close>

definition carries :: "bytes \<Rightarrow> u16 \<Rightarrow> bytes list \<Rightarrow> bool" where
  "carries sec pid qs \<longleftrightarrow> list_all (\<lambda>q. length q = 188 \<and> q ! 0 = TS_SYNC_BYTE) qs
     \<and> (\<exists>cc. filter (\<lambda>q. ts_pid q = pid) qs = fst (pack_multi sec pid cc))
     \<and> qs \<noteq> [] \<and> ts_pid (last qs) = pid"

lemma segment_run:
  assumes "list_all ts_packet_ok qs" and "qs \<noteq> []" "ts_pid (last qs) = pid" "srm_inv m"
    and "push_each sr_push (srm_get m pid) (filter (\<lambda>q. ts_pid q = pid) qs) = Some (r', replicate n None @ [Some sec])"
    and "\<And>m q. q \<in> set qs \<Longrightarrow> step (st m) q = (if ts_pid q = pid
          then srm_push m q \<bind> (\<lambda>(m, out). case out of None \<Rightarrow> Some (st m) | Some s \<Rightarrow> fin s m)
          else Some (st m))"
  shows "\<exists>m'. srm_inv m' \<and> foldM step (st m) qs = fin sec m'"
  using assms
proof (induction qs arbitrary: m n)
  case (Cons q qs)
  have ok: "ts_packet_ok q" using Cons.prems(1) by simp
  show ?case
  proof (cases "ts_pid q = pid")
    case False
    then have "qs \<noteq> []" using Cons.prems(3) by auto
    then show ?thesis using Cons.IH [of m n] Cons.prems False by simp
  next
    case True
    obtain m1 out where push: "srm_push m q = Some (m1, out)"
      using reasm_map.push_returns [OF Cons.prems(4)] by blast
    have one: "sr_push (srm_get m pid) q = Some (srm_get m1 pid, out)"
      using srm_get_push [OF push, of pid] ok True by simp
    have inv: "srm_inv m1" by (rule srm_push_inv(1) [OF Cons.prems(4) push])
    obtain outs where rest: "push_each sr_push (srm_get m1 pid) (filter (\<lambda>q. ts_pid q = pid) qs) = Some (r', outs)"
        and outs: "out # outs = replicate n None @ [Some sec]"
      using Cons.prems(5) True one by (auto split: Option.bind_splits)
    have step: "step (st m) q = (case out of None \<Rightarrow> Some (st m1) | Some s \<Rightarrow> fin s m1)"
      using Cons.prems(6) [of q m] True push by simp
    show ?thesis
    proof (cases n)
      case 0
      then have "filter (\<lambda>q. ts_pid q = pid) qs = []"
        using rest outs by (cases "filter (\<lambda>q. ts_pid q = pid) qs") (auto split: Option.bind_splits)
      then have "qs = []" using Cons.prems(3) by (auto simp: filter_empty_conv split: if_splits)
      then show ?thesis using step outs 0 inv by auto
    next
      case (Suc k)
      then have *: "out = None" "outs = replicate k None @ [Some sec]" using outs by auto
      then have "qs \<noteq> []" using rest by auto
      then show ?thesis using Cons.IH [of m1 k] Cons.prems rest step inv * by simp
    qed
  qed
qed simp

lemma carries_run:
  assumes "carries sec pid qs" "section_ok sec" "unat pid < 8192" "srm_inv m"
    and "\<And>m q. q \<in> set qs \<Longrightarrow> ts_packet_ok q \<Longrightarrow> pkt_pid q = Some (ts_pid q) \<Longrightarrow> step (st m) q = (if ts_pid q = pid
          then srm_push m q \<bind> (\<lambda>(m, out). case out of None \<Rightarrow> Some (st m) | Some s \<Rightarrow> fin s m)
          else Some (st m))"
  shows "\<exists>m'. srm_inv m' \<and> foldM step (st m) qs = fin sec m'"
proof -
  obtain cc where *: "filter (\<lambda>q. ts_pid q = pid) qs = fst (pack_multi sec pid cc)"
      "list_all (\<lambda>q. length q = 188 \<and> q ! 0 = TS_SYNC_BYTE) qs" "qs \<noteq> []" "ts_pid (last qs) = pid"
    using assms(1) by (auto simp: carries_def)
  have ok: "ts_packet_ok q" "pkt_pid q = Some (ts_pid q)" if "q \<in> set qs" for q
    using that *(2) by (auto simp: list_all_iff ts_packet_ok_def TS_PACKET_SIZE_def ts_pid_def pkt_pid_def)
  show ?thesis
    using pack_multi_run [OF assms(2), of "srm_get m pid" cc] srm_get_pid [OF assms(4)] assms(3)
    by (intro segment_run [OF _ *(3,4) assms(4), of _ _ sec step st fin])
       (auto simp: *(1) list_all_iff ok assms(5))
qed

section \<open>The stages of a stream with its tables in order\<close>

lemma pat_stage:
  assumes "carries sec 0 qs" "section_ok sec" "analyze_pat sec = Some pats"
    and "\<not> pb_is_pat p" "\<not> pb_is_pmt p" "srm_inv (pb_psi_reasm p)"
  shows "\<exists>m. srm_inv m \<and> foldM (probe_packet d e) (p, r) qs
    = Some (p\<lparr>pb_psi_reasm := m, pb_probe_info := Some (map probe_program_new pats), pb_is_pat := True\<rparr>, r)"
proof -
  let ?st = "\<lambda>m. (p\<lparr>pb_psi_reasm := m\<rparr>, r)"
  let ?fin = "\<lambda>sec m. analyze_pat sec \<bind> (\<lambda>pats. Some (p\<lparr>pb_psi_reasm := m,
      pb_probe_info := Some (map probe_program_new pats), pb_is_pat := True\<rparr>, r))"
  have "\<exists>m. srm_inv m \<and> foldM (probe_packet d e) (?st (pb_psi_reasm p)) qs = ?fin sec m"
    by (rule carries_run [OF assms(1,2) _ assms(6)])
       (auto simp: probe_packet_def probe_pat_def probe_push_def assms(4,5) bind_eq_None_conv
         split: Option.bind_splits option.splits)
  then show ?thesis using assms(3) by simp
qed

lemma find_map_new: "List.find (\<lambda>pr. pp_pmt pr = None) (xs @ probe_program_new pat # ys) = Some (probe_program_new pat)"
  if "\<forall>x\<in>set xs. pp_pmt x \<noteq> None"
  using that by (induction xs) (auto simp: probe_program_new_def)

lemma update_first_at: "\<forall>x\<in>set xs. \<not> P x \<Longrightarrow> P y \<Longrightarrow> update_first P f (xs @ y # ys) = xs @ f y # ys"
  by (induction xs) auto

lemma pmt_stage:
  assumes "carries sec (pi_pmt_pid pat) qs" "section_ok sec" "analyze_pmt sec = Some pmt"
    and "unat (pi_pmt_pid pat) < 8192" "pi_pmt_pid pat \<noteq> 0x11" "pi_pmt_pid pat \<noteq> 0x1FFF"
    and "\<forall>q\<in>set qs. ts_pid q \<noteq> 0x11"
    and "pb_is_pat p" "\<not> pb_is_pmt p" "srm_inv (pb_psi_reasm p)"
    and "pb_probe_info p = Some (found @ probe_program_new pat # missing)"
    and "\<forall>x\<in>set found. pp_pmt x \<noteq> None \<and> pi_pmt_pid (pp_pat x) \<noteq> pi_pmt_pid pat"
  shows "\<exists>m. srm_inv m \<and> foldM (probe_packet d e) (p, r) qs
    = Some (p\<lparr>pb_psi_reasm := m, pb_pid_to_stream := note_streams (pmt_streams pmt) (pb_pid_to_stream p),
        pb_probe_info := Some (found @ set_pmt pmt (probe_program_new pat) # missing)\<rparr>, r)"
proof -
  let ?st = "\<lambda>m. (p\<lparr>pb_psi_reasm := m\<rparr>, r)"
  let ?fin = "\<lambda>sec m. analyze_pmt sec \<bind> (\<lambda>pmt. Some (p\<lparr>pb_psi_reasm := m,
      pb_pid_to_stream := note_streams (pmt_streams pmt) (pb_pid_to_stream p),
      pb_probe_info := Some (found @ set_pmt pmt (probe_program_new pat) # missing)\<rparr>, r))"
  have find: "List.find (\<lambda>pr. pp_pmt pr = None) (found @ probe_program_new pat # missing) = Some (probe_program_new pat)"
    using assms(12) by (intro find_map_new) auto
  have upd: "update_first (\<lambda>pr. pi_pmt_pid (pp_pat pr) = pi_pmt_pid pat) (set_pmt pmt) (found @ probe_program_new pat # missing)
      = found @ set_pmt pmt (probe_program_new pat) # missing" for pmt
    using assms(12) by (intro update_first_at) (auto simp: probe_program_new_def)
  have wanted: "pmt_wanted pid (p\<lparr>pb_psi_reasm := m\<rparr>) = Some (pid = pi_pmt_pid pat, p\<lparr>pb_psi_reasm := m\<rparr>)" for pid m
    by (simp add: pmt_wanted_def assms(11) find) (simp add: probe_program_new_def)
  have take: "probe_pmt q (pi_pmt_pid pat) (p\<lparr>pb_psi_reasm := m\<rparr>) \<bind> (\<lambda>p. Some (p, r))
      = srm_push m q \<bind> (\<lambda>(m, out). case out of None \<Rightarrow> Some (?st m) | Some s \<Rightarrow> ?fin s m)" for q m
    by (simp add: probe_pmt_def probe_push_def assms(11) upd Let_def bind_eq_None_conv
          split: Option.bind_splits option.splits)
  have "\<exists>m. srm_inv m \<and> foldM (probe_packet d e) (?st (pb_psi_reasm p)) qs = ?fin sec m"
  proof (rule carries_run [OF assms(1,2,4,10)])
    fix m q
    assume "q \<in> set qs" "pkt_pid q = Some (ts_pid q)"
    then show "probe_packet d e (?st m) q = (if ts_pid q = pi_pmt_pid pat
        then srm_push m q \<bind> (\<lambda>(m, out). case out of None \<Rightarrow> Some (?st m) | Some s \<Rightarrow> ?fin s m) else Some (?st m))"
      using assms(5-9) wanted take [of q m] by (simp add: probe_packet_def)
  qed
  then show ?thesis using assms(3) by simp
qed

text \<open>A PMT section, what it says and the packets that carry it, for one program.\<close>

definition table_ok :: "pat_info \<Rightarrow> bytes \<times> pmt_info \<times> bytes list \<Rightarrow> bool" where
  "table_ok pat = (\<lambda>(sec, pmt, qs). section_ok sec \<and> analyze_pmt sec = Some pmt \<and> carries sec (pi_pmt_pid pat) qs
     \<and> pi_pmt_pid pat \<noteq> 0x11 \<and> pi_pmt_pid pat \<noteq> 0x1FFF \<and> list_all (\<lambda>q. ts_pid q \<noteq> 0x11) qs)"

definition probed :: "pat_info \<Rightarrow> bytes \<times> pmt_info \<times> bytes list \<Rightarrow> probe_program" where
  "probed pat = (\<lambda>(sec, pmt, qs). \<lparr>pp_pat = pat, pp_pmt = Some pmt, pp_sdt = None\<rparr>)"

lemma ts_pid_less: "unat (ts_pid q) < 8192"
  by (simp add: ts_pid_def pid13_less)

lemma carries_pid_less: "carries sec pid qs \<Longrightarrow> unat pid < 8192"
  using ts_pid_less by (auto simp: carries_def)

lemma table_packets:
  "list_all2 table_ok pats tables \<Longrightarrow>
   list_all (\<lambda>q. length q = 188 \<and> q ! 0 = TS_SYNC_BYTE) (concat (map (\<lambda>(sec, pmt, qs). qs) tables))"
  by (induction pats tables rule: list_all2_induct) (auto simp: table_ok_def carries_def)

lemma raster_of_packets:
  assumes "list_all (\<lambda>q. length q = 188 \<and> q ! 0 = TS_SYNC_BYTE) ps" "length rest < 188"
    and "564 \<le> length (concat ps @ rest)"
  shows "raster_at (concat ps @ rest) 0"
proof -
  have "length (concat ps) = 188 * length ps" using assms(1) by (induction ps) auto
  then have "3 \<le> length ps" using assms(2,3) by simp
  then obtain a b c qs where ps: "ps = a # b # c # qs"
    by (metis Suc_le_length_iff numeral_3_eq_3)
  then have "a \<noteq> []" "b \<noteq> []" "c \<noteq> []" "length a = 188" "length b = 188" "length c = 188"
      "a ! 0 = TS_SYNC_BYTE" "b ! 0 = TS_SYNC_BYTE" "c ! 0 = TS_SYNC_BYTE"
    using assms(1) by auto
  then show ?thesis by (auto simp: raster_at_def ps nth_append)
qed

text \<open>The PIDs of the streams of the tables.\<close>

definition table_pids :: "(bytes \<times> pmt_info \<times> bytes list) list \<Rightarrow> u16 set" where
  "table_pids tables = (\<Union>(sec, pmt, qs) \<in> set tables. si_pid ` set (pmt_streams pmt))"

lemma note_streams_keys: "fst ` set (note_streams ss m) \<subseteq> fst ` set m \<union> si_pid ` set ss"
proof (induction ss arbitrary: m)
  case (Cons s ss)
  have "fst ` set (AList.update (si_pid s) (si_stream_type s) m) = insert (si_pid s) (fst ` set m)"
    by (simp add: dom_update)
  then show ?case
    using Cons [of m] Cons [of "AList.update (si_pid s) (si_stream_type s) m"] by (auto simp: note_streams_def)
qed (simp add: note_streams_def)

lemma other_packets_ignored:
  assumes "list_all (\<lambda>q. ts_packet_ok q \<and> ts_pid q \<noteq> 0x11 \<and> ts_pid q \<notin> fst ` set (pb_pid_to_stream p)) qs"
    and "pb_is_pat p" "pb_probe_info p = Some info" "\<forall>x \<in> set info. pp_pmt x \<noteq> None"
  shows "\<exists>p' r'. foldM (probe_packet d e) (p, r) qs = Some (p', r') \<and> pb_probe_info p' = Some info"
  using assms
proof (induction qs arbitrary: p r)
  case (Cons q qs)
  have q: "ts_packet_ok q" "ts_pid q \<noteq> 0x11" "map_of (pb_pid_to_stream p) (ts_pid q) = None"
    using Cons.prems(1) by (auto simp: map_of_eq_None_iff)
  have pid: "pkt_pid q = Some (ts_pid q)"
    using q(1) by (simp add: pkt_pid_def ts_pid_def ts_packet_ok_def TS_PACKET_SIZE_def)
  have find: "List.find (\<lambda>pr. pp_pmt pr = None) info = None" using Cons.prems(4) by (simp add: find_None_iff)
  have push: "prm_push r q (map_of (pb_pid_to_stream p)) = Some (r, None)" using q by (simp add: prm_push_eq)
  have "\<exists>p1. probe_packet d e (p, r) q = Some (p1, r) \<and> pb_probe_info p1 = Some info \<and> pb_is_pat p1
      \<and> pb_pid_to_stream p1 = pb_pid_to_stream p"
    using q(2) Cons.prems(2,3) find push
    by (cases "ts_pid q = 0x1FFF"; cases "pb_is_pmt p"; cases "pb_is_pes p"; cases "pb_pid_to_stream p = []")
       (simp_all add: probe_packet_def pid pmt_wanted_def probe_pes_def)
  then obtain p1 where p1: "probe_packet d e (p, r) q = Some (p1, r)" "pb_probe_info p1 = Some info" "pb_is_pat p1"
      "pb_pid_to_stream p1 = pb_pid_to_stream p" by blast
  have "\<exists>p' r'. foldM (probe_packet d e) (p1, r) qs = Some (p', r') \<and> pb_probe_info p' = Some info"
    by (rule Cons.IH) (use Cons.prems p1 in auto)
  then show ?case using p1(1) by simp
qed simp

lemma pmt_stages:
  assumes "list_all2 table_ok pats tables"
    and "pb_is_pat p" "\<not> pb_is_pmt p" "srm_inv (pb_psi_reasm p)"
    and "pb_probe_info p = Some (found @ map probe_program_new pats)"
    and "distinct (map (\<lambda>x. pi_pmt_pid (pp_pat x)) found @ map pi_pmt_pid pats)" "\<forall>x\<in>set found. pp_pmt x \<noteq> None"
  shows "\<exists>p'. foldM (probe_packet d e) (p, r) (concat (map (\<lambda>(sec, pmt, qs). qs) tables)) = Some (p', r)
    \<and> pb_probe_info p' = Some (found @ map2 probed pats tables) \<and> pb_is_pat p'
    \<and> fst ` set (pb_pid_to_stream p') \<subseteq> fst ` set (pb_pid_to_stream p) \<union> table_pids tables"
  using assms
proof (induction pats tables arbitrary: p found rule: list_all2_induct)
  case Nil
  then show ?case by simp
next
  case (Cons pat pats t tables)
  obtain sec pmt qs where t: "t = (sec, pmt, qs)" by (cases t)
  have ok: "section_ok sec" "analyze_pmt sec = Some pmt" "carries sec (pi_pmt_pid pat) qs" "pi_pmt_pid pat \<noteq> 0x11"
      "pi_pmt_pid pat \<noteq> 0x1FFF" "\<forall>q\<in>set qs. ts_pid q \<noteq> 0x11"
    using Cons.hyps(1) by (auto simp: table_ok_def t list_all_iff)
  have new: "set_pmt pmt (probe_program_new pat) = probed pat t"
    by (simp add: set_pmt_def probe_program_new_def probed_def t)
  have pat: "pp_pat (probed pat t) = pat" "pp_pmt (probed pat t) \<noteq> None" by (simp_all add: probed_def t)
  obtain m where m: "srm_inv m" "foldM (probe_packet d e) (p, r) qs
      = Some (p\<lparr>pb_psi_reasm := m, pb_pid_to_stream := note_streams (pmt_streams pmt) (pb_pid_to_stream p),
          pb_probe_info := Some (found @ probed pat t # map probe_program_new pats)\<rparr>, r)"
    using pmt_stage [OF ok(3,1,2) carries_pid_less [OF ok(3)] ok(4,5,6) Cons.prems(1-3), of found "map probe_program_new pats" d e r]
      Cons.prems(4-6) by (force simp: new)
  let ?p = "p\<lparr>pb_psi_reasm := m, pb_pid_to_stream := note_streams (pmt_streams pmt) (pb_pid_to_stream p),
          pb_probe_info := Some (found @ probed pat t # map probe_program_new pats)\<rparr>"
  have "\<exists>p'. foldM (probe_packet d e) (?p, r) (concat (map (\<lambda>(sec, pmt, qs). qs) tables)) = Some (p', r)
      \<and> pb_probe_info p' = Some ((found @ [probed pat t]) @ map2 probed pats tables) \<and> pb_is_pat p'
      \<and> fst ` set (pb_pid_to_stream p') \<subseteq> fst ` set (pb_pid_to_stream ?p) \<union> table_pids tables"
    by (rule Cons.IH) (use Cons.prems m(1) pat in auto)
  then obtain p' where p': "foldM (probe_packet d e) (?p, r) (concat (map (\<lambda>(sec, pmt, qs). qs) tables)) = Some (p', r)"
      "pb_probe_info p' = Some ((found @ [probed pat t]) @ map2 probed pats tables)" "pb_is_pat p'"
      "fst ` set (pb_pid_to_stream p') \<subseteq> fst ` set (pb_pid_to_stream ?p) \<union> table_pids tables" by blast
  have "fst ` set (pb_pid_to_stream ?p) \<subseteq> fst ` set (pb_pid_to_stream p) \<union> table_pids [t]"
    using note_streams_keys [of "pmt_streams pmt" "pb_pid_to_stream p"] by (simp add: t table_pids_def)
  moreover have "table_pids (t # tables) = table_pids [t] \<union> table_pids tables" by (simp add: table_pids_def)
  ultimately have "fst ` set (pb_pid_to_stream p') \<subseteq> fst ` set (pb_pid_to_stream p) \<union> table_pids (t # tables)"
    using p'(4) by blast
  then show ?case using m(2) p'(1-3) by (intro exI [of _ p']) (simp add: t foldM_append)
qed

lemma carries_pack: "section_ok sec \<Longrightarrow> unat pid < 8192 \<Longrightarrow> carries sec pid (fst (pack_multi sec pid cc))"
  using pack_multi_member [of pid _ sec cc] pack_loop_nonempty [of True 0 sec pid cc]
  by (auto simp: carries_def list_all_iff filter_id_conv pack_multi_def intro!: exI [of _ cc])

lemma carries_other:
  "carries sec pid qs \<Longrightarrow> length q = 188 \<Longrightarrow> q ! 0 = TS_SYNC_BYTE \<Longrightarrow> ts_pid q \<noteq> pid \<Longrightarrow> carries sec pid (q # qs)"
  by (simp add: carries_def)


definition ex_pat :: bytes where
  "ex_pat = [0, 0xB0, 0x0D, 0, 1, 0xC1, 0, 0, 0, 5, 0xE1, 0, 0, 0, 0, 0]"

definition ex_pmt :: bytes where
  "ex_pmt = [2, 0xB0, 0x12, 0, 5, 0xC1, 0, 0, 0xE1, 1, 0xF0, 0, 0x1B, 0xE1, 1, 0xF0, 0, 0, 0, 0, 0]"

definition ex_stream :: "bytes list" where
  "ex_stream = fst (pack_multi ex_pat 0 0) @ TS_NULL_PACKET # fst (pack_multi ex_pmt 0x100 0)"

lemma ex_pmt_read: "analyze_pmt ex_pmt = Some \<lparr>pmt_pcr_pid = 0x101,
    pmt_streams = [\<lparr>si_stream_type = 27, si_pid = 0x101, si_descriptors = Map.empty, si_description = []\<rparr>]\<rparr>"
  by (simp add: ex_pmt_def analyze_pmt_def pmt_loop.simps Let_def len12_def pid13_def pasre_descriptors_def
        pasre_descriptors_loop.simps)


section \<open>The stages as an invariant\<close>

definition undescribed :: "pmt_info \<Rightarrow> pmt_info" where
  "undescribed pmt = pmt\<lparr>pmt_streams := map (\<lambda>s. s\<lparr>si_description := []\<rparr>) (pmt_streams pmt)\<rparr>"

text \<open>What is reported of a program: an SDT entry of its own number and a PMT that was read from a whole section.\<close>

definition program_ok :: "probe_program \<Rightarrow> bool" where
  "program_ok pr \<longleftrightarrow> pred_option (\<lambda>sdt. sdt_service_id sdt = pi_prog_num (pp_pat pr)) (pp_sdt pr)
     \<and> pred_option (\<lambda>pmt. \<exists>sec. section_ok sec \<and> analyze_pmt sec = Some (undescribed pmt)) (pp_pmt pr)"

text \<open>With different PMT PIDs the programs get their PMTs in the order of the PAT.\<close>

definition pmts_in_order :: "probe_info \<Rightarrow> bool" where
  "pmts_in_order info \<longleftrightarrow> distinct (map (pi_pmt_pid \<circ> pp_pat) info) \<longrightarrow>
     sorted_wrt (\<lambda>before after. after \<longrightarrow> before) (map (\<lambda>pr. pp_pmt pr \<noteq> None) info)"

definition info_ok :: "probe_info \<Rightarrow> bool" where
  "info_ok info \<longleftrightarrow> list_all program_ok info \<and> pmts_in_order info
     \<and> (\<exists>sec. section_ok sec \<and> analyze_pat sec = Some (map pp_pat info))"

definition probe_ok :: "probe \<Rightarrow> bool" where
  "probe_ok p \<longleftrightarrow> srm_inv (pb_psi_reasm p) \<and> (pb_is_pat p \<longleftrightarrow> pb_probe_info p \<noteq> None) \<and> pred_option info_ok (pb_probe_info p)
     \<and> (pb_is_sdt p \<longrightarrow> pb_is_pat p) \<and> (pb_is_pmt p \<longrightarrow> pb_is_pat p) \<and> (pb_is_pes p \<longrightarrow> pb_is_pmt p)
     \<and> (pb_is_pmt p \<longrightarrow> pred_option (list_all (\<lambda>pr. pp_pmt pr \<noteq> None)) (pb_probe_info p))
     \<and> list_all (\<lambda>(pid, stream_type). stream_allowed stream_type) (pb_pid_to_stream p)"

text \<open>
  A parser stops at the packet: that of a table, at the whole section that the packet completes, or that of
  the elementary streams.
\<close>

definition parser_panics :: "(bytes \<Rightarrow> rstring) \<Rightarrow> (bytes \<Rightarrow> rstring) \<Rightarrow> probe \<Rightarrow> pes_reassembler_map \<Rightarrow> bytes \<Rightarrow> bool" where
  "parser_panics d e p r pkt \<longleftrightarrow>
     (\<exists>m sec. srm_push (pb_psi_reasm p) pkt = Some (m, Some sec) \<and> section_ok sec
        \<and> (analyze_pat sec = None \<or> analyze_sdt d e sec = None \<or> analyze_pmt sec = None))
     \<or> prm_push r pkt (map_of (pb_pid_to_stream p)) = None"

lemma update_first_map: "(\<And>x. g (f x) = g x) \<Longrightarrow> map g (update_first P f xs) = map g xs"
  by (induction xs) auto

lemma update_first_all: "list_all Q xs \<Longrightarrow> (\<And>x. Q x \<Longrightarrow> P x \<Longrightarrow> Q (f x)) \<Longrightarrow> list_all Q (update_first P f xs)"
  by (induction xs) auto

lemma update_first_length [simp]: "length (update_first P f xs) = length xs"
  by (induction xs) auto

lemma info_ok_update:
  assumes "info_ok info" "\<And>x. pp_pat (f x) = pp_pat x" "\<And>x. P x \<Longrightarrow> program_ok x \<Longrightarrow> program_ok (f x)"
    and "\<And>x. (pp_pmt (f x) = None) = (pp_pmt x = None)"
  shows "info_ok (update_first P f info)"
  using assms update_first_map [of pp_pat f P info] update_first_map [of "\<lambda>x. pp_pmt x \<noteq> None" f P info]
    update_first_map [of "pi_pmt_pid \<circ> pp_pat" f P info]
  by (auto simp: info_ok_def pmts_in_order_def intro!: update_first_all)

lemma all_pmts_update:
  "list_all (\<lambda>pr. pp_pmt pr \<noteq> None) info \<Longrightarrow> (\<And>x. pp_pmt x \<noteq> None \<Longrightarrow> pp_pmt (f x) \<noteq> None) \<Longrightarrow>
   list_all (\<lambda>pr. pp_pmt pr \<noteq> None) (update_first P f info)"
  by (rule update_first_all)

lemma note_streams_allowed:
  "list_all (\<lambda>(pid, t). stream_allowed t) m \<Longrightarrow> list_all (\<lambda>(pid, t). stream_allowed t) (note_streams ss m)"
proof (induction ss arbitrary: m)
  case (Cons s ss)
  have "list_all (\<lambda>(pid, t). stream_allowed t) (AList.update (si_pid s) (si_stream_type s) m)"
    if "stream_allowed (si_stream_type s)"
    using Cons.prems that by (induction m) auto
  then show ?case using Cons by (simp add: note_streams_def)
qed (simp add: note_streams_def)

lemma delete_allowed: "list_all Q m \<Longrightarrow> list_all Q (AList.delete k m)"
  by (auto simp: AList.delete_eq list_all_iff)

lemma pmt_loop_undescribed: "pmt_loop sec n pos = Some ss \<Longrightarrow> map (\<lambda>s. s\<lparr>si_description := []\<rparr>) ss = ss"
proof (induction sec n pos arbitrary: ss rule: pmt_loop.induct)
  case (1 sec n pos)
  then show ?case by (subst (asm) (2) pmt_loop.simps) (auto simp: Let_def split: if_splits Option.bind_splits)
qed

lemma analyze_pmt_undescribed: "analyze_pmt sec = Some pmt \<Longrightarrow> undescribed pmt = pmt"
  by (auto simp: analyze_pmt_def undescribed_def Let_def pmt_loop_undescribed split: Option.bind_splits)

lemma undescribed_describe: "undescribed (describe t pid pmt) = undescribed pmt"
  by (simp add: undescribed_def describe_def update_first_map)

lemma find_split:
  "List.find P xs = Some x \<Longrightarrow> \<exists>ys zs. xs = ys @ x # zs \<and> P x \<and> (\<forall>y\<in>set ys. \<not> P y)"
proof (induction xs)
  case (Cons a xs)
  then show ?case by (cases "P a") (force intro: exI [of _ "a # _"])+
qed simp

lemma pmts_in_order_set:
  assumes "pmts_in_order info" "List.find (\<lambda>pr. pp_pmt pr = None) info = Some x" "pi_pmt_pid (pp_pat x) = pid"
  shows "pmts_in_order (update_first (\<lambda>pr. pi_pmt_pid (pp_pat pr) = pid) (set_pmt pmt) info)"
proof -
  obtain ys zs where info: "info = ys @ x # zs" "pp_pmt x = None" "\<forall>y\<in>set ys. pp_pmt y \<noteq> None"
    using find_split [OF assms(2)] by blast
  have pids: "map (pi_pmt_pid \<circ> pp_pat) (update_first (\<lambda>pr. pi_pmt_pid (pp_pat pr) = pid) (set_pmt pmt) info)
      = map (pi_pmt_pid \<circ> pp_pat) info"
    by (rule update_first_map) (simp add: set_pmt_def)
  {
    assume dist: "distinct (map (pi_pmt_pid \<circ> pp_pat) info)"
    have "sorted_wrt (\<lambda>before after. after \<longrightarrow> before) (map (\<lambda>pr. pp_pmt pr \<noteq> None) (ys @ set_pmt pmt x # zs))"
      using assms(1) dist info by (auto simp: pmts_in_order_def sorted_wrt_append set_pmt_def)
    moreover have "update_first (\<lambda>pr. pi_pmt_pid (pp_pat pr) = pid) (set_pmt pmt) info = ys @ set_pmt pmt x # zs"
    proof -
      have "pi_pmt_pid (pp_pat x) \<notin> (\<lambda>x. pi_pmt_pid (pp_pat x)) ` set ys" using dist by (auto simp: info(1))
      then have "\<forall>y\<in>set ys. pi_pmt_pid (pp_pat y) \<noteq> pid" using assms(3) by (auto simp: image_iff)
      then show ?thesis unfolding info(1) using assms(3) by (intro update_first_at)
    qed
    ultimately have "sorted_wrt (\<lambda>before after. after \<longrightarrow> before)
        (map (\<lambda>pr. pp_pmt pr \<noteq> None) (update_first (\<lambda>pr. pi_pmt_pid (pp_pat pr) = pid) (set_pmt pmt) info))"
      by simp
  }
  then show ?thesis unfolding pmts_in_order_def pids by simp
qed

lemma probe_push_ok:
  assumes "probe_ok p"
  obtains p' m out where "probe_push pkt p = Some (p', out)" "probe_ok p'" "\<forall>sec. out = Some sec \<longrightarrow> section_ok sec"
    "srm_push (pb_psi_reasm p) pkt = Some (m, out)" "p' = p\<lparr>pb_psi_reasm := m\<rparr>"
proof -
  have inv: "srm_inv (pb_psi_reasm p)" using assms by (simp add: probe_ok_def)
  obtain m out where push: "srm_push (pb_psi_reasm p) pkt = Some (m, out)"
    using reasm_map.push_returns [OF inv] by blast
  show ?thesis
    using srm_push_inv [OF inv push] assms
    by (intro that [of "p\<lparr>pb_psi_reasm := m\<rparr>" out m]) (auto simp: probe_push_def push probe_ok_def)
qed

text \<open>The verdict on one step.\<close>

definition step_ok :: "bool \<Rightarrow> probe option \<Rightarrow> bool" where
  "step_ok may_stop res = (case res of None \<Rightarrow> may_stop | Some p \<Rightarrow> probe_ok p)"

lemma probe_pat_ok:
  assumes "probe_ok p" "\<not> pb_is_pat p"
  shows "step_ok (parser_panics d e p r pkt) (probe_pat pkt p)"
proof -
  obtain p' m out where push: "probe_push pkt p = Some (p', out)" "probe_ok p'" "\<forall>sec. out = Some sec \<longrightarrow> section_ok sec"
      "srm_push (pb_psi_reasm p) pkt = Some (m, out)" "p' = p\<lparr>pb_psi_reasm := m\<rparr>"
    by (rule probe_push_ok [OF assms(1)])
  have new: "info_ok (map probe_program_new pats)" if "section_ok sec" "analyze_pat sec = Some pats" for sec pats
    using that by (auto simp: info_ok_def pmts_in_order_def program_ok_def probe_program_new_def list_all_iff comp_def
        sorted_wrt_map intro!: exI [of _ sec])
  show ?thesis
    using push assms(2) new
    by (auto simp: step_ok_def probe_pat_def parser_panics_def probe_ok_def split: option.splits Option.bind_splits)
qed

lemma attach_sdts_ok:
  "probe_ok p \<Longrightarrow> pb_is_pat p \<Longrightarrow> \<exists>p'. foldM attach_sdt p sdts = Some p' \<and> probe_ok p' \<and> pb_is_pat p'"
proof (rule foldM_total)
  fix p sdt
  assume "probe_ok p \<and> pb_is_pat p"
  then obtain info where "pb_probe_info p = Some info" "info_ok info" "probe_ok p" "pb_is_pat p"
    by (auto simp: probe_ok_def)
  moreover from this have "info_ok (update_first (\<lambda>pr. pi_prog_num (pp_pat pr) = sdt_service_id sdt) (set_sdt sdt) info)"
    by (intro info_ok_update) (auto simp: set_sdt_def program_ok_def)
  moreover have "list_all (\<lambda>pr. pp_pmt pr \<noteq> None) info \<Longrightarrow>
      list_all (\<lambda>pr. pp_pmt pr \<noteq> None) (update_first (\<lambda>pr. pi_prog_num (pp_pat pr) = sdt_service_id sdt) (set_sdt sdt) info)"
    by (rule all_pmts_update) (auto simp: set_sdt_def)
  ultimately show "\<exists>p'. attach_sdt p sdt = Some p' \<and> probe_ok p' \<and> pb_is_pat p'"
    by (auto simp: attach_sdt_def probe_ok_def)
qed simp

lemma probe_sdt_ok:
  assumes "probe_ok p" "pb_is_pat p"
  shows "step_ok (parser_panics d e p r pkt) (probe_sdt d e pkt p)"
proof -
  obtain p' m out where push: "probe_push pkt p = Some (p', out)" "probe_ok p'" "\<forall>sec. out = Some sec \<longrightarrow> section_ok sec"
      "srm_push (pb_psi_reasm p) pkt = Some (m, out)" "p' = p\<lparr>pb_psi_reasm := m\<rparr>"
    by (rule probe_push_ok [OF assms(1)])
  have "step_ok (parser_panics d e p r pkt) (analyze_sdt d e sec \<bind> (\<lambda>sdts. foldM attach_sdt p' sdts \<bind> (\<lambda>p. Some (p\<lparr>pb_is_sdt := True\<rparr>))))"
    if "out = Some sec" for sec
  proof (cases "analyze_sdt d e sec")
    case None
    then show ?thesis using push(3,4) that by (auto simp: step_ok_def parser_panics_def)
  next
    case (Some sdts)
    then show ?thesis
      using attach_sdts_ok [OF push(2), of sdts] assms(2) push(5) by (auto simp: step_ok_def probe_ok_def)
  qed
  then show ?thesis
    using push(1,2) by (cases out) (auto simp: probe_sdt_def step_ok_def)
qed

lemma pmt_wanted_ok:
  assumes "probe_ok p" "pb_is_pat p" "\<not> pb_is_pmt p"
  obtains (take) "pmt_wanted pid p = Some (True, p)"
      "\<exists>info x. pb_probe_info p = Some info \<and> List.find (\<lambda>pr. pp_pmt pr = None) info = Some x \<and> pi_pmt_pid (pp_pat x) = pid"
  | (skip) p' where "pmt_wanted pid p = Some (False, p')" "probe_ok p'" "pb_pid_to_stream p' = pb_pid_to_stream p"
proof -
  obtain info where info: "pb_probe_info p = Some info" using assms by (auto simp: probe_ok_def)
  show ?thesis
  proof (cases "List.find (\<lambda>pr. pp_pmt pr = None) info")
    case None
    then have "list_all (\<lambda>pr. pp_pmt pr \<noteq> None) info" by (auto simp: find_None_iff list_all_iff)
    then have "probe_ok (p\<lparr>pb_is_pmt := True\<rparr>)" using assms info by (auto simp: probe_ok_def)
    then show ?thesis using that(2) None info by (simp add: pmt_wanted_def)
  next
    case (Some x)
    then show ?thesis using that info assms(1) by (cases "pid = pi_pmt_pid (pp_pat x)") (auto simp: pmt_wanted_def)
  qed
qed

lemma info_ok_set_pmt:
  assumes "info_ok info" "List.find (\<lambda>pr. pp_pmt pr = None) info = Some x" "pi_pmt_pid (pp_pat x) = pid"
    and "section_ok sec" "analyze_pmt sec = Some pmt"
  shows "info_ok (update_first (\<lambda>pr. pi_pmt_pid (pp_pat pr) = pid) (set_pmt pmt) info)"
  using assms(1) pmts_in_order_set [OF _ assms(2,3), of pmt] assms(4,5) analyze_pmt_undescribed [OF assms(5)]
    update_first_map [of pp_pat "set_pmt pmt" "\<lambda>pr. pi_pmt_pid (pp_pat pr) = pid" info]
  by (auto simp: info_ok_def set_pmt_def program_ok_def intro!: update_first_all)

lemma probe_pmt_ok:
  assumes "probe_ok p" "\<not> pb_is_pmt p" "pb_probe_info p = Some info"
    and "List.find (\<lambda>pr. pp_pmt pr = None) info = Some x" "pi_pmt_pid (pp_pat x) = pid"
  shows "step_ok (parser_panics d e p r pkt) (probe_pmt pkt pid p)"
proof -
  obtain p' m out where push: "probe_push pkt p = Some (p', out)" "probe_ok p'" "\<forall>sec. out = Some sec \<longrightarrow> section_ok sec"
      "srm_push (pb_psi_reasm p) pkt = Some (m, out)" "p' = p\<lparr>pb_psi_reasm := m\<rparr>"
    by (rule probe_push_ok [OF assms(1)])
  show ?thesis
  proof (cases out)
    case None
    then show ?thesis using push by (simp add: probe_pmt_def step_ok_def)
  next
    case (Some sec)
    show ?thesis
    proof (cases "analyze_pmt sec")
      case None
      then show ?thesis using push Some by (auto simp: probe_pmt_def step_ok_def parser_panics_def)
    next
      case (Some pmt)
      have "info_ok (update_first (\<lambda>pr. pi_pmt_pid (pp_pat pr) = pid) (set_pmt pmt) info)"
        using assms push(3) \<open>out = Some sec\<close> Some by (intro info_ok_set_pmt) (auto simp: probe_ok_def)
      then show ?thesis
        using push Some \<open>out = Some sec\<close> assms(2,3) note_streams_allowed
        by (auto simp: probe_pmt_def step_ok_def probe_ok_def Let_def)
    qed
  qed
qed

lemma describe_stream_ok:
  assumes "describe_stream t pid info = Some info'" "info_ok info"
  shows "info_ok info'" "list_all (\<lambda>pr. pp_pmt pr \<noteq> None) info \<Longrightarrow> list_all (\<lambda>pr. pp_pmt pr \<noteq> None) info'"
proof -
  let ?f = "\<lambda>pr. pr\<lparr>pp_pmt := map_option (describe t pid) (pp_pmt pr)\<rparr>"
  have info': "info' = update_first (has_stream pid) ?f info"
    using assms(1) by (simp add: describe_stream_def split: if_splits)
  show "info_ok info'"
    unfolding info' using assms(2)
    by (intro info_ok_update) (auto simp: program_ok_def undescribed_describe option.pred_map comp_def)
  show "list_all (\<lambda>pr. pp_pmt pr \<noteq> None) info'" if "list_all (\<lambda>pr. pp_pmt pr \<noteq> None) info"
    unfolding info' using that by (rule all_pmts_update) auto
qed

lemma probe_pes_ok:
  assumes "probe_ok p" "pb_is_pmt p"
  shows "step_ok (prm_push r pkt (map_of (pb_pid_to_stream p)) = None) (map_option fst (probe_pes pkt pid (p, r)))"
proof (cases "prm_push r pkt (map_of (pb_pid_to_stream p))")
  case None
  then show ?thesis by (simp add: step_ok_def probe_pes_def)
next
  case (Some ro)
  have "probe_ok (p\<lparr>pb_probe_info := Some info', pb_pid_to_stream := AList.delete pid (pb_pid_to_stream p)\<rparr>)"
    if "Option.bind (pb_probe_info p) (describe_stream t pid) = Some info'" for t info'
    using that assms describe_stream_ok delete_allowed by (auto simp: probe_ok_def split: Option.bind_splits)
  then show ?thesis
    using Some assms
    by (auto simp: step_ok_def probe_pes_def Let_def split_beta split: option.splits)
       (auto simp: probe_ok_def)
qed

lemma probe_packet_ok:
  assumes "probe_ok p" "length pkt = 188"
  shows "step_ok (parser_panics d e p r pkt) (map_option fst (probe_packet d e (p, r) pkt))"
proof -
  obtain pid where pid: "pkt_pid pkt = Some pid" using assms(2) by (simp add: pkt_pid_def)
  let ?ok = "\<lambda>res. step_ok (parser_panics d e p r pkt) (map_option fst res)"
  have lift: "?ok (m \<bind> (\<lambda>p. Some (p, r)))" if "step_ok (parser_panics d e p r pkt) m" for m
    using that by (cases m) (auto simp: step_ok_def)
  have stay: "?ok (Some (p', r'))" if "probe_ok p'" for p' r'
    using that by (simp add: step_ok_def)
  have pes: "?ok (probe_pes pkt pid (p', r))" if "probe_ok p'" "pb_is_pmt p'" "pb_pid_to_stream p' = pb_pid_to_stream p" for p'
    using probe_pes_ok [OF that(1,2), of r pkt pid] that(3) by (auto simp: step_ok_def parser_panics_def split: option.splits)
  have rest: "?ok (if pb_is_pmt p' \<and> \<not> pb_is_pes p' then probe_pes pkt pid (p', r) else Some (p', r))"
    if "probe_ok p'" "pb_pid_to_stream p' = pb_pid_to_stream p" for p'
    using pes [of p'] stay [of p' r] that by simp
  consider "pid = 0x1FFF" | "pid = 0" "\<not> pb_is_pat p" | "pid = 0x11" "pb_is_pat p" "\<not> pb_is_sdt p"
    | "pid \<noteq> 0x1FFF" "\<not> (pid = 0 \<and> \<not> pb_is_pat p)" "\<not> (pid = 0x11 \<and> pb_is_pat p \<and> \<not> pb_is_sdt p)" by blast
  then show ?thesis
  proof cases
    case 1
    then show ?thesis using stay assms(1) by (simp add: probe_packet_def pid)
  next
    case 2
    then show ?thesis using lift [OF probe_pat_ok [OF assms(1)]] by (simp add: probe_packet_def pid)
  next
    case 3
    then show ?thesis using lift [OF probe_sdt_ok [OF assms(1)]] by (simp add: probe_packet_def pid)
  next
    case 4
    have eq: "probe_packet d e (p, r) pkt = (if pb_is_pat p \<and> \<not> pb_is_pmt p then pmt_wanted pid p else Some (False, p))
        \<bind> (\<lambda>(wanted, p). if wanted then probe_pmt pkt pid p \<bind> (\<lambda>p. Some (p, r))
           else if pb_is_pmt p \<and> \<not> pb_is_pes p then probe_pes pkt pid (p, r) else Some (p, r))"
      using 4 by (auto simp: probe_packet_def pid)
    show ?thesis
    proof (cases "pb_is_pat p \<and> \<not> pb_is_pmt p")
      case False
      then show ?thesis using rest [OF assms(1) refl] unfolding eq if_not_P [OF False] by simp
    next
      case True
      then have stage: "pb_is_pat p" "\<not> pb_is_pmt p" by auto
      show ?thesis
      proof (cases rule: pmt_wanted_ok [OF assms(1) stage, of pid])
        case 1
        then show ?thesis
          using lift [OF probe_pmt_ok [OF assms(1) stage(2)]] unfolding eq by (auto simp: stage)
      next
        case (2 p')
        then show ?thesis using rest [of p'] unfolding eq by (simp add: stage)
      qed
    qed
  qed
qed

text \<open>
  C23. The stages of the probe are well formed and never get stuck on their own: walking any packets from a
  new probe, either every packet is taken and at the end the programs are those of a whole PAT section,
  each with an SDT entry of its own number and a PMT read from a whole section, in the order of the PAT
  when the PIDs differ, and a later stage is only entered when the earlier ones are complete; or one of the
  parsers panics at a packet, for which the state before is such a state. The \<open>unwrap\<close>s of the stages never
  panic.
\<close>

theorem probe_stages:
  assumes "list_all (\<lambda>q. length q = 188) qs"
  shows "case foldM (probe_packet d e) (probe_new\<lparr>pb_in_buff := b, pb_is_sync := True\<rparr>, prm_new) qs of
      Some (p, r) \<Rightarrow> probe_ok p
    | None \<Rightarrow> \<exists>pre q post p r. qs = pre @ q # post \<and> probe_ok p \<and> parser_panics d e p r q
        \<and> foldM (probe_packet d e) (probe_new\<lparr>pb_in_buff := b, pb_is_sync := True\<rparr>, prm_new) pre = Some (p, r)"
proof -
  let ?st = "(probe_new\<lparr>pb_in_buff := b, pb_is_sync := True\<rparr>, prm_new)"
  show ?thesis
    using assms
  proof (induction qs rule: rev_induct)
    case Nil
    show ?case by (simp add: probe_ok_def probe_new_def srm_new_def srm_inv_def)
  next
    case (snoc q qs)
    show ?case
    proof (cases "foldM (probe_packet d e) ?st qs")
      case None
      then obtain pre q' post p r where "qs = pre @ q' # post" "probe_ok p" "parser_panics d e p r q'"
          "foldM (probe_packet d e) ?st pre = Some (p, r)"
        using snoc by auto
      moreover have "foldM (probe_packet d e) ?st (qs @ [q]) = None" using None by (simp add: foldM_append)
      ultimately show ?thesis by (auto intro!: exI [of _ pre])
    next
      case (Some pr)
      obtain p r where pr: "pr = (p, r)" by (cases pr)
      have p: "probe_ok p" using snoc Some pr by simp
      have step: "step_ok (parser_panics d e p r q) (map_option fst (probe_packet d e (p, r) q))"
        using p snoc.prems by (intro probe_packet_ok) auto
      show ?thesis
      proof (cases "probe_packet d e (p, r) q")
        case None
        then have "parser_panics d e p r q" using step by (simp add: step_ok_def)
        then show ?thesis using None Some pr p by (auto simp: foldM_append)
      next
        case (Some pr')
        then show ?thesis using \<open>foldM (probe_packet d e) ?st qs = Some pr\<close> pr step
          by (auto simp: foldM_append step_ok_def)
      qed
    qed
  qed
qed

theorem probe_stages_witness:
  "\<exists>p. foldM (probe_packet (\<lambda>b. b) (\<lambda>b. b)) (probe_new\<lparr>pb_in_buff := [], pb_is_sync := True\<rparr>, prm_new)
      (fst (pack_multi ex_pat 0 0)) = Some (p, prm_new)
    \<and> probe_ok p \<and> pb_is_pat p \<and> \<not> pb_is_pmt p"
proof -
  let ?p = "probe_new\<lparr>pb_in_buff := [], pb_is_sync := True\<rparr>"
  let ?pats = "[\<lparr>pi_prog_num = 5, pi_pmt_pid = 0x100\<rparr>]"
  have whole: "section_ok ex_pat" by (simp add: section_ok_def ex_pat_def len12_def)
  have pat: "analyze_pat ex_pat = Some ?pats"
    by (simp add: ex_pat_def analyze_pat_def pat_loop.simps Let_def be16_def pid13_def)
  have c: "carries ex_pat 0 (fst (pack_multi ex_pat 0 0))" by (rule carries_pack; simp add: whole)
  have inv: "srm_inv (pb_psi_reasm ?p)" by (simp add: probe_new_def srm_new_def srm_inv_def)
  obtain m where m: "foldM (probe_packet (\<lambda>b. b) (\<lambda>b. b)) (?p, prm_new) (fst (pack_multi ex_pat 0 0))
      = Some (?p\<lparr>pb_psi_reasm := m, pb_probe_info := Some (map probe_program_new ?pats), pb_is_pat := True\<rparr>, prm_new)"
    using pat_stage [OF c whole pat _ _ inv, of "\<lambda>b. b" "\<lambda>b. b" prm_new] by (auto simp: probe_new_def)
  have "list_all (\<lambda>q. length q = 188) (fst (pack_multi ex_pat 0 0))"
    using pack_multi_member [of 0 _ ex_pat 0] by (auto simp: list_all_iff)
  from probe_stages [OF this, of "\<lambda>b. b" "\<lambda>b. b" "[]"] show ?thesis
    unfolding m by (simp add: probe_new_def)
qed

end
