(* ===== verification/Epg.thy ===== *)
theory Epg
  imports Psi_Eit Biss Config Rust_Text "HOL-Library.Product_Lexorder"
begin

text \<open>
  \<open>epg/epg.rs\<close>: the programme guide of a network. A schedule is downloaded and grouped by service; every
  round announces for each service the present and the following event as EIT sections, from time to time
  the date and the time zone as TDT and TOT, and sends the packets in datagrams of seven.

  A \<open>DateTime\<close> is its number of nanoseconds since the epoch; \<open>civil\<close> gives its calendar fields and
  \<open>zone\<close> the offset of a time zone at a moment, both of the library \<open>chrono\<close>. An \<open>Instant\<close> is its
  number of nanoseconds. Downloading, the JSON reader, the hash function and the URL parser are parameters.
\<close>

unbundle bit_operations_syntax

definition EIT_PERIOD_MS :: nat where "EIT_PERIOD_MS = 1000"
definition TDT_PERIOD_MS :: nat where "TDT_PERIOD_MS = 10000"
definition EIT_TS_PACKET_COUNT :: nat where "EIT_TS_PACKET_COUNT = 7"
definition EIT_TS_PACKET_SIZE :: nat where "EIT_TS_PACKET_SIZE = EIT_TS_PACKET_COUNT * TS_PACKET_SIZE"
definition MIN_TICK_NS :: nat where "MIN_TICK_NS = 1000000"

type_synonym date_time = int
type_synonym instant = nat

definition seconds :: "u32 \<Rightarrow> int" where
  "seconds n = 1000000000 * int (unat n)"

record epg_network =
  en_country_code :: rstring
  en_timezone :: rstring

record epg_event =
  ev_original_network_id :: u16
  ev_transport_stream_id :: u16
  ev_service_id :: u16
  ev_event_id :: u16
  ev_start :: date_time
  ev_duration :: u32
  ev_title :: rstring
  ev_subtitle :: "rstring option"
  ev_description :: "rstring option"
  ev_language :: rstring

record epg_events =
  ee_version :: u8
  ee_generated_at :: date_time
  ee_network :: epg_network
  ee_events :: "epg_event list"

record epg_state =
  es_current_version :: u8
  es_generated_at :: date_time
  es_last_hash :: u64

definition epg_state_new :: "u8 \<Rightarrow> date_time \<Rightarrow> u64 \<Rightarrow> epg_state" where
  "epg_state_new version generated hash =
    \<lparr>es_current_version = version, es_generated_at = generated, es_last_hash = hash\<rparr>"

section \<open>The schedule\<close>

datatype epg_error = NoApiClient | BadAdminUrl | RequestFailed | BadJson | BadCountryCode
  | BadUrl | NotUdp | NoHost | NoPort | BadSocketAddress | NotIpv4 | BindFailed

text \<open>
  \<open>api\<close> is the client, when there is one, as a function from the path to the text of the answer;
  \<open>admin_url\<close> says whether the address of the server is a URL.
\<close>

definition load_epg_events :: "(string \<Rightarrow> rstring option) option \<Rightarrow> bool \<Rightarrow> (rstring \<Rightarrow> epg_events option)
    \<Rightarrow> (epg_event list \<Rightarrow> u64) \<Rightarrow> u32 \<Rightarrow> epg_error + epg_state \<times> epg_network \<times> epg_event list" where
  "load_epg_events api admin_url from_json hash i =
    (case api of None \<Rightarrow> Inl NoApiClient
     | Some get \<Rightarrow>
        if \<not> admin_url then Inl BadAdminUrl
        else case get (''/api/epg/id/'' @ show_word i) of None \<Rightarrow> Inl RequestFailed
        | Some epg_json \<Rightarrow> (case from_json epg_json of None \<Rightarrow> Inl BadJson
          | Some epg \<Rightarrow>
             let events = sort_key ev_start (ee_events epg);
                 network = ee_network epg
             in if length (en_country_code network) \<noteq> 3 then Inl BadCountryCode
                else Inr (epg_state_new (ee_version epg) (ee_generated_at epg) (hash events), network, events)))"

type_synonym skey = "u16 \<times> u16 \<times> u16"

definition service_key :: "epg_event \<Rightarrow> skey" where
  "service_key e = (ev_original_network_id e, ev_transport_stream_id e, ev_service_id e)"

text \<open>A \<open>BTreeMap\<close> is the list of its entries in the order of the keys; \<open>entry(k).or_insert_with(Vec::new).push(v)\<close>.\<close>

fun entry_push :: "'k::linorder \<Rightarrow> 'v \<Rightarrow> ('k \<times> 'v list) list \<Rightarrow> ('k \<times> 'v list) list" where
  "entry_push k v [] = [(k, [v])]"
| "entry_push k v ((k', vs) # m) =
    (if k = k' then (k', vs @ [v]) # m
     else if k < k' then (k, [v]) # (k', vs) # m
     else (k', vs) # entry_push k v m)"

definition group_events_by_service :: "epg_event list \<Rightarrow> (skey \<times> epg_event list) list" where
  "group_events_by_service events =
    map (\<lambda>(k, es). (k, sort_key ev_start es)) (foldl (\<lambda>m e. entry_push (service_key e) e m) [] events)"

text \<open>The event on the air, else the next ones, else the first of the schedule.\<close>

definition on_air :: "date_time \<Rightarrow> epg_event \<Rightarrow> bool" where
  "on_air now e \<longleftrightarrow> ev_start e \<le> now \<and> now < ev_start e + seconds (ev_duration e)"

definition present_following_events :: "epg_event list \<Rightarrow> date_time \<Rightarrow> (epg_event \<times> epg_event option) option" where
  "present_following_events events now =
    (case position (on_air now) events of
       Some i \<Rightarrow> Some (events ! i, idx events (i + 1))
     | None \<Rightarrow>
        (case filter (\<lambda>e. ev_start e > now) events of
           present # upcoming \<Rightarrow> Some (present, idx upcoming 0)
         | [] \<Rightarrow> if events \<noteq> [] then Some (events ! 0, idx events 1) else None))"

definition event_description :: "epg_event \<Rightarrow> rstring" where
  "event_description e =
    (case ev_description e of
       Some (c # cs) \<Rightarrow> c # cs
     | _ \<Rightarrow> (case ev_subtitle e of Some (c # cs) \<Rightarrow> c # cs | _ \<Rightarrow> []))"

section \<open>A round\<close>

record epg_loop =
  el_state :: epg_state
  el_last_tdt :: instant
  el_eit_cc :: u8
  el_tdt_tot_cc :: u8
  el_packets :: "bytes list"

type_synonym epg_services = "epg_state \<times> epg_network \<times> (skey \<times> epg_event list) list"

definition follow_state :: "epg_state \<Rightarrow> epg_state \<Rightarrow> epg_state" where
  "follow_state new current =
    (let current = (if es_last_hash new \<noteq> es_last_hash current
           then current\<lparr>es_current_version := (es_current_version current + 1) AND 0x1F, es_last_hash := es_last_hash new\<rparr>
           else current)
     in current\<lparr>es_generated_at := es_generated_at new\<rparr>)"

text \<open>Packing sections one after the other with one counter.\<close>

fun pack_sections :: "psi_section list \<Rightarrow> u8 \<Rightarrow> bytes list \<times> u8" where
  "pack_sections [] cc = ([], cc)"
| "pack_sections (s # ss) cc =
    (let (ps, cc) = pack_multi (sec_bytes s) (sec_pid s) cc;
         (qs, cc) = pack_sections ss cc
     in (ps @ qs, cc))"

text \<open>The sections of one service. The following event is announced in the language of the present one.\<close>

definition service_sections :: "(bytes \<Rightarrow> u32) \<Rightarrow> (date_time \<Rightarrow> datetime) \<Rightarrow> u8 \<Rightarrow> date_time
    \<Rightarrow> skey \<times> epg_event list \<Rightarrow> psi_section list option" where
  "service_sections crc32 civil version now = (\<lambda>((original_network_id, transport_stream_id, service_id), events).
     case present_following_events events now of None \<Rightarrow> Some []
     | Some (present, following) \<Rightarrow> do {
         s0 \<leftarrow> present_following_section crc32 service_id version transport_stream_id original_network_id 0
           (ev_event_id present) (civil (ev_start present)) (of_nat (unat (ev_duration present))) (ev_title present)
           (event_description present) (ev_language present);
         s1 \<leftarrow> (case following of
             Some following \<Rightarrow> present_following_section crc32 service_id version transport_stream_id original_network_id 1
               (ev_event_id following) (civil (ev_start following)) (of_nat (unat (ev_duration following)))
               (ev_title following) (event_description following) (ev_language present)
           | None \<Rightarrow> empty_present_following_section crc32 service_id version transport_stream_id original_network_id 1);
         Some [s0, s1] })"

fun all_sections :: "(bytes \<Rightarrow> u32) \<Rightarrow> (date_time \<Rightarrow> datetime) \<Rightarrow> u8 \<Rightarrow> date_time
    \<Rightarrow> (skey \<times> epg_event list) list \<Rightarrow> psi_section list option" where
  "all_sections crc32 civil version now [] = Some []"
| "all_sections crc32 civil version now (s # ss) = do {
     xs \<leftarrow> service_sections crc32 civil version now s;
     ys \<leftarrow> all_sections crc32 civil version now ss;
     Some (xs @ ys) }"

definition time_tables :: "(bytes \<Rightarrow> u32) \<Rightarrow> (date_time \<Rightarrow> datetime) \<Rightarrow> (rstring \<Rightarrow> int) \<Rightarrow> date_time \<Rightarrow> instant
    \<Rightarrow> epg_network \<Rightarrow> epg_loop \<Rightarrow> epg_loop option" where
  "time_tables crc32 civil zone now instant_now network st =
    (if (instant_now - el_last_tdt st) div 1000000 \<ge> TDT_PERIOD_MS then do {
       tot \<leftarrow> tot_section crc32 (civil now) (en_country_code network) (zone (en_timezone network));
       let (ps, cc) = pack_sections [tdt_section (civil now), tot] (el_tdt_tot_cc st);
       Some (st\<lparr>el_packets := el_packets st @ ps, el_tdt_tot_cc := cc, el_last_tdt := instant_now\<rparr>) }
     else Some st)"

definition epg_round :: "(bytes \<Rightarrow> u32) \<Rightarrow> (date_time \<Rightarrow> datetime) \<Rightarrow> (rstring \<Rightarrow> int) \<Rightarrow> date_time \<Rightarrow> instant
    \<Rightarrow> epg_services \<Rightarrow> epg_loop \<Rightarrow> epg_loop option" where
  "epg_round crc32 civil zone now instant_now = (\<lambda>(new_state, network, services) st. do {
     let st = st\<lparr>el_state := follow_state new_state (el_state st)\<rparr>;
     st \<leftarrow> time_tables crc32 civil zone now instant_now network st;
     sections \<leftarrow> all_sections crc32 civil (es_current_version (el_state st)) now services;
     let (ps, cc) = pack_sections sections (el_eit_cc st);
     Some (st\<lparr>el_packets := el_packets st @ ps, el_eit_cc := cc\<rparr>) })"

text \<open>The time between two datagrams.\<close>

definition send_period_ns :: "usize \<Rightarrow> nat" where
  "send_period_ns packets = max (EIT_PERIOD_MS * 1000000 * EIT_TS_PACKET_COUNT div packets) MIN_TICK_NS"

section \<open>Sending\<close>

datatype send_result = Sent | SendFailed (cancelled_while_waiting: bool) | SendTimedOut

datatype send_input = Cancelled | Tick send_result

datatype send_end = Waiting | Stopped | NextRound

text \<open>
  The inner loop over what happens, with the datagrams handed to the socket. A datagram whose sending
  failed is gone.
\<close>

fun epg_send :: "bytes list \<Rightarrow> send_input list \<Rightarrow> bytes list \<times> (bytes \<times> send_result) list \<times> send_end" where
  "epg_send packets [] = (packets, [], Waiting)"
| "epg_send packets (Cancelled # ins) = (packets, [], Stopped)"
| "epg_send packets (Tick res # ins) =
    (if length packets < EIT_TS_PACKET_COUNT then (packets, [], NextRound)
     else
       let out = concat (take EIT_TS_PACKET_COUNT packets @ replicate (EIT_TS_PACKET_COUNT - length packets) TS_NULL_PACKET);
           packets = drop EIT_TS_PACKET_COUNT packets
       in case res of
            Sent \<Rightarrow> let (packets, outs, r) = epg_send packets ins in (packets, (out, res) # outs, r)
          | SendFailed cancelled \<Rightarrow> (packets, [(out, res)], if cancelled then Stopped else NextRound)
          | SendTimedOut \<Rightarrow> (packets, [(out, res)], NextRound))"

text \<open>A turn of the outer loop: without packets it only waits.\<close>

definition epg_turn :: "(bytes \<Rightarrow> u32) \<Rightarrow> (date_time \<Rightarrow> datetime) \<Rightarrow> (rstring \<Rightarrow> int) \<Rightarrow> date_time \<Rightarrow> instant
    \<Rightarrow> epg_services \<Rightarrow> send_input list \<Rightarrow> epg_loop \<Rightarrow> (epg_loop \<times> (bytes \<times> send_result) list \<times> send_end) option" where
  "epg_turn crc32 civil zone now instant_now services ins st = do {
     st \<leftarrow> epg_round crc32 civil zone now instant_now services st;
     if el_packets st = [] then Some (st, [], NextRound)
     else let (packets, outs, r) = epg_send (el_packets st) ins
          in Some (st\<lparr>el_packets := packets\<rparr>, outs, r) }"

section \<open>The tasks around it\<close>

text \<open>The watch over the three clocks; a reason ends the guide.\<close>

datatype epg_alarm = DownloadTooRare | SentTooRare | ProcessedTooRare

definition epg_watch :: "nat \<Rightarrow> nat \<Rightarrow> nat \<Rightarrow> epg_alarm option" where
  "epg_watch since_download since_send since_process =
    (if since_download > 20 * 10 ^ 9 then Some DownloadTooRare
     else if since_send > 20 * 10 ^ 9 \<and> since_process < 20 * 10 ^ 9 then Some SentTooRare
     else if since_process > 60 * 60 * 10 ^ 9 then Some ProcessedTooRare
     else None)"

text \<open>The first download: the attempts until one has events; \<open>True\<close> is a cancellation during the pause.\<close>

fun first_load :: "((epg_error + epg_state \<times> epg_network \<times> epg_event list) \<times> bool) list
    \<Rightarrow> (epg_state \<times> epg_network \<times> epg_event list) option option" where
  "first_load [] = None"
| "first_load ((r, cancelled) # rs) =
    (case r of
       Inr (st, network, e # es) \<Rightarrow> Some (Some (st, network, e # es))
     | _ \<Rightarrow> if cancelled then Some None else first_load rs)"

text \<open>A download of the loading task: the new schedule replaces the old one, an error leaves it.\<close>

definition epg_reload :: "instant \<Rightarrow> (epg_error + epg_state \<times> epg_network \<times> epg_event list)
    \<Rightarrow> instant \<times> epg_services \<Rightarrow> instant \<times> epg_services" where
  "epg_reload now r = (\<lambda>(last_download, services). case r of
     Inr (st, network, events) \<Rightarrow> (now, (st, network, group_events_by_service events))
   | Inl _ \<Rightarrow> (last_download, services))"

record 'addr url_parser =
  up_scheme :: "rstring \<Rightarrow> string option"
  up_host :: "rstring \<Rightarrow> string option"
  up_port :: "rstring \<Rightarrow> u16 option"
  up_socket_addr :: "string \<Rightarrow> 'addr option"

definition parse_udp_url :: "'addr url_parser \<Rightarrow> rstring \<Rightarrow> epg_error + 'addr" where
  "parse_udp_url up url =
    (case up_scheme up url of None \<Rightarrow> Inl BadUrl
     | Some scheme \<Rightarrow>
        if scheme \<noteq> ''udp'' then Inl NotUdp
        else case up_host up url of None \<Rightarrow> Inl NoHost
        | Some host \<Rightarrow> (case up_port up url of None \<Rightarrow> Inl NoPort
          | Some port \<Rightarrow> (case up_socket_addr up (host @ '':'' @ show_word port) of
              None \<Rightarrow> Inl BadSocketAddress | Some addr \<Rightarrow> Inr addr)))"

text \<open>
  The start of a guide: the destination is read before the first download, its family is checked and the
  socket bound after it. \<open>None\<close> while the first download goes on; \<open>Inr None\<close> when it was cancelled.
\<close>

definition epg_begin :: "'addr url_parser \<Rightarrow> ('addr \<Rightarrow> bool) \<Rightarrow> bool \<Rightarrow> epg_config
    \<Rightarrow> ((epg_error + epg_state \<times> epg_network \<times> epg_event list) \<times> bool) list \<Rightarrow> instant
    \<Rightarrow> (epg_error + (epg_loop \<times> epg_services) option) option" where
  "epg_begin up is_ipv4 bind_ok config attempts now =
    (case parse_udp_url up (ec_url config) of Inl e \<Rightarrow> Some (Inl e)
     | Inr dest \<Rightarrow> (case first_load attempts of None \<Rightarrow> None
       | Some None \<Rightarrow> Some (Inr None)
       | Some (Some (st, network, events)) \<Rightarrow>
           if \<not> is_ipv4 dest then Some (Inl NotIpv4)
           else if \<not> bind_ok then Some (Inl BindFailed)
           else Some (Inr (Some (\<lparr>el_state = st, el_last_tdt = now, el_eit_cc = 0, el_tdt_tot_cc = 0, el_packets = []\<rparr>,
                  (st, network, group_events_by_service events))))))"

section \<open>Grouping\<close>

lemma entry_push_map:
  assumes "sorted ks" "distinct ks" "k \<notin> set ks \<Longrightarrow> f k = []"
  shows "entry_push k v (map (\<lambda>x. (x, f x)) ks) = map (\<lambda>x. (x, if x = k then f k @ [v] else f x)) (insort_insert k ks)"
  using assms
proof (induction ks)
  case (Cons a ks)
  consider "k = a" | "k < a" | "a < k" by fastforce
  then show ?case
  proof cases
    case 1
    then show ?thesis using Cons.prems by (auto simp: insort_insert_key_def)
  next
    case 2
    then have "k \<notin> set (a # ks)" using Cons.prems(1) by auto
    then show ?thesis using 2 Cons.prems by (auto simp: insort_insert_key_def)
  next
    case 3
    then show ?thesis using Cons by (auto simp: insort_insert_key_def)
  qed
qed (simp add: insort_insert_key_def)

lemma insort_insert_set:
  assumes "finite A"
  shows "insort_insert k (sorted_list_of_set A) = sorted_list_of_set (insert k A)"
proof (cases "k \<in> A")
  case True
  then have "insert k A = A" by blast
  then show ?thesis using True assms by (simp only: insort_insert_key_def set_sorted_list_of_set if_True image_id) simp
qed (use assms in \<open>simp add: insort_insert_key_def\<close>)

lemma grouped_entries:
  "foldl (\<lambda>m e. entry_push (key e) e m) [] es
    = map (\<lambda>k. (k, filter (\<lambda>e. key e = k) es)) (sorted_list_of_set (key ` set es))"
proof (induction es rule: rev_induct)
  case (snoc e es)
  have "entry_push (key e) e (map (\<lambda>k. (k, filter (\<lambda>e. key e = k) es)) (sorted_list_of_set (key ` set es)))
      = map (\<lambda>x. (x, if x = key e then filter (\<lambda>e'. key e' = key e) es @ [e] else filter (\<lambda>e. key e = x) es))
          (insort_insert (key e) (sorted_list_of_set (key ` set es)))"
    by (rule entry_push_map) (auto simp: filter_empty_conv image_iff)
  also have "insort_insert (key e) (sorted_list_of_set (key ` set es)) = sorted_list_of_set (key ` set (es @ [e]))"
    by (subst insort_insert_set) (simp_all del: sorted_list_of_set_insert_remove)
  also have "map (\<lambda>x. (x, if x = key e then filter (\<lambda>e'. key e' = key e) es @ [e] else filter (\<lambda>e. key e = x) es))
      = map (\<lambda>k. (k, filter (\<lambda>e. key e = k) (es @ [e])))"
    by (auto simp: fun_eq_iff)
  finally show ?case by (simp add: snoc.IH)
qed simp

text \<open>
  C26. The schedule is grouped without loss: the services appear once each, in the order of their
  identifiers, and each has exactly its own events of the download, ordered by their start and otherwise in
  the order in which they came.
\<close>

theorem group_events_by_service_eq:
  "group_events_by_service events
    = map (\<lambda>k. (k, sort_key ev_start (filter (\<lambda>e. service_key e = k) events)))
        (sorted_list_of_set (service_key ` set events))"
  by (simp add: group_events_by_service_def grouped_entries)

section \<open>The present and the following event\<close>

lemma filter_later_suffix:
  "sorted (map ev_start events) \<Longrightarrow>
   events = filter (\<lambda>e. ev_start e \<le> now) events @ filter (\<lambda>e. ev_start e > now) events"
proof (induction events)
  case (Cons e es)
  show ?case
  proof (cases "ev_start e \<le> now")
    case False
    then have "filter (\<lambda>e. ev_start e \<le> now) es = []" using Cons.prems by (fastforce simp: filter_empty_conv)
    then show ?thesis using Cons False by auto
  qed (use Cons in auto)
qed simp

text \<open>The first of the events \<open>P\<close>, in the order of their start.\<close>

definition first_of :: "(epg_event \<Rightarrow> bool) \<Rightarrow> epg_event list \<Rightarrow> epg_event \<Rightarrow> bool" where
  "first_of P events e \<longleftrightarrow> P e \<and> (\<forall>e'\<in>set events. P e' \<longrightarrow> ev_start e \<le> ev_start e')"

lemma split_at:
  assumes "i < length xs"
  shows "\<exists>ys zs. xs = ys @ xs ! i # (case idx xs (i + 1) of None \<Rightarrow> [] | Some y \<Rightarrow> y # zs)"
proof (cases "Suc i < length xs")
  case True
  then have "xs = take i xs @ xs ! i # xs ! Suc i # drop (Suc (Suc i)) xs"
    using assms by (simp add: Cons_nth_drop_Suc)
  with True show ?thesis by (auto simp: idx_def)
next
  case False
  then have "xs = take i xs @ [xs ! i]"
    using assms id_take_nth_drop [OF assms] by simp
  with False show ?thesis by (auto simp: idx_def)
qed

lemma first_of_position:
  assumes "sorted (map ev_start events)" "position P events = Some i"
  shows "first_of P events (events ! i)"
proof -
  note i = position_Some [OF assms(2)]
  have "ev_start (events ! i) \<le> ev_start (events ! j)" if "j < length events" "P (events ! j)" for j
    using sorted_nth_mono [OF assms(1), of i j] i(3) [of j] that by (cases "j < i") auto
  then show ?thesis using i(2) by (auto simp: first_of_def in_set_conv_nth)
qed

text \<open>
  What is announced as present: of a schedule in order, the earliest event that is on the air; when
  none is, the next one to begin; when all are over, the first of the schedule. The following event is the
  one right after it in the schedule, and there is none exactly when it is the last. Nothing is announced
  only for an empty schedule.
\<close>

theorem present_following_correct:
  assumes "sorted (map ev_start events)"
  shows "case present_following_events events now of
      None \<Rightarrow> events = []
    | Some (present, following) \<Rightarrow>
        (if list_ex (on_air now) events then first_of (on_air now) events present
         else if list_ex (\<lambda>e. now < ev_start e) events then first_of (\<lambda>e. now < ev_start e) events present
         else present = hd events)
        \<and> (\<exists>before after. events = before @ present # (case following of None \<Rightarrow> [] | Some f \<Rightarrow> f # after))"
proof (cases "position (on_air now) events")
  case (Some i)
  then have "list_ex (on_air now) events" "i < length events"
    using position_Some(1) [OF Some] by (auto simp: position_def split: if_splits)
  then show ?thesis
    using first_of_position [OF assms Some] split_at [of i events] Some by (simp add: present_following_events_def)
next
  case None
  then have none: "\<not> list_ex (on_air now) events" by (simp add: position_def split: if_splits)
  show ?thesis
  proof (cases "filter (\<lambda>e. ev_start e > now) events")
    case Nil
    then have "\<not> list_ex (\<lambda>e. now < ev_start e) events" by (auto simp: filter_empty_conv list_ex_iff)
    then show ?thesis
      using None none Nil split_at [of 0 events] by (cases events) (auto simp: present_following_events_def)
  next
    case (Cons present upcoming)
    have events: "events = filter (\<lambda>e. ev_start e \<le> now) events @ present # upcoming"
      using filter_later_suffix [OF assms, of now] Cons by simp
    have "present \<in> set events" "now < ev_start present"
      using arg_cong [OF Cons, of set] by auto
    moreover have "ev_start present \<le> ev_start e" if "e \<in> set events" "now < ev_start e" for e
    proof -
      have "e \<in> set (present # upcoming)" using that arg_cong [OF Cons, of set] by auto
      moreover have "sorted (map ev_start (present # upcoming))"
        using assms sorted_filter [of ev_start events "\<lambda>e. ev_start e > now"] Cons by simp
      ultimately show ?thesis by auto
    qed
    ultimately have "list_ex (\<lambda>e. now < ev_start e) events" "first_of (\<lambda>e. now < ev_start e) events present"
      by (auto simp: list_ex_iff first_of_def)
    moreover have "\<exists>before after. events = before @ present # (case idx upcoming 0 of None \<Rightarrow> [] | Some f \<Rightarrow> f # after)"
      using events by (cases upcoming) auto
    ultimately show ?thesis using None none Cons by (simp add: present_following_events_def)
  qed
qed

definition ex_event :: "date_time \<Rightarrow> u16 \<Rightarrow> epg_event" where
  "ex_event start i = \<lparr>ev_original_network_id = 1, ev_transport_stream_id = 2, ev_service_id = 3, ev_event_id = i,
     ev_start = start, ev_duration = 60, ev_title = [0x41], ev_subtitle = None, ev_description = None,
     ev_language = [0x65, 0x6E, 0x67]\<rparr>"

theorem present_following_correct_witness:
  "present_following_events [ex_event 0 1, ex_event 60000000000 2] 5 = Some (ex_event 0 1, Some (ex_event 60000000000 2))
    \<and> first_of (on_air 5) [ex_event 0 1, ex_event 60000000000 2] (ex_event 0 1)"
proof -
  have "present_following_events [ex_event 0 1, ex_event 60000000000 2] 5
      = Some (ex_event 0 1, Some (ex_event 60000000000 2))"
    by (simp add: present_following_events_def position_def on_air_def ex_event_def seconds_def)
  moreover have "list_ex (on_air 5) [ex_event 0 1, ex_event 60000000000 2]"
    by (simp add: on_air_def ex_event_def seconds_def)
  ultimately show ?thesis
    using present_following_correct [of "[ex_event 0 1, ex_event 60000000000 2]" 5] by (simp add: ex_event_def)
qed

section \<open>The packets of a guide\<close>

definition counters_from :: "nat \<Rightarrow> bytes list \<Rightarrow> bool" where
  "counters_from c ps \<longleftrightarrow> (\<forall>i<length ps. pkt_cc (ps ! i) = (c + i) mod 16)"

lemma counters_from_Nil [simp]: "counters_from c []"
  by (simp add: counters_from_def)

lemma counters_from_mod: "c mod 16 = d mod 16 \<Longrightarrow> counters_from c ps = counters_from d ps"
  by (simp add: counters_from_def) (metis mod_add_left_eq)

lemma counters_from_append:
  "counters_from c ps \<Longrightarrow> counters_from (c + length ps) qs \<Longrightarrow> counters_from c (ps @ qs)"
  by (auto simp: counters_from_def nth_append)

definition packets_of :: "u16 \<Rightarrow> bytes list \<Rightarrow> bool" where
  "packets_of pid ps \<longleftrightarrow> list_all (\<lambda>p. length p = 188 \<and> p ! 0 = TS_SYNC_BYTE \<and> ts_pid p = pid) ps"

lemma pack_multi_stream:
  assumes "unat pid < 8192" "pack_multi sec pid cc = (ps, cc')"
  shows "packets_of pid ps" "counters_from (unat cc) ps" "unat cc' mod 16 = (unat cc + length ps) mod 16"
proof -
  have ps: "ps = fst (pack_multi sec pid cc)" "cc' = snd (pack_multi sec pid cc)" using assms(2) by auto
  note p = pack_multi_packet [OF assms(1), of _ sec cc, folded ps]
  show "packets_of pid ps"
    using pack_multi_member [OF assms(1), of _ sec cc] by (auto simp: packets_of_def list_all_iff ps)
  show "counters_from (unat cc) ps" using p(4) by (simp add: counters_from_def)
  have "0 < length ps" using pack_loop_nonempty [of True 0 sec pid cc] by (simp add: ps pack_multi_def)
  then show "unat cc' mod 16 = (unat cc + length ps) mod 16" by (rule p(5))
qed

lemma pack_sections_stream:
  assumes "unat pid < 8192" "list_all (\<lambda>s. sec_pid s = pid) ss" "pack_sections ss cc = (ps, cc')"
  shows "packets_of pid ps \<and> counters_from (unat cc) ps \<and> unat cc' mod 16 = (unat cc + length ps) mod 16"
  using assms(2,3)
proof (induction ss arbitrary: cc ps)
  case (Cons s ss)
  obtain ps1 cc1 ps2 where 1: "pack_multi (sec_bytes s) pid cc = (ps1, cc1)" and 2: "pack_sections ss cc1 = (ps2, cc')"
      and ps: "ps = ps1 @ ps2"
    using Cons.prems by (auto simp: Let_def split: prod.splits)
  note m = pack_multi_stream [OF assms(1) 1]
  have r: "packets_of pid ps2" "counters_from (unat cc1) ps2" "unat cc' mod 16 = (unat cc1 + length ps2) mod 16"
    using Cons.IH [OF _ 2] Cons.prems(1) by auto
  have "counters_from (unat cc + length ps1) ps2" using r(2) m(3) counters_from_mod by blast
  moreover have "unat cc' mod 16 = (unat cc + length ps) mod 16"
    using r(3) m(3) by (simp add: ps) (metis add.assoc mod_add_left_eq)
  ultimately show ?case
    using m(1,2) r(1) by (auto simp: ps packets_of_def intro: counters_from_append)
qed (simp add: packets_of_def)

text \<open>What a round appends to the queue, and the counters it leaves.\<close>

definition guide_packets :: "epg_loop \<Rightarrow> bytes list \<Rightarrow> epg_loop \<Rightarrow> bool" where
  "guide_packets st ps st' \<longleftrightarrow>
     list_all (\<lambda>p. length p = 188 \<and> p ! 0 = TS_SYNC_BYTE \<and> ts_pid p \<in> {eit_PID, tdt_PID}) ps
     \<and> counters_from (unat (el_eit_cc st)) (filter (\<lambda>p. ts_pid p = eit_PID) ps)
     \<and> counters_from (unat (el_tdt_tot_cc st)) (filter (\<lambda>p. ts_pid p = tdt_PID) ps)
     \<and> unat (el_eit_cc st') mod 16 = (unat (el_eit_cc st) + length (filter (\<lambda>p. ts_pid p = eit_PID) ps)) mod 16
     \<and> unat (el_tdt_tot_cc st') mod 16 = (unat (el_tdt_tot_cc st) + length (filter (\<lambda>p. ts_pid p = tdt_PID) ps)) mod 16"

lemma counters_chain:
  assumes "counters_from c ps" "d mod 16 = (c + length ps) mod 16" "counters_from d qs"
    and "e mod 16 = (d + length qs) mod 16"
  shows "counters_from c (ps @ qs) \<and> e mod 16 = (c + length (ps @ qs)) mod 16"
  using assms counters_from_append [of c ps qs] counters_from_mod [of d "c + length ps" qs]
  by (simp add: add.assoc) (metis add.assoc mod_add_left_eq)

lemma guide_packets_trans:
  assumes "guide_packets st ps st'" "guide_packets st' qs st''"
  shows "guide_packets st (ps @ qs) st''"
proof -
  let ?f = "\<lambda>pid. filter (\<lambda>p. ts_pid p = pid)"
  note 1 = assms(1) [unfolded guide_packets_def] and 2 = assms(2) [unfolded guide_packets_def]
  have "counters_from (unat (el_eit_cc st)) (?f eit_PID ps @ ?f eit_PID qs)
      \<and> unat (el_eit_cc st'') mod 16 = (unat (el_eit_cc st) + length (?f eit_PID ps @ ?f eit_PID qs)) mod 16"
    by (rule counters_chain [where d = "unat (el_eit_cc st')"]) (use 1 2 in \<open>blast+\<close>)
  moreover have "counters_from (unat (el_tdt_tot_cc st)) (?f tdt_PID ps @ ?f tdt_PID qs)
      \<and> unat (el_tdt_tot_cc st'') mod 16 = (unat (el_tdt_tot_cc st) + length (?f tdt_PID ps @ ?f tdt_PID qs)) mod 16"
    by (rule counters_chain [where d = "unat (el_tdt_tot_cc st')"]) (use 1 2 in \<open>blast+\<close>)
  ultimately show ?thesis using 1 2 unfolding guide_packets_def filter_append list_all_append by blast
qed

lemma guide_packets_refl [simp]: "guide_packets st [] st"
  by (simp add: guide_packets_def)

lemma guide_packets_eit:
  "packets_of eit_PID ps \<Longrightarrow> counters_from (unat (el_eit_cc st)) ps \<Longrightarrow> unat cc mod 16 = (unat (el_eit_cc st) + length ps) mod 16 \<Longrightarrow>
   guide_packets st ps (st\<lparr>el_packets := q, el_eit_cc := cc\<rparr>)"
  by (auto simp: guide_packets_def packets_of_def list_all_iff eit_PID_def tdt_PID_def cong: filter_cong)

lemma guide_packets_tdt:
  "packets_of tdt_PID ps \<Longrightarrow> counters_from (unat (el_tdt_tot_cc st)) ps \<Longrightarrow> unat cc mod 16 = (unat (el_tdt_tot_cc st) + length ps) mod 16 \<Longrightarrow>
   guide_packets st ps (st\<lparr>el_packets := q, el_tdt_tot_cc := cc, el_last_tdt := t\<rparr>)"
  by (auto simp: guide_packets_def packets_of_def list_all_iff eit_PID_def tdt_PID_def cong: filter_cong)

lemma guide_packets_cong:
  "guide_packets st ps st' \<Longrightarrow> el_eit_cc st2 = el_eit_cc st \<Longrightarrow> el_tdt_tot_cc st2 = el_tdt_tot_cc st \<Longrightarrow>
   el_eit_cc st2' = el_eit_cc st' \<Longrightarrow> el_tdt_tot_cc st2' = el_tdt_tot_cc st' \<Longrightarrow> guide_packets st2 ps st2'"
  by (simp add: guide_packets_def)

text \<open>No section panics: the country code has three bytes.\<close>

lemma tot_section_returns:
  "length country = 3 \<Longrightarrow> \<exists>s. tot_section crc32 now country off = Some s \<and> sec_pid s = tdt_PID"
  by (simp add: tot_section_def is_char_boundary_def set_section_length_eq Let_def section_with_crc_def tot_PID_def tdt_PID_def)

lemma event_section_returns:
  "\<exists>s. present_following_section crc32 sid v tsid onid n i start dur title desc lang = Some s \<and> sec_pid s = eit_PID"
  by (simp add: present_following_section_def eit_header_def set_section_length_eq Let_def section_with_crc_def)

lemma empty_section_returns:
  "\<exists>s. empty_present_following_section crc32 sid v tsid onid n = Some s \<and> sec_pid s = eit_PID"
  by (simp add: empty_present_following_section_def eit_header_def set_section_length_eq section_with_crc_def)

lemma service_sections_return:
  "\<exists>ss. service_sections crc32 civil v now s = Some ss \<and> list_all (\<lambda>s. sec_pid s = eit_PID) ss"
proof -
  obtain onid tsid sid events where s: "s = ((onid, tsid, sid), events)" by (cases s) auto
  show ?thesis
  proof (cases "present_following_events events now")
    case (Some pf)
    obtain present following where pf: "pf = (present, following)" by (cases pf)
    obtain s0 where s0: "present_following_section crc32 sid v tsid onid 0 (ev_event_id present) (civil (ev_start present))
        (of_nat (unat (ev_duration present))) (ev_title present) (event_description present) (ev_language present) = Some s0"
        "sec_pid s0 = eit_PID"
      using event_section_returns by blast
    obtain s1 where s1: "(case following of
             Some following \<Rightarrow> present_following_section crc32 sid v tsid onid 1
               (ev_event_id following) (civil (ev_start following)) (of_nat (unat (ev_duration following)))
               (ev_title following) (event_description following) (ev_language present)
           | None \<Rightarrow> empty_present_following_section crc32 sid v tsid onid 1) = Some s1" "sec_pid s1 = eit_PID"
    proof (cases following)
      case None
      then show ?thesis using that empty_section_returns [of crc32 sid v tsid onid 1] by auto
    next
      case (Some f)
      show ?thesis
        using that event_section_returns [of crc32 sid v tsid onid 1 "ev_event_id f" "civil (ev_start f)"
            "of_nat (unat (ev_duration f))" "ev_title f" "event_description f" "ev_language present"]
        by (auto simp: Some)
    qed
    show ?thesis using Some s0 s1 by (simp add: service_sections_def s pf)
  qed (simp add: service_sections_def s)
qed

lemma all_sections_return:
  "\<exists>ss. all_sections crc32 civil v now services = Some ss \<and> list_all (\<lambda>s. sec_pid s = eit_PID) ss"
proof (induction services)
  case (Cons s services)
  then show ?case using service_sections_return [of crc32 civil v now s] by auto
qed simp

lemma time_tables_return:
  assumes "length (en_country_code network) = 3"
  shows "\<exists>st' ps. time_tables crc32 civil zone now t network st = Some st' \<and> el_packets st' = el_packets st @ ps
    \<and> guide_packets st ps st' \<and> el_state st' = el_state st"
proof (cases "(t - el_last_tdt st) div 1000000 \<ge> TDT_PERIOD_MS")
  case True
  obtain tot where tot: "tot_section crc32 (civil now) (en_country_code network) (zone (en_timezone network)) = Some tot"
      "sec_pid tot = tdt_PID"
    using tot_section_returns [OF assms] by blast
  obtain ps cc where pack: "pack_sections [tdt_section (civil now), tot] (el_tdt_tot_cc st) = (ps, cc)" by fastforce
  have "packets_of tdt_PID ps \<and> counters_from (unat (el_tdt_tot_cc st)) ps
      \<and> unat cc mod 16 = (unat (el_tdt_tot_cc st) + length ps) mod 16"
    by (rule pack_sections_stream [OF _ _ pack]) (use tot(2) in \<open>simp_all add: tdt_section_def tdt_PID_def\<close>)
  then show ?thesis
    using True tot(1) guide_packets_tdt [of ps st cc] by (simp add: time_tables_def pack del: pack_sections.simps)
qed (auto simp: time_tables_def intro: exI [of _ "[]"])

lemma epg_round_returns:
  assumes "length (en_country_code network) = 3"
  shows "\<exists>st' ps. epg_round crc32 civil zone now t (new, network, services) st = Some st'
    \<and> el_packets st' = el_packets st @ ps \<and> guide_packets st ps st' \<and> el_state st' = follow_state new (el_state st)"
proof -
  let ?st = "st\<lparr>el_state := follow_state new (el_state st)\<rparr>"
  obtain st1 ps1 where 1: "time_tables crc32 civil zone now t network ?st = Some st1"
      "el_packets st1 = el_packets ?st @ ps1" "guide_packets ?st ps1 st1" "el_state st1 = el_state ?st"
    using time_tables_return [OF assms] by blast
  obtain ss where ss: "all_sections crc32 civil (es_current_version (el_state st1)) now services = Some ss"
      "list_all (\<lambda>s. sec_pid s = eit_PID) ss"
    using all_sections_return by blast
  obtain ps cc where pack: "pack_sections ss (el_eit_cc st1) = (ps, cc)" by fastforce
  have "packets_of eit_PID ps \<and> counters_from (unat (el_eit_cc st1)) ps
      \<and> unat cc mod 16 = (unat (el_eit_cc st1) + length ps) mod 16"
    by (rule pack_sections_stream [OF _ ss(2) pack]) (simp add: eit_PID_def)
  then have "guide_packets st1 ps (st1\<lparr>el_packets := el_packets st1 @ ps, el_eit_cc := cc\<rparr>)"
    by (simp add: guide_packets_eit)
  from guide_packets_trans [OF 1(3) this] have "guide_packets st (ps1 @ ps) (st1\<lparr>el_packets := el_packets st1 @ ps, el_eit_cc := cc\<rparr>)"
    by (rule guide_packets_cong) auto
  then show ?thesis
    using 1 ss(1) pack by (auto simp: epg_round_def Let_def)
qed

section \<open>Many turns\<close>

record epg_moment =
  mo_now :: date_time
  mo_instant :: instant
  mo_services :: epg_services
  mo_inputs :: "send_input list"

fun epg_turns :: "(bytes \<Rightarrow> u32) \<Rightarrow> (date_time \<Rightarrow> datetime) \<Rightarrow> (rstring \<Rightarrow> int) \<Rightarrow> epg_moment list \<Rightarrow> epg_loop
    \<Rightarrow> (epg_loop \<times> (bytes \<times> send_result) list \<times> send_end) option" where
  "epg_turns crc32 civil zone [] st = Some (st, [], NextRound)"
| "epg_turns crc32 civil zone (m # ms) st = do {
     (st, outs, r) \<leftarrow> epg_turn crc32 civil zone (mo_now m) (mo_instant m) (mo_services m) (mo_inputs m) st;
     if r = NextRound then do {
       (st, outs', r) \<leftarrow> epg_turns crc32 civil zone ms st;
       Some (st, outs @ outs', r) }
     else Some (st, outs, r) }"

lemma length_concat_packets: "list_all (\<lambda>p. length p = 188) ps \<Longrightarrow> length (concat ps) = 188 * length ps"
  by (induction ps) auto

lemma epg_send_keeps:
  assumes "epg_send packets ins = (packets', outs, r)" "list_all (\<lambda>p. length p = 188) packets"
  shows "concat (map fst outs) @ concat packets' = concat packets
    \<and> list_all (\<lambda>(out, res). length out = EIT_TS_PACKET_SIZE) outs \<and> list_all (\<lambda>p. length p = 188) packets'"
  using assms
proof (induction packets ins arbitrary: packets' outs rule: epg_send.induct)
  case (3 packets res ins)
  show ?case
  proof (cases "length packets < EIT_TS_PACKET_COUNT")
    case True
    then show ?thesis using "3.prems" by auto
  next
    case False
    let ?out = "concat (take EIT_TS_PACKET_COUNT packets)" and ?rest = "drop EIT_TS_PACKET_COUNT packets"
    have split: "?out @ concat ?rest = concat packets" by (simp flip: concat_append)
    have first: "list_all (\<lambda>p. length p = 188) (take EIT_TS_PACKET_COUNT packets)" and rest: "list_all (\<lambda>p. length p = 188) ?rest"
      using "3.prems"(2) by (auto simp: list_all_iff dest: in_set_takeD in_set_dropD)
    have "length ?out = 188 * length (take EIT_TS_PACKET_COUNT packets)" by (rule length_concat_packets [OF first])
    then have size: "length ?out = EIT_TS_PACKET_SIZE"
      using False by (simp add: EIT_TS_PACKET_SIZE_def TS_PACKET_SIZE_def)
    show ?thesis
    proof (cases res)
      case Sent
      obtain outs' where rec: "epg_send ?rest ins = (packets', outs', r)" and outs: "outs = (?out, Sent) # outs'"
        using "3.prems"(1) False Sent by (auto simp: Let_def split: prod.splits)
      show ?thesis
        using "3.IH" [OF False refl _ Sent rec rest] split size by (auto simp: outs)
    next
      case (SendFailed x2)
      then show ?thesis using "3.prems"(1) False split size rest by (auto simp: Let_def)
    next
      case SendTimedOut
      then show ?thesis using "3.prems"(1) False split size rest by (auto simp: Let_def)
    qed
  qed
qed auto

lemma epg_turn_keeps:
  assumes "length (en_country_code (fst (snd services))) = 3" "list_all (\<lambda>p. length p = 188) (el_packets st)"
  shows "\<exists>st' outs r ps. epg_turn crc32 civil zone now t services ins st = Some (st', outs, r)
    \<and> guide_packets st ps st' \<and> concat (map fst outs) @ concat (el_packets st') = concat (el_packets st) @ concat ps
    \<and> list_all (\<lambda>(out, res). length out = EIT_TS_PACKET_SIZE) outs \<and> list_all (\<lambda>p. length p = 188) (el_packets st')"
proof -
  obtain new network sv where services: "services = (new, network, sv)" by (cases services)
  obtain st1 ps where round: "epg_round crc32 civil zone now t services st = Some st1"
      "el_packets st1 = el_packets st @ ps" "guide_packets st ps st1"
    using epg_round_returns [of network crc32 civil zone now t new sv st] assms(1) by (auto simp: services)
  have all: "list_all (\<lambda>p. length p = 188) (el_packets st1)"
    using assms(2) round(2,3) by (auto simp: guide_packets_def list_all_iff)
  obtain packets outs r where send: "epg_send (el_packets st1) ins = (packets, outs, r)" by (metis surj_pair)
  show ?thesis
  proof (cases "el_packets st1 = []")
    case True
    then show ?thesis using round by (auto simp: epg_turn_def)
  next
    case False
    have "guide_packets st ps (st1\<lparr>el_packets := packets\<rparr>)"
      using round(3) by (rule guide_packets_cong) auto
    moreover have "epg_turn crc32 civil zone now t services ins st = Some (st1\<lparr>el_packets := packets\<rparr>, outs, r)"
      using False round(1) send by (simp add: epg_turn_def)
    ultimately show ?thesis using round(2) epg_send_keeps [OF send all] by fastforce
  qed
qed

text \<open>A schedule as \<open>load_epg_events\<close> hands it out.\<close>

definition loaded :: "epg_services \<Rightarrow> bool" where
  "loaded services \<longleftrightarrow> (\<exists>api admin_url from_json hash i st network events.
     load_epg_events api admin_url from_json hash i = Inr (st, network, events)
     \<and> services = (st, network, group_events_by_service events))"

lemma load_country:
  "load_epg_events api admin_url from_json hash i = Inr (st, network, events) \<Longrightarrow> length (en_country_code network) = 3"
  unfolding load_epg_events_def Let_def by (auto split: option.splits if_splits)

lemma loaded_country: "loaded services \<Longrightarrow> length (en_country_code (fst (snd services))) = 3"
  using load_country by (fastforce simp: loaded_def)

lemma epg_turns_keep:
  assumes "list_all (\<lambda>m. loaded (mo_services m)) ms" "list_all (\<lambda>p. length p = 188) (el_packets st)"
  shows "\<exists>st' outs r ps. epg_turns crc32 civil zone ms st = Some (st', outs, r)
    \<and> guide_packets st ps st' \<and> concat (map fst outs) @ concat (el_packets st') = concat (el_packets st) @ concat ps
    \<and> list_all (\<lambda>(out, res). length out = EIT_TS_PACKET_SIZE) outs"
  using assms
proof (induction ms arbitrary: st)
  case Nil
  show ?case by (auto intro!: exI [of _ "[]"])
next
  case (Cons m ms)
  obtain st1 outs r ps where 1: "epg_turn crc32 civil zone (mo_now m) (mo_instant m) (mo_services m) (mo_inputs m) st
        = Some (st1, outs, r)" "guide_packets st ps st1"
      "concat (map fst outs) @ concat (el_packets st1) = concat (el_packets st) @ concat ps"
      "list_all (\<lambda>(out, res). length out = EIT_TS_PACKET_SIZE) outs" "list_all (\<lambda>p. length p = 188) (el_packets st1)"
    using epg_turn_keeps [OF loaded_country [of "mo_services m"] Cons.prems(2)] Cons.prems(1) by fastforce
  show ?case
  proof (cases "r = NextRound")
    case False
    then show ?thesis using 1(1-4) by auto
  next
    case True
    obtain st2 outs2 r2 ps2 where 2: "epg_turns crc32 civil zone ms st1 = Some (st2, outs2, r2)" "guide_packets st1 ps2 st2"
        "concat (map fst outs2) @ concat (el_packets st2) = concat (el_packets st1) @ concat ps2"
        "list_all (\<lambda>(out, res). length out = EIT_TS_PACKET_SIZE) outs2"
      using Cons.IH [OF _ 1(5)] Cons.prems(1) by auto
    have "concat (map fst (outs @ outs2)) @ concat (el_packets st2) = concat (el_packets st) @ concat (ps @ ps2)"
      using 1(3) 2(3) by simp
    then show ?thesis
      using 1(1,4) 2(1,4) True guide_packets_trans [OF 1(2) 2(2)]
      by (intro exI [of _ st2] exI [of _ "outs @ outs2"] exI [of _ r2] exI [of _ "ps @ ps2"]) simp
  qed
qed

text \<open>
  C22. The packets of a guide are sent in order and none is lost between rounds: with schedules as the
  server delivers them no turn panics, and the datagrams handed to the socket, each of seven packets,
  followed by what still waits, are exactly the packets of all rounds in order. The continuity counters of
  the event packets, and those of the time packets, follow each other without a gap over all rounds,
  whatever the sizes of the schedules and the results of sending.
\<close>

theorem guide_stream_continuous:
  assumes "list_all (\<lambda>m. loaded (mo_services m)) ms" "el_packets st = []"
  shows "\<exists>st' outs r ps. epg_turns crc32 civil zone ms st = Some (st', outs, r)
    \<and> guide_packets st ps st' \<and> concat (map fst outs) @ concat (el_packets st') = concat ps
    \<and> list_all (\<lambda>(out, res). length out = EIT_TS_PACKET_SIZE) outs"
  using epg_turns_keep [OF assms(1), of st crc32 civil zone] assms(2) by simp

definition ex_network :: epg_network where
  "ex_network = \<lparr>en_country_code = [0x44, 0x45, 0x55], en_timezone = []\<rparr>"

definition ex_services :: epg_services where
  "ex_services = (epg_state_new 1 0 7, ex_network, group_events_by_service [ex_event 0 1, ex_event 60000000000 2])"

definition ex_moment :: epg_moment where
  "ex_moment = \<lparr>mo_now = 5, mo_instant = 20000000000, mo_services = ex_services, mo_inputs = [Tick Sent]\<rparr>"

definition ex_loop :: epg_loop where
  "ex_loop = \<lparr>el_state = epg_state_new 1 0 7, el_last_tdt = 0, el_eit_cc = 0, el_tdt_tot_cc = 0, el_packets = []\<rparr>"

theorem guide_stream_continuous_witness:
  "\<exists>st' outs r ps. epg_turns (\<lambda>_. 0) (\<lambda>_. \<lparr>dt_year = 1970, dt_month = 1, dt_day = 1, dt_hour = 0, dt_minute = 0, dt_second = 0\<rparr>)
      (\<lambda>_. 3600) [ex_moment, ex_moment] ex_loop = Some (st', outs, r)
    \<and> guide_packets ex_loop ps st' \<and> concat (map fst outs) @ concat (el_packets st') = concat ps
    \<and> list_all (\<lambda>(out, res). length out = EIT_TS_PACKET_SIZE) outs"
proof -
  let ?epg = "\<lparr>ee_version = 1, ee_generated_at = 0, ee_network = ex_network,
      ee_events = [ex_event 0 1, ex_event 60000000000 2]\<rparr>"
  have "load_epg_events (Some (\<lambda>_. Some [])) True (\<lambda>_. Some ?epg) (\<lambda>_. 7) 1
      = Inr (epg_state_new 1 0 7, ex_network, [ex_event 0 1, ex_event 60000000000 2])"
    by (simp add: load_epg_events_def ex_network_def ex_event_def)
  then have "loaded ex_services" unfolding loaded_def ex_services_def by blast
  then show ?thesis
    by (intro guide_stream_continuous) (simp_all add: ex_moment_def ex_loop_def)
qed

text \<open>The version of the sections counts the changes of the schedule modulo 32.\<close>

lemma follow_state_version:
  "es_last_hash (follow_state new cur) = es_last_hash new"
  "unat (es_current_version (follow_state new cur)) =
    (if es_last_hash new = es_last_hash cur then unat (es_current_version cur) else (unat (es_current_version cur) + 1) mod 32)"
proof -
  have "unat ((v + 1) AND 0x1F) = (unat v + 1) mod 32" for v :: u8
  proof -
    have "(v + 1) AND 0x1F = take_bit 5 (v + 1)" by (simp add: take_bit_eq_mask mask_eq_exp_minus_1)
    then show ?thesis
      by (simp add: take_bit_eq_mod unat_mod_distrib unat_word_ariths mod_mod_cancel)
  qed
  then show "es_last_hash (follow_state new cur) = es_last_hash new"
    "unat (es_current_version (follow_state new cur)) =
      (if es_last_hash new = es_last_hash cur then unat (es_current_version cur) else (unat (es_current_version cur) + 1) mod 32)"
    by (auto simp: follow_state_def Let_def)
qed

end
