(* ===== verification/Http_Router.thy ===== *)
theory Http_Router
  imports Http_Api "HOL-Library.Product_Lexorder" "HOL-Library.List_Lexorder"
begin

text \<open>
  \<open>database.rs\<close> and \<open>http_router.rs\<close>, with the operations of \<open>supervisor.rs\<close> on aliases and keys. The
  database is the library \<open>redb\<close>: a table is the list of its entries in the order of the keys, and a
  transaction either happens as a whole or fails and changes nothing; whether it fails is an argument.

  A router keeps for each alias a task that reads a Unix socket and a channel for the readers. A task is its
  number, with the socket it reads as long as it has not been aborted.
\<close>

section \<open>The database\<close>

type_synonym ('k, 'v) table = "('k \<times> 'v) list"

fun table_insert :: "'k::linorder \<Rightarrow> 'v \<Rightarrow> ('k, 'v) table \<Rightarrow> ('k, 'v) table" where
  "table_insert k v [] = [(k, v)]"
| "table_insert k v ((k', v') # t) =
    (if k < k' then (k, v) # (k', v') # t else if k = k' then (k, v) # t else (k', v') # table_insert k v t)"

definition table_remove :: "'k \<Rightarrow> ('k, 'v) table \<Rightarrow> ('k, 'v) table" where
  "table_remove k t = filter (\<lambda>(k', v). k' \<noteq> k) t"

definition table_range :: "'k::linorder \<Rightarrow> 'k \<Rightarrow> ('k, 'v) table \<Rightarrow> ('k, 'v) table" where
  "table_range a b t = filter (\<lambda>(k, v). a \<le> k \<and> k \<le> b) t"

record storage =
  db_aliases :: "(u32 \<times> rstring, rstring) table"
  db_keys :: "(rstring, bool) table"

definition storage_new :: storage where
  "storage_new = \<lparr>db_aliases = [], db_keys = []\<rparr>"

datatype db_error = DbFailed

definition set_alias :: "bool \<Rightarrow> u32 \<Rightarrow> rstring \<Rightarrow> rstring \<Rightarrow> storage \<Rightarrow> (db_error + unit) \<times> storage" where
  "set_alias fails i alias socket db =
    (if fails then (Inl DbFailed, db)
     else (Inr (), db\<lparr>db_aliases := table_insert (i, alias) socket (db_aliases db)\<rparr>))"

definition get_alias :: "bool \<Rightarrow> u32 \<Rightarrow> rstring \<Rightarrow> storage \<Rightarrow> db_error + rstring option" where
  "get_alias fails i alias db = (if fails then Inl DbFailed else Inr (map_of (db_aliases db) (i, alias)))"

text \<open>The end of the range is the text of the greatest character, \<open>U+10FFFF\<close>.\<close>

definition LAST_ALIAS :: rstring where
  "LAST_ALIAS = [0xF4, 0x8F, 0xBF, 0xBF]"

definition aliases :: "bool \<Rightarrow> u32 \<Rightarrow> storage \<Rightarrow> db_error + (rstring \<times> rstring) list" where
  "aliases fails i db = (if fails then Inl DbFailed
     else Inr (map (\<lambda>((i, alias), socket). (alias, socket)) (table_range (i, []) (i, LAST_ALIAS) (db_aliases db))))"

definition db_remove_alias :: "bool \<Rightarrow> u32 \<Rightarrow> rstring \<Rightarrow> storage \<Rightarrow> (db_error + bool) \<times> storage" where
  "db_remove_alias fails i alias db =
    (if fails then (Inl DbFailed, db)
     else (Inr (map_of (db_aliases db) (i, alias) \<noteq> None), db\<lparr>db_aliases := table_remove (i, alias) (db_aliases db)\<rparr>))"

definition add_key :: "bool \<Rightarrow> rstring \<Rightarrow> storage \<Rightarrow> (db_error + unit) \<times> storage" where
  "add_key fails key db =
    (if fails then (Inl DbFailed, db) else (Inr (), db\<lparr>db_keys := table_insert key True (db_keys db)\<rparr>))"

definition has_key :: "bool \<Rightarrow> rstring \<Rightarrow> storage \<Rightarrow> db_error + bool" where
  "has_key fails key db = (if fails then Inl DbFailed else Inr (map_of (db_keys db) key \<noteq> None))"

definition remove_key :: "bool \<Rightarrow> rstring \<Rightarrow> storage \<Rightarrow> (db_error + bool) \<times> storage" where
  "remove_key fails key db =
    (if fails then (Inl DbFailed, db)
     else (Inr (map_of (db_keys db) key \<noteq> None), db\<lparr>db_keys := table_remove key (db_keys db)\<rparr>))"

section \<open>A router\<close>

datatype http_router_cmd =
    CmdAddAlias rstring rstring
  | CmdRemoveAlias rstring
  | CmdAddAllowedNet rstring
  | CmdRemoveAllowedNet rstring
  | CmdAddKey rstring
  | CmdRemoveKey rstring

record http_router =
  hr_id :: u32
  hr_url :: rstring
  hr_routes :: "rstring list"
  hr_allowed_nets :: "rstring list"
  hr_handles :: "rstring \<rightharpoonup> nat"
  hr_aliases_tx :: "rstring \<rightharpoonup> nat"
  hr_tasks :: "nat \<rightharpoonup> rstring"
  hr_next :: nat

definition http_router_new :: "http_router_config \<Rightarrow> http_router" where
  "http_router_new config = \<lparr>hr_id = hrc_id config, hr_url = hrc_url config, hr_routes = hrc_routes config,
     hr_allowed_nets = hrc_allow config, hr_handles = Map.empty, hr_aliases_tx = Map.empty, hr_tasks = Map.empty,
     hr_next = 0\<rparr>"

text \<open>The handle is taken out of the map and its task aborted.\<close>

definition remove_alias :: "rstring \<Rightarrow> http_router \<Rightarrow> http_router" where
  "remove_alias alias r =
    (let r = (case hr_handles r alias of None \<Rightarrow> r
         | Some h \<Rightarrow> r\<lparr>hr_handles := (hr_handles r)(alias := None), hr_tasks := (hr_tasks r)(h := None)\<rparr>)
     in r\<lparr>hr_aliases_tx := (hr_aliases_tx r)(alias := None)\<rparr>)"

text \<open>The new task and the new channel have the same number.\<close>

definition add_alias :: "rstring \<Rightarrow> rstring \<Rightarrow> http_router \<Rightarrow> http_router" where
  "add_alias alias url r =
    (let r = remove_alias alias r;
         h = hr_next r
     in r\<lparr>hr_next := h + 1, hr_tasks := (hr_tasks r)(h \<mapsto> url), hr_handles := (hr_handles r)(alias \<mapsto> h),
          hr_aliases_tx := (hr_aliases_tx r)(alias \<mapsto> h)\<rparr>)"

text \<open>The start of \<open>run\<close>: the aliases of the database; an error ends it.\<close>

definition run_load :: "bool \<Rightarrow> storage \<Rightarrow> http_router \<Rightarrow> db_error + http_router" where
  "run_load fails db r = (case aliases fails (hr_id r) db of
     Inl e \<Rightarrow> Inl e
   | Inr entries \<Rightarrow> Inr (foldl (\<lambda>r (alias, socket). add_alias alias socket r) r entries))"

text \<open>A command of the loop; those for networks and keys are taken and ignored.\<close>

fun run_cmd :: "http_router \<Rightarrow> http_router_cmd \<Rightarrow> http_router" where
  "run_cmd r (CmdAddAlias alias url) = add_alias alias url r"
| "run_cmd r (CmdRemoveAlias alias) = remove_alias alias r"
| "run_cmd r (CmdAddAllowedNet net) = r"
| "run_cmd r (CmdRemoveAllowedNet net) = r"
| "run_cmd r (CmdAddKey key) = r"
| "run_cmd r (CmdRemoveKey key) = r"

section \<open>The task of an alias\<close>

datatype fetch_event =
    Connected
  | ConnectFailed
  | FetchCancelled
  | FetchRead bytes
  | FetchError
  | Paused
  | PauseCancelled

datatype fetch_state = Connecting | Reading | Pausing | FetchDone

text \<open>
  One event with the count of failed connections: what is sent to the readers, and whether the failure is
  logged. A cancellation while reading ends the pause that follows. The buffer has 1316 bytes, and nothing
  read is the end of the stream.
\<close>

fun fetch_step :: "fetch_state \<times> usize \<Rightarrow> fetch_event \<Rightarrow> (fetch_state \<times> usize) \<times> bytes option \<times> bool" where
  "fetch_step (Connecting, n) Connected = ((Reading, 0), None, False)"
| "fetch_step (Connecting, n) ConnectFailed = ((Pausing, n + 1), None, (n + 1) mod 60 = 0)"
| "fetch_step (Reading, n) FetchCancelled = ((Pausing, n), None, False)"
| "fetch_step (Reading, n) (FetchRead bs) =
    (if bs = [] then ((Pausing, n), None, False) else ((Reading, n), Some bs, False))"
| "fetch_step (Reading, n) FetchError = ((Pausing, n), None, True)"
| "fetch_step (Pausing, n) Paused = ((Connecting, n), None, False)"
| "fetch_step (Pausing, n) PauseCancelled = ((FetchDone, n), None, False)"
| "fetch_step st _ = (st, None, False)"

section \<open>A request\<close>

datatype router_answer = Denied | InternalError | Unavailable rstring | NotFound rstring | Streaming nat

text \<open>The handler of a route, with the key and the alias of the path.\<close>

definition router_get :: "bool \<Rightarrow> storage \<Rightarrow> http_router \<Rightarrow> rstring \<Rightarrow> rstring \<Rightarrow> router_answer" where
  "router_get fails db r key alias =
    (case has_key fails key db of
       Inl _ \<Rightarrow> InternalError
     | Inr False \<Rightarrow> Denied
     | Inr True \<Rightarrow> (case hr_aliases_tx r alias of None \<Rightarrow> Unavailable alias | Some tx \<Rightarrow> Streaming tx))"

text \<open>
  The layer around all routes. \<open>path\<close> is the key and the alias when a route matches. Outer \<open>None\<close> is the
  panic of \<open>is_forbidden\<close> at a network it cannot read.
\<close>

definition router_serve :: "(rstring \<Rightarrow> 'ip option) \<Rightarrow> (rstring \<Rightarrow> 'net option) \<Rightarrow> ('net \<Rightarrow> 'ip \<Rightarrow> bool) \<Rightarrow> bool
    \<Rightarrow> storage \<Rightarrow> http_router \<Rightarrow> bool \<Rightarrow> rstring \<Rightarrow> rstring \<Rightarrow> (rstring \<times> rstring) option \<Rightarrow> router_answer option" where
  "router_serve parse_ip parse_net contains fails db r is_ipv4 ip uri path =
    (if \<not> is_ipv4 then Some Denied else do {
       forbidden \<leftarrow> is_forbidden parse_ip parse_net contains ip (hr_allowed_nets r);
       if forbidden then Some Denied
       else case path of None \<Rightarrow> Some (NotFound uri)
         | Some (key, alias) \<Rightarrow> Some (router_get fails db r key alias) })"

text \<open>
  The body: for each item of the channel, whether the key is still in the database (a failed look is a
  missing key); \<open>None\<close> is an item lost because the reader was too slow; \<open>StreamCancelled\<close> is the
  cancellation of the router.
\<close>

datatype stream_event = StreamItem "bytes option" "db_error + bool" | StreamCancelled

fun stream_body :: "stream_event list \<Rightarrow> bytes list" where
  "stream_body [] = []"
| "stream_body (StreamCancelled # es) = []"
| "stream_body (StreamItem item key # es) =
    (if key = Inr True then (case item of Some bs \<Rightarrow> [bs] | None \<Rightarrow> []) @ stream_body es else [])"

section \<open>The operations of the supervisor\<close>

text \<open>
  The tasks of the routers with the commands that wait in their channels. A channel holds one command;
  a full one only delays the operation that sends, so the queue is a list. A task that has ended stays in
  the map until it is stopped, and sending to it fails.
\<close>

datatype router_phase = RouterStarting | RouterServing | RouterEnded

record router_task =
  rtk_router :: http_router
  rtk_phase :: router_phase
  rtk_queue :: "http_router_cmd list"

record router_system =
  rs_db :: storage
  rs_routers :: "u32 \<rightharpoonup> router_task"

datatype router_error = RouterNotFound u32 | RouterDb db_error | RouterSendFailed

definition send_router :: "u32 \<Rightarrow> http_router_cmd \<Rightarrow> router_system \<Rightarrow> (router_error + unit) \<times> router_system" where
  "send_router i c s = (case rs_routers s i of None \<Rightarrow> (Inr (), s)
     | Some t \<Rightarrow> if rtk_phase t = RouterEnded then (Inl RouterSendFailed, s)
         else (Inr (), s\<lparr>rs_routers := (rs_routers s)(i \<mapsto> t\<lparr>rtk_queue := rtk_queue t @ [c]\<rparr>)\<rparr>))"

text \<open>The two database operations of \<open>http_router_add_alias\<close> may fail; a failed look does not count.\<close>

definition http_router_add_alias :: "bool \<Rightarrow> bool \<Rightarrow> u32 \<Rightarrow> rstring \<Rightarrow> rstring \<Rightarrow> router_system
    \<Rightarrow> (router_error + unit) \<times> router_system" where
  "http_router_add_alias get_fails set_fails i alias socket s =
    (if rs_routers s i = None then (Inl (RouterNotFound i), s)
     else if get_alias get_fails i alias (rs_db s) = Inr (Some socket) then (Inr (), s)
     else case set_alias set_fails i alias socket (rs_db s) of
         (Inl e, db) \<Rightarrow> (Inl (RouterDb e), s\<lparr>rs_db := db\<rparr>)
       | (Inr _, db) \<Rightarrow> send_router i (CmdAddAlias alias socket) (s\<lparr>rs_db := db\<rparr>))"

definition http_router_rm_alias :: "bool \<Rightarrow> u32 \<Rightarrow> rstring \<Rightarrow> router_system \<Rightarrow> (router_error + unit) \<times> router_system" where
  "http_router_rm_alias fails i alias s =
    (case db_remove_alias fails i alias (rs_db s) of
       (Inl e, db) \<Rightarrow> (Inl (RouterDb e), s\<lparr>rs_db := db\<rparr>)
     | (Inr _, db) \<Rightarrow> send_router i (CmdRemoveAlias alias) (s\<lparr>rs_db := db\<rparr>))"

definition http_router_add_key :: "bool \<Rightarrow> rstring \<Rightarrow> router_system \<Rightarrow> (router_error + unit) \<times> router_system" where
  "http_router_add_key fails key s = (case add_key fails key (rs_db s) of
     (Inl e, db) \<Rightarrow> (Inl (RouterDb e), s\<lparr>rs_db := db\<rparr>) | (Inr _, db) \<Rightarrow> (Inr (), s\<lparr>rs_db := db\<rparr>))"

definition http_router_rm_key :: "bool \<Rightarrow> rstring \<Rightarrow> router_system \<Rightarrow> (router_error + unit) \<times> router_system" where
  "http_router_rm_key fails key s = (case remove_key fails key (rs_db s) of
     (Inl e, db) \<Rightarrow> (Inl (RouterDb e), s\<lparr>rs_db := db\<rparr>) | (Inr _, db) \<Rightarrow> (Inr (), s\<lparr>rs_db := db\<rparr>))"

section \<open>Steps\<close>

text \<open>
  What can happen, one whole operation of the supervisor after the other: a router is put into the map,
  loads its aliases, takes a command, ends or is removed; aliases and keys are changed.
\<close>

abbreviation set_router :: "u32 \<Rightarrow> router_task \<Rightarrow> router_system \<Rightarrow> router_system" where
  "set_router i t s \<equiv> s\<lparr>rs_routers := (rs_routers s)(i \<mapsto> t)\<rparr>"

inductive router_step :: "router_system \<Rightarrow> router_system \<Rightarrow> bool" where
  router_starts: "rs_routers s (hrc_id config) = None \<Longrightarrow> router_step s
    (set_router (hrc_id config) \<lparr>rtk_router = http_router_new config, rtk_phase = RouterStarting, rtk_queue = []\<rparr> s)"
| router_loads: "rs_routers s i = Some t \<Longrightarrow> rtk_phase t = RouterStarting \<Longrightarrow> run_load fails (rs_db s) (rtk_router t) = Inr r \<Longrightarrow>
    router_step s (set_router i (t\<lparr>rtk_router := r, rtk_phase := RouterServing\<rparr>) s)"
| router_ends: "rs_routers s i = Some t \<Longrightarrow> router_step s (set_router i (t\<lparr>rtk_phase := RouterEnded\<rparr>) s)"
| router_takes: "rs_routers s i = Some t \<Longrightarrow> rtk_phase t = RouterServing \<Longrightarrow> rtk_queue t = c # queue \<Longrightarrow>
    router_step s (set_router i (t\<lparr>rtk_router := run_cmd (rtk_router t) c, rtk_queue := queue\<rparr>) s)"
| router_stops: "router_step s (s\<lparr>rs_routers := (rs_routers s)(i := None)\<rparr>)"
| alias_added: "http_router_add_alias f g i alias socket s = (res, s') \<Longrightarrow> router_step s s'"
| alias_removed: "http_router_rm_alias f i alias s = (res, s') \<Longrightarrow> router_step s s'"
| key_added: "http_router_add_key f key s = (res, s') \<Longrightarrow> router_step s s'"
| key_removed: "http_router_rm_key f key s = (res, s') \<Longrightarrow> router_step s s'"

inductive router_reachable :: "router_system \<Rightarrow> bool" where
  router_init: "router_reachable \<lparr>rs_db = storage_new, rs_routers = Map.empty\<rparr>"
| router_next: "router_reachable s \<Longrightarrow> router_step s s' \<Longrightarrow> router_reachable s'"

section \<open>Tables\<close>

text \<open>A table is in the order of its keys, without a key twice.\<close>

definition table_ok :: "('k::linorder, 'v) table \<Rightarrow> bool" where
  "table_ok t \<longleftrightarrow> sorted_wrt (<) (map fst t)"

lemma table_insert_keys: "set (map fst (table_insert k v t)) = insert k (set (map fst t))"
  by (induction t rule: table_insert.induct) auto

lemma table_insert_ok: "table_ok t \<Longrightarrow> table_ok (table_insert k v t)"
proof (induction k v t rule: table_insert.induct)
  case (2 k v k' v' t)
  then show ?case
    using table_insert_keys [of k v t] by (auto simp: table_ok_def simp flip: image_set)
qed (simp add: table_ok_def)

lemma table_insert_get: "table_ok t \<Longrightarrow> map_of (table_insert k v t) = (map_of t)(k \<mapsto> v)"
proof (induction k v t rule: table_insert.induct)
  case (2 k v k' v' t)
  have "map_of t k' = None" using "2.prems" by (force simp: table_ok_def map_of_eq_None_iff)
  then show ?case using 2 by (auto simp: table_ok_def fun_eq_iff)
qed (simp add: fun_eq_iff)

lemma table_remove_ok: "table_ok t \<Longrightarrow> table_ok (table_remove k t)"
  by (simp add: table_ok_def table_remove_def sorted_wrt_map sorted_wrt_filter)

lemma table_remove_get: "map_of (table_remove k t) = (map_of t)(k := None)"
  by (induction t) (auto simp: table_remove_def fun_eq_iff)

lemma table_range_get: "map_of (table_range a b t) k = (if a \<le> k \<and> k \<le> b then map_of t k else None)"
  by (induction t) (auto simp: table_range_def)

text \<open>What the rest of the program relies on: the laws of a map from keys to values.\<close>

locale key_value_store =
  fixes get :: "'t \<Rightarrow> 'k \<Rightarrow> 'v option" and put :: "'k \<Rightarrow> 'v \<Rightarrow> 't \<Rightarrow> 't" and del :: "'k \<Rightarrow> 't \<Rightarrow> 't"
    and inv :: "'t \<Rightarrow> bool"
  assumes get_put: "inv t \<Longrightarrow> get (put k v t) k' = (if k' = k then Some v else get t k')"
    and get_del: "inv t \<Longrightarrow> get (del k t) k' = (if k' = k then None else get t k')"
    and inv_put: "inv t \<Longrightarrow> inv (put k v t)"
    and inv_del: "inv t \<Longrightarrow> inv (del k t)"
begin

text \<open>Writes commute unless they are to the same key, and a write is forgotten by the next one.\<close>

lemma put_put: "inv t \<Longrightarrow> get (put k v' (put k v t)) = get (put k v' t)"
  by (auto simp: get_put inv_put fun_eq_iff)

lemma del_put: "inv t \<Longrightarrow> get (del k (put k v t)) = get (del k t)"
  by (auto simp: get_put get_del inv_put fun_eq_iff)

end

interpretation tables: key_value_store map_of table_insert table_remove table_ok
  by unfold_locales (simp_all add: table_insert_get table_remove_get table_insert_ok table_remove_ok)

section \<open>What a router serves\<close>

text \<open>The socket that the running task of an alias reads.\<close>

definition alias_socket :: "http_router \<Rightarrow> rstring \<rightharpoonup> rstring" where
  "alias_socket r alias = Option.bind (hr_handles r alias) (hr_tasks r)"

text \<open>One running task and one channel for each alias, and no task without an alias.\<close>

definition router_wf :: "http_router \<Rightarrow> bool" where
  "router_wf r \<longleftrightarrow> hr_aliases_tx r = hr_handles r \<and> inj_on (hr_handles r) (dom (hr_handles r))
     \<and> ran (hr_handles r) = dom (hr_tasks r) \<and> (\<forall>h \<in> dom (hr_tasks r). h < hr_next r)"

lemma http_router_new_wf: "router_wf (http_router_new config)" "alias_socket (http_router_new config) = Map.empty"
  by (simp_all add: router_wf_def alias_socket_def http_router_new_def fun_eq_iff)

lemma ran_remove:
  "inj_on m (dom m) \<Longrightarrow> m a = Some h \<Longrightarrow> ran (m(a := None)) = ran m - {h}"
  by (auto simp: ran_def inj_on_def dom_def split: if_splits) (metis option.inject)

lemma remove_alias_wf:
  assumes "router_wf r"
  shows "router_wf (remove_alias alias r)" "alias_socket (remove_alias alias r) = (alias_socket r)(alias := None)"
    "hr_handles (remove_alias alias r) alias = None" "hr_id (remove_alias alias r) = hr_id r"
proof -
  have *: "hr_handles (remove_alias alias r) alias = None \<and> hr_id (remove_alias alias r) = hr_id r
      \<and> router_wf (remove_alias alias r) \<and> alias_socket (remove_alias alias r) = (alias_socket r)(alias := None)"
  proof (cases "hr_handles r alias")
    case None
    then have "remove_alias alias r = r"
      using assms by (simp add: remove_alias_def router_wf_def fun_upd_idem)
    then show ?thesis using None assms by (auto simp: alias_socket_def fun_eq_iff)
  next
    case (Some h)
    have other: "hr_handles r a \<noteq> Some h" if "a \<noteq> alias" for a
      using assms Some that by (auto simp: router_wf_def inj_on_def dom_def)
    have inj: "inj_on ((hr_handles r)(alias := None)) (dom (hr_handles r) - {alias})"
      using assms by (auto simp: router_wf_def inj_on_def)
    show ?thesis
      using assms Some other inj ran_remove [of "hr_handles r" "alias" h]
      by (auto simp: remove_alias_def router_wf_def alias_socket_def fun_eq_iff split: Option.bind_splits)
  qed
  then show "router_wf (remove_alias alias r)" "alias_socket (remove_alias alias r) = (alias_socket r)(alias := None)"
    "hr_handles (remove_alias alias r) alias = None" "hr_id (remove_alias alias r) = hr_id r"
    by auto
qed

lemma add_alias_wf:
  assumes "router_wf r"
  shows "router_wf (add_alias alias url r) \<and> alias_socket (add_alias alias url r) = (alias_socket r)(alias \<mapsto> url)
    \<and> hr_id (add_alias alias url r) = hr_id r"
proof -
  define q where "q = remove_alias alias r"
  note q = remove_alias_wf [OF assms, of "alias", folded q_def]
  have fresh: "hr_next q \<notin> dom (hr_tasks q)" "hr_next q \<notin> ran (hr_handles q)"
    using q(1) by (auto simp: router_wf_def)
  then have old: "hr_handles q a \<noteq> Some (hr_next q)" for a by (auto simp: ran_def)
  have "router_wf (add_alias alias url r)"
    using q(1,3) fresh old
    by (auto simp: add_alias_def q_def [symmetric] Let_def router_wf_def inj_on_def ran_map_upd less_Suc_eq)
  moreover have "alias_socket (add_alias alias url r) = (alias_socket q)(alias \<mapsto> url)"
    using old by (auto simp: add_alias_def q_def [symmetric] Let_def alias_socket_def fun_eq_iff split: Option.bind_splits)
  ultimately show ?thesis using q(2,4) by (auto simp: add_alias_def q_def [symmetric] Let_def)
qed

text \<open>The effect of a command on what is served.\<close>

fun cmd_effect :: "(rstring \<rightharpoonup> rstring) \<Rightarrow> http_router_cmd \<Rightarrow> (rstring \<rightharpoonup> rstring)" where
  "cmd_effect m (CmdAddAlias alias url) = m(alias \<mapsto> url)"
| "cmd_effect m (CmdRemoveAlias alias) = m(alias := None)"
| "cmd_effect m _ = m"

lemma run_cmd_wf:
  assumes "router_wf r"
  shows "router_wf (run_cmd r c) \<and> alias_socket (run_cmd r c) = cmd_effect (alias_socket r) c \<and> hr_id (run_cmd r c) = hr_id r"
  using assms add_alias_wf [OF assms] remove_alias_wf [OF assms] by (cases c) auto

lemma cmd_effect_pointwise: "m a = m' a \<Longrightarrow> foldl cmd_effect m cs a = foldl cmd_effect m' cs a"
proof (induction cs arbitrary: m m')
  case (Cons c cs)
  then have "cmd_effect m c a = cmd_effect m' c a" by (cases c) auto
  with Cons.IH [of "cmd_effect m c" "cmd_effect m' c"] show ?case by simp
qed simp

section \<open>The start of a router\<close>

lemma add_aliases_wf:
  "router_wf r \<Longrightarrow> router_wf (foldl (\<lambda>r (alias, socket). add_alias alias socket r) r es)
    \<and> alias_socket (foldl (\<lambda>r (alias, socket). add_alias alias socket r) r es) = alias_socket r ++ map_of (rev es)
    \<and> hr_id (foldl (\<lambda>r (alias, socket). add_alias alias socket r) r es) = hr_id r"
proof (induction es arbitrary: r)
  case (Cons e es)
  obtain a b where e: "e = (a, b)" by (cases e)
  have assoc: "(alias_socket r)(a \<mapsto> b) ++ map_of (rev es) = alias_socket r ++ map_of (rev (e # es))"
    by (auto simp: e map_add_def fun_eq_iff split: option.splits)
  note added = add_alias_wf [OF Cons.prems, of a b]
  show ?case using Cons.IH [of "add_alias a b r"] added unfolding assoc [symmetric] by (simp add: e fun_upd_def)
qed simp

lemma map_of_second:
  "list_all (\<lambda>((j, a), v). j = i) t \<Longrightarrow> map_of (map (\<lambda>((j, a), v). (a, v)) t) a = map_of t (i, a)"
  by (induction t) auto

lemma table_range_aliases:
  fixes i :: u32
  assumes "table_ok t"
  defines "es \<equiv> map (\<lambda>((j, a), v). (a, v)) (table_range (i, []) (i, LAST_ALIAS) t)"
  shows "map_of (rev es) alias = (if alias \<le> LAST_ALIAS then map_of t (i, alias) else None)"
proof -
  let ?t = "table_range (i, []) (i, LAST_ALIAS) t"
  have same: "list_all (\<lambda>((j, a), v). j = i) ?t"
    by (auto simp: table_range_def list_all_iff less_eq_prod_def)
  have "table_ok ?t" using assms(1) by (simp add: table_ok_def table_range_def sorted_wrt_map sorted_wrt_filter)
  then have "distinct (map fst ?t)" by (simp add: table_ok_def strict_sorted_iff)
  moreover have "\<forall>k\<in>set (map fst ?t). fst k = i" using same by (auto simp: list_all_iff)
  then have "inj_on snd (set (map fst ?t))" by (intro inj_onI) (metis prod_eqI)
  ultimately have "distinct (map snd (map fst ?t))" by (simp add: distinct_map [of snd] del: map_map)
  then have "distinct (map fst es)" by (simp add: es_def comp_def split_beta)
  then have "map_of (rev es) = map_of es" by (subst map_of_inject_set) (simp_all add: rev_map [symmetric])
  then show ?thesis
    using map_of_second [OF same, of "alias"] by (simp add: es_def table_range_get less_eq_prod_def)
qed

lemma run_load_wf:
  assumes "run_load fails db r = Inr r'" "router_wf r" "alias_socket r = Map.empty" "table_ok (db_aliases db)"
  shows "router_wf r' \<and> hr_id r' = hr_id r
    \<and> (\<forall>a. alias_socket r' a = (if a \<le> LAST_ALIAS then map_of (db_aliases db) (hr_id r, a) else None))"
proof -
  let ?es = "map (\<lambda>((i, alias), socket). (alias, socket)) (table_range (hr_id r, []) (hr_id r, LAST_ALIAS) (db_aliases db))"
  have "r' = foldl (\<lambda>r (alias, socket). add_alias alias socket r) r ?es"
    using assms(1) by (auto simp: run_load_def aliases_def split: if_splits)
  then show ?thesis
    using add_aliases_wf [OF assms(2), of ?es] table_range_aliases [OF assms(4), of "hr_id r"] assms(3) by simp
qed

section \<open>Routers follow the database\<close>

definition db_view :: "storage \<Rightarrow> u32 \<Rightarrow> rstring \<rightharpoonup> rstring" where
  "db_view db i alias = map_of (db_aliases db) (i, alias)"

text \<open>
  A router that serves will, once it has taken the waiting commands, serve what the database says; for one
  that has not loaded yet the waiting commands change nothing of it.
\<close>

definition task_ok :: "storage \<Rightarrow> u32 \<Rightarrow> router_task \<Rightarrow> bool" where
  "task_ok db i t \<longleftrightarrow> router_wf (rtk_router t) \<and> hr_id (rtk_router t) = i \<and> (case rtk_phase t of
       RouterStarting \<Rightarrow> alias_socket (rtk_router t) = Map.empty \<and> foldl cmd_effect (db_view db i) (rtk_queue t) = db_view db i
     | RouterServing \<Rightarrow> (\<forall>a. a \<le> LAST_ALIAS \<longrightarrow>
         foldl cmd_effect (alias_socket (rtk_router t)) (rtk_queue t) a = db_view db i a)
     | RouterEnded \<Rightarrow> True)"

definition system_ok :: "router_system \<Rightarrow> bool" where
  "system_ok s \<longleftrightarrow> table_ok (db_aliases (rs_db s)) \<and> table_ok (db_keys (rs_db s))
     \<and> (\<forall>i t. rs_routers s i = Some t \<longrightarrow> task_ok (rs_db s) i t)"

lemma task_ok_db: "db_view db' i = db_view db i \<Longrightarrow> task_ok db' i t = task_ok db i t"
  by (simp add: task_ok_def split: router_phase.splits)

text \<open>A change of one alias that reaches the database and the channel.\<close>

lemma task_ok_send:
  assumes "task_ok db i t" "rtk_phase t \<noteq> RouterEnded"
    and "\<And>m. cmd_effect m c = m(a := v)" "db_view db' i = (db_view db i)(a := v)"
  shows "task_ok db' i (t\<lparr>rtk_queue := rtk_queue t @ [c]\<rparr>)"
proof (cases "rtk_phase t")
  case RouterStarting
  have view: "foldl cmd_effect (db_view db i) (rtk_queue t) = db_view db i"
    using assms(1) RouterStarting by (simp add: task_ok_def)
  have others: "foldl cmd_effect (db_view db' i) (rtk_queue t) b = db_view db i b" if "b \<noteq> a" for b
    using cmd_effect_pointwise [of "db_view db' i" b "db_view db i"] view assms(4) that by simp
  have "foldl cmd_effect (db_view db' i) (rtk_queue t @ [c]) b = db_view db' i b" for b
    by (cases "b = a") (simp_all add: assms(3) others, simp_all add: assms(4))
  then have "foldl cmd_effect (db_view db' i) (rtk_queue t @ [c]) = db_view db' i" ..
  then show ?thesis using assms(1) RouterStarting by (simp add: task_ok_def)
qed (use assms in \<open>auto simp: task_ok_def\<close>)

lemma db_view_set: "table_ok (db_aliases db) \<Longrightarrow> db_view (db\<lparr>db_aliases := table_insert (i, a) v (db_aliases db)\<rparr>) j
    = (if j = i then (db_view db i)(a \<mapsto> v) else db_view db j)"
  by (auto simp: db_view_def fun_eq_iff tables.get_put)

lemma db_view_remove: "table_ok (db_aliases db) \<Longrightarrow> db_view (db\<lparr>db_aliases := table_remove (i, a) (db_aliases db)\<rparr>) j
    = (if j = i then (db_view db i)(a := None) else db_view db j)"
  by (auto simp: db_view_def fun_eq_iff tables.get_del)

lemma system_ok_send:
  assumes "system_ok s" "table_ok (db_aliases db')" "db_keys db' = db_keys (rs_db s)"
    and "\<And>m. cmd_effect m c = m(a := v)"
    and "\<And>j. db_view db' j = (if j = i then (db_view (rs_db s) i)(a := v) else db_view (rs_db s) j)"
    and "send_router i c (s\<lparr>rs_db := db'\<rparr>) = (res, s')"
  shows "system_ok s'"
proof -
  have other: "task_ok db' j t" if "rs_routers s j = Some t" "j \<noteq> i" for j t
    using assms(1,5) that task_ok_db [of db' j "rs_db s" t] by (simp add: system_ok_def)
  have ended: "task_ok db' i t" if "rs_routers s i = Some t" "rtk_phase t = RouterEnded" for t
    using assms(1) that by (auto simp: system_ok_def task_ok_def)
  have sent: "task_ok db' i (t\<lparr>rtk_queue := rtk_queue t @ [c]\<rparr>)"
    if "rs_routers s i = Some t" "rtk_phase t \<noteq> RouterEnded" for t
    using assms(1,4,5) that by (intro task_ok_send [of "rs_db s" i t c a v]) (auto simp: system_ok_def)
  have stay: "task_ok db' j t" if "rs_routers s j = Some t" "j = i \<Longrightarrow> rtk_phase t = RouterEnded" for j t
    using other ended that by blast
  have "(\<forall>j t. rs_routers s' j = Some t \<longrightarrow> task_ok db' j t) \<and> rs_db s' = db'"
  proof (cases "\<exists>t. rs_routers s i = Some t \<and> rtk_phase t \<noteq> RouterEnded")
    case True
    then obtain t where t: "rs_routers s i = Some t" "rtk_phase t \<noteq> RouterEnded" by blast
    then have "s' = set_router i (t\<lparr>rtk_queue := rtk_queue t @ [c]\<rparr>) (s\<lparr>rs_db := db'\<rparr>)"
      using assms(6) by (simp add: send_router_def)
    then show ?thesis using sent [OF t] other by auto
  next
    case False
    then have "s' = s\<lparr>rs_db := db'\<rparr>" using assms(6) by (auto simp: send_router_def split: option.splits if_splits)
    then show ?thesis using stay False by auto
  qed
  then show ?thesis using assms(1-3) by (simp add: system_ok_def)
qed

lemma system_ok_set_router:
  "system_ok s \<Longrightarrow> task_ok (rs_db s) i t \<Longrightarrow> system_ok (set_router i t s)"
  by (simp add: system_ok_def)

lemma system_ok_keys:
  "system_ok s \<Longrightarrow> table_ok ks \<Longrightarrow> system_ok (s\<lparr>rs_db := rs_db s\<lparr>db_keys := ks\<rparr>\<rparr>)"
  using task_ok_db [of "rs_db s\<lparr>db_keys := ks\<rparr>" _ "rs_db s"] by (auto simp: system_ok_def db_view_def fun_eq_iff)

lemma add_alias_ok:
  assumes "system_ok s" "http_router_add_alias f g i a socket s = (res, s')"
  shows "system_ok s'"
proof (cases "rs_routers s i = None \<or> get_alias f i a (rs_db s) = Inr (Some socket) \<or> g")
  case True
  then have "s' = s" using assms(2) by (auto simp: http_router_add_alias_def set_alias_def split: if_splits)
  then show ?thesis using assms(1) by simp
next
  case False
  let ?db = "rs_db s\<lparr>db_aliases := table_insert (i, a) socket (db_aliases (rs_db s))\<rparr>"
  have "send_router i (CmdAddAlias a socket) (s\<lparr>rs_db := ?db\<rparr>) = (res, s')"
    using False assms(2) by (auto simp: http_router_add_alias_def set_alias_def)
  moreover have "table_ok (db_aliases (rs_db s))" using assms(1) by (simp add: system_ok_def)
  ultimately show ?thesis
    using db_view_set [of "rs_db s" i a socket] assms(1)
    by (intro system_ok_send [of s ?db "CmdAddAlias a socket" a "Some socket" i res s']) (simp_all add: tables.inv_put)
qed

lemma rm_alias_ok:
  assumes "system_ok s" "http_router_rm_alias f i a s = (res, s')"
  shows "system_ok s'"
proof (cases f)
  case True
  then have "s' = s" using assms(2) by (auto simp: http_router_rm_alias_def db_remove_alias_def)
  then show ?thesis using assms(1) by simp
next
  case False
  let ?db = "rs_db s\<lparr>db_aliases := table_remove (i, a) (db_aliases (rs_db s))\<rparr>"
  have "send_router i (CmdRemoveAlias a) (s\<lparr>rs_db := ?db\<rparr>) = (res, s')"
    using False assms(2) by (simp add: http_router_rm_alias_def db_remove_alias_def)
  moreover have "table_ok (db_aliases (rs_db s))" using assms(1) by (simp add: system_ok_def)
  ultimately show ?thesis
    using db_view_remove [of "rs_db s" i a] assms(1)
    by (intro system_ok_send [of s ?db "CmdRemoveAlias a" a None i res s']) (simp_all add: tables.inv_del)
qed

lemma keys_ok:
  assumes "system_ok s"
  shows "http_router_add_key f key s = (res, s') \<Longrightarrow> system_ok s'" "http_router_rm_key f key s = (res, s') \<Longrightarrow> system_ok s'"
proof -
  have ok: "table_ok (db_keys (rs_db s))" using assms by (simp add: system_ok_def)
  show "system_ok s'" if "http_router_add_key f key s = (res, s')"
    using that assms system_ok_keys [OF assms tables.inv_put [OF ok], of key True]
    by (auto simp: http_router_add_key_def add_key_def split: if_splits)
  show "system_ok s'" if "http_router_rm_key f key s = (res, s')"
    using that assms system_ok_keys [OF assms tables.inv_del [OF ok], of key]
    by (auto simp: http_router_rm_key_def remove_key_def split: if_splits)
qed

lemma router_step_ok: "router_step s s' \<Longrightarrow> system_ok s \<Longrightarrow> system_ok s'"
proof (induction rule: router_step.induct)
  case (router_starts s config)
  then show ?case
    using http_router_new_wf [of config]
    by (intro system_ok_set_router) (auto simp: task_ok_def http_router_new_def)
next
  case (router_loads s i t fails r)
  have "task_ok (rs_db s) i t" "table_ok (db_aliases (rs_db s))" using router_loads by (auto simp: system_ok_def)
  then have t: "router_wf (rtk_router t)" "alias_socket (rtk_router t) = Map.empty" "hr_id (rtk_router t) = i"
      "foldl cmd_effect (db_view (rs_db s) i) (rtk_queue t) = db_view (rs_db s) i"
    using router_loads(2) by (auto simp: task_ok_def)
  note r = run_load_wf [OF router_loads(3) t(1,2) \<open>table_ok (db_aliases (rs_db s))\<close>]
  have "foldl cmd_effect (alias_socket r) (rtk_queue t) a = db_view (rs_db s) i a" if "a \<le> LAST_ALIAS" for a
    using cmd_effect_pointwise [of "alias_socket r" a "db_view (rs_db s) i"] r t(3,4) that by (simp add: db_view_def)
  then show ?case
    using router_loads r t(3) by (intro system_ok_set_router) (auto simp: task_ok_def)
next
  case (router_ends s i t)
  then show ?case by (intro system_ok_set_router) (auto simp: system_ok_def task_ok_def)
next
  case (router_takes s i t c queue)
  then have "task_ok (rs_db s) i t" by (simp add: system_ok_def)
  then show ?case
    using router_takes run_cmd_wf [of "rtk_router t" c] by (intro system_ok_set_router) (auto simp: task_ok_def)
next
  case (router_stops s i)
  then show ?case by (simp add: system_ok_def)
qed (auto intro: add_alias_ok rm_alias_ok keys_ok)

lemma router_reachable_ok: "router_reachable s \<Longrightarrow> system_ok s"
proof (induction rule: router_reachable.induct)
  case router_init
  show ?case by (simp add: system_ok_def storage_new_def table_ok_def)
qed (rule router_step_ok)


definition ex_router :: http_router_config where
  "ex_router = \<lparr>hrc_id = 1, hrc_url = [], hrc_routes = [], hrc_allow = []\<rparr>"

text \<open>A router that got an alias before it loaded.\<close>

definition ex_system :: router_system where
  "ex_system =
    (let s0 = \<lparr>rs_db = storage_new, rs_routers = Map.empty\<rparr>;
         s1 = set_router 1 \<lparr>rtk_router = http_router_new ex_router, rtk_phase = RouterStarting, rtk_queue = []\<rparr> s0;
         s2 = snd (http_router_add_alias False False 1 [0x61] [0x73] s1)
     in s2)"

definition ex_serving :: router_task where
  "ex_serving = \<lparr>rtk_router = add_alias [0x61] [0x73] (http_router_new ex_router), rtk_phase = RouterServing,
     rtk_queue = [CmdAddAlias [0x61] [0x73]]\<rparr>"


section \<open>Access\<close>

lemma stream_body_cut:
  "stream_body es = concat (map (\<lambda>e. case e of StreamItem (Some bs) key \<Rightarrow> [bs] | _ \<Rightarrow> [])
     (takeWhile (\<lambda>e. case e of StreamItem item key \<Rightarrow> key = Inr True | StreamCancelled \<Rightarrow> False) es))"
  by (induction es rule: stream_body.induct) (auto split: option.splits)

text \<open>
  C24. Access to a stream: a request gets one exactly when it comes over IPv4 from an allowed network, a route
  matches, its key is in the database and its alias has a channel; and the body carries the data of the
  channel in order up to the first moment at which the key is not in the database any more, or cannot be
  looked up, or the router is cancelled.
\<close>

theorem router_access:
  assumes "is_forbidden parse_ip parse_net contains ip (hr_allowed_nets r) = Some forbidden"
  shows "(router_serve parse_ip parse_net contains fails db r is_ipv4 ip uri path = Some (Streaming tx)
      \<longleftrightarrow> is_ipv4 \<and> \<not> forbidden \<and> \<not> fails \<and> path \<noteq> None
        \<and> map_of (db_keys db) (fst (the path)) \<noteq> None \<and> hr_aliases_tx r (snd (the path)) = Some tx)
    \<and> router_serve parse_ip parse_net contains fails db r is_ipv4 ip uri path \<noteq> None
    \<and> stream_body es = concat (map (\<lambda>e. case e of StreamItem (Some bs) key \<Rightarrow> [bs] | _ \<Rightarrow> [])
        (takeWhile (\<lambda>e. case e of StreamItem item key \<Rightarrow> key = Inr True | StreamCancelled \<Rightarrow> False) es))"
proof (intro conjI stream_body_cut)
  show "router_serve parse_ip parse_net contains fails db r is_ipv4 ip uri path = Some (Streaming tx)
      \<longleftrightarrow> is_ipv4 \<and> \<not> forbidden \<and> \<not> fails \<and> path \<noteq> None
        \<and> map_of (db_keys db) (fst (the path)) \<noteq> None \<and> hr_aliases_tx r (snd (the path)) = Some tx"
    using assms
    by (cases path; cases "map_of (db_keys db) (fst (the path))")
       (auto simp: router_serve_def router_get_def has_key_def split: option.splits if_splits)
  show "router_serve parse_ip parse_net contains fails db r is_ipv4 ip uri path \<noteq> None"
    using assms by (cases path) (auto simp: router_serve_def)
qed

definition ex_keys :: storage where
  "ex_keys = \<lparr>db_aliases = [], db_keys = [([0x6B], True)]\<rparr>"

theorem router_access_witness:
  "router_serve (\<lambda>_. Some ()) (\<lambda>_. Some ()) (\<lambda>_ _. True) False ex_keys
      (add_alias [0x61] [0x73] (http_router_new ex_router)) True [] [] (Some ([0x6B], [0x61])) = Some (Streaming 0)"
proof -
  let ?r = "add_alias [0x61] [0x73] (http_router_new ex_router)"
  have r: "hr_allowed_nets ?r = []" "hr_aliases_tx ?r [0x61] = Some 0" "map_of (db_keys ex_keys) [0x6B] = Some True"
    by (simp_all add: http_router_new_def ex_router_def add_alias_def remove_alias_def ex_keys_def)
  have "is_forbidden (\<lambda>_. Some ()) (\<lambda>_. Some ()) (\<lambda>_ _. True) [] (hr_allowed_nets ?r) = Some False"
    by (simp add: is_forbidden_def r(1))
  from router_access [OF this, of False ex_keys True "[]" "Some ([0x6B], [0x61])" 0 "[]"] show ?thesis
    using r(2,3) by simp
qed

section \<open>Two changes at once\<close>

text \<open>
  The database is written before the command is sent, without a lock around both: of two changes of the
  same alias the last in the database may be the first in the channel, and then the router keeps reading
  the socket that the database no longer holds.
\<close>

lemma alias_race:
  fixes i :: u32 and name :: rstring
  assumes "table_ok (db_aliases db)" "old \<noteq> new"
  defines "db2 \<equiv> snd (set_alias False i name new (snd (set_alias False i name old db)))"
    and "queue \<equiv> [CmdAddAlias name new, CmdAddAlias name old]"
  shows "map_of (db_aliases db2) (i, name) = Some new"
    and "router_wf r \<Longrightarrow> alias_socket (foldl run_cmd r queue) name = Some old"
proof -
  show "map_of (db_aliases db2) (i, name) = Some new"
    using assms(1) by (simp add: db2_def set_alias_def tables.get_put tables.inv_put)
  show "alias_socket (foldl run_cmd r queue) name = Some old" if "router_wf r"
    using that by (simp add: queue_def add_alias_wf)
qed

text \<open>A name that goes on after the last character is served until the router is started again.\<close>

lemma long_alias_lost:
  assumes "table_ok (db_aliases db)" "run_load False db (http_router_new config) = Inr r"
  shows "alias_socket r (LAST_ALIAS @ [0x61]) = None"
  using run_load_wf [OF assms(2) http_router_new_wf assms(1)] by (simp add: LAST_ALIAS_def)

end
