(* ===== verification/Hls.thy ===== *)
theory Hls
  imports Worker_Status Rust_Float "HOL-Library.Sublist"
begin

text \<open>
  \<open>hls_client.rs\<close>: a client of segmented streams. One task reads the playlist again and again and fetches
  the segments it has not fetched before; another takes the fetched segments and sends them in pieces of
  1316 bytes, spread over the duration of the segment. The hash function, the parser of playlists and the
  resolution of addresses are parameters; what the network answers and when the client is cancelled is an
  input. Durations are the exact values of the floats.
\<close>

definition MAX_SEGMENTS_COUNT :: usize where "MAX_SEGMENTS_COUNT = 50"
definition MAX_ERROR_COUNT :: usize where "MAX_ERROR_COUNT = 3"

section \<open>The memory of segments\<close>

record chunk_queue =
  cq_queue :: "u64 list"
  cq_capacity :: usize

definition chunk_queue_new :: "usize \<Rightarrow> chunk_queue" where
  "chunk_queue_new capacity = \<lparr>cq_queue = [], cq_capacity = capacity\<rparr>"

definition cq_push :: "(rstring \<Rightarrow> u64) \<Rightarrow> rstring \<Rightarrow> chunk_queue \<Rightarrow> chunk_queue" where
  "cq_push hash item q =
    (let q = (if length (cq_queue q) \<ge> cq_capacity q then q\<lparr>cq_queue := butlast (cq_queue q)\<rparr> else q)
     in q\<lparr>cq_queue := hash item # cq_queue q\<rparr>)"

definition cq_contains :: "(rstring \<Rightarrow> u64) \<Rightarrow> rstring \<Rightarrow> chunk_queue \<Rightarrow> bool" where
  "cq_contains hash item q \<longleftrightarrow> list_ex (\<lambda>x. x = hash item) (cq_queue q)"

section \<open>Sending a segment\<close>

text \<open>
  The time between two pieces; a timer of zero is a panic. With the capacity of the channel left out, each
  tick sends a piece.
\<close>

definition piece_time_ns :: "rat \<Rightarrow> usize \<Rightarrow> u64" where
  "piece_time_ns duration len =
    f64_to_u64 (fl 53 (fl 53 (fl 53 (1000000000 * duration) * 1316) / fl 53 (of_nat len)))"

datatype pace_event = PaceCancelled | PaceClosed | PaceTick

fun pace_segment :: "bytes \<Rightarrow> pace_event list \<Rightarrow> bytes list \<times> pace_event list" where
  "pace_segment chunk [] = ([], [])"
| "pace_segment chunk (PaceCancelled # es) = ([], es)"
| "pace_segment chunk (PaceClosed # es) = ([], es)"
| "pace_segment chunk (PaceTick # es) =
    (if chunk = [] then ([], es)
     else let n = min (length chunk) 1316;
              (pieces, es) = pace_segment (drop n chunk) es
          in (take n chunk # pieces, es))"

definition send_segment :: "rat \<times> bytes \<Rightarrow> pace_event list \<Rightarrow> (bytes list \<times> pace_event list) option" where
  "send_segment = (\<lambda>(duration, chunk) es.
     if piece_time_ns duration (length chunk) = 0 then None else Some (pace_segment chunk es))"

section \<open>Choosing the playlist\<close>

record variant =
  va_bandwidth :: u64
  va_uri :: rstring

datatype playlist = MasterPlaylist "variant list" | MediaPlaylist "(rstring \<times> rat) list" rat

text \<open>\<open>max_by_key\<close> returns the last of the greatest.\<close>

fun best_variant :: "variant list \<Rightarrow> variant option" where
  "best_variant [] = None"
| "best_variant (v # vs) = (case best_variant vs of
     None \<Rightarrow> Some v | Some w \<Rightarrow> Some (if va_bandwidth w \<ge> va_bandwidth v then w else v))"

definition media_playlist_url :: "('url \<Rightarrow> rstring \<Rightarrow> 'url option) \<Rightarrow> 'url \<Rightarrow> playlist option \<Rightarrow> 'url option" where
  "media_playlist_url join master_url playlist = (case playlist of
     Some (MasterPlaylist variants) \<Rightarrow> (case best_variant variants of
         None \<Rightarrow> None | Some v \<Rightarrow> join master_url (va_uri v))
   | Some (MediaPlaylist _ _) \<Rightarrow> Some master_url
   | None \<Rightarrow> None)"

section \<open>Fetching\<close>

record hls =
  h_downloaded :: chunk_queue
  h_chunks :: "(rat \<times> bytes) list"
  h_is_first_fetch :: bool
  h_error_count :: usize
  h_error_segment_count :: usize
  h_requests :: "rstring list"

text \<open>\<open>h_requests\<close> is not in the code: it keeps the segments that were requested, newest first.\<close>

definition hls_new :: hls where
  "hls_new = \<lparr>h_downloaded = chunk_queue_new MAX_SEGMENTS_COUNT, h_chunks = [], h_is_first_fetch = True, h_error_count = 0,
     h_error_segment_count = 0, h_requests = []\<rparr>"

text \<open>What a request can meet. The flags say whether the client was cancelled during the pause.\<close>

datatype body_event = BodyBytes bytes | BodyCancelled | BodyEnd

datatype seg_input =
    SegCancelled
  | SegFailed bool
  | SegResponse usize "body_event list" bool

datatype loop_end = Return | Again | Through bool

text \<open>
  A failed request: the client returns only when it was cancelled during the pause and there have been
  more errors than the limit.
\<close>

definition failed :: "bool \<Rightarrow> hls \<Rightarrow> hls \<times> loop_end" where
  "failed cancelled h = (if cancelled \<and> h_error_count h > MAX_ERROR_COUNT then (h, Return)
     else (h\<lparr>h_error_count := h_error_count h + 1\<rparr>, Again))"

fun read_body :: "usize \<Rightarrow> bytes \<Rightarrow> body_event list \<Rightarrow> bytes option" where
  "read_body content_length chunk_data (BodyBytes bs # es) =
    (let chunk_data = chunk_data @ bs
     in if length chunk_data \<ge> content_length then Some chunk_data else read_body content_length chunk_data es)"
| "read_body content_length chunk_data _ = None"

definition skip_old :: "(rstring \<Rightarrow> u64) \<Rightarrow> (rstring \<times> rat) list \<Rightarrow> hls \<Rightarrow> (rstring \<times> rat) list \<times> hls" where
  "skip_old hash segments h =
    (if h_is_first_fetch h then
       let n = (if length segments > 3 then length segments - 3 else 0)
       in (drop n segments, h\<lparr>h_downloaded := foldl (\<lambda>q (uri, d). cq_push hash uri q) (h_downloaded h) (take n segments),
             h_is_first_fetch := False\<rparr>)
     else (segments, h))"

text \<open>
  The loop over the segments; the inputs are those of the requests in turn, and without one the client
  waits. The last flag of a response is the cancellation during the pause after it.
\<close>

fun fetch_segments :: "(rstring \<Rightarrow> u64) \<Rightarrow> (rstring \<Rightarrow> bool) \<Rightarrow> bool \<Rightarrow> (rstring \<times> rat) list \<Rightarrow> seg_input list \<Rightarrow> hls
    \<Rightarrow> (hls \<times> loop_end \<times> seg_input list) option" where
  "fetch_segments hash joins idle [] ins h = Some (h, Through idle, ins)"
| "fetch_segments hash joins idle ((uri, duration) # segments) ins h =
    (if cq_contains hash uri (h_downloaded h) then fetch_segments hash joins idle segments ins h
     else
       let h = h\<lparr>h_downloaded := cq_push hash uri (h_downloaded h)\<rparr>
       in if \<not> joins uri then fetch_segments hash joins idle segments ins h
          else
            let h = h\<lparr>h_requests := uri # h_requests h\<rparr>
            in case ins of
                 [] \<Rightarrow> None
               | SegCancelled # ins \<Rightarrow> Some (h, Return, ins)
               | SegFailed cancelled # ins \<Rightarrow> (case failed cancelled h of (h, e) \<Rightarrow> Some (h, e, ins))
               | SegResponse content_length body cancelled # ins \<Rightarrow>
                   if content_length = 0 then fetch_segments hash joins idle segments ins h
                   else case read_body content_length [] body of
                     None \<Rightarrow> Some (h\<lparr>h_error_segment_count := h_error_segment_count h + 1\<rparr>, Again, ins)
                   | Some chunk_data \<Rightarrow>
                       let h = h\<lparr>h_chunks := h_chunks h @ [(duration, chunk_data)], h_error_segment_count := 0\<rparr>
                       in if cancelled then Some (h, Return, ins)
                          else fetch_segments hash joins False segments ins h)"

text \<open>One turn of the loop over the playlist.\<close>

datatype turn_input =
    TurnCancelled
  | PlaylistFailed bool
  | PlaylistText "playlist option" bool "seg_input list" bool

definition hls_turn :: "(rstring \<Rightarrow> u64) \<Rightarrow> (rstring \<Rightarrow> bool) \<Rightarrow> turn_input \<Rightarrow> hls \<Rightarrow> (hls \<times> loop_end) option" where
  "hls_turn hash joins input h = (case input of
     TurnCancelled \<Rightarrow> Some (h, Return)
   | PlaylistFailed cancelled \<Rightarrow> Some (failed cancelled h)
   | PlaylistText text cancelled ins cancelled_after \<Rightarrow> (case text of
       Some (MediaPlaylist segments target_duration) \<Rightarrow>
         let (segments, h) = skip_old hash segments h
         in do {
           (h, e, rest) \<leftarrow> fetch_segments hash joins True segments ins h;
           Some (case e of
             Through idle \<Rightarrow> (h, if idle \<and> cancelled_after then Return else Again)
           | _ \<Rightarrow> (h, e)) }
     | _ \<Rightarrow> Some (failed cancelled h)))"

text \<open>The pause before the playlist is read again when nothing new was in it.\<close>

definition refresh_interval :: "rat \<Rightarrow> rat" where
  "refresh_interval target_duration = (if target_duration > 0 then fl 24 (target_duration / 2) else 2)"

fun hls_turns :: "(rstring \<Rightarrow> u64) \<Rightarrow> (rstring \<Rightarrow> bool) \<Rightarrow> turn_input list \<Rightarrow> hls \<Rightarrow> (hls \<times> loop_end) option" where
  "hls_turns hash joins [] h = Some (h, Again)"
| "hls_turns hash joins (i # is) h = do {
     (h, e) \<leftarrow> hls_turn hash joins i h;
     if e = Return then Some (h, Return) else hls_turns hash joins is h }"

text \<open>
  The task that sends: what it finds at the front of the queue, and whether it goes on; it owns the sender of
  the channel. \<open>None\<close>: the timer panics.
\<close>

datatype pace_input = Popped "rat \<times> bytes" "pace_event list" | NothingThere bool

fun pace_task :: "pace_input list \<Rightarrow> (bytes list \<times> bool) option" where
  "pace_task [] = Some ([], True)"
| "pace_task (Popped segment es # ins) = do {
     (pieces, rest) \<leftarrow> send_segment segment es;
     (more_pieces, goes_on) \<leftarrow> pace_task ins;
     Some (pieces @ more_pieces, goes_on) }"
| "pace_task (NothingThere cancelled # ins) = (if cancelled then Some ([], False) else pace_task ins)"

section \<open>The memory as a list of indices\<close>

text \<open>The last fifty pushes, newest first.\<close>

definition remembers :: "(rstring \<Rightarrow> u64) \<Rightarrow> (nat \<Rightarrow> rstring) \<Rightarrow> chunk_queue \<Rightarrow> nat list \<Rightarrow> bool" where
  "remembers hash seg q P \<longleftrightarrow> cq_capacity q = 50 \<and> cq_queue q = map (hash \<circ> seg) (take 50 (rev P))"

lemma remembers_new: "remembers hash seg (chunk_queue_new MAX_SEGMENTS_COUNT) []"
  by (simp add: remembers_def chunk_queue_new_def MAX_SEGMENTS_COUNT_def)

lemma remembers_push:
  assumes "remembers hash seg q P"
  shows "remembers hash seg (cq_push hash (seg j) q) (P @ [j])"
proof -
  have "take 50 (j # rev P) = j # take 49 (rev P)" by (simp add: take_Cons')
  moreover have "butlast (take 50 (rev P)) = take 49 (rev P)" if "50 \<le> length P"
    using that by (simp add: butlast_take)
  moreover have "take 50 (rev P) = take 49 (rev P)" if "length P < 50"
    using that by simp
  ultimately show ?thesis
    using assms by (auto simp: remembers_def cq_push_def Let_def min_def map_butlast [symmetric] simp del: butlast_take)
qed

text \<open>
  What holds while the playlist window that begins at \<open>a\<close> is walked: the pushed segments are in order, and
  up to the newest one there is no gap from the begin of an earlier window that is at most fifty long.
\<close>

definition in_order :: "nat \<Rightarrow> nat \<Rightarrow> nat list \<Rightarrow> bool" where
  "in_order N a P \<longleftrightarrow> set P \<subseteq> {..<N} \<and> sorted_wrt (<) P \<and> (P \<noteq> [] \<longrightarrow> (\<exists>a'\<le>a. last P < a' + 50 \<and> {a'..last P} \<subseteq> set P))"

lemma in_order_mono: "in_order N a P \<Longrightarrow> a \<le> b \<Longrightarrow> in_order N b P"
  by (auto simp: in_order_def intro: order_trans)

lemma in_order_push:
  assumes "in_order N a P" "{a..<j} \<subseteq> set P" "a \<le> j" "j < a + 50" "j \<notin> set P" "j < N"
  shows "in_order N a (P @ [j])"
proof -
  have last: "last P < j" if "P \<noteq> []"
  proof -
    obtain a' where "a' \<le> a" "{a'..last P} \<subseteq> set P" using assms(1) \<open>P \<noteq> []\<close> by (auto simp: in_order_def)
    then show ?thesis using assms(3,5) by (metis atLeastAtMost_iff leI order_trans subsetD)
  qed
  have "x < j" if "x \<in> set P" for x
  proof -
    have "x \<le> last P"
      using assms(1) that by (cases P rule: rev_cases) (auto simp: in_order_def sorted_wrt_append)
    then show ?thesis using last that by fastforce
  qed
  then have "sorted_wrt (<) (P @ [j])" using assms(1) by (auto simp: in_order_def sorted_wrt_append)
  moreover have "{a..j} \<subseteq> set (P @ [j])"
  proof
    fix x
    assume "x \<in> {a..j}"
    then show "x \<in> set (P @ [j])" using assms(2) by (cases "x = j") auto
  qed
  moreover have "set (P @ [j]) \<subseteq> {..<N}" using assms(1,6) by (auto simp: in_order_def)
  ultimately show ?thesis using assms(4) unfolding in_order_def by (intro conjI impI exI [of _ a]) simp_all
qed

lemma subseq_sorted: "subseq xs ys \<Longrightarrow> sorted_wrt r ys \<Longrightarrow> sorted_wrt r xs"
proof (induction rule: list_emb.induct)
  case (list_emb_Cons2 x y xs ys)
  then show ?case by (auto elim: list_emb_set)
qed auto

lemma sorted_take_rev:
  assumes "sorted_wrt (<) P" "j \<in> set P" "last P < j + n"
  shows "j \<in> set (take n (rev P))"
proof -
  obtain xs ys where P: "P = xs @ j # ys" using assms(2) by (meson split_list)
  have "distinct ys" "set ys \<subseteq> {j<..last P}"
    using assms(1) by (cases ys rule: rev_cases; auto simp: P sorted_wrt_append strict_sorted_iff)+
  then have "length ys \<le> last P - j"
    by (metis card_greaterThanAtMost card_mono distinct_card finite_greaterThanAtMost)
  moreover have "j \<le> last P"
    using assms(1) by (cases ys rule: rev_cases) (auto simp: P sorted_wrt_append)
  ultimately have "length ys < n" using assms(3) by arith
  then show ?thesis by (simp add: P take_Cons')
qed

lemma contains_iff:
  assumes "remembers hash seg q P" "in_order N a P" "a \<le> j" "inj_on (hash \<circ> seg) {..<N}" "j < N"
  shows "cq_contains hash (seg j) q \<longleftrightarrow> j \<in> set P"
proof -
  have same: "hash (seg x) = hash (seg j) \<longleftrightarrow> x = j" if "x \<in> set (take 50 (rev P))" for x
  proof -
    have "x < N" using in_set_takeD [OF that] assms(2) by (auto simp: in_order_def)
    then show ?thesis using inj_on_eq_iff [OF assms(4), of x j] assms(5) by simp
  qed
  have "cq_contains hash (seg j) q \<longleftrightarrow> j \<in> set (take 50 (rev P))"
  proof -
    have "cq_contains hash (seg j) q \<longleftrightarrow> (\<exists>x\<in>set (take 50 (rev P)). hash (seg x) = hash (seg j))"
      using assms(1) by (auto simp: cq_contains_def remembers_def list_ex_iff intro: rev_image_eqI)
    then show ?thesis using same by blast
  qed
  also have "\<dots> \<longleftrightarrow> j \<in> set P"
  proof
    assume "j \<in> set P"
    moreover from this have "P \<noteq> []" by auto
    ultimately have "last P < j + 50" "sorted_wrt (<) P" using assms(2,3) by (auto simp: in_order_def)
    then show "j \<in> set (take 50 (rev P))" using \<open>j \<in> set P\<close> by (intro sorted_take_rev)
  qed (auto dest: in_set_takeD)
  finally show ?thesis .
qed

section \<open>Walking a window of the playlist\<close>

text \<open>The requested segments are some of the pushed ones, in the same order.\<close>

definition client_ok :: "(rstring \<Rightarrow> u64) \<Rightarrow> (nat \<Rightarrow> rstring) \<Rightarrow> nat \<Rightarrow> nat \<Rightarrow> hls \<Rightarrow> nat list \<Rightarrow> bool" where
  "client_ok hash seg N a h P \<longleftrightarrow> remembers hash seg (h_downloaded h) P \<and> in_order N a P
     \<and> (\<exists>R. subseq R P \<and> h_requests h = map seg (rev R))"

lemma client_ok_push:
  assumes "client_ok hash seg N a h P" "{a..<j} \<subseteq> set P" "a \<le> j" "j < a + 50" "j \<notin> set P" "j < N"
  shows "client_ok hash seg N a (h\<lparr>h_downloaded := cq_push hash (seg j) (h_downloaded h)\<rparr>) (P @ [j])"
    and "client_ok hash seg N a (h\<lparr>h_downloaded := cq_push hash (seg j) (h_downloaded h), h_requests := seg j # h_requests h\<rparr>) (P @ [j])"
proof -
  obtain R where R: "subseq R P" "h_requests h = map seg (rev R)" using assms(1) by (auto simp: client_ok_def)
  have *: "remembers hash seg (cq_push hash (seg j) (h_downloaded h)) (P @ [j])" "in_order N a (P @ [j])"
    using assms remembers_push in_order_push by (auto simp: client_ok_def)
  have "subseq R (P @ [j])" "subseq (R @ [j]) (P @ [j])" "seg j # h_requests h = map seg (rev (R @ [j]))"
    using R by (auto intro: subseq_rev_drop_many list_emb_append2 simp: subseq_append)
  then show "client_ok hash seg N a (h\<lparr>h_downloaded := cq_push hash (seg j) (h_downloaded h)\<rparr>) (P @ [j])"
    "client_ok hash seg N a (h\<lparr>h_downloaded := cq_push hash (seg j) (h_downloaded h), h_requests := seg j # h_requests h\<rparr>) (P @ [j])"
    using * R unfolding client_ok_def by (auto intro: exI [of _ R] exI [of _ "R @ [j]"])
qed

lemma client_ok_cong:
  "client_ok hash seg N a h P \<Longrightarrow> h_downloaded h' = h_downloaded h \<Longrightarrow> h_requests h' = h_requests h \<Longrightarrow> client_ok hash seg N a h' P"
  by (simp add: client_ok_def)

lemma client_ok_failed: "client_ok hash seg N a h P \<Longrightarrow> failed c h = (h', e) \<Longrightarrow> client_ok hash seg N a h' P"
  by (auto simp: failed_def split: if_splits intro: client_ok_cong)

text \<open>A segment that is not known is pushed and, with an address, requested; then the loop ends or goes on.\<close>

lemma fetch_new_segment:
  assumes "fetch_segments hash joins idle ((uri, duration) # segments) ins h = Some (h', e, rest)"
    and "\<not> cq_contains hash uri (h_downloaded h)"
  obtains h1 where "h_downloaded h1 = cq_push hash uri (h_downloaded h)"
      "h_requests h1 = (if joins uri then uri # h_requests h else h_requests h)"
      "h' = h1 \<or> (\<exists>idle1 ins1. fetch_segments hash joins idle1 segments ins1 h1 = Some (h', e, rest))"
proof -
  note result = that
  let ?h1 = "h\<lparr>h_downloaded := cq_push hash uri (h_downloaded h)\<rparr>"
  let ?h2 = "?h1\<lparr>h_requests := uri # h_requests h\<rparr>"
  show ?thesis
  proof (cases "joins uri")
    case False
    then show ?thesis using assms by (intro result [of ?h1]) auto
  next
    case True
    have stop: ?thesis if "h_downloaded h' = h_downloaded ?h2" "h_requests h' = h_requests ?h2"
      using that True by (intro result [of h']) auto
    have go: ?thesis if "fetch_segments hash joins idle1 segments ins1 h1 = Some (h', e, rest)"
        "h_downloaded h1 = h_downloaded ?h2" "h_requests h1 = h_requests ?h2" for idle1 ins1 h1
      using that True by (intro result [of h1]) auto
    show ?thesis
    proof (cases ins)
      case Nil
      then show ?thesis using assms True by simp
    next
      case (Cons i ins1)
      then show ?thesis
        using assms True
        by (cases i) (auto simp: Let_def failed_def intro: stop go split: if_splits option.splits)
    qed
  qed
qed

lemma fetch_segments_ok:
  assumes inj: "inj_on (hash \<circ> seg) {..<N}" and n: "n \<le> 50" "a + n \<le> N"
  shows "fetch_segments hash joins idle segments ins h = Some (h', e, rest) \<Longrightarrow> map fst segments = map seg [j..<a + n] \<Longrightarrow>
    a \<le> j \<Longrightarrow> client_ok hash seg N a h P \<Longrightarrow> {a..<j} \<subseteq> set P \<Longrightarrow> \<exists>P'. client_ok hash seg N a h' P'"
proof (induction segments arbitrary: idle ins h j P)
  case Nil
  then show ?case by auto
next
  case (Cons s segments)
  obtain uri duration where s: "s = (uri, duration)" by (cases s)
  have j: "j < a + n" using Cons.prems(2) by (cases "j < a + n") auto
  then have uri: "uri = seg j" and rest: "map fst segments = map seg [Suc j..<a + n]"
    using Cons.prems(2) by (auto simp: upt_rec [of j] s)
  have known: "cq_contains hash uri (h_downloaded h) \<longleftrightarrow> j \<in> set P"
    unfolding uri using Cons.prems(3,4) inj j n by (intro contains_iff [of _ _ _ _ N]) (auto simp: client_ok_def)
  show ?case
  proof (cases "j \<in> set P")
    case True
    then have "{a..<Suc j} \<subseteq> set P" using Cons.prems(5) by (auto simp: less_Suc_eq)
    then show ?thesis
      using Cons.IH [of idle ins h "Suc j" P] Cons.prems(1,3,4) rest True known by (simp add: s)
  next
    case False
    have all: "{a..<Suc j} \<subseteq> set (P @ [j])" using Cons.prems(5) by (auto simp: less_Suc_eq)
    obtain h1 where h1: "h_downloaded h1 = cq_push hash uri (h_downloaded h)"
        "h_requests h1 = (if joins uri then uri # h_requests h else h_requests h)"
        "h' = h1 \<or> (\<exists>idle1 ins1. fetch_segments hash joins idle1 segments ins1 h1 = Some (h', e, rest))"
      using fetch_new_segment [OF Cons.prems(1) [unfolded s]] False known by blast
    have "j < a + 50" "j < N" using j n by simp_all
    note ok = client_ok_push [OF Cons.prems(4,5,3) this(1) False this(2)]
    have "client_ok hash seg N a h1 (P @ [j])"
      using h1(1,2) client_ok_cong [OF ok(1), of h1] client_ok_cong [OF ok(2), of h1] by (simp add: uri split: if_splits)
    then show ?thesis using h1(3) Cons.IH [OF _ rest _ _ all] Cons.prems(3) by fastforce
  qed
qed

section \<open>A live playlist\<close>

text \<open>
  The segments of a live stream are numbered; a playlist is a window of at most fifty of them, and the
  window only moves forward. Between them anything may fail.
\<close>

fun live :: "(nat \<Rightarrow> rstring) \<Rightarrow> nat \<Rightarrow> nat \<Rightarrow> turn_input list \<Rightarrow> bool" where
  "live seg N a [] \<longleftrightarrow> True"
| "live seg N a (PlaylistText (Some (MediaPlaylist segments t)) c ins c' # is) \<longleftrightarrow>
    (\<exists>b n. a \<le> b \<and> n \<le> 50 \<and> b + n \<le> N \<and> map fst segments = map seg [b..<b + n] \<and> live seg N b is)"
| "live seg N a (_ # is) \<longleftrightarrow> live seg N a is"

lemma client_ok_mono: "client_ok hash seg N a h P \<Longrightarrow> a \<le> b \<Longrightarrow> client_ok hash seg N b h P"
  by (auto simp: client_ok_def intro: in_order_mono)

text \<open>The first window: what is skipped is pushed like what is fetched.\<close>

lemma push_window:
  assumes "client_ok hash seg N a h []"
  shows "n \<le> 50 \<Longrightarrow> a + n \<le> N \<Longrightarrow> map fst segments = map seg [a..<a + n] \<Longrightarrow>
    client_ok hash seg N a (h\<lparr>h_downloaded := foldl (\<lambda>q (uri, d). cq_push hash uri q) (h_downloaded h) segments\<rparr>) [a..<a + n]"
proof (induction n arbitrary: segments)
  case 0
  then show ?case using assms(1) client_ok_cong by fastforce
next
  case (Suc n)
  then obtain before uri d where split: "segments = before @ [(uri, d)]" "uri = seg (a + n)"
      "map fst before = map seg [a..<a + n]"
    by (cases segments rule: rev_cases) auto
  let ?h = "h\<lparr>h_downloaded := foldl (\<lambda>q (uri, d). cq_push hash uri q) (h_downloaded h) before\<rparr>"
  have "client_ok hash seg N a ?h [a..<a + n]" using Suc.IH [OF _ _ split(3)] Suc.prems(1,2) by simp
  from client_ok_push(1) [OF this, of "a + n"] show ?case
    using Suc.prems(1,2) by (simp add: split(1,2))
qed

lemma skip_old_ok:
  assumes "skip_old hash segments h = (segments', h1)" "map fst segments = map seg [a..<a + n]" "n \<le> 50" "a + n \<le> N"
    and "client_ok hash seg N a h P" "h_is_first_fetch h \<Longrightarrow> P = []"
  shows "\<exists>j P'. a \<le> j \<and> map fst segments' = map seg [j..<a + n] \<and> client_ok hash seg N a h1 P' \<and> {a..<j} \<subseteq> set P'
    \<and> \<not> h_is_first_fetch h1"
proof (cases "h_is_first_fetch h")
  case False
  then show ?thesis using assms by (intro exI [of _ a] exI [of _ P]) (auto simp: skip_old_def)
next
  case True
  have len: "length segments = n" using arg_cong [OF assms(2), of length] by simp
  define k where "k = (if n > 3 then n - 3 else 0)"
  have k: "k \<le> n" by (simp add: k_def)
  have h1: "segments' = drop k segments" "h1 = h\<lparr>h_downloaded := foldl (\<lambda>q (uri, d). cq_push hash uri q) (h_downloaded h)
      (take k segments), h_is_first_fetch := False\<rparr>"
    using assms(1) True by (auto simp: skip_old_def k_def len Let_def)
  have "map fst (take k segments) = map seg [a..<a + k]" "map fst (drop k segments) = map seg [a + k..<a + n]"
    unfolding take_map [symmetric] drop_map [symmetric] assms(2) using k by (simp_all add: take_map drop_map take_upt)
  moreover have "client_ok hash seg N a (h\<lparr>h_downloaded := foldl (\<lambda>q (uri, d). cq_push hash uri q) (h_downloaded h)
      (take k segments)\<rparr>) [a..<a + k]"
    using assms(3-6) True k calculation(1) by (intro push_window) auto
  then have "client_ok hash seg N a h1 [a..<a + k]" by (rule client_ok_cong) (simp_all add: h1)
  ultimately show ?thesis by (intro exI [of _ "a + k"] exI [of _ "[a..<a + k]"]) (simp add: h1)
qed

lemma fetch_first_flag:
  "fetch_segments hash joins idle segments ins h = Some (h', e, rest) \<Longrightarrow> h_is_first_fetch h' = h_is_first_fetch h"
  by (induction hash joins idle segments ins h rule: fetch_segments.induct)
     (auto simp: Let_def failed_def split: if_splits option.splits list.splits seg_input.splits)

lemma hls_turn_ok:
  assumes "inj_on (hash \<circ> seg) {..<N}" "hls_turn hash joins i h = Some (h', e)" "live seg N a (i # is)"
    and "client_ok hash seg N a h P" "h_is_first_fetch h \<Longrightarrow> P = []"
  shows "\<exists>b P'. live seg N b is \<and> client_ok hash seg N b h' P' \<and> (h_is_first_fetch h' \<longrightarrow> P' = [])"
proof (cases "\<exists>segments t c ins c'. i = PlaylistText (Some (MediaPlaylist segments t)) c ins c'")
  case False
  then have "live seg N a is" using assms(3) by (cases "(seg, N, a, i # is)" rule: live.cases) auto
  moreover have "h_downloaded h' = h_downloaded h \<and> h_requests h' = h_requests h \<and> h_is_first_fetch h' = h_is_first_fetch h"
    using assms(2) False
    by (auto simp: hls_turn_def failed_def split: turn_input.splits option.splits playlist.splits if_splits)
  ultimately show ?thesis using client_ok_cong [OF assms(4), of h'] assms(5) by auto
next
  case True
  then obtain segments t c ins c' where i: "i = PlaylistText (Some (MediaPlaylist segments t)) c ins c'" by blast
  obtain b n where b: "a \<le> b" "n \<le> 50" "b + n \<le> N" "map fst segments = map seg [b..<b + n]" "live seg N b is"
    using assms(3) by (auto simp: i)
  obtain segments' h1 where skip: "skip_old hash segments h = (segments', h1)" by fastforce
  obtain j P1 where 1: "b \<le> j" "map fst segments' = map seg [j..<b + n]" "client_ok hash seg N b h1 P1" "{b..<j} \<subseteq> set P1"
      "\<not> h_is_first_fetch h1"
    using skip_old_ok [OF skip b(4,2,3) client_ok_mono [OF assms(4) b(1)] assms(5)] by blast
  obtain e1 rest where fetch: "fetch_segments hash joins True segments' ins h1 = Some (h', e1, rest)"
    using assms(2) skip by (auto simp: hls_turn_def i split: Option.bind_splits loop_end.splits)
  then show ?thesis
    using fetch_segments_ok [OF assms(1) b(2,3) fetch 1(2,1,3,4)] fetch_first_flag [OF fetch] 1(5) b(5) by auto
qed

text \<open>
  C20. A segment of a live stream is requested at most once and never out of order: when each playlist is a
  window of at most fifty numbered segments that only moves forward, and no two addresses of the first \<open>N\<close>
  segments, which the windows stay in, collide under the hash, the requests of the client over any sequence of turns, with any failures of playlists and
  segments between, are for segments with strictly growing numbers.
\<close>

theorem segments_requested_once:
  assumes "inj_on (hash \<circ> seg) {..<N}" "live seg N a inputs" "hls_turns hash joins inputs hls_new = Some (h, e)"
  shows "\<exists>numbers. rev (h_requests h) = map seg numbers \<and> sorted_wrt (<) numbers"
proof -
  have run: "\<exists>b P. client_ok hash seg N b h' P"
    if "hls_turns hash joins inputs h = Some (h', e)" "live seg N a inputs" "client_ok hash seg N a h P" "h_is_first_fetch h \<longrightarrow> P = []"
    for h h' e P
    using that
  proof (induction inputs arbitrary: a h P)
    case (Cons i inputs)
    obtain h1 e1 where turn: "hls_turn hash joins i h = Some (h1, e1)"
        and rest: "if e1 = Return then h' = h1 else hls_turns hash joins inputs h1 = Some (h', e)"
      using Cons.prems(1) by (auto split: Option.bind_splits if_splits)
    obtain b P1 where 1: "live seg N b inputs" "client_ok hash seg N b h1 P1" "h_is_first_fetch h1 \<longrightarrow> P1 = []"
      using hls_turn_ok [OF assms(1) turn Cons.prems(2,3)] Cons.prems(4) by blast
    then show ?case using rest Cons.IH by (cases "e1 = Return") auto
  qed auto
  have "client_ok hash seg N a hls_new []"
    using remembers_new [of hash seg] by (simp add: client_ok_def hls_new_def in_order_def)
  then obtain b P where "client_ok hash seg N b h P" using run [OF assms(3,2)] by blast
  then obtain R where "subseq R P" "h_requests h = map seg (rev R)" "sorted_wrt (<) P"
    by (auto simp: client_ok_def in_order_def)
  then show ?thesis using subseq_sorted [of R P] by (auto simp: rev_map)
qed

text \<open>Numbered segments, and answers to requests.\<close>

definition ex_seg :: "nat \<Rightarrow> rstring" where
  "ex_seg n = replicate n 0x61"

definition ex_hash :: "rstring \<Rightarrow> u64" where
  "ex_hash uri = of_nat (length uri)"

definition ex_window :: "nat \<Rightarrow> nat \<Rightarrow> (rstring \<times> rat) list" where
  "ex_window a n = map (\<lambda>j. (ex_seg j, 4)) [a..<a + n]"

definition ex_turn :: "nat \<Rightarrow> nat \<Rightarrow> seg_input list \<Rightarrow> turn_input" where
  "ex_turn a n ins = PlaylistText (Some (MediaPlaylist (ex_window a n) 4)) False ins False"

definition ex_answer :: seg_input where
  "ex_answer = SegResponse 1 [BodyBytes [0x47]] False"

text \<open>
  A playlist with more segments than the memory holds: those skipped at the start are forgotten and fetched
  when the playlist is read again, after newer ones.
\<close>

lemma long_playlist_replayed:
  "map_option (\<lambda>(h, e). map length (h_requests h))
     (hls_turns ex_hash (\<lambda>_. True) [ex_turn 0 60 [ex_answer, ex_answer, ex_answer], ex_turn 0 60 [SegCancelled]] hls_new)
    = Some [0, 59, 58, 57]"
  by code_simp

text \<open>The task that sends keeps the channel open until it is cancelled, whatever became of the one that fetches.\<close>

lemma pacing_keeps_channel:
  "pace_task ins = Some (pieces, goes_on) \<Longrightarrow> NothingThere True \<notin> set ins \<Longrightarrow> goes_on"
  by (induction ins arbitrary: pieces rule: pace_task.induct) (auto split: Option.bind_splits if_splits)

text \<open>A segment of no duration stops it.\<close>

lemma zero_duration_panics: "pace_task (Popped (0, chunk) es # ins) = None"
  by (simp add: send_segment_def piece_time_ns_def fl_def f64_to_u64_def)

theorem segments_requested_once_witness:
  "\<exists>h e numbers. hls_turns ex_hash (\<lambda>_. True) [ex_turn 0 4 [ex_answer, SegFailed False], ex_turn 1 4 [ex_answer, ex_answer]] hls_new = Some (h, e)
    \<and> rev (h_requests h) = map ex_seg numbers \<and> sorted_wrt (<) numbers \<and> length (h_requests h) = 4"
proof -
  have "map_option (\<lambda>(h, e). length (h_requests h))
      (hls_turns ex_hash (\<lambda>_. True) [ex_turn 0 4 [ex_answer, SegFailed False], ex_turn 1 4 [ex_answer, ex_answer]] hls_new) = Some 4"
    by code_simp
  then obtain h e where run: "hls_turns ex_hash (\<lambda>_. True) [ex_turn 0 4 [ex_answer, SegFailed False], ex_turn 1 4 [ex_answer, ex_answer]]
      hls_new = Some (h, e)" "length (h_requests h) = 4"
    by auto
  have "inj_on (ex_hash \<circ> ex_seg) {..<5}"
    by (auto simp: inj_on_def ex_hash_def ex_seg_def lessThan_nat_numeral)
  moreover have "live ex_seg 5 0 [ex_turn 1 4 [ex_answer, ex_answer]]"
    unfolding ex_turn_def live.simps by (intro exI [of _ 1] exI [of _ 4]) (simp add: ex_window_def comp_def)
  then have "live ex_seg 5 0 [ex_turn 0 4 [ex_answer, SegFailed False], ex_turn 1 4 [ex_answer, ex_answer]]"
    unfolding ex_turn_def [of 0] live.simps by (intro exI [of _ 0] exI [of _ 4]) (simp add: ex_window_def comp_def)
  ultimately show ?thesis using segments_requested_once [OF _ _ run(1), of ex_seg 5 0] run by blast
qed

end
