(* ===== verification/Inputs.thy ===== *)
theory Inputs
  imports Workers Biss Rtp Output_Stats Rust_Text
begin

text \<open>
  The input tasks of a worker: \<open>workers/input_udp.rs\<close>, \<open>input_rtp.rs\<close>, \<open>input_unix.rs\<close>, \<open>input_http.rs\<close>,
  \<open>input_ffmpeg.rs\<close> and \<open>input_hls.rs\<close>. Every one is a loop that connects, reads until the connection breaks and pauses
  for three seconds. The state between two waits of the loop is a record with the phase the loop is in; an event is what
  the wait ends with. Which event that is follows from the times at which the branches of \<open>tokio::select!\<close> are
  ready. Instants are nanoseconds.
\<close>

definition SECOND :: nat where "SECOND = 1000000000"
definition INPUT_TIMEOUT :: nat where "INPUT_TIMEOUT = 5 * SECOND"
definition ERR_TIMER_DURATION :: int where "ERR_TIMER_DURATION = 3"
definition ERR_COUNT_PER_MIN :: int where "ERR_COUNT_PER_MIN = 60 div ERR_TIMER_DURATION"
definition UDP_READ_CHUNK_SIZE :: usize where "UDP_READ_CHUNK_SIZE = 7 * 188"
definition RTP_READ_CHUNK_SIZE :: usize where "RTP_READ_CHUNK_SIZE = 12 + 7 * 188"
definition RECV_BUFFER_BYTES :: usize where "RECV_BUFFER_BYTES = 5 * 1024 * 1024"

datatype input_msg =
    InputRunning input_kind rstring
  | InputStopped input_kind
  | InputBissFailed biss_error
  | DescrambleFailed biss_error
  | FetchFailed
  | NoDataFor nat
  | StdoutClosed input_kind
  | ConnectFailedTo rstring
  | ErrorsPerMinute int
  | RequestFailed input_kind
  | HttpStatus
  | ClosedByRemote
  | FfmpegLine rstring
  | FfmpegExited
  | FfmpegKilled
  | ClientStopped
  | ClientWaited waited
  | RecvBufferSize nat
  | ReuseAddressFailed
  | ReusePortFailed

datatype input_phase = Connecting | Receiving | Pausing | Done | Failed

record input_state =
  it_url :: rstring
  it_helper :: "input_msg helper"
  it_stats :: input_stats
  it_tx :: "bytes list"
  it_sent_bytes :: usize
  it_err_count :: int
  it_biss :: "descrambler option"
  it_rtp :: rtp_state
  it_dirty :: bool
  it_phase :: input_phase
  it_in_buff :: bytes
  it_last_chunk_at :: nat
  it_next_tick :: nat

text \<open>
  What a wait ends with. \<open>Data\<close> carries the datagram, the bytes one read returned, or a piece of a body; a read
  of no bytes is the end of a socket or pipe.
\<close>

datatype input_event =
    Cancelled | Connected | ConnectFailed | BadStatus
  | Data bytes | Eof | ReadError | Elapsed | Line "rstring option" | TickStats | SleepOver

text \<open>How a process of \<open>ffmpeg\<close> ends when it is stopped.\<close>

datatype child_end = ChildExited | ChildKilled | ChildError

record input_env =
  ie_decrypt :: "bytes \<Rightarrow> bytes \<Rightarrow> bytes"
  ie_dvbcsa :: bool
  ie_alloc_ok :: bool
  ie_client_ok :: bool
  ie_child :: "nat \<Rightarrow> child_end"
  ie_waited :: "nat \<Rightarrow> waited"

section \<open>The parts the loops share\<close>

definition to_phase :: "input_phase \<Rightarrow> input_state \<Rightarrow> input_state" where
  "to_phase p s = s\<lparr>it_phase := p\<rparr>"

definition on_helper :: "(input_msg helper \<Rightarrow> input_msg helper) \<Rightarrow> input_state \<Rightarrow> input_state" where
  "on_helper f s = s\<lparr>it_helper := f (it_helper s)\<rparr>"

definition go_dirty :: "nat \<Rightarrow> input_msg \<Rightarrow> input_state \<Rightarrow> input_state" where
  "go_dirty now msg s = on_helper (mark_dirty now msg) (s\<lparr>it_dirty := True\<rparr>)"

definition count_error :: "input_state \<Rightarrow> input_state" where
  "count_error s =
    (let s = (if it_err_count s \<ge> ERR_COUNT_PER_MIN
        then (on_helper (helper_log (ErrorsPerMinute (it_err_count s))) s)\<lparr>it_err_count := 0\<rparr> else s)
     in s\<lparr>it_err_count := it_err_count s + 1\<rparr>)"

definition came_back :: "input_state \<Rightarrow> input_state" where
  "came_back s = (if it_dirty s then on_helper cmd_unmark_dirty_now (s\<lparr>it_dirty := False\<rparr>) else s)"

definition connected :: "nat \<Rightarrow> input_state \<Rightarrow> input_state" where
  "connected now s = s\<lparr>it_phase := Receiving, it_last_chunk_at := now, it_in_buff := []\<rparr>"

definition stopped :: "input_kind \<Rightarrow> input_state \<Rightarrow> input_state" where
  "stopped kind s = to_phase Done (on_helper (log_pause (InputStopped kind)) s)"

definition tick_stats :: "input_state \<Rightarrow> input_state" where
  "tick_stats s = s\<lparr>it_stats := input_update_bitrate (it_stats s) (of_nat (it_sent_bytes s * 8)), it_sent_bytes := 0,
     it_next_tick := it_next_tick s + SECOND\<rparr>"

definition idle :: "nat \<Rightarrow> input_state \<Rightarrow> input_state" where
  "idle now s = to_phase Pausing (go_dirty now (NoDataFor ((now - it_last_chunk_at s) div 1000000)) s)"

definition fetch_failed :: "nat \<Rightarrow> input_state \<Rightarrow> input_state" where
  "fetch_failed now s = to_phase Pausing (go_dirty now FetchFailed s)"

definition unscramble :: "input_env \<Rightarrow> input_state \<Rightarrow> bytes \<Rightarrow> (input_state \<times> (biss_error + bytes option)) option" where
  "unscramble env s data =
    (case it_biss s of
       Some biss \<Rightarrow> do {
         (buff, res) \<leftarrow> descramble_ts_stream (ie_decrypt env) (ie_dvbcsa env) biss (it_in_buff s @ data);
         let s = s\<lparr>it_in_buff := buff\<rparr>;
         Some (case res of Inl e \<Rightarrow> on_helper (helper_log (DescrambleFailed e)) s | Inr _ \<Rightarrow> s, res) }
     | None \<Rightarrow> Some (s, Inr (Some data)))"

definition forward :: "nat \<Rightarrow> bytes \<Rightarrow> input_state \<Rightarrow> input_state" where
  "forward now pkt s = came_back (s\<lparr>it_sent_bytes := it_sent_bytes s + length pkt, it_tx := it_tx s @ [pkt],
     it_last_chunk_at := now\<rparr>)"

definition forward_chunks :: "nat \<Rightarrow> bytes \<Rightarrow> input_state \<Rightarrow> input_state" where
  "forward_chunks now pkt s =
    (let (tx, n) = send_broadcast_chunks (it_tx s) pkt
     in came_back (s\<lparr>it_sent_bytes := it_sent_bytes s + n, it_tx := tx, it_last_chunk_at := now\<rparr>))"

text \<open>The error of the descrambler ends the task.\<close>

definition take_data :: "(nat \<Rightarrow> bytes \<Rightarrow> input_state \<Rightarrow> input_state) \<Rightarrow> input_env \<Rightarrow> nat \<Rightarrow> bytes \<Rightarrow> input_state \<Rightarrow> input_state option" where
  "take_data send env now data s = do {
     (s, res) \<leftarrow> unscramble env s data;
     Some (case res of Inl e \<Rightarrow> to_phase Failed s | Inr None \<Rightarrow> s | Inr (Some pkt) \<Rightarrow> send now pkt s) }"

section \<open>Datagrams: udp and rtp\<close>

text \<open>The two loops differ in what they make of a datagram.\<close>

definition datagram_step :: "input_kind \<Rightarrow> (bytes \<Rightarrow> input_state \<Rightarrow> input_state option) \<Rightarrow> nat \<Rightarrow> input_state \<Rightarrow> input_event \<Rightarrow> input_state option" where
  "datagram_step kind on_data now s e =
    (case it_phase s of
       Connecting \<Rightarrow> Some (case e of
           Cancelled \<Rightarrow> stopped kind s
         | Connected \<Rightarrow> connected now s
         | ConnectFailed \<Rightarrow> to_phase Pausing (count_error (go_dirty now (ConnectFailedTo (it_url s)) s))
         | _ \<Rightarrow> s)
     | Receiving \<Rightarrow> (case e of
           Cancelled \<Rightarrow> Some (stopped kind s)
         | Data data \<Rightarrow> on_data data s
         | ReadError \<Rightarrow> Some (fetch_failed now s)
         | Elapsed \<Rightarrow> Some (idle now s)
         | TickStats \<Rightarrow> Some (tick_stats s)
         | _ \<Rightarrow> Some s)
     | Pausing \<Rightarrow> Some (case e of Cancelled \<Rightarrow> to_phase Done s | SleepOver \<Rightarrow> to_phase Connecting s | _ \<Rightarrow> s)
     | _ \<Rightarrow> Some s)"

definition udp_data :: "input_env \<Rightarrow> nat \<Rightarrow> bytes \<Rightarrow> input_state \<Rightarrow> input_state option" where
  "udp_data env now data s = take_data forward env now (take UDP_READ_CHUNK_SIZE data) s"

definition udp_step :: "input_env \<Rightarrow> nat \<Rightarrow> input_state \<Rightarrow> input_event \<Rightarrow> input_state option" where
  "udp_step env now s e = datagram_step InUdp (udp_data env now) now s e"

text \<open>A datagram that is no RTP packet of the session ends the task.\<close>

definition rtp_data :: "input_env \<Rightarrow> nat \<Rightarrow> bytes \<Rightarrow> input_state \<Rightarrow> input_state option" where
  "rtp_data env now data s = do {
     (rtp, res) \<leftarrow> rtp_unpack (it_rtp s) (take RTP_READ_CHUNK_SIZE data);
     let s = s\<lparr>it_rtp := rtp\<rparr>;
     case res of Inl e \<Rightarrow> Some (to_phase Failed s) | Inr payload \<Rightarrow> take_data forward env now payload s }"

definition rtp_step :: "input_env \<Rightarrow> nat \<Rightarrow> input_state \<Rightarrow> input_event \<Rightarrow> input_state option" where
  "rtp_step env now s e = datagram_step InRtp (rtp_data env now) now s e"

section \<open>Joining a multicast group\<close>

text \<open>
  \<open>connect\<close> of the two datagram inputs. The parser of URLs, the parser of addresses and the results of the system calls
  are arguments; a socket is what it is bound to and the group it has joined.
\<close>

record 'ip socket_env =
  sk_url :: "rstring \<Rightarrow> (string option \<times> u16 option) option"
  sk_ipv4 :: "string \<Rightarrow> 'ip option"
  sk_new :: bool
  sk_set_recv_buffer :: "usize \<Rightarrow> bool"
  sk_recv_buffer :: "nat option"
  sk_reuse_address :: bool
  sk_reuse_port :: bool
  sk_bind :: "u16 \<Rightarrow> bool"
  sk_join :: "'ip \<Rightarrow> bool"
  sk_nonblocking :: bool
  sk_from_std :: bool

datatype connect_error = InvalidUrl | InvalidGroup | SocketFailed | RecvBufferFailed | BindAddressFailed u16
  | JoinFailed | NonBlockingFailed | ConversionFailed

definition open_socket :: "usize \<Rightarrow> 'ip socket_env \<Rightarrow> u16 \<Rightarrow> 'ip \<Rightarrow> input_msg helper \<Rightarrow> input_msg helper \<times> (connect_error + u16 \<times> 'ip)" where
  "open_socket recv_buffer_bytes env port multi_addr helper =
    (if \<not> sk_new env then (helper, Inl SocketFailed)
     else if \<not> sk_set_recv_buffer env recv_buffer_bytes then (helper, Inl RecvBufferFailed)
     else let helper = (case sk_recv_buffer env of Some n \<Rightarrow> helper_log (RecvBufferSize n) helper | None \<Rightarrow> helper);
              helper = (if sk_reuse_address env then helper else helper_log ReuseAddressFailed helper);
              helper = (if sk_reuse_port env then helper else helper_log ReusePortFailed helper)
          in (helper, if \<not> sk_bind env port then Inl (BindAddressFailed port)
               else if \<not> sk_join env multi_addr then Inl JoinFailed
               else if \<not> sk_nonblocking env then Inl NonBlockingFailed
               else if \<not> sk_from_std env then Inl ConversionFailed
               else Inr (port, multi_addr)))"

definition udp_connect :: "'ip socket_env \<Rightarrow> rstring \<Rightarrow> input_msg helper \<Rightarrow> input_msg helper \<times> (connect_error + u16 \<times> 'ip)" where
  "udp_connect env url helper =
    (case sk_url env url of
       Some (Some host, Some port) \<Rightarrow> (case sk_ipv4 env host of None \<Rightarrow> (helper, Inl InvalidGroup)
         | Some multi_addr \<Rightarrow> open_socket RECV_BUFFER_BYTES env port multi_addr helper)
     | _ \<Rightarrow> (helper, Inl InvalidUrl))"

text \<open>The function of \<open>input_rtp.rs\<close> has the same body and a constant of its own with the same value.\<close>

definition rtp_connect :: "'ip socket_env \<Rightarrow> rstring \<Rightarrow> input_msg helper \<Rightarrow> input_msg helper \<times> (connect_error + u16 \<times> 'ip)" where
  "rtp_connect env url helper = udp_connect env url helper"

section \<open>Streams: unix sockets, http and hls\<close>

text \<open>A cancelled connect of the unix input reports the name of the udp input.\<close>

definition unix_step :: "input_env \<Rightarrow> nat \<Rightarrow> input_state \<Rightarrow> input_event \<Rightarrow> input_state option" where
  "unix_step env now s e =
    (case it_phase s of
       Connecting \<Rightarrow> Some (case e of
           Cancelled \<Rightarrow> stopped InUdp s
         | Connected \<Rightarrow> connected now s
         | ConnectFailed \<Rightarrow> to_phase Pausing (count_error (go_dirty now (ConnectFailedTo (it_url s)) s))
         | _ \<Rightarrow> s)
     | Receiving \<Rightarrow> (case e of
           Cancelled \<Rightarrow> Some (stopped InUnix s)
         | Data data \<Rightarrow> (if data = [] then Some (to_phase Pausing (go_dirty now (StdoutClosed InUnix) s))
             else take_data forward env now data s)
         | ReadError \<Rightarrow> Some (fetch_failed now s)
         | Elapsed \<Rightarrow> Some (idle now s)
         | TickStats \<Rightarrow> Some (tick_stats s)
         | _ \<Rightarrow> Some s)
     | Pausing \<Rightarrow> Some (case e of Cancelled \<Rightarrow> to_phase Done s | SleepOver \<Rightarrow> to_phase Connecting s | _ \<Rightarrow> s)
     | _ \<Rightarrow> Some s)"

text \<open>
  A status that is no success asks again at once, without the pause; an error of the body does not end the connection. A piece of
  the body resets the count of errors unless it ended the task.
\<close>

definition http_data :: "input_env \<Rightarrow> nat \<Rightarrow> bytes \<Rightarrow> input_state \<Rightarrow> input_state option" where
  "http_data env now data s = do {
     s \<leftarrow> take_data forward_chunks env now data s;
     Some (if it_phase s = Failed then s else s\<lparr>it_err_count := 0\<rparr>) }"

definition http_step :: "input_env \<Rightarrow> nat \<Rightarrow> input_state \<Rightarrow> input_event \<Rightarrow> input_state option" where
  "http_step env now s e =
    (case it_phase s of
       Connecting \<Rightarrow> Some (case e of
           Cancelled \<Rightarrow> stopped InHttp s
         | Connected \<Rightarrow> connected now s
         | BadStatus \<Rightarrow> count_error (go_dirty now HttpStatus s)
         | ConnectFailed \<Rightarrow> to_phase Pausing (count_error (go_dirty now (RequestFailed InHttp) s))
         | _ \<Rightarrow> s)
     | Receiving \<Rightarrow> (case e of
           Cancelled \<Rightarrow> Some (stopped InHttp s)
         | Data data \<Rightarrow> http_data env now data s
         | ReadError \<Rightarrow> Some (go_dirty now FetchFailed s)
         | Eof \<Rightarrow> Some (to_phase Pausing (count_error (go_dirty now ClosedByRemote s)))
         | Elapsed \<Rightarrow> Some (idle now s)
         | TickStats \<Rightarrow> Some (tick_stats s)
         | _ \<Rightarrow> Some s)
     | Pausing \<Rightarrow> Some (case e of Cancelled \<Rightarrow> stopped InHttp s | SleepOver \<Rightarrow> to_phase Connecting s | _ \<Rightarrow> s)
     | _ \<Rightarrow> Some s)"

text \<open>The segments of the client arrive over a channel; its end is the end of the client.\<close>

definition hls_data :: "bytes \<Rightarrow> input_state \<Rightarrow> input_state" where
  "hls_data chunk s =
    (let s = s\<lparr>it_sent_bytes := it_sent_bytes s + length chunk\<rparr>
     in came_back (s\<lparr>it_tx := fst (send_broadcast_chunks (it_tx s) chunk)\<rparr>))"

definition hls_step :: "input_env \<Rightarrow> nat \<Rightarrow> input_state \<Rightarrow> input_event \<Rightarrow> input_state" where
  "hls_step env now s e =
    (case it_phase s of
       Connecting \<Rightarrow> (case e of
           Cancelled \<Rightarrow> stopped InHls s
         | Connected \<Rightarrow> to_phase Receiving s
         | ConnectFailed \<Rightarrow> to_phase Pausing (count_error (go_dirty now (RequestFailed InHls) s))
         | _ \<Rightarrow> s)
     | Receiving \<Rightarrow> (case e of
           Cancelled \<Rightarrow> on_helper (helper_log (ClientWaited (ie_waited env now))) (stopped InHls s)
         | Data chunk \<Rightarrow> hls_data chunk s
         | Eof \<Rightarrow> to_phase Pausing (on_helper (helper_log (ClientWaited (ie_waited env now))) (go_dirty now ClientStopped s))
         | TickStats \<Rightarrow> tick_stats s
         | _ \<Rightarrow> s)
     | Pausing \<Rightarrow> (case e of Cancelled \<Rightarrow> stopped InHls s | SleepOver \<Rightarrow> to_phase Connecting s | _ \<Rightarrow> s)
     | _ \<Rightarrow> s)"

section \<open>A process: ffmpeg\<close>

definition stop_ffmpeg :: "input_env \<Rightarrow> nat \<Rightarrow> input_phase \<Rightarrow> input_state \<Rightarrow> input_state" where
  "stop_ffmpeg env now next s =
    (case ie_child env now of
       ChildExited \<Rightarrow> to_phase next (on_helper (helper_log FfmpegExited) s)
     | ChildKilled \<Rightarrow> to_phase next (on_helper (helper_log FfmpegKilled) s)
     | ChildError \<Rightarrow> to_phase Failed s)"

definition ffmpeg_data :: "nat \<Rightarrow> bytes \<Rightarrow> input_state \<Rightarrow> input_state" where
  "ffmpeg_data now data s = forward now data s"

definition ffmpeg_step :: "input_env \<Rightarrow> nat \<Rightarrow> input_state \<Rightarrow> input_event \<Rightarrow> input_state" where
  "ffmpeg_step env now s e =
    (case it_phase s of
       Connecting \<Rightarrow> (case e of
           Connected \<Rightarrow> s\<lparr>it_phase := Receiving, it_last_chunk_at := now\<rparr>
         | ConnectFailed \<Rightarrow> to_phase Failed s
         | _ \<Rightarrow> s)
     | Receiving \<Rightarrow> (case e of
           Cancelled \<Rightarrow> stop_ffmpeg env now Done (on_helper (log_pause (InputStopped InFfmpeg)) s)
         | Data data \<Rightarrow>
             (if data = [] then stop_ffmpeg env now Pausing (go_dirty now (StdoutClosed InFfmpeg) s) else ffmpeg_data now data s)
         | ReadError \<Rightarrow> stop_ffmpeg env now Pausing (go_dirty now FetchFailed s)
         | Elapsed \<Rightarrow> stop_ffmpeg env now Pausing (idle now s)
         | Line (Some line) \<Rightarrow> on_helper (helper_log (FfmpegLine line)) s
         | TickStats \<Rightarrow> tick_stats s
         | _ \<Rightarrow> s)
     | Pausing \<Rightarrow> (case e of Cancelled \<Rightarrow> to_phase Done s | SleepOver \<Rightarrow> to_phase Connecting s | _ \<Rightarrow> s)
     | _ \<Rightarrow> s)"

section \<open>All inputs\<close>

definition input_name :: "input_kind \<Rightarrow> string" where
  "input_name kind = (case kind of InHttp \<Rightarrow> ''http'' | InUdp \<Rightarrow> ''udp'' | InRtp \<Rightarrow> ''rtp'' | InHls \<Rightarrow> ''hls''
     | InFfmpeg \<Rightarrow> ''ffmpeg'' | InUnix \<Rightarrow> ''unix'')"

text \<open>The beginning of a task, up to the first wait. Neither ffmpeg nor hls looks at the key.\<close>

definition remote_new :: "input_kind \<Rightarrow> input_env \<Rightarrow> stream \<Rightarrow> input_msg helper \<Rightarrow> int \<Rightarrow> nat \<Rightarrow> input_state" where
  "remote_new kind env config helper time now =
    (let helper = set_namespace (''Input '' @ input_name kind @ '' #'' @ show_word (s_id config)) helper;
         helper = log_play (InputRunning kind (s_remote_url config)) helper;
         client_ok = (kind = InHttp \<or> kind = InHls \<longrightarrow> ie_client_ok env);
         (helper, biss) = (if kind = InHls \<or> kind = InFfmpeg \<or> \<not> client_ok then (helper, None)
           else case init_biss (ie_dvbcsa env) (ie_alloc_ok env) (s_biss_key config) of
             Inl e \<Rightarrow> (helper_log (InputBissFailed e) helper, None) | Inr d \<Rightarrow> (helper, Some d))
     in \<lparr>it_url = s_remote_url config, it_helper = helper, it_stats = input_stats_new time, it_tx = [], it_sent_bytes = 0,
         it_err_count = 0, it_biss = biss, it_rtp = rtp_new, it_dirty = False,
         it_phase = (if client_ok then Connecting else Failed),
         it_in_buff = [], it_last_chunk_at = now, it_next_tick = now\<rparr>)"

definition remote_step :: "input_kind \<Rightarrow> input_env \<Rightarrow> nat \<Rightarrow> input_state \<Rightarrow> input_event \<Rightarrow> input_state option" where
  "remote_step kind env now s e =
    (case kind of InHttp \<Rightarrow> http_step env now s e | InUdp \<Rightarrow> udp_step env now s e | InRtp \<Rightarrow> rtp_step env now s e
     | InHls \<Rightarrow> Some (hls_step env now s e) | InFfmpeg \<Rightarrow> Some (ffmpeg_step env now s e) | InUnix \<Rightarrow> unix_step env now s e)"

section \<open>Waiting\<close>

text \<open>
  What the outside does during one wait: when the task is cancelled, when and how the connection is made, when
  and how the read ends, when a line of the process is there (\<open>None\<close> when its error stream has ended). Every future is made anew
  for each wait, so the time limit of the read counts from the beginning of the wait; the timer of the statistics lives outside the loop.
\<close>

record world =
  wo_cancel :: "nat option"
  wo_connect :: "nat \<times> input_event"
  wo_read :: "(nat \<times> input_event) option"
  wo_line :: "(nat \<times> rstring option) option"

definition cancel_branch :: "nat \<Rightarrow> world \<Rightarrow> (nat \<times> input_event) list" where
  "cancel_branch now w = (case wo_cancel w of None \<Rightarrow> [] | Some t \<Rightarrow> [(max now t, Cancelled)])"

definition timed_read :: "nat \<Rightarrow> world \<Rightarrow> nat \<times> input_event" where
  "timed_read now w = (case wo_read w of
       Some (t, e) \<Rightarrow> if max now t \<le> now + INPUT_TIMEOUT then (max now t, e) else (now + INPUT_TIMEOUT, Elapsed)
     | None \<Rightarrow> (now + INPUT_TIMEOUT, Elapsed))"

text \<open>The branches of the wait, in the order in which they are polled.\<close>

definition branches :: "input_kind \<Rightarrow> nat \<Rightarrow> input_state \<Rightarrow> world \<Rightarrow> (nat \<times> input_event) list" where
  "branches kind now s w =
    (case it_phase s of
       Connecting \<Rightarrow> (if kind = InFfmpeg then [] else cancel_branch now w)
         @ [(max now (fst (wo_connect w)), snd (wo_connect w))]
     | Receiving \<Rightarrow> cancel_branch now w
         @ (if kind = InHls then case wo_read w of None \<Rightarrow> [] | Some (t, e) \<Rightarrow> [(max now t, e)] else [timed_read now w])
         @ (if kind = InFfmpeg then case wo_line w of None \<Rightarrow> [] | Some (t, line) \<Rightarrow> [(max now t, Line line)] else [])
         @ [(max now (it_next_tick s), TickStats)]
     | Pausing \<Rightarrow> cancel_branch now w @ [(now + nat ERR_TIMER_DURATION * SECOND, SleepOver)]
     | _ \<Rightarrow> [])"

text \<open>The branch that is ready first; of those that are ready at the same time the first one.\<close>

fun earliest :: "(nat \<times> 'e) \<Rightarrow> (nat \<times> 'e) list \<Rightarrow> nat \<times> 'e" where
  "earliest b [] = b"
| "earliest b (c # bs) = earliest (if fst b \<le> fst c then b else c) bs"

definition input_turn :: "input_kind \<Rightarrow> input_env \<Rightarrow> nat \<Rightarrow> input_state \<Rightarrow> world \<Rightarrow> (nat \<times> input_state) option" where
  "input_turn kind env now s w =
    (case branches kind now s w of [] \<Rightarrow> Some (now, s)
     | b # bs \<Rightarrow> (case earliest b bs of (t, e) \<Rightarrow> do { s \<leftarrow> remote_step kind env t s e; Some (t, s) }))"

fun input_turns :: "input_kind \<Rightarrow> input_env \<Rightarrow> nat \<Rightarrow> input_state \<Rightarrow> world list \<Rightarrow> (nat \<times> input_state) option" where
  "input_turns kind env now s [] = Some (now, s)"
| "input_turns kind env now s (w # ws) = do { (now, s) \<leftarrow> input_turn kind env now s w; input_turns kind env now s ws }"

text \<open>
  A connection is made exactly when the address names a host and a port, the host is an address, and every call but those that
  allow the address to be shared succeeds; then the socket is bound to that port and has joined that group. No report is made
  to the server either way.
\<close>

lemma udp_connect_iff:
  "snd (udp_connect env url helper) = Inr (port, multi_addr) \<longleftrightarrow>
     (\<exists>host. sk_url env url = Some (Some host, Some port) \<and> sk_ipv4 env host = Some multi_addr) \<and> sk_new env
     \<and> sk_set_recv_buffer env RECV_BUFFER_BYTES \<and> sk_bind env port \<and> sk_join env multi_addr \<and> sk_nonblocking env \<and> sk_from_std env"
  by (auto simp: udp_connect_def open_socket_def Let_def split: option.splits)

lemma udp_connect_silent: "he_api_tx (fst (udp_connect env url helper)) = he_api_tx helper"
  by (simp add: udp_connect_def open_socket_def Let_def helper_log_def split: option.splits)

section \<open>The descrambler does not end a task\<close>

lemma descramble_packet_total:
  assumes "length p = 188" "\<And>k pl. length (decrypt k pl) = length pl"
  obtains q b where "descramble_ts_packet decrypt True d p = Some (q, Inr b)" "length q = 188"
proof -
  have "descramble_ts_packet decrypt True d p \<noteq> None"
    unfolding descramble_ts_packet_def using assms(1) by (intro no_panic) (auto simp: TS_PACKET_SIZE_def split: if_splits)
  then obtain q r where qr: "descramble_ts_packet decrypt True d p = Some (q, r)" by auto
  then have "length q = 188 \<and> (\<exists>b. r = Inr b)"
    using assms by (auto simp: descramble_ts_packet_def Let_def bind_eq_Some_conv upd_eq_Some_iff slice_from_def TS_PACKET_SIZE_def split: if_splits)
  with qr that show ?thesis by blast
qed

lemma descramble_packets_total:
  assumes "\<And>k pl. length (decrypt k pl) = length pl"
  shows "\<exists>data' n. descramble_ts_packets decrypt True d data = Some (data', Inr n) \<and> length data' = length data"
proof (induction "length data" arbitrary: data rule: less_induct)
  case less
  show ?case
  proof (cases "length data < TS_PACKET_SIZE")
    case True
    then show ?thesis by (simp add: descramble_ts_packets.simps [of _ _ _ data])
  next
    case False
    then have "length (take TS_PACKET_SIZE data) = 188" by (simp add: TS_PACKET_SIZE_def)
    then obtain q b where q: "descramble_ts_packet decrypt True d (take TS_PACKET_SIZE data) = Some (q, Inr b)" "length q = 188"
      using descramble_packet_total assms by metis
    obtain rest n where "descramble_ts_packets decrypt True d (drop TS_PACKET_SIZE data) = Some (rest, Inr n)"
        "length rest = length (drop TS_PACKET_SIZE data)"
      using less [of "drop TS_PACKET_SIZE data"] False by (fastforce simp: TS_PACKET_SIZE_def not_less)
    then show ?thesis
      using False q by (simp add: descramble_ts_packets.simps [of _ _ _ data] TS_PACKET_SIZE_def)
  qed
qed

lemma descramble_stream_total:
  assumes "\<And>k pl. length (decrypt k pl) = length pl"
  shows "\<exists>buff r. descramble_ts_stream decrypt True d data = Some (buff, Inr r)
    \<and> (\<forall>pkt. r = Some pkt \<longrightarrow> 188 dvd length pkt \<and> 564 \<le> length pkt)"
proof -
  obtain b synced where sync: "sync_buffer data = (b, synced)" by fastforce
  have long: "synced \<Longrightarrow> 564 \<le> length b"
    using sync
  proof (induction data rule: sync_buffer.induct)
    case (1 data)
    then show ?case by (subst (asm) (2) sync_buffer.simps) (auto simp: TS_PACKET_SIZE_def split: if_splits option.splits)
  qed
  show ?thesis
  proof (cases synced)
    case True
    obtain data' n where "descramble_ts_packets decrypt True d (take (length b div 188 * 188) b) = Some (data', Inr n)"
        "length data' = length (take (length b div 188 * 188) b)"
      using descramble_packets_total assms by blast
    moreover have "length b div 188 * 188 \<ge> 564" using div_le_mono [OF long [OF True], of 188] by simp
    moreover have "length (take (length b div 188 * 188) b) = length b div 188 * 188" by simp
    ultimately show ?thesis
      using True sync by (simp add: descramble_ts_stream_def TS_PACKET_SIZE_def del: length_take)
  qed (simp add: descramble_ts_stream_def sync)
qed

section \<open>The contract of an input\<close>

text \<open>
  What one step promises: it never panics, it appends to the channel what it accepts of the event, it counts these
  bytes, and it keeps the report to the server in step with its own flag.
\<close>

definition reported :: "input_state \<Rightarrow> bool" where
  "reported s \<longleftrightarrow> is_dirty (it_helper s) = it_dirty s
     \<and> (\<exists>ms n. he_api_tx (it_helper s) = Some ms \<and> commands ms = alternating n \<and> (odd n \<longleftrightarrow> it_dirty s))"

fun input_run :: "(nat \<Rightarrow> input_state \<Rightarrow> input_event \<Rightarrow> input_state option) \<Rightarrow> input_state \<Rightarrow> (nat \<times> input_event) list \<Rightarrow> input_state option" where
  "input_run step s [] = Some s"
| "input_run step s ((now, e) # es) = do { s \<leftarrow> step now s e; input_run step s es }"

fun run_accepted :: "(nat \<Rightarrow> input_state \<Rightarrow> input_event \<Rightarrow> input_state option) \<Rightarrow> (input_state \<Rightarrow> input_event \<Rightarrow> bytes)
    \<Rightarrow> input_state \<Rightarrow> (nat \<times> input_event) list \<Rightarrow> bytes" where
  "run_accepted step accepted s [] = []"
| "run_accepted step accepted s ((now, e) # es) =
     accepted s e @ (case step now s e of None \<Rightarrow> [] | Some s' \<Rightarrow> run_accepted step accepted s' es)"

locale input_loop =
  fixes step :: "nat \<Rightarrow> input_state \<Rightarrow> input_event \<Rightarrow> input_state option"
    and accepted :: "input_state \<Rightarrow> input_event \<Rightarrow> bytes"
  assumes step_plain: "it_biss s = None \<Longrightarrow> \<exists>s'. step now s e = Some s' \<and> it_biss s' = None
      \<and> concat (it_tx s') = concat (it_tx s) @ accepted s e
      \<and> (e \<noteq> TickStats \<longrightarrow> it_sent_bytes s' = it_sent_bytes s + length (accepted s e))"
    and step_reported: "reported s \<Longrightarrow> step now s e = Some s' \<Longrightarrow> reported s'"
begin

lemma run_plain:
  assumes "it_biss s = None"
  shows "\<exists>s'. input_run step s es = Some s' \<and> it_biss s' = None
      \<and> concat (it_tx s') = concat (it_tx s) @ run_accepted step accepted s es
      \<and> (TickStats \<notin> snd ` set es \<longrightarrow> it_sent_bytes s' = it_sent_bytes s + length (run_accepted step accepted s es))"
  using assms
proof (induction es arbitrary: s)
  case (Cons x es)
  obtain now e where x: "x = (now, e)" by fastforce
  obtain s1 where s1: "step now s e = Some s1" "it_biss s1 = None" "concat (it_tx s1) = concat (it_tx s) @ accepted s e"
      "e \<noteq> TickStats \<longrightarrow> it_sent_bytes s1 = it_sent_bytes s + length (accepted s e)"
    using step_plain [OF Cons.prems] by blast
  show ?case using Cons.IH [OF s1(2)] s1 by (auto simp: x)
qed simp

lemma run_reported: "reported s \<Longrightarrow> input_run step s es = Some s' \<Longrightarrow> reported s'"
proof (induction es arbitrary: s)
  case (Cons x es)
  then show ?case by (cases x) (auto simp: bind_eq_Some_conv dest: step_reported)
qed simp

end

section \<open>Every input keeps the contract\<close>

lemma reported_updates [simp]:
  "reported (s\<lparr>it_stats := a\<rparr>) = reported s" "reported (s\<lparr>it_tx := b\<rparr>) = reported s"
  "reported (s\<lparr>it_sent_bytes := c\<rparr>) = reported s" "reported (s\<lparr>it_err_count := d\<rparr>) = reported s"
  "reported (s\<lparr>it_rtp := f\<rparr>) = reported s" "reported (s\<lparr>it_phase := g\<rparr>) = reported s"
  "reported (s\<lparr>it_in_buff := h\<rparr>) = reported s" "reported (s\<lparr>it_last_chunk_at := i\<rparr>) = reported s"
  "reported (s\<lparr>it_next_tick := j\<rparr>) = reported s" "reported (to_phase g s) = reported s"
  by (simp_all add: reported_def to_phase_def)

lemma reported_log [simp]: "reported (on_helper (helper_log m) s) = reported s" "reported (on_helper (log_pause m) s) = reported s"
  by (cases "he_api_tx (it_helper s)"; simp add: reported_def on_helper_def status_defs log_pause_def)+

lemma reported_go_dirty: "reported s \<Longrightarrow> reported (go_dirty now m s)"
proof -
  assume "reported s"
  then obtain ms n where "is_dirty (it_helper s) = it_dirty s" "he_api_tx (it_helper s) = Some ms"
      "commands ms = alternating n" "odd n \<longleftrightarrow> it_dirty s"
    by (auto simp: reported_def)
  then show ?thesis
    by (cases "it_dirty s") (auto simp: reported_def go_dirty_def on_helper_def status_defs alternating_Suc
        intro: exI [of _ n] exI [of _ "Suc n"])
qed

lemma reported_came_back: "reported s \<Longrightarrow> reported (came_back s)"
proof -
  assume "reported s"
  then obtain ms n where "is_dirty (it_helper s) = it_dirty s" "he_api_tx (it_helper s) = Some ms"
      "commands ms = alternating n" "odd n \<longleftrightarrow> it_dirty s"
    by (auto simp: reported_def)
  then show ?thesis
    by (cases "it_dirty s") (auto simp: reported_def came_back_def on_helper_def status_defs Let_def alternating_Suc
        split: option.splits intro: exI [of _ n] exI [of _ "Suc n"])
qed

lemma reported_parts:
  assumes "reported s"
  shows "reported (stopped kind s)" "reported (connected now s)" "reported (count_error s)" "reported (tick_stats s)"
    "reported (idle now s)" "reported (fetch_failed now s)" "reported (forward now pkt s)" "reported (forward_chunks now pkt s)"
    "reported (hls_data pkt s)" "reported (stop_ffmpeg env now p s)"
  using assms
  by (simp_all add: stopped_def connected_def count_error_def tick_stats_def idle_def fetch_failed_def forward_def forward_chunks_def
      hls_data_def stop_ffmpeg_def Let_def split_beta reported_go_dirty reported_came_back split: child_end.split)

lemma reported_take_data:
  assumes "\<And>pkt s. reported s \<Longrightarrow> reported (send now pkt s)" "reported s" "take_data send env now data s = Some s'"
  shows "reported s'"
proof -
  obtain s1 res where un: "unscramble env s data = Some (s1, res)"
      and s': "s' = (case res of Inl e \<Rightarrow> to_phase Failed s1 | Inr None \<Rightarrow> s1 | Inr (Some pkt) \<Rightarrow> send now pkt s1)"
    using assms(3) by (auto simp: take_data_def bind_eq_Some_conv)
  have "reported s1"
    using un assms(2) by (cases res) (auto simp: unscramble_def bind_eq_Some_conv Let_def split: option.splits)
  then show ?thesis by (auto simp: s' assms(1) split: sum.split option.split)
qed

text \<open>A step whose parts all keep the report keeps it.\<close>

lemma reported_datagram:
  assumes "reported s" "datagram_step kind on_data now s e = Some s'"
    and "\<And>data s'. on_data data s = Some s' \<Longrightarrow> reported s'"
  shows "reported s'"
  using assms
  by (cases "it_phase s"; cases e) (auto simp: datagram_step_def reported_parts reported_go_dirty)

lemma remote_step_reported:
  assumes "reported s" "remote_step kind env now s e = Some s'"
  shows "reported s'"
proof (cases kind)
  case InHttp
  have "reported s'" if "http_data env now data s = Some s'" for data s'
    using that assms(1) by (auto simp: http_data_def bind_eq_Some_conv elim!: reported_take_data [rotated 2] intro: reported_parts split: if_splits)
  then show ?thesis
    using assms InHttp by (cases "it_phase s"; cases e) (auto simp: remote_step_def http_step_def reported_parts reported_go_dirty)
next
  case InUdp
  have "reported s'" if "udp_data env now data s = Some s'" for data s'
    using that assms(1) by (auto simp: udp_data_def elim!: reported_take_data [rotated 2] intro: reported_parts)
  then show ?thesis
    using reported_datagram [OF assms(1) assms(2) [unfolded remote_step_def InUdp input_kind.case udp_step_def]] by blast
next
  case InRtp
  have "reported s'" if "rtp_data env now data s = Some s'" for data s'
  proof -
    obtain rtp res where "rtp_unpack (it_rtp s) (take RTP_READ_CHUNK_SIZE data) = Some (rtp, res)"
      using rtp_unpack_no_panic [of "it_rtp s" "take RTP_READ_CHUNK_SIZE data"] by auto
    then show ?thesis
      using that assms(1) by (cases res) (auto simp: rtp_data_def elim!: reported_take_data [rotated 2] intro: reported_parts)
  qed
  then show ?thesis
    using reported_datagram [OF assms(1) assms(2) [unfolded remote_step_def InRtp input_kind.case rtp_step_def]] by blast
next
  case InHls
  then show ?thesis
    using assms by (cases "it_phase s"; cases e) (auto simp: remote_step_def hls_step_def reported_parts reported_go_dirty)
next
  case InFfmpeg
  then show ?thesis
    using assms by (cases "it_phase s"; cases e)
      (auto simp: remote_step_def ffmpeg_step_def ffmpeg_data_def reported_parts reported_go_dirty split: option.splits)
next
  case InUnix
  then show ?thesis
    using assms by (cases "it_phase s"; cases e)
      (auto simp: remote_step_def unix_step_def reported_parts reported_go_dirty elim!: reported_take_data [rotated 2] split: if_splits)
qed

text \<open>What an input without a key accepts of an event.\<close>

definition payload_of :: "input_kind \<Rightarrow> input_state \<Rightarrow> bytes \<Rightarrow> bytes" where
  "payload_of kind s data = (case kind of
       InUdp \<Rightarrow> take UDP_READ_CHUNK_SIZE data
     | InRtp \<Rightarrow> (case rtp_unpack (it_rtp s) (take RTP_READ_CHUNK_SIZE data) of Some (_, Inr payload) \<Rightarrow> payload | _ \<Rightarrow> [])
     | _ \<Rightarrow> data)"

definition accepted_bytes :: "input_kind \<Rightarrow> input_state \<Rightarrow> input_event \<Rightarrow> bytes" where
  "accepted_bytes kind s e = (if it_phase s = Receiving then case e of Data data \<Rightarrow> payload_of kind s data | _ \<Rightarrow> [] else [])"

definition plain_ok :: "input_state \<Rightarrow> bytes \<Rightarrow> input_state \<Rightarrow> bool" where
  "plain_ok s b s' \<longleftrightarrow> it_biss s' = it_biss s \<and> concat (it_tx s') = concat (it_tx s) @ b
     \<and> it_sent_bytes s' = it_sent_bytes s + length b"

lemma plain_parts [simp]:
  "plain_ok s [] s" "plain_ok s b (stopped k s') = plain_ok s b s'" "plain_ok s b (connected now s') = plain_ok s b s'"
  "plain_ok s b (count_error s') = plain_ok s b s'" "plain_ok s b (idle now s') = plain_ok s b s'"
  "plain_ok s b (fetch_failed now s') = plain_ok s b s'" "plain_ok s b (go_dirty now m s') = plain_ok s b s'"
  "plain_ok s b (on_helper f s') = plain_ok s b s'" "plain_ok s b (to_phase p s') = plain_ok s b s'"
  "plain_ok s b (stop_ffmpeg env now p s') = plain_ok s b s'"
  "plain_ok s b (s'\<lparr>it_phase := p\<rparr>) = plain_ok s b s'" "plain_ok s b (s'\<lparr>it_last_chunk_at := t\<rparr>) = plain_ok s b s'"
  "plain_ok s b (s'\<lparr>it_rtp := r\<rparr>) = plain_ok s b s'" "plain_ok s b (s'\<lparr>it_err_count := n\<rparr>) = plain_ok s b s'"
  by (simp_all add: plain_ok_def stopped_def connected_def count_error_def idle_def fetch_failed_def go_dirty_def on_helper_def
      to_phase_def stop_ffmpeg_def Let_def split: child_end.split)

lemma plain_sends [simp]:
  "plain_ok s d (forward now d s)" "plain_ok s d (forward_chunks now d s)" "plain_ok s d (hls_data d s)"
  using send_broadcast_chunks_sent [of "it_tx s" d]
  by (auto simp: plain_ok_def forward_def forward_chunks_def hls_data_def came_back_def on_helper_def Let_def)

lemma take_data_plain: "it_biss s = None \<Longrightarrow> take_data send env now data s = Some (send now data s)"
  by (simp add: take_data_def unscramble_def)

lemma rtp_data_plain:
  assumes "it_biss s = None"
  shows "\<exists>s'. rtp_data env now data s = Some s' \<and> plain_ok s (payload_of InRtp s data) s'"
proof -
  obtain rtp res where un: "rtp_unpack (it_rtp s) (take RTP_READ_CHUNK_SIZE data) = Some (rtp, res)"
    using rtp_unpack_no_panic [of "it_rtp s" "take RTP_READ_CHUNK_SIZE data"] by auto
  have "plain_ok s d (forward now d (s\<lparr>it_rtp := rtp\<rparr>))" for d
    using plain_sends(1) [of "s\<lparr>it_rtp := rtp\<rparr>" d now] by (simp add: plain_ok_def)
  with un assms show ?thesis
    by (cases res) (simp_all add: rtp_data_def payload_of_def take_data_plain)
qed

lemma remote_step_plain:
  assumes "it_biss s = None"
  shows "\<exists>s'. remote_step kind env now s e = Some s'
    \<and> (if e = TickStats then s' = s \<or> s' = tick_stats s else plain_ok s (accepted_bytes kind s e) s')"
proof (cases kind)
  case InHttp
  then show ?thesis
    using assms by (cases "it_phase s"; cases e)
      (simp_all add: remote_step_def http_step_def http_data_def take_data_plain accepted_bytes_def payload_of_def)
next
  case InUdp
  then show ?thesis
    using assms by (cases "it_phase s"; cases e)
      (simp_all add: remote_step_def udp_step_def datagram_step_def udp_data_def take_data_plain accepted_bytes_def payload_of_def)
next
  case InRtp
  then show ?thesis
    using assms rtp_data_plain [OF assms] by (cases "it_phase s"; cases e)
      (simp_all add: remote_step_def rtp_step_def datagram_step_def accepted_bytes_def)
next
  case InHls
  then show ?thesis
    by (cases "it_phase s"; cases e) (simp_all add: remote_step_def hls_step_def accepted_bytes_def payload_of_def)
next
  case InFfmpeg
  then show ?thesis
    by (cases "it_phase s"; cases e)
       (simp_all add: remote_step_def ffmpeg_step_def ffmpeg_data_def accepted_bytes_def payload_of_def split: option.split)
next
  case InUnix
  then show ?thesis
    using assms by (cases "it_phase s"; cases e)
      (simp_all add: remote_step_def unix_step_def take_data_plain accepted_bytes_def payload_of_def)
qed

interpretation inputs: input_loop "remote_step kind env" "accepted_bytes kind" for kind env
proof unfold_locales
  show "\<exists>s'. remote_step kind env now s e = Some s' \<and> it_biss s' = None \<and> concat (it_tx s') = concat (it_tx s) @ accepted_bytes kind s e
      \<and> (e \<noteq> TickStats \<longrightarrow> it_sent_bytes s' = it_sent_bytes s + length (accepted_bytes kind s e))"
    if "it_biss s = None" for s now e
    using remote_step_plain [OF that, of kind env now e] that
    by (auto simp: plain_ok_def tick_stats_def accepted_bytes_def split: if_splits)
  show "reported s'" if "reported s" "remote_step kind env now s e = Some s'" for s now e s'
    using remote_step_reported that by blast
qed


definition plain_env :: input_env where
  "plain_env = \<lparr>ie_decrypt = (\<lambda>_ d. d), ie_dvbcsa = False, ie_alloc_ok = True, ie_client_ok = True,
     ie_child = (\<lambda>_. ChildExited), ie_waited = (\<lambda>_. Aborted False)\<rparr>"

definition udp_start :: input_state where
  "udp_start = remote_new InUdp plain_env udp_stream (set_api_config (helper_new 5)) 0 0"

lemma udp_start_biss: "it_biss udp_start = None"
  by (simp add: udp_start_def remote_new_def plain_env_def udp_stream_def init_biss_def Let_def)




text \<open>A datagram that is no RTP packet of the session, from whomever it comes, ends an RTP input.\<close>

lemma stray_datagram_ends_rtp:
  assumes "it_phase s = Receiving" "length data < 12"
  shows "map_option it_phase (remote_step InRtp env now s (Data data)) = Some Failed"
  using assms by (simp add: remote_step_def rtp_step_def datagram_step_def rtp_data_def rtp_unpack_def RTP_READ_CHUNK_SIZE_def to_phase_def)

section \<open>The time limit of the read\<close>

text \<open>
  The timer of the statistics is due at the latest a second after the present, and then every second; the wait it ends takes the
  read with its limit of five seconds away.
\<close>

definition tick_near :: "nat \<Rightarrow> input_state \<Rightarrow> bool" where
  "tick_near now s \<longleftrightarrow> it_next_tick s \<le> now + SECOND"

definition silent :: "world \<Rightarrow> bool" where
  "silent w \<longleftrightarrow> wo_cancel w = None \<and> wo_read w = None \<and> wo_line w = None"

lemma SECOND_pos [simp]: "0 < SECOND" "SECOND < INPUT_TIMEOUT"
  by (simp_all add: SECOND_def INPUT_TIMEOUT_def)

lemma silent_turn:
  assumes "silent w" "it_phase s = Receiving" "tick_near now s"
  shows "input_turn kind env now s w = Some (max now (it_next_tick s), tick_stats s)"
proof -
  have "\<not> now + INPUT_TIMEOUT \<le> max now (it_next_tick s)"
    using assms(3) by (simp add: tick_near_def max_def SECOND_def INPUT_TIMEOUT_def)
  then show ?thesis
    using assms(1,2)
    by (cases kind) (simp_all del: le_max_iff_disj add: input_turn_def branches_def cancel_branch_def timed_read_def silent_def remote_step_def hls_step_def ffmpeg_step_def
        udp_step_def rtp_step_def datagram_step_def unix_step_def http_step_def)
qed

text \<open>
  A source that falls silent is never noticed: when an input of any kind is connected and no data, no error and no
  cancellation arrives, then after any number of waits it is still connected, has told nobody anything, and the time that
  has passed grows by a second with every wait; the limit of five seconds is never reached.
\<close>

theorem silent_source_unnoticed:
  assumes "it_phase s = Receiving" "tick_near now s" "\<forall>w \<in> set ws. silent w"
  shows "\<exists>now' s'. input_turns kind env now s ws = Some (now', s') \<and> it_phase s' = Receiving \<and> tick_near now' s'
    \<and> it_helper s' = it_helper s \<and> it_dirty s' = it_dirty s \<and> it_tx s' = it_tx s
    \<and> it_next_tick s + length ws * SECOND \<le> now' + SECOND"
  using assms
proof (induction ws arbitrary: now s)
  case (Cons w ws)
  let ?now = "max now (it_next_tick s)"
  have "input_turn kind env now s w = Some (?now, tick_stats s)" using silent_turn Cons.prems by simp
  moreover have "it_phase (tick_stats s) = Receiving" "tick_near ?now (tick_stats s)" "\<forall>w \<in> set ws. silent w"
    using Cons.prems by (simp_all add: tick_stats_def tick_near_def)
  note Cons.IH [OF this]
  ultimately show ?case by (auto simp: tick_stats_def algebra_simps)
qed (simp add: tick_near_def)

theorem silent_source_unnoticed_witness:
  "\<exists>now' s'. input_turns InUdp plain_env 0 (connected 0 udp_start)
      (replicate 60 \<lparr>wo_cancel = None, wo_connect = (0, Connected), wo_read = None, wo_line = None\<rparr>) = Some (now', s')
    \<and> it_phase s' = Receiving \<and> 59 * SECOND \<le> now' \<and> \<not> is_dirty (it_helper s')"
proof -
  let ?w = "\<lparr>wo_cancel = None, wo_connect = (0, Connected), wo_read = None, wo_line = None\<rparr>"
  have "it_phase (connected 0 udp_start) = Receiving" "tick_near 0 (connected 0 udp_start)" "\<forall>w \<in> set (replicate 60 ?w). silent w"
    "it_next_tick (connected 0 udp_start) = 0" "\<not> is_dirty (it_helper (connected 0 udp_start))"
    by (simp_all add: silent_def tick_near_def connected_def udp_start_def remote_new_def Let_def split_beta plain_env_def udp_stream_def init_biss_def
        set_namespace_def set_api_config_def helper_new_def log_play_def status_defs)
  from silent_source_unnoticed [OF this(1-3), of InUdp plain_env] this(4,5) show ?thesis by auto
qed

text \<open>Every turn keeps the timer near, so the limit is not reached in any run.\<close>

lemma earliest_in: "earliest b bs \<in> set (b # bs)"
  by (induction bs arbitrary: b) (auto split: if_splits)

lemma earliest_le: "c \<in> set (b # bs) \<Longrightarrow> fst (earliest b bs) \<le> fst c"
proof (induction bs arbitrary: b c)
  case (Cons d bs)
  note IH = Cons.IH [where b = "if fst b \<le> fst d then b else d"]
  have "fst (earliest b (d # bs)) \<le> fst (if fst b \<le> fst d then b else d)" using IH [of "if fst b \<le> fst d then b else d"] by simp
  then have "fst (earliest b (d # bs)) \<le> fst b" "fst (earliest b (d # bs)) \<le> fst d" by (auto split: if_splits)
  moreover have "fst (earliest b (d # bs)) \<le> fst c" if "c \<in> set bs" using IH [of c] that by simp
  ultimately show ?case using Cons.prems by auto
qed simp

lemma cancel_snd: "x \<in> set (cancel_branch now w) \<Longrightarrow> snd x = Cancelled"
  by (cases "wo_cancel w") (simp_all add: cancel_branch_def)

lemma branches_outside:
  assumes "x \<in> set (branches kind now s w)"
  shows "it_phase s = Receiving \<or> snd x = Cancelled \<or> snd x = snd (wo_connect w) \<or> snd x = SleepOver"
  using assms by (cases "it_phase s"; simp only: branches_def input_phase.case set_append Un_iff list.set insert_iff empty_iff
      if_distrib [where f = set] snd_conv simp_thms split: if_splits) (metis cancel_snd snd_conv)+

lemma no_timeout:
  assumes "tick_near now s" "branches kind now s w = b # bs" "earliest b bs = (t, Elapsed)"
    and "Some Elapsed \<noteq> map_option snd (wo_read w)" "snd (wo_connect w) \<noteq> Elapsed"
  shows False
proof -
  have mem: "(t, Elapsed) \<in> set (branches kind now s w)"
    using earliest_in [of b bs] assms(2,3) by simp
  have cancel: "(t, Elapsed) \<notin> set (cancel_branch now w)"
    by (simp add: cancel_branch_def split: option.split)
  have phase: "it_phase s = Receiving"
    using branches_outside [OF mem] assms(5) by auto
  have "(t, Elapsed) = timed_read now w"
    using mem cancel assms(4)
    by (cases "kind = InHls"; cases "wo_read w"; cases "kind = InFfmpeg"; cases "wo_line w")
       (simp_all only: branches_def phase input_phase.case set_append Un_iff list.set insert_iff empty_iff if_True if_False
          option.case option.map option.inject case_prod_beta prod.inject input_event.distinct simp_thms input_kind.distinct)
  moreover from this have "t = now + INPUT_TIMEOUT"
    using assms(4) by (auto simp: timed_read_def split: option.splits if_splits)
  moreover have "t \<le> max now (it_next_tick s)"
  proof -
    have "(max now (it_next_tick s), TickStats) \<in> set (b # bs)"
      unfolding assms(2) [symmetric] by (simp only: branches_def phase input_phase.case set_append Un_iff list.set insert_iff simp_thms)
    from earliest_le [OF this] show ?thesis by (simp add: assms(3))
  qed
  ultimately show False using assms(1) by (auto simp: tick_near_def INPUT_TIMEOUT_def SECOND_def)
qed

text \<open>
  When the error stream of the process has ended, its branch is ready at every wait and is polled before the timer of the
  statistics: the loop turns without end and the bit rate stands still.
\<close>

lemma ffmpeg_spins:
  assumes "it_phase s = Receiving" "wo_cancel w = None" "wo_read w = None" "wo_line w = Some (0, None)"
  shows "input_turn InFfmpeg env now s w = Some (now, s)"
  using assms
  by (simp add: input_turn_def branches_def cancel_branch_def timed_read_def remote_step_def ffmpeg_step_def INPUT_TIMEOUT_def SECOND_def)

end
