(* ===== verification/Outputs.thy ===== *)
theory Outputs
  imports Mux_Props Rtp Workers
begin

text \<open>
  The output tasks of a worker: \<open>workers/output_udp.rs\<close>, \<open>output_rtp.rs\<close>, \<open>output_http.rs\<close> and \<open>output_unix.rs\<close>. Each is a
  loop around a packet handler. The state between two waits of the loop is a record, an event is what a wait ends with; the
  results of sending, the clock and the random number of RTP come with the event. What the handler tells its helper
  is in the handler, what the loop tells it is in the state.
\<close>

section \<open>State and events\<close>

definition CONNECTIONS_REPEAT :: usize where "CONNECTIONS_REPEAT = 3"

datatype output_msg =
    OutRunning output_kind rstring
  | OutStopping output_kind
  | CalculatingBitrate
  | SetBitrate u64
  | BitrateIsZero
  | OutLagged output_kind nat
  | OutReceiveFailed output_kind
  | OutSendFailed output_kind
  | SendBufferSize nat
  | SendBufferFailed
  | MulticastFailed
  | OutConnectFailed
  | NoConnection
  | ListenFailed
  | ListenStopping output_kind
  | NewConnection nat
  | ConnectionClosing nat
  | ConnectionFailed nat
  | AcceptFailed
  | ClientGone
  | ForcedShutdown
  | SocketFileLeft

datatype output_call = OLog output_msg | OInfo output_msg | OWarn output_msg | OPause output_msg | OPlay output_msg
  | OMarkDirty output_msg | OCmdMarkDirty

datatype output_phase = Probing | Opening | Sending | Finished

record output_state =
  ou_handler :: packet_handler
  ou_calls :: "output_call list"
  ou_out :: "bytes list"
  ou_rtp :: rtp_state
  ou_sent_bytes :: usize
  ou_time_ns :: u64
  ou_phase :: output_phase
  ou_cancelled :: bool

text \<open>One try of opening a socket; the size of its buffer is logged when it can be read.\<close>

datatype open_attempt = BindError | SetBufferError | MulticastError "nat option" | ConnectError "nat option" | Opened "nat option"

text \<open>
  A chunk comes with the time, and with what the sends it leads to give: the \<open>k\<close>-th send of the task has a time and a random number
  for the RTP header, and the number of bytes sent or an error; for a channel it is the number of receivers besides the one the
  task keeps.
\<close>

record sends =
  sd_elapsed :: "nat \<Rightarrow> nat"
  sd_random :: "nat \<Rightarrow> u32"
  sd_result :: "nat \<Rightarrow> usize option"
  sd_receivers :: "nat \<Rightarrow> nat"

datatype output_event =
    OCancelled | OOpened "nat \<Rightarrow> open_attempt" | OListening bool | OTimer sends | OStats
  | OChunk int bytes sends | OLagged nat | OClosed

section \<open>Parts the loops share\<close>

definition call :: "output_call \<Rightarrow> output_state \<Rightarrow> output_state" where
  "call c s = s\<lparr>ou_calls := ou_calls s @ [c]\<rparr>"

definition finish :: "output_state \<Rightarrow> output_state" where
  "finish s = s\<lparr>ou_phase := Finished\<rparr>"

text \<open>An error of the loop: \<open>output\<close> writes it down, the one of \<open>output_rtp.rs\<close> without telling the server.\<close>

definition finish_error :: "output_kind \<Rightarrow> output_msg \<Rightarrow> output_state \<Rightarrow> output_state" where
  "finish_error kind msg s = finish (call (if kind = OutRtp then OLog msg else OWarn msg) s)"

definition output_stats_tick :: "output_state \<Rightarrow> output_state" where
  "output_stats_tick s =
    (let h = update_stats (ou_handler s);
         h = on_stats (\<lambda>st. update_bitrate st (of_nat (ou_sent_bytes s) * 8)) h
     in s\<lparr>ou_handler := h, ou_sent_bytes := 0\<rparr>)"

definition on_write :: "mux_env \<Rightarrow> int \<Rightarrow> bytes \<Rightarrow> output_state \<Rightarrow> output_state option" where
  "on_write env now chunk s = do { h \<leftarrow> ph_write (env\<lparr>e_now := now\<rparr>) (ou_handler s) chunk; Some (s\<lparr>ou_handler := h\<rparr>) }"

definition buffer_size_call :: "nat option \<Rightarrow> output_call list" where
  "buffer_size_call n = (case n of None \<Rightarrow> [] | Some n \<Rightarrow> [OLog (SendBufferSize n)])"

fun try_open :: "open_attempt list \<Rightarrow> output_call list \<times> output_msg option" where
  "try_open [] = ([], Some NoConnection)"
| "try_open (BindError # attempts) = try_open attempts"
| "try_open (SetBufferError # attempts) = ([], Some SendBufferFailed)"
| "try_open (MulticastError n # attempts) = (buffer_size_call n, Some MulticastFailed)"
| "try_open (ConnectError n # attempts) = (buffer_size_call n @ [OLog OutConnectFailed], Some OutConnectFailed)"
| "try_open (Opened n # attempts) = (buffer_size_call n, None)"

definition out_connect :: "(nat \<Rightarrow> open_attempt) \<Rightarrow> output_call list \<times> output_msg option" where
  "out_connect attempts = try_open (map attempts [0..<CONNECTIONS_REPEAT])"

definition opened :: "output_kind \<Rightarrow> (nat \<Rightarrow> open_attempt) \<Rightarrow> output_state \<Rightarrow> output_state" where
  "opened kind attempts s =
    (let (calls, err) = out_connect attempts;
         s = s\<lparr>ou_calls := ou_calls s @ calls\<rparr>
     in case err of None \<Rightarrow> s\<lparr>ou_phase := Sending\<rparr> | Some msg \<Rightarrow> finish_error kind msg s)"

section \<open>Constant bit rate: udp and rtp\<close>

text \<open>The time between two datagrams. A timer of zero panics.\<close>

definition cbr_time_ns :: "u16 \<Rightarrow> u64 \<Rightarrow> u64" where
  "cbr_time_ns pkt_size bitrate = 1000000000 * ucast pkt_size * 8 div bitrate"

definition to_pacing :: "output_kind \<Rightarrow> u64 \<Rightarrow> output_state \<Rightarrow> output_state option" where
  "to_pacing kind bitrate s =
    (if bitrate = 0 then Some (finish_error kind BitrateIsZero s)
     else let time_ns = cbr_time_ns (get_pkt_size (ou_handler s)) bitrate
          in if time_ns = 0 then None else Some (s\<lparr>ou_time_ns := time_ns, ou_phase := Opening\<rparr>))"

text \<open>The messages of this loop name udp in both files.\<close>

definition probing_step :: "output_kind \<Rightarrow> mux_env \<Rightarrow> output_state \<Rightarrow> output_event \<Rightarrow> output_state option" where
  "probing_step kind env s e = (case e of
       OCancelled \<Rightarrow> to_pacing kind 0 (call (OInfo (SetBitrate 0)) (call (OPause (OutStopping OutUdp)) s))
     | OChunk now chunk _ \<Rightarrow> do {
         s \<leftarrow> on_write env now chunk s;
         let bitrate = (case get_bitrate (ou_handler s) of None \<Rightarrow> 0 | Some b \<Rightarrow> b);
         if bitrate = 0 then Some s else to_pacing kind bitrate (call (OInfo (SetBitrate bitrate)) s) }
     | OLagged n \<Rightarrow> Some (call (OWarn (OutLagged OutUdp n)) s)
     | OClosed \<Rightarrow> Some (call (OWarn (OutReceiveFailed OutUdp)) s)
     | _ \<Rightarrow> Some s)"

definition cbr_begin :: "output_kind \<Rightarrow> output_state \<Rightarrow> output_state option" where
  "cbr_begin kind s =
    (let bitrate = (case get_bitrate (ou_handler s) of None \<Rightarrow> 0 | Some b \<Rightarrow> b)
     in if bitrate = 0 then Some (call (OInfo CalculatingBitrate) (s\<lparr>ou_phase := Probing\<rparr>)) else to_pacing kind bitrate s)"

text \<open>The datagram of a packet; the number of sends so far selects the results.\<close>

definition udp_wrap :: "rtp_state \<Rightarrow> nat \<Rightarrow> u32 \<Rightarrow> bytes \<Rightarrow> rtp_state \<times> bytes" where
  "udp_wrap rtp elapsed random pkt = (rtp, pkt)"

definition cbr_timer :: "output_kind \<Rightarrow> (rtp_state \<Rightarrow> nat \<Rightarrow> u32 \<Rightarrow> bytes \<Rightarrow> rtp_state \<times> bytes) \<Rightarrow> sends \<Rightarrow> output_state \<Rightarrow> output_state option" where
  "cbr_timer kind wrap sd s = do {
     (h, out) \<leftarrow> flush_packet_for_cbr (ou_handler s);
     let s = s\<lparr>ou_handler := h\<rparr>;
     Some (case out of None \<Rightarrow> s
       | Some pkt \<Rightarrow>
           let k = length (ou_out s);
               (rtp, datagram) = wrap (ou_rtp s) (sd_elapsed sd k) (sd_random sd k) pkt;
               s = s\<lparr>ou_rtp := rtp\<rparr>
           in case sd_result sd k of
                Some i \<Rightarrow> s\<lparr>ou_sent_bytes := ou_sent_bytes s + i, ou_out := ou_out s @ [datagram]\<rparr>
              | None \<Rightarrow> finish (call (OWarn (OutSendFailed kind)) s)) }"

definition cbr_step :: "output_kind \<Rightarrow> (rtp_state \<Rightarrow> nat \<Rightarrow> u32 \<Rightarrow> bytes \<Rightarrow> rtp_state \<times> bytes) \<Rightarrow> mux_env \<Rightarrow> output_state \<Rightarrow> output_event \<Rightarrow> output_state option" where
  "cbr_step kind wrap env s e =
    (case ou_phase s of
       Probing \<Rightarrow> probing_step kind env s e
     | Opening \<Rightarrow> Some (case e of OOpened attempts \<Rightarrow> opened kind attempts s | _ \<Rightarrow> s)
     | Sending \<Rightarrow> (case e of
           OCancelled \<Rightarrow> Some (finish (call (OPause (OutStopping kind)) s))
         | OTimer sd \<Rightarrow> cbr_timer kind wrap sd s
         | OStats \<Rightarrow> Some (output_stats_tick s)
         | OChunk now chunk _ \<Rightarrow> on_write env now chunk s
         | OLagged n \<Rightarrow> Some (call (OWarn (OutLagged kind n)) s)
         | OClosed \<Rightarrow> Some (call (OWarn (OutReceiveFailed kind)) s)
         | _ \<Rightarrow> Some s)
     | Finished \<Rightarrow> Some s)"

definition udp_cbr :: "mux_env \<Rightarrow> output_state \<Rightarrow> output_event \<Rightarrow> output_state option" where
  "udp_cbr env s e = cbr_step OutUdp udp_wrap env s e"

definition rtp_cbr :: "mux_env \<Rightarrow> output_state \<Rightarrow> output_event \<Rightarrow> output_state option" where
  "rtp_cbr env s e = cbr_step OutRtp rtp_pack env s e"

section \<open>Proxy: udp and rtp\<close>

text \<open>The closure that sends for the handler: a failed send cancels the task, which its next wait sees.\<close>

record sender =
  sn_rtp :: rtp_state
  sn_out :: "bytes list"
  sn_cancelled :: bool

definition proxy_sender :: "(rtp_state \<Rightarrow> nat \<Rightarrow> u32 \<Rightarrow> bytes \<Rightarrow> rtp_state \<times> bytes) \<Rightarrow> sends \<Rightarrow> sender \<Rightarrow> bytes \<Rightarrow> sender \<times> usize option" where
  "proxy_sender wrap sd sn pkt =
    (let k = length (sn_out sn);
         (rtp, datagram) = wrap (sn_rtp sn) (sd_elapsed sd k) (sd_random sd k) pkt;
         sn = sn\<lparr>sn_rtp := rtp\<rparr>
     in case sd_result sd k of
          Some i \<Rightarrow> (sn\<lparr>sn_out := sn_out sn @ [datagram]\<rparr>, Some i)
        | None \<Rightarrow> (sn\<lparr>sn_cancelled := True\<rparr>, None))"

definition proxy_chunk :: "(sender \<Rightarrow> bytes \<Rightarrow> sender \<times> usize option) \<Rightarrow> mux_env \<Rightarrow> bytes \<Rightarrow> output_state \<Rightarrow> output_state option" where
  "proxy_chunk handler env chunk s = do {
     let sn = \<lparr>sn_rtp = ou_rtp s, sn_out = ou_out s, sn_cancelled = ou_cancelled s\<rparr>;
     (h, sn, n) \<leftarrow> proxy_packet env handler (ou_handler s) sn chunk;
     Some (s\<lparr>ou_handler := h, ou_rtp := sn_rtp sn, ou_out := sn_out sn, ou_cancelled := sn_cancelled sn,
             ou_sent_bytes := ou_sent_bytes s + n\<rparr>) }"

definition proxy_step :: "output_kind \<Rightarrow> (rtp_state \<Rightarrow> nat \<Rightarrow> u32 \<Rightarrow> bytes \<Rightarrow> rtp_state \<times> bytes) \<Rightarrow> mux_env \<Rightarrow> output_state \<Rightarrow> output_event \<Rightarrow> output_state option" where
  "proxy_step kind wrap env s e =
    (case ou_phase s of
       Opening \<Rightarrow> Some (case e of OOpened attempts \<Rightarrow> opened kind attempts s | _ \<Rightarrow> s)
     | Sending \<Rightarrow> (case e of
           OCancelled \<Rightarrow> Some (finish (call (OPause (OutStopping kind)) s))
         | OStats \<Rightarrow> Some (output_stats_tick s)
         | OChunk now chunk sd \<Rightarrow> proxy_chunk (proxy_sender wrap sd) (env\<lparr>e_now := now\<rparr>) chunk s
         | OLagged n \<Rightarrow> Some (call (OLog (OutLagged kind n)) s)
         | OClosed \<Rightarrow> Some (call (OLog (OutReceiveFailed kind)) s)
         | _ \<Rightarrow> Some s)
     | _ \<Rightarrow> Some s)"

definition udp_proxy :: "mux_env \<Rightarrow> output_state \<Rightarrow> output_event \<Rightarrow> output_state option" where
  "udp_proxy env s e = proxy_step OutUdp udp_wrap env s e"

definition rtp_proxy :: "mux_env \<Rightarrow> output_state \<Rightarrow> output_event \<Rightarrow> output_state option" where
  "rtp_proxy env s e = proxy_step OutRtp rtp_pack env s e"

section \<open>Draining the handler\<close>

text \<open>
  The http and the unix output flush the handler until it has nothing more. That this ends: a flush either takes a packet out of
  the buffers or sends a table that was due, and a table that has just been sent is not due again while the clock of the
  stream stands.
\<close>

definition due_tables :: "packet_handler \<Rightarrow> nat" where
  "due_tables h = length (filter (\<lambda>b. b)
     [ph_pat_ready h \<and> psi_due (current_pcr h) (ut_insert_pat (ph_timers h)) PERIOD_PAT_MS \<noteq> None,
      ph_pmt_ready h \<and> psi_due (current_pcr h) (ut_insert_pmt (ph_timers h)) PERIOD_PMT_MS \<noteq> None,
      ph_sdt_ready h \<and> psi_due (current_pcr h) (ut_insert_sdt (ph_timers h)) PERIOD_SDT_MS \<noteq> None])"

lemma not_due_again:
  "psi_due (Some p) (Some p) PERIOD_PAT_MS = None" "psi_due (Some p) (Some p) PERIOD_PMT_MS = None"
  "psi_due (Some p) (Some p) PERIOD_SDT_MS = None"
proof -
  have "\<not> pcr_after p (pcr_add p l)" if "uint l = 2700000 \<or> uint l = 27000000" for l
  proof -
    have "(uint p - uint (pcr_add p l)) mod 2576980377600 = (- uint l) mod 2576980377600"
      by (simp add: uint_pcr_add mod_simps)
    then show ?thesis unfolding pcr.after_iff using that by auto
  qed
  then show "psi_due (Some p) (Some p) PERIOD_PAT_MS = None" "psi_due (Some p) (Some p) PERIOD_PMT_MS = None"
    "psi_due (Some p) (Some p) PERIOD_SDT_MS = None"
    by (simp_all add: psi_due_def PERIOD_PAT_MS_def PERIOD_PMT_MS_def PERIOD_SDT_MS_def)
qed

lemma flush_table_due:
  "flush_pat h pcr out n = Some (h', out', n') \<Longrightarrow> (h', out', n') \<noteq> (h, out, n) \<Longrightarrow>
     \<exists>p pat. ph_pat_ready h \<and> n' = n + 1 \<and> psi_due pcr (ut_insert_pat (ph_timers h)) PERIOD_PAT_MS = Some p
       \<and> h' = h\<lparr>ph_timers := (ph_timers h)\<lparr>ut_insert_pat := Some p\<rparr>, ph_pat := pat\<rparr>"
  "flush_pmt h pcr out n = Some (h', out', n') \<Longrightarrow> (h', out', n') \<noteq> (h, out, n) \<Longrightarrow>
     \<exists>p pmt. ph_pmt_ready h \<and> n = 0 \<and> n' = 1 \<and> psi_due pcr (ut_insert_pmt (ph_timers h)) PERIOD_PMT_MS = Some p
       \<and> h' = h\<lparr>ph_timers := (ph_timers h)\<lparr>ut_insert_pmt := Some p\<rparr>, ph_pmt := pmt\<rparr>"
  "flush_sdt h pcr out n = Some (h', out', n') \<Longrightarrow> (h', out', n') \<noteq> (h, out, n) \<Longrightarrow>
     \<exists>p sdt. ph_sdt_ready h \<and> n = 0 \<and> n' = 1 \<and> psi_due pcr (ut_insert_sdt (ph_timers h)) PERIOD_SDT_MS = Some p
       \<and> h' = h\<lparr>ph_timers := (ph_timers h)\<lparr>ut_insert_sdt := Some p\<rparr>, ph_sdt := sdt\<rparr>"
  by (auto simp: flush_pat_def flush_pmt_def flush_sdt_def Let_def bind_eq_Some_conv split: if_splits option.splits)

lemma flush_table_one:
  "flush_pmt h pcr out 1 = Some (h', out', n') \<Longrightarrow> h' = h \<and> n' = 1"
  "flush_sdt h pcr out 1 = Some (h', out', n') \<Longrightarrow> h' = h \<and> n' = 1"
  by (simp_all add: flush_pmt_def flush_sdt_def)

lemma psi_due_now: "psi_due pcr ins period = Some p \<Longrightarrow> pcr = Some p"
  by (auto simp: psi_due_def split: option.splits if_splits)

lemma current_pcr_frame [simp]:
  "current_pcr (h\<lparr>ph_timers := t\<rparr>) = current_pcr h" "current_pcr (h\<lparr>ph_pat := a\<rparr>) = current_pcr h"
  "current_pcr (h\<lparr>ph_pmt := a\<rparr>) = current_pcr h" "current_pcr (h\<lparr>ph_sdt := a\<rparr>) = current_pcr h"
  "current_pcr (h\<lparr>ph_count_psi_packets := k\<rparr>) = current_pcr h"
  by (simp_all add: current_pcr_def)

lemma buffered_frame [simp]:
  "buffered (h\<lparr>ph_timers := t\<rparr>) = buffered h" "buffered (h\<lparr>ph_pat := a\<rparr>) = buffered h"
  "buffered (h\<lparr>ph_pmt := a\<rparr>) = buffered h" "buffered (h\<lparr>ph_sdt := a\<rparr>) = buffered h"
  "buffered (h\<lparr>ph_count_psi_packets := k\<rparr>) = buffered h" "buffered (h\<lparr>ph_count_payload_packets := k\<rparr>) = buffered h"
  "buffered (h\<lparr>ph_pcr_restamper := r\<rparr>) = buffered h" "buffered (h\<lparr>ph_frame_buff := b\<rparr>) = buffered h"
  by (simp_all add: buffered_def)

lemma flush_psi_due:
  assumes "flush_psi_packets h out = Some (h', out', n)"
  shows "h' = h \<and> out' = out \<and> n = 0 \<or> buffered h' = buffered h \<and> due_tables (count_psi h' n) < due_tables h"
proof -
  let ?pcr = "current_pcr h"
  obtain h1 o1 n1 h2 o2 n2 where f1: "flush_pat h ?pcr out 0 = Some (h1, o1, n1)"
      and f2: "flush_pmt h1 ?pcr o1 n1 = Some (h2, o2, n2)" and f3: "flush_sdt h2 ?pcr o2 n2 = Some (h', out', n)"
    using assms by (auto simp: flush_psi_packets_def Let_def bind_eq_Some_conv)
  note less = due_tables_def count_psi_def not_due_again
  show ?thesis
  proof (cases "(h1, o1, n1) = (h, out, 0)")
    case False
    obtain p x where pat: "ph_pat_ready h" "n1 = 0 + 1" "psi_due ?pcr (ut_insert_pat (ph_timers h)) PERIOD_PAT_MS = Some p"
        "h1 = h\<lparr>ph_timers := (ph_timers h)\<lparr>ut_insert_pat := Some p\<rparr>, ph_pat := x\<rparr>"
      using flush_table_due(1) [OF f1 False] by iprover
    have "h2 = h1 \<and> n2 = 1" using f2 pat(2) flush_table_one(1) by simp
    then have "h' = h1" using f3 flush_table_one(2) by simp
    with psi_due_now [OF pat(3)] pat show ?thesis by (intro disjI2 conjI) (simp_all add: less)
  next
    case True
    then have f2: "flush_pmt h ?pcr out 0 = Some (h2, o2, n2)" using f2 by simp
    show ?thesis
    proof (cases "(h2, o2, n2) = (h, out, 0)")
      case False
      obtain p x where pmt: "ph_pmt_ready h" "n2 = 1" "psi_due ?pcr (ut_insert_pmt (ph_timers h)) PERIOD_PMT_MS = Some p"
          "h2 = h\<lparr>ph_timers := (ph_timers h)\<lparr>ut_insert_pmt := Some p\<rparr>, ph_pmt := x\<rparr>"
        using flush_table_due(2) [OF f2 False] by iprover
      have "h' = h2" using f3 pmt(2) flush_table_one(2) by simp
      with psi_due_now [OF pmt(3)] pmt show ?thesis by (intro disjI2 conjI) (simp_all add: less)
    next
      case True
      then have f3: "flush_sdt h ?pcr out 0 = Some (h', out', n)" using f3 by simp
      show ?thesis
      proof (cases "(h', out', n) = (h, out, 0)")
        case False
        obtain p x where sdt: "ph_sdt_ready h" "psi_due ?pcr (ut_insert_sdt (ph_timers h)) PERIOD_SDT_MS = Some p"
            "h' = h\<lparr>ph_timers := (ph_timers h)\<lparr>ut_insert_sdt := Some p\<rparr>, ph_sdt := x\<rparr>"
          using flush_table_due(3) [OF f3 False] by iprover
        with psi_due_now [OF sdt(2)] show ?thesis by (intro disjI2 conjI) (simp_all add: less)
      qed simp
    qed
  qed
qed

lemma get_a_or_v_buffered: "get_a_or_v h = (h', Some p) \<Longrightarrow> buffered h' < buffered h"
  using getter_pop_decreases [of h]
  by (cases "ob_front (ph_out_buff_v h)"; cases "ob_front (ph_out_buff_a h)") (auto simp: get_a_or_v_def split: if_splits)

lemma vbr_loop_buffered:
  "vbr_loop n h out pcr = (h', out', pcr') \<Longrightarrow> h' = h \<and> out' = out \<and> pcr' = pcr \<or> buffered h' < buffered h"
proof (induction n arbitrary: h out pcr)
  case (Suc n)
  obtain h1 r where get: "get_a_or_v h = (h1, r)" by fastforce
  show ?case
  proof (cases r)
    case None
    then show ?thesis using Suc.prems get getter_not_taken(1) [of h h1] by simp
  next
    case (Some p)
    have "buffered h1 < buffered h" using get_a_or_v_buffered get Some by simp
    moreover have "h' = h1\<lparr>ph_count_payload_packets := ph_count_payload_packets h1 + 1\<rparr> \<or> buffered h' < buffered h1"
      using Suc.prems get Some Suc.IH by (fastforce simp: Let_def)
    ultimately show ?thesis by auto
  qed
qed simp

lemma vbr_loop_output: "vbr_loop n h out pcr = (h', out', pcr') \<Longrightarrow> ph_output h' = ph_output h"
  by (induction n arbitrary: h out pcr)
     (auto simp: Let_def taken_def dest!: getter_taken getter_not_taken split: prod.splits option.splits)

lemma flush_psi_output: "flush_psi_packets h out = Some (h', out', n) \<Longrightarrow> ph_output h' = ph_output h"
  by (auto simp: table_sent_def dest!: flush_psi_cases)

lemma flush_vbr_frame:
  assumes "flush_packet_for_vbr h = Some (h', r)"
  shows "ph_frame_buff h' = ph_frame_buff h \<and> ph_output h' = ph_output h"
proof (cases "ph_is_dirty h \<or> \<not> ph_is_ready h")
  case True
  then show ?thesis using assms flush_gate(2) [of h] by simp
next
  case False
  obtain h1 out n where psi: "flush_psi_packets h [] = Some (h1, out, n)"
    using assms False by (auto simp: flush_packet_for_vbr_def Let_def bind_eq_Some_conv)
  define h2 where "h2 = (if 0 < n then count_psi h1 n else h1)"
  define k where "k = unat (get_pkt_size h) div TS_PACKET_SIZE - n"
  obtain h3 out' pcr where loop: "vbr_loop k h2 out None = (h3, out', pcr)"
    using prod_cases3 by blast
  have "ph_frame_buff h3 = ph_frame_buff h" "ph_output h3 = ph_output h"
    using vbr_loop_frame_buff [OF loop] flush_psi_frame_buff [OF psi] vbr_loop_output [OF loop] flush_psi_output [OF psi]
    by (simp_all add: h2_def count_psi_def)
  then show ?thesis
    using assms False psi loop
    by (auto simp: flush_packet_for_vbr_def h2_def k_def split: if_splits option.splits)
qed

text \<open>The order that every flush descends.\<close>

definition flush_order :: "(packet_handler \<times> packet_handler) set" where
  "flush_order = measures [buffered, due_tables]"

lemma wf_flush_order [simp]: "wf flush_order"
  by (simp add: flush_order_def)

lemma flush_orderI: "buffered h' < buffered h \<Longrightarrow> (h', h) \<in> flush_order"
    "buffered h' = buffered h \<Longrightarrow> due_tables h' < due_tables h \<Longrightarrow> (h', h) \<in> flush_order"
  by (simp_all add: flush_order_def)

lemma flush_vbr_descends:
  assumes "flush_packet_for_vbr h = Some (h', Some pkt)"
  shows "(h', h) \<in> flush_order"
proof -
  obtain h1 out n where psi: "flush_psi_packets h [] = Some (h1, out, n)"
    using assms by (auto simp: flush_packet_for_vbr_def Let_def bind_eq_Some_conv split: if_splits)
  define h2 where "h2 = (if 0 < n then count_psi h1 n else h1)"
  define k where "k = unat (get_pkt_size h) div TS_PACKET_SIZE - n"
  obtain h3 out' pcr where loop: "vbr_loop k h2 out None = (h3, out', pcr)"
    using prod_cases3 by blast
  define h4 where "h4 = (case (pcr, ph_pcr_restamper h3) of
     (Some pcr, Some r) \<Rightarrow> h3\<lparr>ph_pcr_restamper := Some (r\<lparr>r_first_pcr_value := Some pcr\<rparr>)\<rparr> | _ \<Rightarrow> h3)"
  have h': "h' = h4" "out' \<noteq> []"
    using assms psi loop
    by (auto simp: flush_packet_for_vbr_def h2_def k_def h4_def split: if_splits option.splits)
  have bufs: "buffered h4 = buffered h3" "buffered h2 = buffered h1"
    by (simp_all add: h4_def h2_def count_psi_def split: option.split)
  from vbr_loop_buffered [OF loop] show ?thesis
  proof
    assume same: "h3 = h2 \<and> out' = out \<and> pcr = None"
    then have "n \<noteq> 0 \<and> buffered h1 = buffered h \<and> due_tables (count_psi h1 n) < due_tables h"
      using flush_psi_due [OF psi] h'(2) flush_psi_cases [OF psi] by auto
    then show ?thesis using same bufs by (auto simp: h'(1) h4_def h2_def intro: flush_orderI)
  next
    assume "buffered h3 < buffered h2"
    moreover have "buffered h1 = buffered h" using flush_psi_due [OF psi] by auto
    ultimately show ?thesis using bufs by (auto simp: h'(1) intro: flush_orderI)
  qed
qed

lemma due_tables_frame [simp]: "due_tables (h\<lparr>ph_frame_buff := b\<rparr>) = due_tables h"
  by (simp add: due_tables_def current_pcr_def)

lemma flush_order_frame [simp]: "(h\<lparr>ph_frame_buff := b\<rparr>, h') \<in> flush_order \<longleftrightarrow> (h, h') \<in> flush_order"
    "(h', h\<lparr>ph_frame_buff := b\<rparr>) \<in> flush_order \<longleftrightarrow> (h', h) \<in> flush_order"
  by (simp_all add: flush_order_def)

lemma flush_order_trans: "(h1, h2) \<in> flush_order \<Longrightarrow> (h2, h3) \<in> flush_order \<Longrightarrow> (h1, h3) \<in> flush_order"
  by (auto simp: flush_order_def)

lemma flush_frame_loop_descends:
  "flush_frame_loop h = Some h' \<Longrightarrow> h' = h \<and> FRAME_BUFFER_SIZE \<le> length (ph_frame_buff h) \<or> (h', h) \<in> flush_order
     \<or> length (ph_frame_buff h') < FRAME_BUFFER_SIZE"
proof (induction h rule: flush_frame_loop.induct)
  case (1 h)
  show ?case
  proof (cases "length (ph_frame_buff h) < FRAME_BUFFER_SIZE")
    case True
    then obtain h1 r where vbr: "flush_packet_for_vbr h = Some (h1, r)"
      using 1(2) by (auto simp: flush_frame_loop.simps [of h] split: option.splits)
    show ?thesis
    proof (cases r)
      case None
      then show ?thesis
        using True vbr 1(2) flush_vbr_frame [OF vbr] by (simp add: flush_frame_loop.simps [of h])
    next
      case (Some pkt)
      let ?h = "h1\<lparr>ph_frame_buff := ph_frame_buff h1 @ pkt\<rparr>"
      have "(?h, h) \<in> flush_order" using flush_vbr_descends vbr Some by simp
      moreover have "h' = ?h \<or> (h', ?h) \<in> flush_order \<or> length (ph_frame_buff h') < FRAME_BUFFER_SIZE"
        using 1(1) [OF True vbr [unfolded Some] refl refl] 1(2) True vbr Some by (auto simp: flush_frame_loop.simps [of h])
      ultimately show ?thesis using flush_order_trans by blast
    qed
  next
    case False
    then show ?thesis using 1(2) by (simp add: flush_frame_loop.simps [of h])
  qed
qed

lemma flush_frame_descends:
  assumes "flush_frame h = Some (h', Some pkt)"
  shows "(h', h) \<in> flush_order \<or> buffered h' = buffered h \<and> due_tables h' = due_tables h \<and> length (ph_frame_buff h') < length (ph_frame_buff h)"
proof -
  obtain h1 where loop: "flush_frame_loop h = Some h1" "length (ph_frame_buff h1) \<ge> FRAME_BUFFER_SIZE"
      "h' = h1\<lparr>ph_frame_buff := drop FRAME_BUFFER_SIZE (ph_frame_buff h1)\<rparr>"
    using assms by (auto simp: flush_frame_def bind_eq_Some_conv split: if_splits)
  then show ?thesis
    using flush_frame_loop_descends [OF loop(1)] by (auto simp: FRAME_BUFFER_SIZE_def)
qed

function flush_all_vbr :: "packet_handler \<Rightarrow> (packet_handler \<times> bytes list) option" where
  "flush_all_vbr h =
    (case flush_packet_for_vbr h of None \<Rightarrow> None
     | Some (h', None) \<Rightarrow> Some (h', [])
     | Some (h', Some pkt) \<Rightarrow> map_option (apsnd ((#) pkt)) (flush_all_vbr h'))"
  by pat_completeness auto
termination
  by (relation flush_order) (auto dest: flush_vbr_descends)

function flush_all_frames :: "packet_handler \<Rightarrow> (packet_handler \<times> bytes list) option" where
  "flush_all_frames h =
    (case flush_frame h of None \<Rightarrow> None
     | Some (h', None) \<Rightarrow> Some (h', [])
     | Some (h', Some pkt) \<Rightarrow> map_option (apsnd ((#) pkt)) (flush_all_frames h'))"
  by pat_completeness auto
termination
  by (relation "measures [buffered, due_tables, \<lambda>h. length (ph_frame_buff h)]")
     (auto simp: flush_order_def dest!: flush_frame_descends)

declare flush_all_vbr.simps [simp del] flush_all_frames.simps [simp del]

section \<open>Servers: http and unix\<close>

text \<open>
  The two servers publish on a channel of their own, which the tasks of the connections read. The task keeps a receiver of
  it, so a send never fails; what it gives is the number of receivers, and the proxy adds that to the bytes sent.
\<close>

definition channel_sender :: "sends \<Rightarrow> sender \<Rightarrow> bytes \<Rightarrow> sender \<times> usize option" where
  "channel_sender sd sn pkt = (sn\<lparr>sn_out := sn_out sn @ [pkt]\<rparr>, Some (Suc (sd_receivers sd (length (sn_out sn)))))"

definition publish :: "(packet_handler \<Rightarrow> (packet_handler \<times> bytes list) option) \<Rightarrow> output_state \<Rightarrow> output_state option" where
  "publish flush_all s = do {
     (h, pkts) \<leftarrow> flush_all (ou_handler s);
     Some (s\<lparr>ou_handler := h, ou_out := ou_out s @ pkts, ou_sent_bytes := ou_sent_bytes s + length (concat pkts)\<rparr>) }"

definition server_chunk :: "(packet_handler \<Rightarrow> (packet_handler \<times> bytes list) option) \<Rightarrow> mux_env \<Rightarrow> int \<Rightarrow> bytes \<Rightarrow> sends \<Rightarrow> output_state \<Rightarrow> output_state option" where
  "server_chunk flush_all env now chunk sd s =
    (if o_proxy (ph_output (ou_handler s)) then proxy_chunk (channel_sender sd) (env\<lparr>e_now := now\<rparr>) chunk s
     else do { s \<leftarrow> on_write env now chunk s; publish flush_all s })"

text \<open>
  \<open>shut\<close> says whether the wait for the listening task gave no error, and whether the file of the socket could be removed.
\<close>

definition http_shut :: "bool \<times> bool \<Rightarrow> output_state \<Rightarrow> output_state" where
  "http_shut shut s = finish (if fst shut then s else call (OLog ForcedShutdown) s)"

definition unix_shut :: "bool \<times> bool \<Rightarrow> output_state \<Rightarrow> output_state" where
  "unix_shut shut s =
    (let s = (if fst shut then s else call (OLog ForcedShutdown) s)
     in if snd shut then finish s else finish_error OutUnix SocketFileLeft s)"

definition server_step :: "output_kind \<Rightarrow> (packet_handler \<Rightarrow> (packet_handler \<times> bytes list) option) \<Rightarrow> (output_state \<Rightarrow> output_state)
    \<Rightarrow> mux_env \<Rightarrow> output_state \<Rightarrow> output_event \<Rightarrow> output_state option" where
  "server_step kind flush_all shut env s e =
    (case ou_phase s of
       Opening \<Rightarrow> Some (case e of OListening ok \<Rightarrow> if ok then s\<lparr>ou_phase := Sending\<rparr> else finish_error kind ListenFailed s | _ \<Rightarrow> s)
     | Sending \<Rightarrow> (case e of
           OCancelled \<Rightarrow> Some (shut (call (OPause (OutStopping kind)) s))
         | OChunk now chunk sd \<Rightarrow> server_chunk flush_all env now chunk sd s
         | OLagged n \<Rightarrow> Some (call (OLog (OutLagged kind n)) s)
         | OClosed \<Rightarrow> Some (call (OLog (OutReceiveFailed kind)) s)
         | OStats \<Rightarrow> Some (output_stats_tick s)
         | _ \<Rightarrow> Some s)
     | _ \<Rightarrow> Some s)"

definition http_server :: "bool \<times> bool \<Rightarrow> mux_env \<Rightarrow> output_state \<Rightarrow> output_event \<Rightarrow> output_state option" where
  "http_server shut env s e = server_step OutHttp flush_all_frames (http_shut shut) env s e"

definition unix_server :: "bool \<times> bool \<Rightarrow> mux_env \<Rightarrow> output_state \<Rightarrow> output_event \<Rightarrow> output_state option" where
  "unix_server shut env s e = server_step OutUnix flush_all_vbr (unix_shut shut) env s e"

section \<open>Starting an output\<close>

text \<open>\<open>None\<close> of the inner option: the handler refuses the configuration and the task is over.\<close>

definition output_new :: "output_kind \<Rightarrow> mux_env \<Rightarrow> output_config \<Rightarrow> output_stats \<Rightarrow> output_state option option" where
  "output_new kind env out stats =
    (case ph_new env out [] stats of None \<Rightarrow> Some None
     | Some h \<Rightarrow>
         let s = \<lparr>ou_handler = h, ou_calls = [OPlay (OutRunning kind (o_output_url out))], ou_out = [], ou_rtp = rtp_new,
                  ou_sent_bytes = 0, ou_time_ns = 0, ou_phase = Opening, ou_cancelled = False\<rparr>
         in if kind \<in> {OutUdp, OutRtp} \<and> \<not> o_proxy out then map_option Some (cbr_begin kind s) else Some (Some s))"

text \<open>The step of the loop a task runs.\<close>

definition output_step :: "output_kind \<Rightarrow> bool \<times> bool \<Rightarrow> mux_env \<Rightarrow> output_state \<Rightarrow> output_event \<Rightarrow> output_state option" where
  "output_step kind shut env s e =
    (let proxy = o_proxy (ph_output (ou_handler s))
     in case kind of
          OutUdp \<Rightarrow> if proxy then udp_proxy env s e else udp_cbr env s e
        | OutRtp \<Rightarrow> if proxy then rtp_proxy env s e else rtp_cbr env s e
        | OutHttp \<Rightarrow> http_server shut env s e
        | OutUnix \<Rightarrow> unix_server shut env s e)"

section \<open>Accepting connections\<close>

text \<open>The task that listens. The http server remembers the addresses of its connections.\<close>

record listener =
  li_calls :: "output_call list"
  li_connections :: "nat set"
  li_err_count :: nat
  li_running :: bool

datatype accept_event = AcceptCancelled | Accepted nat | AcceptError | ConnEnded nat bool bool

definition listen_call :: "output_call \<Rightarrow> listener \<Rightarrow> listener" where
  "listen_call c l = l\<lparr>li_calls := li_calls l @ [c]\<rparr>"

definition listener_new :: listener where
  "listener_new = \<lparr>li_calls = [], li_connections = {}, li_err_count = 0, li_running = True\<rparr>"

text \<open>A connection ends because the output is cancelled, or by itself with or without an error.\<close>

definition http_accept :: "listener \<Rightarrow> accept_event \<Rightarrow> listener" where
  "http_accept l e = (case e of
       AcceptCancelled \<Rightarrow> if li_running l then (listen_call (OPause (ListenStopping OutHttp)) l)\<lparr>li_running := False\<rparr> else l
     | Accepted addr \<Rightarrow> if li_running l
         then (listen_call (OLog (NewConnection addr)) l)\<lparr>li_err_count := 0, li_connections := insert addr (li_connections l)\<rparr> else l
     | AcceptError \<Rightarrow> if li_running l then listen_call (OMarkDirty AcceptFailed) l else l
     | ConnEnded addr cancelled failed \<Rightarrow>
         (if addr \<in> li_connections l then
            let l = (if cancelled then listen_call (OLog (ConnectionClosing addr)) l
                     else if failed then listen_call (OLog (ConnectionFailed addr)) l else l)
            in l\<lparr>li_connections := li_connections l - {addr}\<rparr>
          else l))"

text \<open>The unix server gives up at the second error in a row.\<close>

definition unix_accept :: "listener \<Rightarrow> accept_event \<Rightarrow> listener" where
  "unix_accept l e = (if \<not> li_running l then l else case e of
       AcceptCancelled \<Rightarrow> (listen_call (OPause (ListenStopping OutUnix)) l)\<lparr>li_running := False\<rparr>
     | Accepted addr \<Rightarrow> l\<lparr>li_err_count := 0\<rparr>
     | AcceptError \<Rightarrow>
         if li_err_count l = 0 then (listen_call (OWarn AcceptFailed) l)\<lparr>li_err_count := li_err_count l + 1\<rparr>
         else (listen_call OCmdMarkDirty l)\<lparr>li_running := False\<rparr>
     | _ \<Rightarrow> l)"

text \<open>What a client reads of the channel, until it goes or the output is cancelled: what it is written, and the log.\<close>

datatype client_event = ClientCancelled | ClientChunk bytes bool | ClientLagged nat | ClientClosed

fun unix_client :: "client_event list \<Rightarrow> bytes \<times> output_call list" where
  "unix_client [] = ([], [])"
| "unix_client (ClientCancelled # es) = ([], [])"
| "unix_client (ClientChunk chunk ok # es) =
    (if ok then case unix_client es of (d, calls) \<Rightarrow> (chunk @ d, calls) else ([], [OLog ClientGone]))"
| "unix_client (ClientLagged n # es) = (case unix_client es of (d, calls) \<Rightarrow> (d, OLog (OutLagged OutUnix n) # calls))"
| "unix_client (ClientClosed # es) = (case unix_client es of (d, calls) \<Rightarrow> (d, OLog (OutReceiveFailed OutUnix) # calls))"

text \<open>The body of an http answer drops the items that report a lag.\<close>

definition http_body :: "bytes option list \<Rightarrow> bytes" where
  "http_body items = concat (List.map_filter (\<lambda>x. x) items)"

definition http_headers :: "(string \<times> string) list" where
  "http_headers = [(''content-type'', ''video/mp2t''), (''cache-control'', ''no-cache, no-store, must-revalidate''),
     (''pragma'', ''no-cache''), (''expires'', ''0''), (''connection'', ''keep-alive'')]"

lemma http_body_without_lag: "http_body (map Some cs) = concat cs"
  by (induction cs) (simp_all add: http_body_def)

section \<open>The configuration of a handler never changes\<close>

lemma output_frame [simp]:
  "ph_output (tell c h) = ph_output h" "ph_output (on_stats f h) = ph_output h" "ph_output (buffers_clear h) = ph_output h"
  "ph_output (count_psi h n) = ph_output h"
  by (simp_all add: tell_def on_stats_def buffers_clear_def count_psi_def Let_def)

lemma output_tables:
  "ensures (\<lambda>h'. ph_output h' = ph_output h) (process_pat env h p)"
  "ensures (\<lambda>h'. ph_output h' = ph_output h) (process_pmt env h p)"
  "ensures (\<lambda>h'. ph_output h' = ph_output h) (process_sdt env h p)"
  "ensures (\<lambda>h'. ph_output h' = ph_output h) (av_push h pid p pusi disc)"
  unfolding process_pat_def process_pmt_def process_sdt_def av_push_def by (intro post; simp)+

lemma output_av_stamps: "(h', x, y) = av_stamps h pid st disc \<Longrightarrow> ph_output h' = ph_output h"
  by (auto simp: av_stamps_def Let_def split: option.splits prod.splits if_splits)

lemma output_process_av: "ensures (\<lambda>h'. ph_output h' = ph_output h) (process_av h pid p)"
  unfolding process_av_def
  by (intro post) (auto simp: ensures_def split: if_splits dest!: ensuresD [OF output_tables(4)] ensuresD [OF check_cc_inv] output_av_stamps)

lemma output_process_ca: "ensures (\<lambda>(h', _). ph_output h' = ph_output h) (process_ca env h pid p)"
  unfolding process_ca_def by (intro post) (auto simp: Let_def split: sum.split)

lemma output_process_one: "ensures (\<lambda>h'. ph_output h' = ph_output h) (process_one env h p)"
  unfolding process_one_def
  by (intro post) (auto simp: ensures_def dest!: ensuresD [OF output_process_ca] ensuresD [OF output_process_av]
      ensuresD [OF output_tables(1)] ensuresD [OF output_tables(2)] ensuresD [OF output_tables(3)])

lemma output_process_packets: "ensures (\<lambda>(h', _). ph_output h' = ph_output h) (process_packets env h)"
proof (induction env h rule: process_packets.induct)
  case (1 env h)
  have rec: "ensures (\<lambda>(h', _). ph_output h' = ph_output h) (process_packets env (h1\<lparr>ph_in_buff := drop TS_PACKET_SIZE (ph_in_buff h)\<rparr>))"
    if "\<not> length (ph_in_buff h) < TS_PACKET_SIZE" "ph_in_buff h ! 0 = TS_SYNC_BYTE"
      "process_one env h (take TS_PACKET_SIZE (ph_in_buff h)) = Some h1" for h1
    using 1(1) [OF that(1,2) refl refl that(3)] ensuresD [OF output_process_one that(3)] by simp
  show ?case
    unfolding process_packets.simps [of env h] by (intro post) (simp_all add: rec)
qed

lemma output_prepare: "ensures (\<lambda>h'. ph_output h' = ph_output h) (prepare_output env h)"
proof -
  have "ph_output (become_ready env h b) = ph_output h" for h b
  proof -
    obtain v a where "buffer_adjust h = h\<lparr>ph_out_buff_v := v, ph_out_buff_a := a\<rparr>"
      using buffer_adjust_bufs by blast
    then show ?thesis by (simp add: become_ready_def Let_def split: option.split)
  qed
  moreover have "default_sdt env h = Some h' \<Longrightarrow> ph_output h' = ph_output h" for h h'
    by (auto simp: default_sdt_def Let_def bind_eq_Some_conv)
  moreover have "(h', b) = probe_bitrate h \<Longrightarrow> ph_output h' = ph_output h" for h h' b
    by (auto simp: probe_bitrate_def Let_def split: if_splits option.splits)
  ultimately show ?thesis
    unfolding prepare_output_def by (intro post) (auto split: if_splits)
qed

lemma output_ph_process: "ensures (\<lambda>h'. ph_output h' = ph_output h) (ph_process env h)"
proof -
  have "(h', b) = ph_sync h \<Longrightarrow> ph_output h' = ph_output h" for h h' b
    by (auto simp: ph_sync_def Let_def split: if_splits prod.splits)
  moreover have "(h', b) = is_buffer_overflow h k \<Longrightarrow> ph_output h' = ph_output h" for h h' b k
    by (auto simp: is_buffer_overflow_def Let_def split: if_splits)
  ultimately show ?thesis
    unfolding ph_process_def
    by (intro post) (auto simp: ensures_def split: if_splits dest!: ensuresD [OF output_process_packets] ensuresD [OF output_prepare])
qed

lemma output_ph_write: "ph_write env h chunk = Some h' \<Longrightarrow> ph_output h' = ph_output h"
  by (auto simp: ph_write_def Let_def bind_eq_Some_conv dest!: ensuresD [OF output_ph_process])

lemma output_update_stats [simp]: "ph_output (update_stats h) = ph_output h"
  by (simp add: update_stats_def Let_def split_beta)

section \<open>What an output sends\<close>

definition keeps_length :: "mux_env \<Rightarrow> bool" where
  "keeps_length env \<longleftrightarrow> (\<forall>k pl. length (e_decrypt env k pl) = length pl)"

text \<open>The number of packets in a datagram of the configuration.\<close>

definition datagram_packets :: "output_config \<Rightarrow> nat" where
  "datagram_packets out = unat (if o_pkt_size out = 0 then of_nat TS_PACKET_SIZE else o_pkt_size out) div TS_PACKET_SIZE"

definition whole_packets :: "nat \<Rightarrow> nat \<Rightarrow> bytes \<Rightarrow> bool" where
  "whole_packets lo hi d \<longleftrightarrow> (\<exists>ps. d = concat ps \<and> (\<forall>p \<in> set ps. pkt_ok p) \<and> lo \<le> length ps \<and> length ps \<le> hi)"

definition output_good :: "output_kind \<Rightarrow> output_config \<Rightarrow> bytes \<Rightarrow> bool" where
  "output_good kind out d =
    (let k = datagram_packets out
     in case kind of
          OutUdp \<Rightarrow> whole_packets k (max 1 k) d
        | OutRtp \<Rightarrow> 12 \<le> length d \<and> whole_packets k (max 1 k) (drop 12 d)
        | OutHttp \<Rightarrow> length d = 8192
        | OutUnix \<Rightarrow> whole_packets 1 (max 1 k) d)"

definition loop_inv :: "mux_env \<Rightarrow> output_config \<Rightarrow> output_state \<Rightarrow> bool" where
  "loop_inv env out s \<longleftrightarrow> keeps_length env \<and> \<not> o_proxy out \<and> ph_output (ou_handler s) = out \<and> ph_inv (ou_handler s)"

fun output_run :: "(output_state \<Rightarrow> output_event \<Rightarrow> output_state option) \<Rightarrow> output_state \<Rightarrow> output_event list \<Rightarrow> output_state option" where
  "output_run step s [] = Some s"
| "output_run step s (e # es) = do { s \<leftarrow> step s e; output_run step s es }"

text \<open>A step sends only what is good, and keeps the invariant of its handler.\<close>

definition sends_good :: "(bytes \<Rightarrow> bool) \<Rightarrow> output_state \<Rightarrow> output_state \<Rightarrow> bool" where
  "sends_good good s s' \<longleftrightarrow> (\<exists>ds. ou_out s' = ou_out s @ ds \<and> (\<forall>d \<in> set ds. good d))"

lemma sends_good_same: "ou_out s' = ou_out s \<Longrightarrow> sends_good good s s'"
  by (simp add: sends_good_def)

locale output_loop =
  fixes step :: "output_state \<Rightarrow> output_event \<Rightarrow> output_state option" and inv :: "output_state \<Rightarrow> bool" and good :: "bytes \<Rightarrow> bool"
  assumes step_inv: "inv s \<Longrightarrow> step s e = Some s' \<Longrightarrow> inv s'"
    and step_good: "inv s \<Longrightarrow> step s e = Some s' \<Longrightarrow> sends_good good s s'"
begin

lemma run_good: "inv s \<Longrightarrow> output_run step s es = Some s' \<Longrightarrow> inv s' \<and> sends_good good s s'"
proof (induction es arbitrary: s)
  case (Cons e es)
  then obtain s1 where s1: "step s e = Some s1" "output_run step s1 es = Some s'" by (auto simp: bind_eq_Some_conv)
  have "inv s' \<and> sends_good good s1 s'" using Cons.IH s1 step_inv Cons.prems(1) by blast
  moreover have "sends_good good s s1" using step_good Cons.prems(1) s1(1) .
  ultimately show ?case by (fastforce simp: sends_good_def)
qed (simp add: sends_good_def)

end

lemma loop_inv_frame [simp]:
  "loop_inv env out (call c s) = loop_inv env out s" "loop_inv env out (finish s) = loop_inv env out s"
  "loop_inv env out (finish_error kind m s) = loop_inv env out s" "loop_inv env out (output_stats_tick s) = loop_inv env out s"
  "loop_inv env out (opened kind a s) = loop_inv env out s" "loop_inv env out (s\<lparr>ou_phase := p\<rparr>) = loop_inv env out s"
  "loop_inv env out (s\<lparr>ou_time_ns := t\<rparr>) = loop_inv env out s" "loop_inv env out (http_shut shut s) = loop_inv env out s"
  "loop_inv env out (unix_shut shut s) = loop_inv env out s" "loop_inv env out (s\<lparr>ou_rtp := r\<rparr>) = loop_inv env out s"
  "loop_inv env out (s\<lparr>ou_sent_bytes := n\<rparr>) = loop_inv env out s" "loop_inv env out (s\<lparr>ou_out := o1\<rparr>) = loop_inv env out s"
  "loop_inv env out (s\<lparr>ou_calls := cs\<rparr>) = loop_inv env out s"
proof -
  have "ph_inv (update_stats h) = ph_inv h" for h
    by (simp add: update_stats_def Let_def split_beta)
  then show "loop_inv env out (output_stats_tick s) = loop_inv env out s"
    by (simp add: loop_inv_def output_stats_tick_def Let_def)
qed (simp_all add: loop_inv_def call_def finish_def finish_error_def opened_def http_shut_def unix_shut_def Let_def split_beta split: option.split)

lemma out_frame [simp]:
  "ou_out (call c s) = ou_out s" "ou_out (finish s) = ou_out s" "ou_out (finish_error kind m s) = ou_out s"
  "ou_out (output_stats_tick s) = ou_out s" "ou_out (opened kind a s) = ou_out s" "ou_out (http_shut shut s) = ou_out s"
  "ou_out (unix_shut shut s) = ou_out s"
  by (simp_all add: call_def finish_def finish_error_def output_stats_tick_def opened_def http_shut_def unix_shut_def Let_def split_beta
      split: option.split)

lemma on_write_ok: "loop_inv env out s \<Longrightarrow> on_write env now chunk s = Some s' \<Longrightarrow> loop_inv env out s' \<and> ou_out s' = ou_out s"
  using ensuresD [OF ph_write_inv [of "env\<lparr>e_now := now\<rparr>" "ou_handler s" chunk]]
  by (auto simp: on_write_def bind_eq_Some_conv loop_inv_def keeps_length_def dest: output_ph_write)

lemma to_pacing_ok: "to_pacing kind b s = Some s' \<Longrightarrow> loop_inv env out s' = loop_inv env out s \<and> ou_out s' = ou_out s"
  by (auto simp: to_pacing_def Let_def split: if_splits)

lemma probing_ok:
  assumes "loop_inv env out s" "probing_step kind env s e = Some s'"
  shows "loop_inv env out s' \<and> ou_out s' = ou_out s"
  using assms
  by (cases e) (auto simp: probing_step_def bind_eq_Some_conv Let_def dest!: to_pacing_ok on_write_ok [OF assms(1)] split: if_splits)

lemma flush_cbr_cases:
  assumes "ph_inv h" "flush_packet_for_cbr h = Some (h', r)"
  shows "ph_inv h' \<and> ph_output h' = ph_output h
    \<and> (\<forall>d. r = Some d \<longrightarrow> whole_packets (datagram_packets (ph_output h)) (max 1 (datagram_packets (ph_output h))) d)"
proof (cases "ph_is_dirty h \<or> \<not> ph_is_ready h")
  case True
  then show ?thesis using assms flush_gate(1) [of h] by simp
next
  case False
  then show ?thesis
    using flush_cbr_ok [OF assms(1)] assms(2)
    by (auto simp: flush_ok_def whole_packets_def datagram_packets_def get_pkt_size_def)
qed

lemma cbr_timer_ok:
  assumes "loop_inv env out s" "cbr_timer kind wrap sd s = Some s'"
    and good: "\<And>rtp el rnd d. whole_packets (datagram_packets out) (max 1 (datagram_packets out)) d \<Longrightarrow> good (snd (wrap rtp el rnd d))"
  shows "loop_inv env out s' \<and> sends_good good s s'"
proof -
  obtain h r where flush: "flush_packet_for_cbr (ou_handler s) = Some (h, r)"
    using assms(2) by (auto simp: cbr_timer_def bind_eq_Some_conv)
  have inv: "loop_inv env out (s\<lparr>ou_handler := h\<rparr>)"
    and whole: "r = Some d \<Longrightarrow> whole_packets (datagram_packets out) (max 1 (datagram_packets out)) d" for d
    using assms(1) flush_cbr_cases [OF _ flush] by (auto simp: loop_inv_def)
  show ?thesis
  proof (cases r)
    case None
    then have "s' = s\<lparr>ou_handler := h\<rparr>" using assms(2) flush by (simp add: cbr_timer_def)
    then show ?thesis using inv by (simp add: sends_good_same)
  next
    case (Some d)
    obtain rtp dg where wrap: "wrap (ou_rtp s) (sd_elapsed sd (length (ou_out s))) (sd_random sd (length (ou_out s))) d = (rtp, dg)"
      by fastforce
    have "good dg" using good [OF whole [OF Some]] wrap by (metis snd_conv)
    then show ?thesis
      using assms(2) flush Some wrap inv
      by (cases "sd_result sd (length (ou_out s))") (auto simp: cbr_timer_def sends_good_def)
  qed
qed

lemma cbr_step_ok:
  assumes "loop_inv env out s" "cbr_step kind wrap env s e = Some s'"
    and good: "\<And>rtp el rnd d. whole_packets (datagram_packets out) (max 1 (datagram_packets out)) d \<Longrightarrow> good (snd (wrap rtp el rnd d))"
  shows "loop_inv env out s' \<and> sends_good good s s'"
proof (cases "ou_phase s")
  case Probing
  then show ?thesis using probing_ok [OF assms(1)] assms(2) by (auto simp: cbr_step_def sends_good_same)
next
  case Opening
  then show ?thesis using assms(1,2) by (cases e) (auto simp: cbr_step_def sends_good_same)
next
  case Finished
  then show ?thesis using assms(1,2) by (simp add: cbr_step_def sends_good_same)
next
  case Sending
  show ?thesis
  proof (cases e)
    case (OTimer sd)
    then have "cbr_timer kind wrap sd s = Some s'" using Sending assms(2) by (simp add: cbr_step_def)
    then show ?thesis by (rule cbr_timer_ok [OF assms(1)]) (rule good)
  next
    case (OChunk now chunk sd)
    then show ?thesis using Sending assms(2) on_write_ok [OF assms(1)] by (auto simp: cbr_step_def sends_good_same)
  qed (use Sending assms(1,2) in \<open>auto simp: cbr_step_def sends_good_same\<close>)
qed

lemma length_rtp_pack: "snd (rtp_pack st el rnd d) = take 12 (snd (rtp_pack st el rnd d)) @ d \<and> length (snd (rtp_pack st el rnd d)) = 12 + length d"
  by (simp add: rtp_pack_def Let_def to_be16_def to_be32_def split_beta)

lemma flush_frame_output: "flush_frame h = Some (h', r) \<Longrightarrow> ph_output h' = ph_output h"
proof -
  have "ph_output h' = ph_output h" if "flush_frame_loop h = Some h'" for h h'
    using that
  proof (induction h rule: flush_frame_loop.induct)
    case (1 h)
    show ?case
    proof (cases "length (ph_frame_buff h) < FRAME_BUFFER_SIZE")
      case True
      then obtain h1 r where vbr: "flush_packet_for_vbr h = Some (h1, r)"
        using 1(2) by (auto simp: flush_frame_loop.simps [of h] split: option.splits)
      show ?thesis
        using 1(1) [OF True vbr [THEN trans] refl] 1(2) True vbr flush_vbr_frame [OF vbr]
        by (cases r) (auto simp: flush_frame_loop.simps [of h])
    next
      case False
      then show ?thesis using 1(2) by (simp add: flush_frame_loop.simps [of h])
    qed
  qed
  then show "flush_frame h = Some (h', r) \<Longrightarrow> ph_output h' = ph_output h"
    by (auto simp: flush_frame_def bind_eq_Some_conv split: if_splits)
qed

lemma flush_frame_cases:
  assumes "ph_inv h" "flush_frame h = Some (h', r)"
  shows "ph_inv h' \<and> ph_output h' = ph_output h \<and> (\<forall>d. r = Some d \<longrightarrow> length d = 8192)"
proof (cases "ph_is_dirty h \<or> \<not> ph_is_ready h")
  case True
  then show ?thesis using assms flush_gate(3) [of h] by simp
next
  case False
  then show ?thesis
    using flush_frame_ok [OF assms(1)] flush_frame_output [OF assms(2)] assms(2) by (auto simp: frame_ok_def FRAME_BUFFER_SIZE_def)
qed

lemma flush_vbr_cases:
  assumes "ph_inv h" "flush_packet_for_vbr h = Some (h', r)"
  shows "ph_inv h' \<and> ph_output h' = ph_output h
    \<and> (\<forall>d. r = Some d \<longrightarrow> whole_packets 1 (max 1 (datagram_packets (ph_output h))) d)"
proof (cases "ph_is_dirty h \<or> \<not> ph_is_ready h")
  case True
  then show ?thesis using assms flush_gate(2) [of h] by simp
next
  case False
  obtain h1 ps where ps: "flush_packet_for_vbr h = Some (h1, if ps = [] then None else Some (concat ps))" "flush_ok h h1"
      "length ps \<le> max 1 (datagram_packets (ph_output h))" "\<forall>p \<in> set ps. pkt_ok p"
    using flush_vbr_ok [OF assms(1)] False unfolding datagram_packets_def get_pkt_size_def by blast
  then have h1: "h' = h1" "r = (if ps = [] then None else Some (concat ps))" using assms(2) by simp_all
  have "whole_packets 1 (max 1 (datagram_packets (ph_output h))) (concat ps)" if "ps \<noteq> []"
    unfolding whole_packets_def using ps(3,4) that by (intro exI [of _ ps]) (simp add: Suc_le_eq)
  then show ?thesis
    using ps(2) by (auto simp: h1 flush_ok_def)
qed

lemma flush_all_frames_good:
  "flush_all_frames h = Some (h', ds) \<Longrightarrow> ph_inv h \<Longrightarrow>
     ph_inv h' \<and> ph_output h' = ph_output h \<and> (\<forall>d \<in> set ds. length d = 8192)"
proof (induction h arbitrary: h' ds rule: flush_all_frames.induct)
  case (1 h)
  obtain h1 r where flush: "flush_frame h = Some (h1, r)"
    using 1(2) by (auto simp: flush_all_frames.simps [of h] split: option.splits)
  note ok = flush_frame_cases [OF 1(3) flush]
  show ?case
  proof (cases r)
    case None
    then show ?thesis using 1(2) flush ok by (simp add: flush_all_frames.simps [of h])
  next
    case (Some d)
    then obtain ds' where ds: "flush_all_frames h1 = Some (h', ds')" "ds = d # ds'"
      using 1(2) flush by (auto simp: flush_all_frames.simps [of h])
    have "ph_inv h1" using ok by simp
    from 1(1) [OF flush [unfolded Some] refl refl ds(1) this] show ?thesis using ok by (simp add: Some ds(2))
  qed
qed

lemma flush_all_vbr_good:
  "flush_all_vbr h = Some (h', ds) \<Longrightarrow> ph_inv h \<Longrightarrow>
     ph_inv h' \<and> ph_output h' = ph_output h \<and> (\<forall>d \<in> set ds. whole_packets 1 (max 1 (datagram_packets (ph_output h))) d)"
proof (induction h arbitrary: h' ds rule: flush_all_vbr.induct)
  case (1 h)
  obtain h1 r where flush: "flush_packet_for_vbr h = Some (h1, r)"
    using 1(2) by (auto simp: flush_all_vbr.simps [of h] split: option.splits)
  note ok = flush_vbr_cases [OF 1(3) flush]
  show ?case
  proof (cases r)
    case None
    then show ?thesis using 1(2) flush ok by (simp add: flush_all_vbr.simps [of h])
  next
    case (Some d)
    then obtain ds' where ds: "flush_all_vbr h1 = Some (h', ds')" "ds = d # ds'"
      using 1(2) flush by (auto simp: flush_all_vbr.simps [of h])
    have "ph_inv h1" using ok by simp
    from 1(1) [OF flush [unfolded Some] refl refl ds(1) this] show ?thesis using ok by (simp add: Some ds(2))
  qed
qed

lemma server_step_ok:
  assumes "loop_inv env out s" "server_step kind flush_all shut env s e = Some s'"
    and flush: "\<And>h h' ds. flush_all h = Some (h', ds) \<Longrightarrow> ph_inv h \<Longrightarrow> ph_output h = out \<Longrightarrow> ph_inv h' \<and> ph_output h' = out \<and> (\<forall>d \<in> set ds. good d)"
    and shut: "\<And>s. loop_inv env out (shut s) = loop_inv env out s" "\<And>s. ou_out (shut s) = ou_out s"
  shows "loop_inv env out s' \<and> sends_good good s s'"
proof (cases "ou_phase s")
  case Sending
  show ?thesis
  proof (cases e)
    case (OChunk now chunk sd)
    have "\<not> o_proxy (ph_output (ou_handler s))" using assms(1) by (auto simp: loop_inv_def)
    then obtain s1 h ds where s1: "on_write env now chunk s = Some s1" and all: "flush_all (ou_handler s1) = Some (h, ds)"
      and s': "s' = s1\<lparr>ou_handler := h, ou_out := ou_out s1 @ ds, ou_sent_bytes := ou_sent_bytes s1 + length (concat ds)\<rparr>"
      using assms(2) Sending OChunk by (auto simp: server_step_def server_chunk_def publish_def bind_eq_Some_conv)
    note w = on_write_ok [OF assms(1) s1]
    then have "ph_inv h \<and> ph_output h = out \<and> (\<forall>d \<in> set ds. good d)"
      using flush [OF all] by (simp add: loop_inv_def)
    then show ?thesis using w by (auto simp: s' loop_inv_def sends_good_def)
  qed (use Sending assms(1,2) shut in \<open>auto simp: server_step_def sends_good_same\<close>)
next
  case Opening
  then show ?thesis using assms(1,2) by (cases e) (auto simp: server_step_def sends_good_same split: if_splits)
qed (use assms(1,2) in \<open>auto simp: server_step_def sends_good_same\<close>)

lemma output_step_ok:
  assumes "loop_inv env out s" "output_step kind shut env s e = Some s'"
  shows "loop_inv env out s' \<and> sends_good (output_good kind out) s s'"
proof -
  have np: "\<not> o_proxy (ph_output (ou_handler s))" using assms(1) by (auto simp: loop_inv_def)
  show ?thesis
  proof (cases kind)
    case OutUdp
    show ?thesis
    proof (rule cbr_step_ok [OF assms(1)])
      show "cbr_step OutUdp udp_wrap env s e = Some s'" using assms(2) np OutUdp by (simp add: output_step_def udp_cbr_def)
    qed (simp add: OutUdp udp_wrap_def output_good_def Let_def)
  next
    case OutRtp
    have "output_good OutRtp out (snd (rtp_pack rtp el rnd d))"
      if "whole_packets (datagram_packets out) (max 1 (datagram_packets out)) d" for rtp el rnd d
    proof -
      have "length (take 12 (snd (rtp_pack rtp el rnd d))) = 12" "length (snd (rtp_pack rtp el rnd d)) = 12 + length d"
        using length_rtp_pack [of rtp el rnd d] by simp_all
      moreover have "drop 12 (snd (rtp_pack rtp el rnd d)) = d"
        using length_rtp_pack [of rtp el rnd d] by (metis append_eq_conv_conj calculation(1))
      ultimately show ?thesis using that by (simp add: output_good_def Let_def)
    qed
    then show ?thesis
      by (intro cbr_step_ok [OF assms(1)]) (use assms(2) np OutRtp in \<open>simp_all add: output_step_def rtp_cbr_def\<close>)
  next
    case OutHttp
    show ?thesis
      by (rule server_step_ok [OF assms(1)])
         (use assms(2) OutHttp flush_all_frames_good in \<open>fastforce simp: output_step_def http_server_def output_good_def Let_def\<close>)+
  next
    case OutUnix
    show ?thesis
      by (rule server_step_ok [OF assms(1)])
         (use assms(2) OutUnix flush_all_vbr_good in \<open>fastforce simp: output_step_def unix_server_def output_good_def Let_def\<close>)+
  qed
qed

interpretation outputs: output_loop "output_step kind shut env" "loop_inv env out" "output_good kind out" for kind shut env out
  by unfold_locales (use output_step_ok in blast)+

lemma output_new_inv:
  assumes "keeps_length env" "\<not> o_proxy out" "output_new kind env out stats = Some (Some s)"
  shows "loop_inv env out s \<and> ou_out s = []"
proof -
  obtain h where new: "ph_new env out [] stats = Some h"
    using assms(3) by (auto simp: output_new_def split: option.splits)
  let ?s = "\<lparr>ou_handler = h, ou_calls = [OPlay (OutRunning kind (o_output_url out))], ou_out = [], ou_rtp = rtp_new,
    ou_sent_bytes = 0, ou_time_ns = 0, ou_phase = Opening, ou_cancelled = False\<rparr>"
  have start: "loop_inv env out ?s"
    using assms(1,2) ph_new_inv [OF new] ph_new_fields(1) [OF new] by (simp add: loop_inv_def)
  have "s = ?s \<or> cbr_begin kind ?s = Some s"
    using assms(3) new by (auto simp: output_new_def Let_def split: if_splits)
  then show ?thesis
    using start loop_inv_frame(6) [where s = ?s and p = Probing and env = env and out = out]
    by (auto simp: cbr_begin_def Let_def dest!: to_pacing_ok [of _ _ _ _ env out] split: if_splits)
qed

text \<open>
  C11. What an output sends is well formed: an output that is no proxy, started on any configuration (\<open>output_new_inv\<close>) and taken through any
  events, keeps the invariant of its handler, and everything it sends is good. A udp datagram is exactly the configured number of
  packets of 188 bytes that begin with the sync byte (one when the size is smaller than a packet), an rtp datagram the same behind a header of 12 bytes, a piece
  of the http stream is 8192 bytes, and a piece of the unix stream is at least one whole packet.
\<close>

theorem outputs_send_whole_packets:
  assumes "loop_inv env out s" "output_run (output_step kind shut env) s es = Some s'"
  shows "loop_inv env out s' \<and> (\<exists>ds. ou_out s' = ou_out s @ ds \<and> (\<forall>d \<in> set ds. output_good kind out d))"
  using outputs.run_good [OF assms] by (simp add: sends_good_def)

definition ready_output :: output_state where
  "ready_output = \<lparr>ou_handler = example_ready, ou_calls = [], ou_out = [], ou_rtp = rtp_new, ou_sent_bytes = 0,
     ou_time_ns = 2632000, ou_phase = Sending, ou_cancelled = False\<rparr>"

definition all_sent :: sends where
  "all_sent = \<lparr>sd_elapsed = (\<lambda>_. 0), sd_random = (\<lambda>_. 7), sd_result = (\<lambda>_. Some 1316), sd_receivers = (\<lambda>_. 0)\<rparr>"

lemma ready_output_inv: "loop_inv example_env example_output ready_output"
  using example_ready_props(1)
  by (simp add: loop_inv_def keeps_length_def example_env_def ready_output_def example_ready_def example_handler_fields example_output_def)

theorem outputs_send_whole_packets_witness:
  "\<exists>s' d. output_run (output_step OutUdp (True, True) example_env) ready_output [OTimer all_sent, OCancelled] = Some s'
     \<and> ou_out s' = [d] \<and> length d = 1316 \<and> ou_phase s' = Finished"
proof -
  obtain h' ps where flush: "flush_packet_for_cbr example_ready = Some (h', Some (concat ps))"
    using flush_cbr_ok [OF example_ready_props(1-3)] by blast
  have out: "ph_output h' = ph_output example_ready"
    using flush_cbr_cases [OF example_ready_props(1) flush] by simp
  have np: "\<not> o_proxy (ph_output example_ready)"
    by (simp add: example_ready_def example_handler_fields example_output_def)
  let ?s = "finish (call (OPause (OutStopping OutUdp)) (ready_output\<lparr>ou_handler := h', ou_sent_bytes := 1316, ou_out := [concat ps]\<rparr>))"
  have run: "output_run (output_step OutUdp (True, True) example_env) ready_output [OTimer all_sent, OCancelled] = Some ?s"
    using flush out np
    by (simp add: output_step_def udp_cbr_def cbr_step_def cbr_timer_def ready_output_def udp_wrap_def all_sent_def)
  from outputs_send_whole_packets [OF ready_output_inv run] have "output_good OutUdp example_output (concat ps)"
    by (simp add: ready_output_def)
  moreover have "datagram_packets example_output = 7"
    by (simp add: datagram_packets_def example_output_def TS_PACKET_SIZE_def)
  ultimately obtain qs where qs: "concat ps = concat qs" "\<forall>p \<in> set qs. pkt_ok p" "length qs = 7"
    by (auto simp: output_good_def whole_packets_def)
  have "length (concat qs) = length qs * 188" if "\<forall>p \<in> set qs. pkt_ok p" for qs
    using that by (induction qs) (auto simp: pkt_ok_def TS_PACKET_SIZE_def)
  then show ?thesis
    using run qs by (intro exI [of _ ?s] exI [of _ "concat ps"]) (simp add: finish_def call_def)
qed

text \<open>
  C25. The http output drains its handler without losing, inventing or changing a byte: on a handler that is ready and not dirty the loop over the frames
  ends and does not panic. The bytes that waited, followed by the packets that left the handler, are the frames published followed by what waits
  now, which is less than a frame. The video packets among them are exactly what is gone from the front of the video buffer, the audio packets
  what is gone from the front of the audio buffer, in order, and all others are the cached tables with the next continuity counter (\<open>sends\<close>); and when
  a datagram of the output holds at least one packet, both buffers are empty at the end.
\<close>

theorem http_drains:
  assumes "ph_inv h" "ph_is_ready h" "\<not> ph_is_dirty h"
  shows "\<exists>h' fs xs. flush_all_frames h = Some (h', fs) \<and> ph_inv h' \<and> sends h xs h'
     \<and> (\<forall>x \<in> set xs. length (sent_bytes x) = 188 \<and> sent_bytes x ! 0 = 0x47)
     \<and> ph_frame_buff h @ concat (map sent_bytes xs) = concat fs @ ph_frame_buff h' \<and> (\<forall>f \<in> set fs. length f = 8192)
     \<and> length (ph_frame_buff h') < 8192 \<and> (188 \<le> unat (get_pkt_size h) \<longrightarrow> drained h')"
proof -
  have "\<exists>h' fs xs. flush_all_frames h = Some (h', fs) \<and> ph_inv h' \<and> sends h xs h'
     \<and> ph_frame_buff h @ sent_stream xs = concat fs @ ph_frame_buff h' \<and> (\<forall>f \<in> set fs. length f = 8192)
     \<and> length (ph_frame_buff h') < 8192 \<and> (188 \<le> unat (get_pkt_size h) \<longrightarrow> drained h')"
    using assms
  proof (induction h rule: flush_all_frames.induct)
    case (1 h)
    obtain h1 r xs where fr: "flush_frame h = Some (h1, r)" "frame_ok h h1" "sends h xs h1"
        "ph_frame_buff h @ sent_stream xs = (case r of None \<Rightarrow> [] | Some f \<Rightarrow> f) @ ph_frame_buff h1"
        "case r of Some f \<Rightarrow> length f = FRAME_BUFFER_SIZE
          | None \<Rightarrow> length (ph_frame_buff h1) < FRAME_BUFFER_SIZE \<and> (TS_PACKET_SIZE \<le> unat (get_pkt_size h) \<longrightarrow> drained h1)"
      using flush_frame_sends [OF 1(2-4)] by blast
    have h1: "ph_inv h1" "ph_is_ready h1" "\<not> ph_is_dirty h1" using fr(2) 1(3,4) by (simp_all add: frame_ok_def)
    show ?case
    proof (cases r)
      case None
      then show ?thesis
        using fr h1 by (intro exI [of _ h1] exI [of _ "[]"] exI [of _ xs])
          (simp add: flush_all_frames.simps [of h] FRAME_BUFFER_SIZE_def TS_PACKET_SIZE_def)
    next
      case (Some f)
      obtain h' fs ys where rec: "flush_all_frames h1 = Some (h', fs)" "ph_inv h'" "sends h1 ys h'"
          "ph_frame_buff h1 @ sent_stream ys = concat fs @ ph_frame_buff h'" "\<forall>f \<in> set fs. length f = 8192" "length (ph_frame_buff h') < 8192"
          "188 \<le> unat (get_pkt_size h1) \<longrightarrow> drained h'"
        using 1(1) [OF fr(1) [unfolded Some] refl refl h1] by blast
      have "ph_frame_buff h @ sent_stream (xs @ ys) = concat (f # fs) @ ph_frame_buff h'"
        using arg_cong [OF fr(4), of "\<lambda>x. x @ sent_stream ys"] rec(4) Some by simp
      moreover have "flush_all_frames h = Some (h', f # fs)" using fr(1) Some rec(1) by (simp add: flush_all_frames.simps [of h])
      moreover have "get_pkt_size h1 = get_pkt_size h" using fr(2) by (simp add: frame_ok_def get_pkt_size_def)
      ultimately show ?thesis
        using rec sends_trans [OF fr(3) rec(3)] fr(5) Some
        by (intro exI [of _ h'] exI [of _ "f # fs"] exI [of _ "xs @ ys"]) (auto simp: FRAME_BUFFER_SIZE_def)
    qed
  qed
  then obtain h' fs xs where "flush_all_frames h = Some (h', fs)" "ph_inv h'" "sends h xs h'"
      "ph_frame_buff h @ sent_stream xs = concat fs @ ph_frame_buff h'" "\<forall>f \<in> set fs. length f = 8192"
      "length (ph_frame_buff h') < 8192" "188 \<le> unat (get_pkt_size h) \<longrightarrow> drained h'"
    by blast
  moreover have "\<forall>x \<in> set xs. length (sent_bytes x) = 188 \<and> sent_bytes x ! 0 = 0x47"
    using sends_ok [OF \<open>sends h xs h'\<close> assms(1,2)] by (simp add: pkt_ok_def TS_PACKET_SIZE_def TS_SYNC_BYTE_def)
  ultimately show ?thesis
    unfolding sent_stream_def by blast
qed

theorem http_drains_witness:
  "\<exists>h' fs xs. flush_all_frames example_loaded = Some (h', fs) \<and> ph_inv h' \<and> sends example_loaded xs h'
     \<and> (\<forall>x \<in> set xs. length (sent_bytes x) = 188 \<and> sent_bytes x ! 0 = 0x47)
     \<and> concat (map sent_bytes xs) = concat fs @ ph_frame_buff h' \<and> (\<forall>f \<in> set fs. length f = 8192)
     \<and> length (ph_frame_buff h') < 8192 \<and> drained h'"
  using http_drains [OF example_loaded_props(1-3)] by (simp add: example_loaded_props(4,5))

section \<open>The pace\<close>

text \<open>
  The timer of an output of constant bit rate is right to the nanosecond: the bits of a datagram, sent once per period, are at least the configured rate, and
  with a period one nanosecond longer they are less. The period is zero, which panics, when the rate is more than
  a datagram per nanosecond.
\<close>

lemma cbr_time_ns_unat: "unat (cbr_time_ns pkt_size bitrate) = 8000000000 * unat pkt_size div unat bitrate"
proof -
  have lt: "unat pkt_size < 65536" using unsigned_less [of pkt_size] by simp
  have "n < 65536 \<Longrightarrow> n mod 18446744073709551616 = n" for n :: nat by simp
  note this [OF lt]
  then have u: "unat (ucast pkt_size :: u64) = unat pkt_size" by (simp add: unsigned_ucast_eq take_bit_eq_mod)
  have "(1000000000 * ucast pkt_size * 8 :: u64) = of_nat (8000000000 * unat pkt_size)"
    by (simp add: u [symmetric])
  also have "unat \<dots> = 8000000000 * unat pkt_size"
  proof -
    have "n < 65536 \<Longrightarrow> (8000000000 * n) mod 2 ^ LENGTH(64) = 8000000000 * n" for n :: nat by simp
    from this [OF lt] show ?thesis by (simp only: unat_of_nat)
  qed
  finally have "unat (1000000000 * ucast pkt_size * 8 :: u64) = 8000000000 * unat pkt_size" .
  then show ?thesis by (simp add: cbr_time_ns_def unat_div)
qed

lemma cbr_pace:
  assumes "bitrate \<noteq> 0"
  shows "unat (cbr_time_ns pkt_size bitrate) * unat bitrate \<le> 8 * unat pkt_size * 10 ^ 9
    \<and> 8 * unat pkt_size * 10 ^ 9 < (unat (cbr_time_ns pkt_size bitrate) + 1) * unat bitrate"
proof -
  have "0 < unat bitrate" using assms by (simp add: unat_gt_0)
  then show ?thesis
    unfolding cbr_time_ns_unat using div_times_less_eq_dividend [of "8000000000 * unat pkt_size" "unat bitrate"]
      dividend_less_div_times [of "unat bitrate" "8000000000 * unat pkt_size"] by simp
qed

text \<open>A failed send of a proxy cancels its task.\<close>

lemma proxy_send_failure_cancels:
  assumes "sd_result sd (length (sn_out sn)) = None"
  shows "sn_cancelled (fst (proxy_sender wrap sd sn pkt)) \<and> snd (proxy_sender wrap sd sn pkt) = None"
  using assms by (simp add: proxy_sender_def Let_def split_beta)

text \<open>The second error in a row ends the listener of the unix output for good, while the output itself goes on.\<close>

lemma unix_listener_gives_up:
  "\<not> li_running (foldl unix_accept listener_new ([AcceptError, AcceptError] @ es))"
proof -
  have "\<not> li_running l \<Longrightarrow> \<not> li_running (foldl unix_accept l es)" for l
    by (induction es arbitrary: l) (simp_all add: unix_accept_def)
  then show ?thesis by (simp add: unix_accept_def listener_new_def listen_call_def)
qed

text \<open>A client of the unix output is written every chunk it receives, in order, up to the first write that fails.\<close>

lemma unix_client_reads:
  "fst (unix_client (map (\<lambda>c. ClientChunk c True) cs @ es)) = concat cs @ fst (unix_client es)"
  by (induction cs) (simp_all add: split_beta)

lemma http_connections_accepted:
  "li_connections (foldl http_accept l es) \<subseteq> li_connections l \<union> {addr. Accepted addr \<in> set es}"
proof (induction es arbitrary: l)
  case (Cons e es)
  have "li_connections (http_accept l e) \<subseteq> li_connections l \<union> {addr. Accepted addr = e}"
    by (cases e) (auto simp: http_accept_def listen_call_def Let_def)
  then show ?case using Cons.IH [of "http_accept l e"] by auto
qed simp

end
