(* ===== verification/Relay.thy ===== *)
theory Relay
  imports Inputs Outputs
begin

text \<open>
  Inputs and outputs together. A proxy output without a program passes on what its worker's input publishes; here are the lemmas
  that take a stream from the input of a worker through such an output, and over RTP into the input of another
  instance. The theorems are in the root theory.
\<close>

section \<open>An output that passes everything on\<close>

definition passes :: "output_state \<Rightarrow> bool" where
  "passes s \<longleftrightarrow> ou_phase s = Sending \<and> o_proxy (ph_output (ou_handler s)) \<and> \<not> is_some_program (ou_handler s)"

text \<open>What a datagram or piece carries.\<close>

definition carried :: "output_kind \<Rightarrow> bytes \<Rightarrow> bytes" where
  "carried kind d = (if kind = OutRtp then drop 12 d else d)"

text \<open>The channel delivers every chunk and the ticks of the statistics come in between; every send succeeds.\<close>

definition chunks_of :: "output_event list \<Rightarrow> bytes list" where
  "chunks_of es = concat (map (\<lambda>e. case e of OChunk now c sd \<Rightarrow> [c] | _ \<Rightarrow> []) es)"

definition relays :: "output_event \<Rightarrow> bool" where
  "relays e \<longleftrightarrow> (case e of OStats \<Rightarrow> True | OChunk now c sd \<Rightarrow> (\<forall>k. sd_result sd k \<noteq> None \<and> sd_random sd k \<noteq> 0) | _ \<Rightarrow> False)"

lemma chunks_of_simps [simp]:
  "chunks_of [] = []" "chunks_of (OStats # es) = chunks_of es" "chunks_of (OChunk now c sd # es) = c # chunks_of es"
  by (simp_all add: chunks_of_def)

lemma relays_simps [simp]:
  "relays OStats" "relays (OChunk now c sd) \<longleftrightarrow> (\<forall>k. sd_result sd k \<noteq> None \<and> sd_random sd k \<noteq> 0)"
  by (simp_all add: relays_def)

lemma relays_cases:
  assumes "relays e"
  obtains "e = OStats" | now c sd where "e = OChunk now c sd" "\<And>k. sd_result sd k \<noteq> None" "\<And>k. sd_random sd k \<noteq> 0"
  using assms by (cases e) (auto simp: relays_def)

text \<open>How the state of the RTP sender moves on with a datagram.\<close>

definition packed :: "output_kind \<Rightarrow> rtp_state \<Rightarrow> bytes \<Rightarrow> bytes \<Rightarrow> rtp_state \<Rightarrow> bool" where
  "packed kind rtp c d rtp' \<longleftrightarrow> carried kind d = c
     \<and> (kind = OutRtp \<longrightarrow> (\<exists>elapsed random. random \<noteq> 0 \<and> rtp_pack rtp elapsed random c = (rtp', d)))"

lemma rtp_pack_carried: "rtp_pack rtp elapsed random c = (rtp', d) \<Longrightarrow> drop 12 d = c"
  by (auto simp: rtp_pack_def to_be16_def to_be32_def Let_def split: prod.splits if_splits)

lemma passes_stats: "passes s \<Longrightarrow> passes (output_stats_tick s) \<and> ou_out (output_stats_tick s) = ou_out s \<and> ou_rtp (output_stats_tick s) = ou_rtp s"
  by (simp add: passes_def output_stats_tick_def Let_def on_stats_def is_some_program_def)

lemma output_step_relays:
  assumes "passes s" "relays e"
  shows "\<exists>s'. output_step kind shut env s e = Some s' \<and> passes s'
    \<and> (case e of OChunk now c sd \<Rightarrow> \<exists>d. ou_out s' = ou_out s @ [d] \<and> packed kind (ou_rtp s) c d (ou_rtp s')
       | _ \<Rightarrow> ou_out s' = ou_out s \<and> ou_rtp s' = ou_rtp s)"
  using assms(2)
proof (cases rule: relays_cases)
  case 1
  then have "output_step kind shut env s e = Some (output_stats_tick s)"
    using assms(1) by (cases kind) (simp_all add: passes_def output_step_def udp_proxy_def rtp_proxy_def proxy_step_def
        http_server_def unix_server_def server_step_def)
  then show ?thesis using passes_stats [OF assms(1)] 1 by simp
next
  case (2 now c sd)
  have h: "proxy_packet env' handler (ou_handler s) sn c = Some (ou_handler s, fst (handler sn c), length c)" for env' handler and sn :: sender
    using assms(1) by (simp add: proxy_packet_def passes_def)
  let ?k = "length (ou_out s)"
  obtain i where i: "sd_result sd ?k = Some i" using 2(2) by blast
  obtain rtp d where rtp: "rtp_pack (ou_rtp s) (sd_elapsed sd ?k) (sd_random sd ?k) c = (rtp, d)" by fastforce
  show ?thesis
    using assms(1) i rtp 2(1,3) rtp_pack_carried [OF rtp]
    by (cases kind) (auto simp: passes_def output_step_def udp_proxy_def rtp_proxy_def proxy_step_def proxy_chunk_def h
        http_server_def unix_server_def server_step_def server_chunk_def proxy_sender_def channel_sender_def udp_wrap_def packed_def carried_def)
qed

text \<open>A run: the datagrams with the states of the RTP sender between them.\<close>

fun packed_all :: "output_kind \<Rightarrow> rtp_state \<Rightarrow> bytes list \<Rightarrow> bytes list \<Rightarrow> bool" where
  "packed_all kind rtp [] [] = True"
| "packed_all kind rtp (c # cs) (d # ds) \<longleftrightarrow> (\<exists>rtp'. packed kind rtp c d rtp' \<and> packed_all kind rtp' cs ds)"
| "packed_all kind rtp _ _ = False"

lemma packed_all_carried: "packed_all kind rtp cs ds \<Longrightarrow> map (carried kind) ds = cs"
  by (induction kind rtp cs ds rule: packed_all.induct) (auto simp: packed_def)

lemma output_run_relays:
  assumes "passes s" "list_all relays es"
  shows "\<exists>s' ds. output_run (output_step kind shut env) s es = Some s' \<and> passes s' \<and> ou_out s' = ou_out s @ ds
    \<and> packed_all kind (ou_rtp s) (chunks_of es) ds"
  using assms
proof (induction es arbitrary: s)
  case (Cons e es)
  then have e: "relays e" by simp
  obtain s1 where s1: "output_step kind shut env s e = Some s1" "passes s1"
      "case e of OChunk now c sd \<Rightarrow> \<exists>d. ou_out s1 = ou_out s @ [d] \<and> packed kind (ou_rtp s) c d (ou_rtp s1)
       | _ \<Rightarrow> ou_out s1 = ou_out s \<and> ou_rtp s1 = ou_rtp s"
    using output_step_relays [OF Cons.prems(1) e] by blast
  obtain s' ds where run: "output_run (output_step kind shut env) s1 es = Some s'" "passes s'" "ou_out s' = ou_out s1 @ ds"
      "packed_all kind (ou_rtp s1) (chunks_of es) ds"
    using Cons.IH [OF s1(2)] Cons.prems by auto
  show ?case
    using e
  proof (cases rule: relays_cases)
    case 1
    then show ?thesis using s1 run by (intro exI [of _ s'] exI [of _ ds]) simp
  next
    case (2 now c sd)
    then obtain d where "ou_out s1 = ou_out s @ [d]" "packed kind (ou_rtp s) c d (ou_rtp s1)" using s1(3) by auto
    then show ?thesis using s1 run 2 by (intro exI [of _ s'] exI [of _ "d # ds"]) auto
  qed
qed simp

section \<open>A receiver at the other end\<close>

definition receives :: "input_state \<Rightarrow> bool" where
  "receives s \<longleftrightarrow> it_phase s = Receiving \<and> it_biss s = None \<and> rtp_plain (it_rtp s)"

text \<open>Sender and receiver agree about the source, or the receiver has not heard of one yet.\<close>

definition linked :: "rtp_state \<Rightarrow> rtp_state \<Rightarrow> bool" where
  "linked tx rx \<longleftrightarrow> rtp_plain tx \<and> (rtp_ssrc rx = 0 \<or> rtp_ssrc rx = rtp_ssrc tx \<and> rtp_ssrc tx \<noteq> 0)"

lemma came_back_fields [simp]:
  "it_phase (came_back s) = it_phase s" "it_biss (came_back s) = it_biss s" "it_rtp (came_back s) = it_rtp s" "it_tx (came_back s) = it_tx s"
  by (simp_all add: came_back_def on_helper_def)

lemma rtp_pack_length: "rtp_pack rtp elapsed random c = (rtp', d) \<Longrightarrow> length d = 12 + length c"
  by (auto simp: rtp_pack_def to_be16_def to_be32_def Let_def split: prod.splits if_splits)

lemma rtp_step_receives:
  assumes "receives s" "linked tx (it_rtp s)" "packed OutRtp tx c d tx'" "length c \<le> UDP_READ_CHUNK_SIZE"
  shows "\<exists>s'. remote_step InRtp env now s (Data d) = Some s' \<and> receives s' \<and> linked tx' (it_rtp s') \<and> it_tx s' = it_tx s @ [c]"
proof -
  obtain elapsed random where pack: "rtp_pack tx elapsed random c = (tx', d)" "random \<noteq> 0"
    using assms(3) by (auto simp: packed_def)
  have tx: "rtp_plain tx" "rtp_plain (it_rtp s)" using assms(1,2) by (simp_all add: linked_def receives_def)
  have ssrc: "rtp_ssrc tx' = (if rtp_ssrc tx = 0 then random else rtp_ssrc tx)"
    using pack(1) by (auto simp: rtp_pack_def Let_def split: if_splits prod.splits)
  have src: "rtp_ssrc (it_rtp s) = 0 \<or> rtp_ssrc (it_rtp s) = rtp_ssrc tx'"
    using assms(2) ssrc by (auto simp: linked_def)
  note un = rtp_pack_unpack [OF tx pack(1) src]
  have "take RTP_READ_CHUNK_SIZE d = d"
    using rtp_pack_length [OF pack(1)] assms(4) by (simp add: RTP_READ_CHUNK_SIZE_def UDP_READ_CHUNK_SIZE_def)
  then have "remote_step InRtp env now s (Data d) = Some (forward now c (s\<lparr>it_rtp := (it_rtp s)\<lparr>rtp_ssrc := rtp_ssrc tx'\<rparr>\<rparr>))"
    using assms(1) un(1) by (simp add: remote_step_def rtp_step_def datagram_step_def rtp_data_def receives_def take_data_plain)
  then show ?thesis
    using assms(1) tx(2) un(2) ssrc pack(2) by (auto simp: forward_def receives_def linked_def rtp_plain_def)
qed

lemma rtp_run_receives:
  assumes "packed_all OutRtp tx cs ds" "receives s" "linked tx (it_rtp s)" "\<forall>c \<in> set cs. length c \<le> UDP_READ_CHUNK_SIZE"
    and "length ts = length ds"
  shows "\<exists>s'. input_run (remote_step InRtp env) s (zip ts (map Data ds)) = Some s' \<and> receives s' \<and> it_tx s' = it_tx s @ cs"
  using assms
proof (induction cs arbitrary: tx ds s ts)
  case Nil
  then show ?case by (cases ds) auto
next
  case (Cons c cs)
  obtain d ds' tx' where d: "ds = d # ds'" "packed OutRtp tx c d tx'" "packed_all OutRtp tx' cs ds'"
    using Cons.prems(1) by (cases ds) auto
  obtain t ts' where t: "ts = t # ts'" "length ts' = length ds'" using Cons.prems(5) d(1) by (cases ts) auto
  have "length c \<le> UDP_READ_CHUNK_SIZE" using Cons.prems(4) by simp
  from rtp_step_receives [OF Cons.prems(2,3) d(2) this] obtain s1 where
    s1: "remote_step InRtp env t s (Data d) = Some s1" "receives s1" "linked tx' (it_rtp s1)" "it_tx s1 = it_tx s @ [c]"
    by blast
  then show ?case using Cons.IH [OF d(3) s1(2,3) _ t(2)] Cons.prems(4) d(1) t(1) by auto
qed

section \<open>The sizes of what a udp input publishes\<close>

lemma udp_step_sizes:
  assumes "it_biss s = None" "remote_step InUdp env now s e = Some s'"
  shows "it_biss s' = None \<and> (it_tx s' = it_tx s \<or> (\<exists>c. it_tx s' = it_tx s @ [c] \<and> length c \<le> UDP_READ_CHUNK_SIZE))"
  using assms
  by (auto simp: remote_step_def udp_step_def datagram_step_def udp_data_def take_data_plain forward_def stopped_def to_phase_def on_helper_def
      connected_def go_dirty_def count_error_def fetch_failed_def idle_def tick_stats_def Let_def split: input_phase.splits input_event.splits if_splits)

lemma udp_run_sizes:
  "it_biss s = None \<Longrightarrow> input_run (remote_step InUdp env) s es = Some s' \<Longrightarrow> \<forall>c \<in> set (it_tx s). length c \<le> UDP_READ_CHUNK_SIZE \<Longrightarrow>
   \<forall>c \<in> set (it_tx s'). length c \<le> UDP_READ_CHUNK_SIZE"
proof (induction es arbitrary: s)
  case (Cons x es)
  obtain now e where x: "x = (now, e)" by fastforce
  obtain s1 where s1: "remote_step InUdp env now s e = Some s1" "input_run (remote_step InUdp env) s1 es = Some s'"
    using Cons.prems(2) x by (auto simp: bind_eq_Some_conv)
  note sz = udp_step_sizes [OF Cons.prems(1) s1(1)]
  then show ?case using Cons.IH [OF _ s1(2)] Cons.prems(3) by auto
qed simp

end
