(* ===== verification/Config_File.thy ===== *)
theory Config_File
  imports Supervisor_Props Rust_Utf8 Rust_Text
begin

text \<open>
  The configuration file: \<open>read_config\<close> and \<open>write_config\<close> of \<open>config.rs\<close>, the save of the supervisor on top of them, and the
  start of the program (\<open>run\<close> of \<open>supervisor.rs\<close>) up to the point where the configuration is loaded. The directory is a map from
  numbers to contents: 0 is \<open>config.json\<close>, \<open>i\<close> is \<open>config.json.i\<close>. Whether a call of the file system succeeds is an argument.
\<close>

section \<open>Paths\<close>

text \<open>A path is the list of its components. The variable of cargo and the path of the executable are arguments.\<close>

type_synonym path = "string list"

record path_env =
  pe_manifest_dir :: "path option"
  pe_current_exe :: "path option"

definition project_dir :: "path_env \<Rightarrow> path option" where
  "project_dir env = (case pe_manifest_dir env of
     Some manifest_dir \<Rightarrow> Some manifest_dir
   | None \<Rightarrow> map_option butlast (pe_current_exe env))"

text \<open>Without a directory of the project these functions panic.\<close>

definition config_filename :: "path_env \<Rightarrow> path option" where
  "config_filename env = do { dir \<leftarrow> project_dir env; Some (dir @ [''config'', ''config.json'']) }"

definition database_filename :: "path_env \<Rightarrow> path option" where
  "database_filename env = do { dir \<leftarrow> project_dir env; Some (dir @ [''data'', ''mymuxer.redb'']) }"

text \<open>The directory of the pid file is made when it is missing; \<open>exists\<close> is \<open>None\<close> when the check for it fails.\<close>

definition pid_filename :: "path_env \<Rightarrow> bool option \<Rightarrow> bool \<Rightarrow> path option" where
  "pid_filename env exists mkdir_ok = do {
     dir \<leftarrow> project_dir env;
     exists \<leftarrow> exists;
     if exists \<or> mkdir_ok then Some (dir @ [''pid'', ''mymuxer.pid'']) else None }"

text \<open>\<open>with_extension\<close>: what is behind the last dot of the file name, unless it begins the name, gives way to the extension.\<close>

definition file_stem :: "string \<Rightarrow> string" where
  "file_stem name = (let rest = dropWhile (\<lambda>c. c \<noteq> CHR ''.'') (rev name)
     in if rest = [] \<or> tl rest = [] then name else rev (tl rest))"

definition with_extension :: "string \<Rightarrow> path \<Rightarrow> path" where
  "with_extension ext p = (if p = [] then [] else butlast p @ [file_stem (last p) @ ''.'' @ ext])"

definition config_file :: "path_env \<Rightarrow> nat \<Rightarrow> path option" where
  "config_file env i = do {
     p \<leftarrow> config_filename env;
     Some (if i = 0 then p else with_extension (''json.'' @ show_nat i) p) }"

text \<open>The numbers stand for different files of one directory.\<close>

lemma config_file_name:
  "project_dir env = Some dir \<Longrightarrow>
   config_file env i = Some (dir @ [''config'', if i = 0 then ''config.json'' else ''config.json.'' @ show_nat i])"
  by (simp add: config_file_def config_filename_def with_extension_def file_stem_def butlast_append)

lemma config_file_inj:
  assumes "project_dir env = Some dir" "config_file env i = config_file env j"
  shows "i = j"
  using assms(2) unfolding config_file_name [OF assms(1)] by (auto split: if_splits)

section \<open>Reading and writing\<close>

type_synonym config_files = "nat \<rightharpoonup> bytes"

text \<open>
  \<open>fe_exists i\<close> and \<open>fe_rename i\<close> say whether the check for the file and the renaming of it succeed; \<open>fe_written\<close> is
  \<open>Some n\<close> when the write fails after \<open>n\<close> bytes.
\<close>

record file_env =
  fe_exists :: "nat \<Rightarrow> bool"
  fe_rename :: "nat \<Rightarrow> bool"
  fe_mkdir :: bool
  fe_create :: bool
  fe_written :: "usize option"
  fe_open :: bool
  fe_read :: bool

datatype file_error = ExistsFailed | BackupFailed nat | RenamingFailed | DirFailed | CreateFailed | WritingFailed
  | OpenFailed | ReadingFailed | InvalidUtf8

definition try_exists :: "file_env \<Rightarrow> config_files \<Rightarrow> nat \<Rightarrow> bool option" where
  "try_exists env files i = (if fe_exists env i then Some (files i \<noteq> None) else None)"

definition move_file :: "nat \<Rightarrow> nat \<Rightarrow> config_files \<Rightarrow> config_files" where
  "move_file i j files = files(j := files i, i := None)"

fun backups :: "file_env \<Rightarrow> nat list \<Rightarrow> config_files \<Rightarrow> (file_error + unit) \<times> config_files" where
  "backups env [] files = (Inr (), files)"
| "backups env (i # is) files =
    (if try_exists env files i = Some True
     then if fe_rename env i then backups env is (move_file i (i + 1) files) else (Inl (BackupFailed i), files)
     else backups env is files)"

definition write_new :: "file_env \<Rightarrow> rstring \<Rightarrow> config_files \<Rightarrow> (file_error + unit) \<times> config_files" where
  "write_new env cfg_json files =
    (if \<not> fe_create env then (Inl CreateFailed, files)
     else case fe_written env of
         None \<Rightarrow> (Inr (), files(0 \<mapsto> cfg_json))
       | Some n \<Rightarrow> (Inl WritingFailed, files(0 \<mapsto> take n cfg_json)))"

definition write_config :: "file_env \<Rightarrow> rstring \<Rightarrow> config_files \<Rightarrow> (file_error + unit) \<times> config_files" where
  "write_config env cfg_json files = (case try_exists env files 0 of
     Some True \<Rightarrow> (case backups env [4, 3, 2, 1] files of
         (Inl e, files) \<Rightarrow> (Inl e, files)
       | (Inr _, files) \<Rightarrow> if fe_rename env 0 then write_new env cfg_json (move_file 0 1 files) else (Inl RenamingFailed, files))
   | Some False \<Rightarrow> if fe_mkdir env then write_new env cfg_json files else (Inl DirFailed, files)
   | None \<Rightarrow> (Inl ExistsFailed, files))"

definition read_config :: "file_env \<Rightarrow> config_files \<Rightarrow> file_error + rstring" where
  "read_config env files = (case files 0 of
     None \<Rightarrow> Inl OpenFailed
   | Some cfg_json \<Rightarrow>
       if \<not> fe_open env then Inl OpenFailed
       else if \<not> fe_read env then Inl ReadingFailed
       else if utf8_valid cfg_json then Inr cfg_json else Inl InvalidUtf8)"

text \<open>The save of the supervisor with the files it writes.\<close>

definition save_files :: "file_env \<Rightarrow> supervisor \<times> config_files \<Rightarrow> (sv_error + rstring) \<times> supervisor \<times> config_files" where
  "save_files env st = (case st of (s, files) \<Rightarrow> (case sv_src_config s of
     None \<Rightarrow> (fst (sv_save True s), s, files)
   | Some src_config \<Rightarrow>
       let (r, files) = write_config env src_config files;
           (saved, s) = sv_save (r = Inr ()) s
       in (saved, s, files)))"

text \<open>
  The start of the program: without a file that can be read it goes on without a configuration, with one that cannot be loaded it
  ends.
\<close>

definition start_load :: "sv_env \<Rightarrow> file_env \<Rightarrow> bool \<Rightarrow> config_files \<Rightarrow> sv_error + supervisor" where
  "start_load env fenv in_time files = (case read_config fenv files of
     Inl _ \<Rightarrow> Inr sv_new
   | Inr cfg_json \<Rightarrow> (case sv_load env in_time cfg_json sv_new of (Inl e, s) \<Rightarrow> Inl e | (Inr _, s) \<Rightarrow> Inr s))"

section \<open>The versions that are kept\<close>

definition all_calls_succeed :: "file_env \<Rightarrow> bool" where
  "all_calls_succeed env \<longleftrightarrow> (\<forall>i. fe_exists env i) \<and> (\<forall>i. fe_rename env i) \<and> fe_mkdir env \<and> fe_create env
     \<and> fe_written env = None \<and> fe_open env \<and> fe_read env"

text \<open>A save moves every version one place on; only what is in the fifth place goes, and only when the fourth is taken.\<close>

definition shifted :: "rstring \<Rightarrow> config_files \<Rightarrow> config_files" where
  "shifted cfg files = files(5 := (if files 4 \<noteq> None then files 4 else files 5), 4 := files 3, 3 := files 2, 2 := files 1,
     1 := files 0, 0 \<mapsto> cfg)"

lemma shifted_simps:
  "shifted cfg files 0 = Some cfg" "i \<le> 3 \<Longrightarrow> shifted cfg files (Suc i) = files i"
  "files 4 \<noteq> None \<Longrightarrow> shifted cfg files 5 = files 4" "files 4 = None \<Longrightarrow> shifted cfg files 5 = files 5"
  "5 < i \<Longrightarrow> shifted cfg files i = files i"
proof -
  show "shifted cfg files (Suc i) = files i" if "i \<le> 3"
  proof -
    from that have "i \<le> 3" .
    then consider "i = 0" | "i = 1" | "i = 2" | "i = 3" by linarith
    then show ?thesis by cases (simp_all add: shifted_def eval_nat_numeral)
  qed
qed (simp_all add: shifted_def)

lemma write_config_shifts:
  assumes "all_calls_succeed env" "files 0 \<noteq> None"
  shows "write_config env cfg files = (Inr (), shifted cfg files)"
proof -
  have ok: "try_exists env fs i = Some (fs i \<noteq> None)" "fe_rename env i" "fe_create env" "fe_written env = None" for i fs
    using assms(1) by (auto simp: all_calls_succeed_def try_exists_def)
  show ?thesis
    using assms(2) by (auto simp: write_config_def write_new_def ok move_file_def shifted_def fun_eq_iff)
qed

lemma write_config_first:
  "all_calls_succeed env \<Longrightarrow> files 0 = None \<Longrightarrow> write_config env cfg files = (Inr (), files(0 \<mapsto> cfg))"
  by (simp add: write_config_def write_new_def try_exists_def all_calls_succeed_def)

text \<open>What a sequence of saves leaves of an empty directory.\<close>

fun write_all :: "file_env \<Rightarrow> rstring list \<Rightarrow> config_files \<Rightarrow> (file_error + unit) \<times> config_files" where
  "write_all env [] files = (Inr (), files)"
| "write_all env (cfg # cfgs) files = (case write_config env cfg files of
     (Inl e, files) \<Rightarrow> (Inl e, files) | (Inr _, files) \<Rightarrow> write_all env cfgs files)"

definition versions :: "rstring list \<Rightarrow> config_files" where
  "versions cfgs = (\<lambda>i. if i \<le> 5 \<and> i < length cfgs then Some (cfgs ! i) else None)"

lemma versions_0: "versions [] = Map.empty"
  by (simp add: versions_def fun_eq_iff)

lemma shifted_versions:
  assumes "cfgs \<noteq> []"
  shows "shifted cfg (versions cfgs) = versions (cfg # cfgs)"
proof
  fix i
  consider "i = 0" | j where "i = Suc j" "j \<le> 3" | "i = 5" | "5 < i" by (cases i) (auto, linarith)
  then show "shifted cfg (versions cfgs) i = versions (cfg # cfgs) i"
  proof cases
    case 2
    then show ?thesis by (simp add: shifted_simps versions_def)
  next
    case 3
    then show ?thesis
      by (cases "versions cfgs 4 = None") (auto simp: shifted_simps versions_def nth_Cons split: if_splits)
  qed (auto simp: shifted_simps versions_def)
qed

lemma write_config_versions:
  "all_calls_succeed env \<Longrightarrow> write_config env cfg (versions cfgs) = (Inr (), versions (cfg # cfgs))"
proof (cases "cfgs = []")
  case True
  assume "all_calls_succeed env"
  then show ?thesis using True by (auto simp: write_config_first versions_0) (auto simp: versions_def fun_eq_iff)
next
  case False
  assume "all_calls_succeed env"
  moreover have "versions cfgs 0 \<noteq> None" using False by (simp add: versions_def)
  ultimately show ?thesis using write_config_shifts shifted_versions [OF False] by metis
qed

lemma write_all_versions:
  "all_calls_succeed env \<Longrightarrow> write_all env cfgs (versions old) = (Inr (), versions (rev cfgs @ old))"
  by (induction cfgs arbitrary: old) (simp_all add: write_config_versions)

section \<open>When a call fails\<close>

text \<open>
  A version whose own check succeeds is moved one place on before anything is moved onto its place, or stays where it is when a renaming
  fails first.
\<close>

lemma backups_keep:
  assumes "backups env (rev [1..<Suc n]) files = (r, files')"
  shows "(\<forall>i c. 1 \<le> i \<longrightarrow> i \<le> n \<longrightarrow> fe_exists env i \<longrightarrow> files i = Some c \<longrightarrow>
      files' (Suc i) = Some c \<or> files' i = Some c \<and> r \<noteq> Inr ()) \<and> (\<forall>j. j = 0 \<or> Suc n < j \<longrightarrow> files' j = files j)"
  using assms
proof (induction n arbitrary: files)
  case (Suc n)
  let ?i = "Suc n"
  consider "try_exists env files ?i \<noteq> Some True" | "try_exists env files ?i = Some True" "\<not> fe_rename env ?i"
    | "try_exists env files ?i = Some True" "fe_rename env ?i" by blast
  then show ?case
  proof cases
    case 1
    then have rest: "backups env (rev [1..<Suc n]) files = (r, files')" using Suc.prems by simp
    have "\<not> fe_exists env ?i \<or> files ?i = None" using 1 by (auto simp: try_exists_def)
    then show ?thesis using Suc.IH [OF rest] by (auto simp: le_Suc_eq)
  next
    case 2
    then show ?thesis using Suc.prems by auto
  next
    case 3
    let ?f = "move_file ?i (Suc ?i) files"
    have rest: "backups env (rev [1..<Suc n]) ?f = (r, files')" using Suc.prems 3 by simp
    note IH = Suc.IH [OF rest]
    have "files' (Suc ?i) = files ?i" using IH by (simp add: move_file_def)
    moreover have "?f j = files j" if "j \<le> n \<or> Suc ?i < j" for j using that by (auto simp: move_file_def)
    ultimately show ?thesis using IH by (auto simp: le_Suc_eq)
  qed
qed simp

lemma backups_4: "[4, 3, 2, 1] = rev [1..<Suc 4]"
  by code_simp


text \<open>The check for the second backup fails: the first one is moved onto it, and the save succeeds.\<close>

lemma failed_check_loses_version:
  assumes "fe_exists env = (\<lambda>i. i \<noteq> 2)" "\<And>i. fe_rename env i" "fe_create env" "fe_written env = None"
  shows "fst (write_config env cfg [0 \<mapsto> a, 1 \<mapsto> b, 2 \<mapsto> c]) = Inr ()"
    "snd (write_config env cfg [0 \<mapsto> a, 1 \<mapsto> b, 2 \<mapsto> c]) = [0 \<mapsto> cfg, 1 \<mapsto> a, 2 \<mapsto> b]"
  using assms by (auto simp: write_config_def write_new_def try_exists_def move_file_def fun_eq_iff)

definition half_env :: file_env where
  "half_env = \<lparr>fe_exists = (\<lambda>i. i \<noteq> 3), fe_rename = (\<lambda>_. True), fe_mkdir = True, fe_create = True, fe_written = Some 1,
     fe_open = True, fe_read = True\<rparr>"


section \<open>Saving and starting again\<close>

text \<open>What is loaded was parsed from the text that is kept and has passed validation.\<close>

definition config_consistent :: "sv_env \<Rightarrow> supervisor \<Rightarrow> bool" where
  "config_consistent env s \<longleftrightarrow> (case sv_src_config s of None \<Rightarrow> True
     | Some c \<Rightarrow> (\<exists>cfg. ve_parse env c = Some cfg \<and> sv_config s = Some cfg \<and> validate_config cfg = Inr ()))"

definition same_config :: "supervisor \<Rightarrow> supervisor \<Rightarrow> bool" where
  "same_config s s' \<longleftrightarrow> sv_src_config s' = sv_src_config s \<and> sv_config s' = sv_config s"

lemma same_config_refl [simp]: "same_config s s"
  by (simp add: same_config_def)

lemma same_config_trans: "same_config a b \<Longrightarrow> same_config b c \<Longrightarrow> same_config a c"
  by (simp add: same_config_def)

lemma same_config_consistent: "same_config s s' \<Longrightarrow> config_consistent env s \<Longrightarrow> config_consistent env s'"
  by (auto simp: same_config_def config_consistent_def split: option.splits)

lemma advance_config: "advance env op s = (op', s') \<Longrightarrow> same_config s s'"
  by (cases op) (auto simp: same_config_def workers_start_def Let_def split: if_splits option.splits prod.splits sum.splits)

lemma monitor_worker_config: "same_config s (fst (monitor_worker (s, is) i))"
  by (auto simp: monitor_worker_def same_config_def split: option.splits prod.splits)

lemma monitor_workers_config: "monitor_workers walk s = (s', ops) \<Longrightarrow> same_config s s'"
proof -
  have "same_config s (fst (foldl monitor_worker (s, is) walk))" for s "is"
  proof (induction walk arbitrary: s "is")
    case (Cons i walk)
    obtain s1 is1 where "monitor_worker (s, is) i = (s1, is1)" by fastforce
    then show ?case using Cons.IH [of s1 is1] monitor_worker_config [of s "is" i] by (auto intro: same_config_trans)
  qed simp
  then show "monitor_workers walk s = (s', ops) \<Longrightarrow> same_config s s'"
    by (metis (no_types, lifting) fst_conv monitor_workers_def case_prod_beta)
qed

lemma routers_start_config: "same_config s (foldl router_start s cs)"
proof (induction cs arbitrary: s)
  case (Cons c cs)
  have "same_config s (router_start s c)" by (auto simp: router_start_def same_config_def Let_def split: prod.splits)
  then show ?case using Cons.IH [of "router_start s c"] by (auto intro: same_config_trans)
qed simp

lemma routers_stop_config: "http_router_stop env walk s = (r, s') \<Longrightarrow> same_config s s'"
proof (induction walk arbitrary: s)
  case (Cons i walk)
  show ?case
  proof (cases "sv_http_router s i")
    case (Some h)
    obtain w rt where w: "wait_and_abort (ve_ends env h) h (cancel_all {h} (sv_rt s)) = (w, rt)" by fastforce
    let ?s = "s\<lparr>sv_http_router := (sv_http_router s)(i := None), sv_rt := rt\<rparr>"
    have "same_config s ?s" by (simp add: same_config_def)
    then show ?thesis
      using Cons.prems Cons.IH [of ?s] Some w by (auto simp: Let_def split: sum.splits intro: same_config_trans)
  qed (use Cons.prems in simp)
qed simp

lemma save_config: "sv_save ok s = (r, s') \<Longrightarrow> same_config s s'"
  by (auto simp: sv_save_def same_config_def split: option.splits if_splits)

lemma load_consistent: "sv_load env in_time c s = (r, s') \<Longrightarrow> config_consistent env s \<Longrightarrow> config_consistent env s'"
  by (auto simp: sv_load_def config_consistent_def split: option.splits sum.splits if_splits)

lemma step_consistent: "sv_step env st st' \<Longrightarrow> config_consistent env (fst st) \<Longrightarrow> config_consistent env (fst st')"
proof (induction rule: sv_step.induct)
  case (op_step k ops s op' s')
  then show ?case using advance_config same_config_consistent by fastforce
next
  case (monitor_round walk s s' restarts ops)
  then show ?case using monitor_workers_config same_config_consistent by fastforce
next
  case (monitor_saves s ops now ok)
  have "same_config s (monitor_save now ok s)"
    using save_config [of ok s] by (auto simp: monitor_save_def intro: save_config [OF prod.collapse [symmetric]])
  then show ?case using monitor_saves same_config_consistent by fastforce
next
  case (routers_start s r s' ops)
  then have "same_config s s'" by (auto simp: http_router_start_def routers_start_config split: option.splits)
  then show ?case using routers_start same_config_consistent by fastforce
next
  case (routers_stop walk s r s' ops)
  then show ?case using routers_stop_config same_config_consistent by fastforce
next
  case (save ok s saved s' ops)
  then show ?case using save_config same_config_consistent by fastforce
next
  case (load in_time c s r s' ops)
  then show ?case using load_consistent by fastforce
qed (auto elim!: same_config_consistent [rotated] simp: same_config_def monitor_epg_def sv_mark_dirty_def epg_start_def epg_stop_def
      start_dump_def stop_dump_def probe_begin_def probe_end_def Let_def split: if_splits option.splits prod.splits)

lemma reachable_consistent: "sv_reachable env st \<Longrightarrow> config_consistent env (fst st)"
  by (induction rule: sv_reachable.induct) (simp add: config_consistent_def sv_new_def, erule (1) step_consistent)

text \<open>
  C17. A configuration survives a restart: in every reachable state with a configuration loaded, when the calls of the file
  system succeed, a save succeeds and the program that starts on the files it leaves has the same text and the
  same configuration. Over any sequence of saves the directory holds the current version and the five before it, in order.
\<close>

theorem saved_config_restored:
  assumes "sv_reachable env (s, ops)" "sv_src_config s = Some c" "utf8_valid c" "all_calls_succeed fenv"
  shows "(\<exists>s1 files' s2. save_files fenv (s, files) = (Inr c, s1, files') \<and> \<not> sv_dirty s1 \<and> start_load env fenv True files' = Inr s2
      \<and> sv_get_config s2 = sv_get_config s \<and> sv_config s2 = sv_config s)
    \<and> write_all fenv cfgs (\<lambda>_. None) = (Inr (), \<lambda>i. if i \<le> 5 \<and> i < length cfgs then Some (rev cfgs ! i) else None)"
proof
  obtain files' where w: "write_config fenv c files = (Inr (), files')" "files' 0 = Some c"
    using write_config_shifts [OF assms(4)] write_config_first [OF assms(4)] shifted_simps(1) by (cases "files 0") (simp, fastforce)
  obtain cfg where cfg: "ve_parse env c = Some cfg" "sv_config s = Some cfg" "validate_config cfg = Inr ()"
    using reachable_consistent [OF assms(1)] assms(2) by (auto simp: config_consistent_def)
  have "read_config fenv files' = Inr c"
    using w(2) assms(3,4) by (simp add: read_config_def all_calls_succeed_def)
  then show "\<exists>s1 files' s2. save_files fenv (s, files) = (Inr c, s1, files') \<and> \<not> sv_dirty s1 \<and> start_load env fenv True files' = Inr s2
      \<and> sv_get_config s2 = sv_get_config s \<and> sv_config s2 = sv_config s"
    using w assms(2) cfg by (auto simp: save_files_def sv_save_def start_load_def sv_load_def sv_get_config_def)
  show "write_all fenv cfgs (\<lambda>_. None) = (Inr (), \<lambda>i. if i \<le> 5 \<and> i < length cfgs then Some (rev cfgs ! i) else None)"
    using write_all_versions [OF assms(4), of cfgs "[]"] by (simp add: versions_def)
qed

definition good_env :: file_env where
  "good_env = \<lparr>fe_exists = (\<lambda>_. True), fe_rename = (\<lambda>_. True), fe_mkdir = True, fe_create = True, fe_written = None,
     fe_open = True, fe_read = True\<rparr>"

definition empty_config :: config where
  "empty_config = \<lparr>c_mgnt = \<lparr>mg_hash = [], mg_last_update = 0, mg_admin_url = [], mg_allow = []\<rparr>, c_epg_configs = [],
     c_streams = [], c_http_routers = []\<rparr>"

definition parsing_env :: sv_env where
  "parsing_env = \<lparr>ve_parse = (\<lambda>c. if c = [0x7B, 0x7D] then Some empty_config else None), ve_ends = (\<lambda>_. Ends), ve_walk = (\<lambda>_. [])\<rparr>"

theorem saved_config_restored_witness:
  "\<exists>s1 files' s2. save_files good_env (sv_new\<lparr>sv_src_config := Some [0x7B, 0x7D], sv_config := Some empty_config\<rparr>, versions [[1]]) = (Inr [0x7B, 0x7D], s1, files')
     \<and> start_load parsing_env good_env True files' = Inr s2 \<and> sv_get_config s2 = [0x7B, 0x7D] \<and> sv_config s2 = Some empty_config"
proof -
  let ?s = "sv_new\<lparr>sv_src_config := Some [0x7B, 0x7D], sv_config := Some empty_config\<rparr>"
  have "sv_load parsing_env True [0x7B, 0x7D] sv_new = (Inr (), ?s)"
    by (simp add: sv_load_def parsing_env_def empty_config_def validate_config_def)
  then have "sv_reachable parsing_env (?s, [])"
    using sv_reachable.then_step [OF sv_reachable.initial sv_step.load] by blast
  moreover have "utf8_valid [0x7B, 0x7D]" by code_simp
  moreover have "all_calls_succeed good_env" by (simp add: all_calls_succeed_def good_env_def)
  ultimately show ?thesis
    using saved_config_restored [of parsing_env ?s "[]" "[0x7B, 0x7D]" good_env "versions [[1]]" "[]"]
    by (auto simp: sv_get_config_def)
qed

lemma backups_succeed:
  "(\<And>i. fe_rename env i) \<Longrightarrow> 0 \<notin> set is \<Longrightarrow> \<exists>fs. backups env is files = (Inr (), fs) \<and> fs 0 = files 0"
proof (induction "is" arbitrary: files)
  case (Cons i "is")
  have "move_file i (i + 1) files 0 = files 0" using Cons.prems(2) by (simp add: move_file_def)
  then show ?case using Cons.IH [of files] Cons.IH [of "move_file i (i + 1) files"] Cons.prems by simp
qed simp

text \<open>
  The current file is written in place. When the write fails, the text it leaves is not parsed, and the previous version
  stands complete in the first backup, the program nevertheless ends when it is started the next time; and a save that cannot
  create the file lets it start without a configuration.
\<close>

lemma interrupted_save_stops_program:
  assumes "\<And>i. fe_exists fenv i" "\<And>i. fe_rename fenv i" "fe_create fenv" "fe_written fenv = Some n" "fe_open fenv" "fe_read fenv"
    and "ve_parse env (take n new) = None" "utf8_valid (take n new)"
  shows "\<exists>files'. write_config fenv new (versions (old # rest)) = (Inl WritingFailed, files') \<and> files' 1 = Some old
    \<and> start_load env fenv in_time files' = Inl ParseError"
proof -
  obtain fs where "backups fenv [4, 3, 2, 1] (versions (old # rest)) = (Inr (), fs)" and 0: "fs 0 = Some old"
    using backups_succeed [OF assms(2), of "[4, 3, 2, 1]" "versions (old # rest)"] by (auto simp del: backups.simps simp: versions_def)
  then have "write_config fenv new (versions (old # rest)) = (Inl WritingFailed, (move_file 0 1 fs)(0 \<mapsto> take n new))"
    using assms(1-4) by (simp add: write_config_def write_new_def try_exists_def versions_def)
  then show ?thesis using assms 0 by (simp add: move_file_def start_load_def read_config_def sv_load_def)
qed

lemma uncreated_file_starts_empty:
  assumes "\<And>i. fe_exists fenv i" "\<And>i. fe_rename fenv i" "\<not> fe_create fenv"
  shows "\<exists>files'. write_config fenv new (versions (old # rest)) = (Inl CreateFailed, files') \<and> files' 1 = Some old
    \<and> start_load env fenv in_time files' = Inr sv_new"
proof -
  obtain fs where "backups fenv [4, 3, 2, 1] (versions (old # rest)) = (Inr (), fs)" and 0: "fs 0 = Some old"
    using backups_succeed [OF assms(2), of "[4, 3, 2, 1]" "versions (old # rest)"] by (auto simp del: backups.simps simp: versions_def)
  then have "write_config fenv new (versions (old # rest)) = (Inl CreateFailed, move_file 0 1 fs)"
    using assms by (simp add: write_config_def write_new_def try_exists_def versions_def)
  then show ?thesis using assms 0 by (simp add: move_file_def start_load_def read_config_def)
qed

section \<open>The log files\<close>

text \<open>
  \<open>cleanup_logs\<close> of \<open>main.rs\<close>. Of an entry of the directory: whether it is a file, its age in seconds when it can be told, and
  whether it can be removed.
\<close>

record log_entry =
  le_name :: rstring
  le_is_file :: bool
  le_age :: "nat option"
  le_removable :: bool

fun cleanup_logs :: "nat \<Rightarrow> log_entry list \<Rightarrow> log_entry list \<times> rstring list" where
  "cleanup_logs days_to_keep [] = ([], [])"
| "cleanup_logs days_to_keep (e # es) =
    (let (kept, failed) = cleanup_logs days_to_keep es
     in if le_is_file e \<and> (case le_age e of None \<Rightarrow> False | Some age \<Rightarrow> age > days_to_keep * 24 * 60 * 60)
        then if le_removable e then (kept, failed) else (e # kept, le_name e # failed)
        else (e # kept, failed))"

lemma cleanup_logs_eq:
  "cleanup_logs days es =
    (filter (\<lambda>e. \<not> (le_is_file e \<and> le_removable e \<and> (\<exists>age. le_age e = Some age \<and> days * 86400 < age))) es,
     map le_name (filter (\<lambda>e. le_is_file e \<and> \<not> le_removable e \<and> (\<exists>age. le_age e = Some age \<and> days * 86400 < age)) es))"
  by (induction es) (auto simp: split_beta split: option.splits)

end
