(* ===== verification/Management.thy ===== *)
theory Management
  imports Http_Api Output_Stats Probe
begin

text \<open>
  The side of the management server: \<open>api_client.rs\<close>, the envelope of the messages in \<open>status.rs\<close>, the task that delivers the
  messages of a worker (\<open>workers/mod.rs\<close>), and of \<open>supervisor.rs\<close> the loop \<open>status\<close>, the events, the statistics, \<open>probe\<close> and the
  restart of the server in \<open>run\<close>. The HTTP library, the parser of addresses and the JSON serializer are arguments.
\<close>

section \<open>The client\<close>

text \<open>What a request leads to: no answer, an answer whose body cannot be read, or a status with a body.\<close>

datatype http_answer = NoAnswer | NoBody | Answer nat rstring

datatype api_error = TransportError | BodyError | StatusError nat rstring

definition is_success :: "nat \<Rightarrow> bool" where
  "is_success status \<longleftrightarrow> 200 \<le> status \<and> status < 300"

definition api_send :: "http_answer \<Rightarrow> api_error + nat \<times> rstring" where
  "api_send a = (case a of
     NoAnswer \<Rightarrow> Inl TransportError
   | NoBody \<Rightarrow> Inl BodyError
   | Answer status body \<Rightarrow> if is_success status then Inr (status, body) else Inl (StatusError status body))"

definition api_get :: "http_answer \<Rightarrow> api_error + rstring" where
  "api_get a = (case a of
     NoAnswer \<Rightarrow> Inl TransportError
   | NoBody \<Rightarrow> Inl BodyError
   | Answer status body \<Rightarrow> if is_success status then Inr body else Inl (StatusError status body))"

text \<open>An answer of the server with a status that is no success is an error too, not only a failed transport.\<close>

lemma api_send_error_iff:
  "(\<exists>e. api_send a = Inl e) \<longleftrightarrow> a = NoAnswer \<or> a = NoBody \<or> (\<exists>status body. a = Answer status body \<and> \<not> is_success status)"
  by (auto simp: api_send_def split: http_answer.splits)

section \<open>Messages\<close>

datatype api_action = ActStatus | ActEvent | ActLog | ActCmd

definition api_action_str :: "api_action \<Rightarrow> string" where
  "api_action_str a = (case a of ActStatus \<Rightarrow> ''status'' | ActEvent \<Rightarrow> ''event'' | ActLog \<Rightarrow> ''log'' | ActCmd \<Rightarrow> ''cmd'')"

datatype 'm payload =
    StatusData rstring "nat \<times> nat \<times> nat" "u32 list"
  | EventData event
  | LogData u32 u32 'm string
  | CmdData string u32 u32

record 'm api_envelope =
  ad_hash :: rstring
  ad_last_update :: rat
  ad_time :: string
  ad_action :: string
  ad_data :: "'m payload"

text \<open>The parts of \<open>ApiConfig\<close>: the client is there or not, and the data of the management section.\<close>

record api_config =
  ac_client :: bool
  ac_mgnt :: mgnt

definition api_data :: "api_config \<Rightarrow> string \<Rightarrow> api_action \<Rightarrow> 'm payload \<Rightarrow> 'm api_envelope" where
  "api_data cfg now action data = \<lparr>ad_hash = mg_hash (ac_mgnt cfg), ad_last_update = mg_last_update (ac_mgnt cfg), ad_time = now,
     ad_action = api_action_str action, ad_data = data\<rparr>"

text \<open>
  The outside: which addresses are well formed, which messages can be serialized, what a request that posts a message leads to,
  and the text of the local time.
\<close>

record 'm api_env =
  ae_url_ok :: "rstring \<Rightarrow> bool"
  ae_ser_ok :: "'m api_envelope \<Rightarrow> bool"
  ae_answer :: "'m api_envelope \<Rightarrow> http_answer"
  ae_time :: string

datatype post_error = UrlInvalid | NoClient | NotSerialized | SendError api_error

text \<open>The message of a helper on its way: what is posted, and the error.\<close>

definition message_payload :: "'m api_message \<Rightarrow> api_action \<times> 'm payload" where
  "message_payload m = (case m of
     ApiLog worker_id output_id message level \<Rightarrow> (ActLog, LogData worker_id output_id message (log_level_str level))
   | ApiCmd worker_id output_id c \<Rightarrow> (ActCmd, CmdData (cmd_str c) worker_id output_id))"

definition post_message :: "'m api_env \<Rightarrow> api_config \<Rightarrow> 'm api_message \<Rightarrow> 'm api_envelope list \<times> post_error option" where
  "post_message env cfg m =
    (if \<not> ae_url_ok env (mg_admin_url (ac_mgnt cfg)) then ([], Some UrlInvalid)
     else if \<not> ac_client cfg then ([], Some NoClient)
     else let (action, data) = message_payload m;
              d = api_data cfg (ae_time env) action data
          in if \<not> ae_ser_ok env d then ([], Some NotSerialized)
             else case api_send (ae_answer env d) of Inl e \<Rightarrow> ([d], Some (SendError e)) | Inr _ \<Rightarrow> ([d], None))"

text \<open>The task of \<open>set_api_config\<close>: every message of the channel is posted once, an error is only written down.\<close>

fun deliver :: "'m api_env \<Rightarrow> api_config \<Rightarrow> 'm api_message list \<Rightarrow> 'm api_envelope list \<times> post_error list" where
  "deliver env cfg [] = ([], [])"
| "deliver env cfg (m # ms) =
    (let (posted, e) = post_message env cfg m; (rest, errs) = deliver env cfg ms
     in (posted @ rest, (case e of None \<Rightarrow> [] | Some e \<Rightarrow> [e]) @ errs))"

text \<open>The server sees the messages in the order in which they were told, each at most once.\<close>

lemma deliver_eq:
  assumes "ae_url_ok env (mg_admin_url (ac_mgnt cfg))" "ac_client cfg"
  shows "fst (deliver env cfg ms)
    = filter (ae_ser_ok env) (map (\<lambda>m. api_data cfg (ae_time env) (fst (message_payload m)) (snd (message_payload m))) ms)"
  using assms by (induction ms) (auto simp: post_message_def Let_def split_beta split: sum.splits option.splits)

lemma deliver_nothing:
  "\<not> ae_url_ok env (mg_admin_url (ac_mgnt cfg)) \<Longrightarrow> deliver env cfg ms = ([], replicate (length ms) UrlInvalid)"
  by (induction ms) (simp_all add: post_message_def)

section \<open>Events\<close>

definition sv_api_config :: "bool \<Rightarrow> config \<Rightarrow> api_config" where
  "sv_api_config client config = \<lparr>ac_client = client, ac_mgnt = c_mgnt config\<rparr>"

datatype event_result = EventError post_error | EventLogged post_error | EventDone

text \<open>A failed send and a failed serialization are only written down; without a configuration nothing happens.\<close>

definition sv_event :: "'m api_env \<Rightarrow> bool \<Rightarrow> supervisor \<Rightarrow> event \<Rightarrow> 'm api_envelope list \<times> event_result" where
  "sv_event env client s ev =
    (if \<not> client then ([], EventError NoClient)
     else case sv_config s of
       None \<Rightarrow> ([], EventDone)
     | Some config \<Rightarrow>
         let d = api_data (sv_api_config False config) (ae_time env) ActEvent (EventData ev)
         in if \<not> ae_ser_ok env d then ([], EventLogged NotSerialized)
            else if \<not> ae_url_ok env (mg_admin_url (c_mgnt config)) then ([], EventError UrlInvalid)
            else case api_send (ae_answer env d) of Inl e \<Rightarrow> ([d], EventLogged (SendError e)) | Inr _ \<Rightarrow> ([d], EventDone))"

section \<open>The status loop\<close>

definition STATUS_ERR_PER_MIN :: int where
  "STATUS_ERR_PER_MIN = 60 div 3"

datatype status_line = SerializationError | StatusSendError api_error | StatusErrors int | ConfigMissing

record 'm status_state =
  st_err_count :: int
  st_err_count_payload :: int
  st_err_count_send :: int
  st_log :: "status_line list"
  st_posted :: "'m api_envelope list"
  st_running :: bool
  st_sv :: supervisor

definition status_new :: "bool \<Rightarrow> supervisor \<Rightarrow> 'm status_state" where
  "status_new client s = \<lparr>st_err_count = 0, st_err_count_payload = 0, st_err_count_send = 0, st_log = [], st_posted = [],
     st_running = client, st_sv = s\<rparr>"

text \<open>An error is written down when it is the first, and counted; the twentieth is written down with the count.\<close>

definition count_status_error :: "status_line \<Rightarrow> int \<Rightarrow> status_line list \<times> int" where
  "count_status_error line n =
    (if n = 0 then ([line], n + 1)
     else if n \<ge> STATUS_ERR_PER_MIN then ([StatusErrors n], 1)
     else ([], n + 1))"

text \<open>The look at every worker that may end its dirty state.\<close>

definition poll_workers :: "nat \<Rightarrow> supervisor \<Rightarrow> supervisor" where
  "poll_workers now s = s\<lparr>sv_workers := (\<lambda>i. map_option (\<lambda>w. w\<lparr>wk_helper := cmd_unmark_dirty now (wk_helper w)\<rparr>) (sv_workers s i))\<rparr>"

text \<open>One tick. \<open>walk\<close> are the keys of the map of workers; an address that is not well formed ends the loop.\<close>

definition status_tick :: "'m api_env \<Rightarrow> nat \<Rightarrow> u32 list \<Rightarrow> rstring \<times> (nat \<times> nat \<times> nat) \<Rightarrow> 'm status_state \<Rightarrow> 'm status_state" where
  "status_tick env now walk top_mem st =
    (if \<not> st_running st then st
     else case sv_config (st_sv st) of
       None \<Rightarrow>
         st\<lparr>st_log := st_log st @ (if st_err_count st = 0 \<or> st_err_count st \<ge> STATUS_ERR_PER_MIN then [ConfigMissing] else []),
            st_err_count := st_err_count st + 1\<rparr>
     | Some config \<Rightarrow>
         let st = st\<lparr>st_sv := poll_workers now (st_sv st)\<rparr>;
             d = api_data (sv_api_config False config) (ae_time env) ActStatus (StatusData (fst top_mem) (snd top_mem) walk)
         in if \<not> ae_ser_ok env d then
              let (lines, n) = count_status_error SerializationError (st_err_count_payload st)
              in st\<lparr>st_log := st_log st @ lines, st_err_count_payload := n\<rparr>
            else if \<not> ae_url_ok env (mg_admin_url (c_mgnt config)) then st\<lparr>st_running := False\<rparr>
            else let st = st\<lparr>st_posted := st_posted st @ [d]\<rparr>
                 in case api_send (ae_answer env d) of
                      Inr _ \<Rightarrow> st
                    | Inl e \<Rightarrow>
                        let (lines, n) = count_status_error (StatusSendError e) (st_err_count_send st)
                        in st\<lparr>st_log := st_log st @ lines, st_err_count_send := n\<rparr>)"

text \<open>The loop over its ticks; between two of them the other operations change the supervisor.\<close>

type_synonym status_input = "(supervisor \<Rightarrow> supervisor) \<times> nat \<times> u32 list \<times> rstring \<times> (nat \<times> nat \<times> nat)"

fun status_ticks :: "'m api_env \<Rightarrow> status_input list \<Rightarrow> 'm status_state \<Rightarrow> 'm status_state" where
  "status_ticks env [] st = st"
| "status_ticks env ((change, now, walk, top_mem) # ticks) st =
    status_ticks env ticks (status_tick env now walk top_mem (st\<lparr>st_sv := change (st_sv st)\<rparr>))"

section \<open>The statistics\<close>

record output_sizes =
  oz_output_id :: u32
  oz_max_in :: u64
  oz_max_out_a :: u64
  oz_max_out_v :: u64

record worker_sizes =
  wz_stream_id :: u32
  wz_stream_name :: rstring
  wz_outputs :: "output_sizes set"
  wz_buffers_size :: u64
  wz_dirty :: bool
  wz_dirty_secs :: nat
  wz_message :: "worker_msg option"

definition output_size :: "output_stats \<Rightarrow> u64" where
  "output_size st = os_max_in_buffer_size st + bs_max_buffer_size (os_a_buffer_stats st) + bs_max_buffer_size (os_v_buffer_stats st)"

text \<open>The statistics live in the tasks, so they are an argument by the handle; the outputs come in the order of the walk.\<close>

definition worker_stats_value :: "(handle \<Rightarrow> output_stats) \<Rightarrow> nat \<Rightarrow> u32 \<Rightarrow> worker \<Rightarrow> (u32 \<times> handle) list \<Rightarrow> worker_sizes" where
  "worker_stats_value stats now i w outputs =
    (let (ozs, buffers_size) = foldl (\<lambda>(ozs, n) (p, h).
           (insert \<lparr>oz_output_id = p, oz_max_in = os_max_in_buffer_size (stats h),
              oz_max_out_a = bs_max_buffer_size (os_a_buffer_stats (stats h)),
              oz_max_out_v = bs_max_buffer_size (os_v_buffer_stats (stats h))\<rparr> ozs, n + output_size (stats h))) ({}, 0) outputs
     in \<lparr>wz_stream_id = i, wz_stream_name = s_name (wk_config w), wz_outputs = ozs, wz_buffers_size = buffers_size,
         wz_dirty = is_dirty (wk_helper w),
         wz_dirty_secs = (case get_last_dirty_time (wk_helper w) of None \<Rightarrow> 0 | Some t \<Rightarrow> (now - t) div 1000000000),
         wz_message = get_unmark_message (wk_helper w)\<rparr>)"

definition worker_stats :: "sv_env \<Rightarrow> (handle \<Rightarrow> output_stats) \<Rightarrow> nat \<Rightarrow> (u32 \<times> worker) list \<Rightarrow> worker_sizes list \<times> u64" where
  "worker_stats env stats now workers =
    (let st = map (\<lambda>(i, w). worker_stats_value stats now i w (ve_walk env (wk_outputs w))) workers
     in (st, sum_list (map wz_buffers_size st)))"

record worker_stat =
  wt_timestamp :: int
  wt_stream_id :: u32
  wt_stream_name :: rstring
  wt_input_stats :: input_stats
  wt_outputs :: "(u32 \<times> output_stats) set"

definition worker_stat_value :: "(handle \<Rightarrow> input_stats) \<Rightarrow> (handle \<Rightarrow> output_stats) \<Rightarrow> int \<Rightarrow> u32 \<Rightarrow> worker \<Rightarrow> (u32 \<times> handle) list \<Rightarrow> worker_stat" where
  "worker_stat_value in_stats stats now i w outputs = \<lparr>wt_timestamp = now, wt_stream_id = i, wt_stream_name = s_name (wk_config w),
     wt_input_stats = in_stats (wk_remote w), wt_outputs = set (map (\<lambda>(p, h). (p, stats h)) outputs)\<rparr>"

definition worker_stat_of :: "sv_env \<Rightarrow> (handle \<Rightarrow> input_stats) \<Rightarrow> (handle \<Rightarrow> output_stats) \<Rightarrow> int \<Rightarrow> supervisor \<Rightarrow> u32 \<Rightarrow> worker_stat option" where
  "worker_stat_of env in_stats stats now s i =
    map_option (\<lambda>w. worker_stat_value in_stats stats now i w (ve_walk env (wk_outputs w))) (sv_workers s i)"

definition worker_list :: "sv_env \<Rightarrow> (handle \<Rightarrow> input_stats) \<Rightarrow> (handle \<Rightarrow> output_stats) \<Rightarrow> int \<Rightarrow> (u32 \<times> worker) list \<Rightarrow> worker_stat set" where
  "worker_list env in_stats stats now workers =
    set (map (\<lambda>(i, w). worker_stat_value in_stats stats now i w (ve_walk env (wk_outputs w))) workers)"

section \<open>Probing a running stream\<close>

text \<open>
  The lock is given back by a guard, also when the probe panics (\<open>None\<close>). What arrives on the channel of the worker is an
  argument.
\<close>

definition sv_probe :: "(bytes \<Rightarrow> rstring) \<Rightarrow> (bytes \<Rightarrow> rstring) \<Rightarrow> probe_input list \<Rightarrow> u32 \<Rightarrow> supervisor \<Rightarrow> (sv_error + probe_result) option \<times> supervisor" where
  "sv_probe iso_8859_5 utf_16be ins i s = (case probe_begin i s of
     (Inl e, s) \<Rightarrow> (Some (Inl e), s)
   | (Inr _, s) \<Rightarrow>
       (case sv_workers s i of
          None \<Rightarrow> Some (Inl (WorkerNotFound i))
        | Some w \<Rightarrow> map_option Inr (probe_run iso_8859_5 utf_16be (s_id (wk_config w)) ins), probe_end i s))"

lemma sv_probe_keeps_lock: "sv_probe_lock (snd (sv_probe d e ins i s)) = sv_probe_lock s"
  by (auto simp: sv_probe_def probe_begin_def probe_end_def split: option.splits)

section \<open>Running the server\<close>

text \<open>
  \<open>run\<close> starts the server again when it ends, after an error six times at most: the results of the calls of \<open>server\<close> that are made
  until the loop is left, or \<open>None\<close> when it goes on after them.
\<close>

fun run_server :: "int \<Rightarrow> bool list \<Rightarrow> bool list option" where
  "run_server err_count [] = None"
| "run_server err_count (ok # rs) =
    (if ok then map_option ((#) ok) (run_server err_count rs)
     else if err_count = 5 then Some [ok]
     else map_option ((#) ok) (run_server (err_count + 1) rs))"

lemma run_server_count:
  "0 \<le> n \<Longrightarrow> n \<le> 5 \<Longrightarrow> run_server n rs = None \<longleftrightarrow> n + int (count_list rs False) < 6"
  by (induction n rs rule: run_server.induct) auto

text \<open>The count is not reset by a server that ran well: six errors over any time end the program.\<close>

lemma run_server_ends_iff: "(\<exists>calls. run_server 0 rs = Some calls) \<longleftrightarrow> 6 \<le> count_list rs False"
  using run_server_count [of 0 rs] by (cases "run_server 0 rs") auto

section \<open>The total of the buffers\<close>

lemma output_sizes_sum:
  "snd (foldl (\<lambda>(ozs, n) (p, h). (insert (f p h) ozs, n + output_size (stats h))) (ozs, n) outputs)
    = n + sum_list (map (\<lambda>(p, h). output_size (stats h)) outputs)"
  by (induction outputs arbitrary: ozs n) (auto simp: algebra_simps)

lemma wz_buffers_size_eq:
  "wz_buffers_size (worker_stats_value stats now i w outputs) = sum_list (map (\<lambda>(p, h). output_size (stats h)) outputs)"
  using output_sizes_sum [where ozs = "{}" and n = 0] by (simp add: worker_stats_value_def Let_def split_beta)

lemma sum_over_walk:
  fixes g :: "'h \<Rightarrow> u64"
  assumes "distinct (map fst xs)" "set xs = {(p, h). outs p = Some h}"
  shows "sum_list (map (\<lambda>(p, h). g h) xs) = (\<Sum>p \<in> dom outs. g (the (outs p)))"
proof -
  have "sum_list (map (\<lambda>(p, h). g h) xs) = (\<Sum>(p, h) \<in> set xs. g h)"
    using distinct_map [of fst xs] assms(1) by (simp add: sum_list_distinct_conv_sum_set)
  also have "set xs = (\<lambda>p. (p, the (outs p))) ` dom outs" unfolding assms(2) by force
  also have "(\<Sum>(p, h) \<in> (\<lambda>p. (p, the (outs p))) ` dom outs. g h) = (\<Sum>p \<in> dom outs. g (the (outs p)))"
    by (subst sum.reindex) (auto simp: inj_on_def)
  finally show ?thesis .
qed

text \<open>
  The figure for all streams is the sum over all outputs of all workers (modulo the width of the counter), whatever the order
  in which the maps are walked.
\<close>

lemma all_buffers_size_total:
  assumes "distinct (map fst workers)" "set workers = {(i, w). sv_workers s i = Some w}"
    and "\<And>i w. sv_workers s i = Some w \<Longrightarrow> distinct (map fst (ve_walk env (wk_outputs w)))
           \<and> set (ve_walk env (wk_outputs w)) = {(p, h). wk_outputs w p = Some h}"
  shows "snd (worker_stats env stats now workers)
    = (\<Sum>i \<in> dom (sv_workers s). \<Sum>p \<in> dom (wk_outputs (the (sv_workers s i))). output_size (stats (the (wk_outputs (the (sv_workers s i)) p))))"
proof -
  have "snd (worker_stats env stats now workers)
      = sum_list (map (\<lambda>(i, w). \<Sum>p \<in> dom (wk_outputs w). output_size (stats (the (wk_outputs w p)))) workers)"
    unfolding worker_stats_def Let_def snd_conv map_map
    using assms(2,3) by (intro arg_cong [where f = sum_list] map_cong) (auto simp: wz_buffers_size_eq sum_over_walk)
  then show ?thesis
    using sum_over_walk [OF assms(1,2)] by simp
qed

section \<open>The end of a dirty state\<close>

lemma poll_worker: "sv_workers (poll_workers now s) i = map_option (\<lambda>w. w\<lparr>wk_helper := cmd_unmark_dirty now (wk_helper w)\<rparr>) (sv_workers s i)"
  by (simp add: poll_workers_def)

lemma status_tick_polls:
  assumes "st_running st" "sv_config (st_sv st) = Some config" "ae_url_ok env (mg_admin_url (c_mgnt config))"
  shows "st_running (status_tick env now walk tm st) \<and> st_sv (status_tick env now walk tm st) = poll_workers now (st_sv st)"
  using assms by (auto simp: status_tick_def Let_def split_beta split: sum.splits)

lemma ticks_helper:
  assumes "st_running st" "sv_config (st_sv st) = Some config" "ae_url_ok env (mg_admin_url (c_mgnt config))" "sv_workers (st_sv st) i = Some w"
    and "\<forall>(change, rest) \<in> set ticks. \<forall>s. sv_config (change s) = sv_config s \<and> sv_workers (change s) i = sv_workers s i"
  shows "st_running (status_ticks env ticks st) \<and> sv_workers (st_sv (status_ticks env ticks st)) i
    = Some (w\<lparr>wk_helper := foldl (\<lambda>h (change, now, rest). cmd_unmark_dirty now h) (wk_helper w) ticks\<rparr>)"
  using assms
proof (induction ticks arbitrary: st w)
  case (Cons x ticks)
  obtain change now walk tm where x: "x = (change, now, walk, tm)" by (cases x) auto
  let ?st = "st\<lparr>st_sv := change (st_sv st)\<rparr>"
  let ?st' = "status_tick env now walk tm ?st"
  have keep: "sv_config (change (st_sv st)) = Some config" "sv_workers (change (st_sv st)) i = Some w"
    using Cons.prems x by auto
  have tick: "st_running ?st'" "st_sv ?st' = poll_workers now (change (st_sv st))"
    using status_tick_polls [of ?st config env now walk tm] Cons.prems keep by simp_all
  have "sv_config (st_sv ?st') = Some config" "sv_workers (st_sv ?st') i = Some (w\<lparr>wk_helper := cmd_unmark_dirty now (wk_helper w)\<rparr>)"
    unfolding tick(2) poll_worker by (simp_all add: keep poll_workers_def)
  then show ?case using Cons.IH [OF tick(1) _ Cons.prems(3)] Cons.prems(5) x by simp
qed simp

lemma unmark_when_due:
  assumes "get_last_dirty_time h = Some t"
  shows "foldl (\<lambda>h (change, now, rest). cmd_unmark_dirty now h) h ticks
    = (if \<exists>(change, now, rest) \<in> set ticks. t + DIRTY_TIMEOUT < now then cmd_unmark_dirty_now h else h)"
proof -
  have idle: "foldl (\<lambda>h (change, now, rest). cmd_unmark_dirty now h) h ticks = h" if "get_last_dirty_time h = None" for h ticks
    using that by (induction ticks) (auto simp: cmd_unmark_dirty_def)
  have "get_last_dirty_time (cmd_unmark_dirty_now h) = None"
    by (simp add: status_defs Let_def split: option.splits)
  then show ?thesis
    using assms
  proof (induction ticks)
    case (Cons x ticks)
    obtain change now rest where x: "x = (change, now, rest)" by (cases x)
    show ?case
    proof (cases "t + DIRTY_TIMEOUT < now")
      case True
      then have "cmd_unmark_dirty now h = cmd_unmark_dirty_now h" using assms by (simp add: cmd_unmark_dirty_def)
      then show ?thesis using x True idle [OF Cons.prems(1)] by simp
    next
      case False
      then have "cmd_unmark_dirty now h = h" using assms by (simp add: cmd_unmark_dirty_def)
      then show ?thesis using x False Cons by simp
    qed
  qed simp
qed

text \<open>
  C18. The dirty state of a worker ends: while the configuration names a well formed address, the loop keeps running, whatever the server answers and
  whatever the other operations do to other workers between two ticks. A worker that was marked at time \<open>t\<close> and
  not since is left alone by every tick up to thirty seconds later; the first tick after that tells the server exactly once
  that it is clean again, with the text that waited if there was one.
\<close>

theorem status_ends_dirty:
  assumes "st_running st" "sv_config (st_sv st) = Some config" "ae_url_ok env (mg_admin_url (c_mgnt config))"
    and "sv_workers (st_sv st) i = Some w" "get_last_dirty_time (wk_helper w) = Some t" "he_api_tx (wk_helper w) = Some told"
    and "\<forall>(change, rest) \<in> set ticks. \<forall>s. sv_config (change s) = sv_config s \<and> sv_workers (change s) i = sv_workers s i"
  shows "st_running (status_ticks env ticks st) \<and> (\<exists>w'. sv_workers (st_sv (status_ticks env ticks st)) i = Some w'
    \<and> (if \<exists>(change, now, rest) \<in> set ticks. t + 30 * 1000000000 < now
       then \<not> is_dirty (wk_helper w') \<and> get_last_dirty_time (wk_helper w') = None
         \<and> he_api_tx (wk_helper w') = Some (told @ [ApiCmd (he_worker_id (wk_helper w)) (he_output_id (wk_helper w)) UnMarkDirty]
             @ (case get_unmark_message (wk_helper w) of None \<Rightarrow> []
                | Some m \<Rightarrow> [ApiLog (he_worker_id (wk_helper w)) (he_output_id (wk_helper w)) m Info]))
       else w' = w))"
proof -
  have "\<not> is_dirty (cmd_unmark_dirty_now h) \<and> get_last_dirty_time (cmd_unmark_dirty_now h) = None
      \<and> he_api_tx (cmd_unmark_dirty_now h) = Some (told @ [ApiCmd (he_worker_id h) (he_output_id h) UnMarkDirty]
          @ (case get_unmark_message h of None \<Rightarrow> [] | Some m \<Rightarrow> [ApiLog (he_worker_id h) (he_output_id h) m Info]))"
    if "he_api_tx h = Some told" for h :: "worker_msg helper"
    using that by (auto simp: status_defs Let_def split: option.splits)
  from this [OF assms(6)] show ?thesis
    using ticks_helper [OF assms(1-4,7)] unmark_when_due [OF assms(5), of ticks] by (auto simp: DIRTY_TIMEOUT_def)
qed

definition deaf_env :: "worker_msg api_env" where
  "deaf_env = \<lparr>ae_url_ok = (\<lambda>_. True), ae_ser_ok = (\<lambda>_. True), ae_answer = (\<lambda>_. NoAnswer), ae_time = []\<rparr>"

definition marked_worker :: worker where
  "marked_worker = udp_worker\<lparr>wk_helper := mark_dirty 7 RemoteFinished (set_api_config (helper_new 5))\<rparr>"

definition marked_status :: "worker_msg status_state" where
  "marked_status = status_new True (sv_new\<lparr>sv_config := Some closed_config, sv_workers := [5 \<mapsto> marked_worker]\<rparr>)"

theorem status_ends_dirty_witness:
  "\<exists>w'. sv_workers (st_sv (status_ticks deaf_env [(\<lambda>s. s, 3000000000, [5], [], 0, 0, 0), (\<lambda>s. s\<lparr>sv_dirty := True\<rparr>, 30000000008, [5], [], 0, 0, 0)]
       marked_status)) 5 = Some w'
     \<and> \<not> is_dirty (wk_helper w') \<and> is_dirty (wk_helper marked_worker)
     \<and> he_api_tx (wk_helper w') = Some [ApiCmd 5 0 MarkDirty, ApiLog 5 0 RemoteFinished Warn, ApiCmd 5 0 UnMarkDirty]"
proof -
  let ?ticks = "[(\<lambda>s. s, 3000000000, [5], [], 0, 0, 0), (\<lambda>s. s\<lparr>sv_dirty := True\<rparr>, 30000000008, [5], [], 0, 0, 0)] :: status_input list"
  have h: "get_last_dirty_time (wk_helper marked_worker) = Some 7" "is_dirty (wk_helper marked_worker)" "he_worker_id (wk_helper marked_worker) = 5"
    "he_output_id (wk_helper marked_worker) = 0" "get_unmark_message (wk_helper marked_worker) = None"
    "he_api_tx (wk_helper marked_worker) = Some [ApiCmd 5 0 MarkDirty, ApiLog 5 0 RemoteFinished Warn]"
    by (simp_all add: marked_worker_def status_defs set_api_config_def helper_new_def Let_def)
  have st: "st_running marked_status" "sv_config (st_sv marked_status) = Some closed_config" "sv_workers (st_sv marked_status) 5 = Some marked_worker"
    by (simp_all add: marked_status_def status_new_def)
  have url: "ae_url_ok deaf_env (mg_admin_url (c_mgnt closed_config))" by (simp add: deaf_env_def)
  have "\<forall>(change, rest) \<in> set ?ticks. \<forall>s. sv_config (change s) = sv_config s \<and> sv_workers (change s) 5 = sv_workers s 5" by simp
  from status_ends_dirty [OF st(1,2) url st(3) h(1,6) this] show ?thesis
    using h by (auto simp del: status_ticks.simps)
qed

text \<open>An address that is not well formed ends the loop at its first tick, for good; no worker is looked at any more.\<close>

lemma bad_address_ends_status:
  assumes "sv_config (st_sv st) = Some config" "\<not> ae_url_ok env (mg_admin_url (c_mgnt config))" "\<And>d. ae_ser_ok env d"
  shows "\<not> st_running (status_tick env now walk tm st)"
    and "\<not> st_running st \<Longrightarrow> status_tick env now walk tm st = st"
  using assms by (simp_all add: status_tick_def Let_def)

text \<open>The count of ticks without a configuration is not reset: from the twenty-first on every tick writes a line.\<close>

lemma missing_config_lines:
  assumes "sv_config s = None"
  shows "st_log (foldl (\<lambda>st (now, walk, tm). status_tick env now walk tm st) (status_new True s) ticks)
    = replicate (if ticks = [] then 0 else 1 + (length ticks - 20)) ConfigMissing"
proof -
  have "foldl (\<lambda>st (now, walk, tm). status_tick env now walk tm st) (status_new True s) ticks
      = (status_new True s)\<lparr>st_err_count := int (length ticks),
          st_log := replicate (if ticks = [] then 0 else 1 + (length ticks - 20)) ConfigMissing\<rparr>"
    using assms
    by (induction ticks rule: rev_induct)
      (auto simp: status_new_def status_tick_def STATUS_ERR_PER_MIN_def replicate_append_same [symmetric] Suc_diff_le)
  then show ?thesis by simp
qed

end
