(* ===== verification/Spec2Isabelle.thy ===== *)
theory Spec2Isabelle
  imports Mux_Order Psi_Eit Rtp Es_Description Supervisor_Props Http_Api Probe Epg Http_Router Hls Relay Config_File Management
begin

text \<open>
  A verification of \<^bold>\<open>mymuxer\<close>, a multiplexer for MPEG transport streams written in Rust.

  \<^bold>\<open>The program.\<close> A supervisor (\<open>supervisor.rs\<close>) runs one worker for each stream of its configuration (\<open>config.rs\<close>). A worker
  (\<open>workers/mod.rs\<close>) is a task that reads the input and publishes what it reads on a channel, and a task for each output that takes
  it from there. An output that is no proxy feeds a packet handler (\<open>mux.rs\<close>): it finds the tables of the program, rewrites them for the new
  service, checks the continuity counters, buffers audio and video, becomes ready when everything it needs has been seen, and then gives out
  packets at a constant or variable bit rate with restamped clock references and its own tables in between. The handler uses the packet
  functions (\<open>packet.rs\<close>), the tables (\<open>psi/\<close>), BISS descrambling (\<open>biss.rs\<close>) and the counters (\<open>status.rs\<close>). Beside the workers
  there are a probe that describes a running stream (\<open>probe.rs\<close> with \<open>pes/\<close>), programme guides (\<open>epg/epg.rs\<close>), routers that hand out
  streams over HTTP by alias and key (\<open>http_router.rs\<close>, \<open>database.rs\<close>), and the connection to a management server
  (\<open>api_client.rs\<close>).

  \<^bold>\<open>How it is modelled.\<close> The build is the release build: integers are words of their width and wrap around, except \<open>usize\<close>, which is a
  natural number with \<open>usize_sub\<close> for a subtraction that may go below zero. A function that may panic, or not return, gives an
  option; \<open>None\<close> is the panic, and an \<open>Option\<close> of Rust is an inner option. A \<open>Result\<close> is a sum with the error on the left. Strings are their
  UTF-8 bytes, floats are rationals that are rounded after each operation (\<open>Rust_Float\<close>). Mutable state is a record that is passed along; tasks
  that interleave are step relations or steps on the state between two waits, with what a wait ends with as an event. A log text is a
  constructor with its parameters. The clock, random numbers, the order in which a hash map is walked and the results of system calls are
  arguments. Code of other packages is a parameter with its documented laws as hypotheses: CRC-32, the block cipher, the unstable sort,
  the text decoders, calendar and time zones, the parsers of JSON, URLs, networks and playlists, the HTTP client and server, the database.

  \<^bold>\<open>The theories.\<close>
  \<^item> \<open>Rust_Prelude\<close>, \<open>Rust_Float\<close>, \<open>Rust_Text\<close>, \<open>Rust_Utf8\<close>: what the sources use of the language and its library, the shared lemmas on
    lists, words and options, and the collections of simplification rules.
  \<^item> \<open>Ts_Packet\<close> (\<open>packet.rs\<close>): the fields of a packet; reading back a PCR that was written, decoding of PTS and DTS.
  \<^item> \<open>Psi_Section\<close>, \<open>Psi_Pat\<close>, \<open>Psi_Pmt\<close>, \<open>Psi_Sdt\<close>, \<open>Psi_Eit\<close> (\<open>psi/\<close>): reassembly and packing of sections as inverse operations, rewriting of the
    tables against a description of the result and reading them back, dates and durations, event sections.
  \<^item> \<open>Mux_Clock\<close>, \<open>Mux_Buffer\<close>, \<open>Output_Stats\<close>, \<open>Mux_Handler\<close>, \<open>Mux_Process\<close>, \<open>Mux_Output\<close> (\<open>mux.rs\<close>, \<open>status.rs\<close>): the clock on its cycle, the buffers, the
    handler with its input and output side. \<open>Mux_Invariant\<close> states the invariant of the handler and that every operation keeps it, \<open>Mux_Props\<close>
    that it never panics and what it sends has the configured form, \<open>Mux_Order\<close> when an output is ready, in which order packets leave, and how
    continuity errors are counted.
  \<^item> \<open>Config\<close>, \<open>Config_File\<close> (\<open>config.rs\<close>, \<open>main.rs\<close>): the configuration and its validation; the file with its backups under failing calls of the file
    system, and that the program starts with what it saved.
  \<^item> \<open>Biss\<close>, \<open>Rtp\<close>: descrambling undoes scrambling, unpacking undoes packing.
  \<^item> \<open>Bit_Reader\<close>, \<open>Es_Parsers\<close>, \<open>Es_Props\<close>, \<open>Es_Description\<close>, \<open>Pes_Parser\<close> (\<open>pes/\<close>): the bit reader, the parsers of the elementary streams, the texts that
    describe them, the reassembly of PES packets.
  \<^item> \<open>Worker_Status\<close>, \<open>Workers\<close> (\<open>workers/mod.rs\<close>): the protocol by which a worker reports that it is dirty, against an abstract
    specification; workers and their tasks on a model of the runtime.
  \<^item> \<open>Inputs\<close>, \<open>Outputs\<close> (\<open>workers/input_*.rs\<close>, \<open>workers/output_*.rs\<close>): the loops of the tasks. The contract of an input (what it accepts is
    forwarded and counted, its state is reported) and of an output (it keeps the invariant of its handler and sends only what is well formed) are
    locales, interpreted on all kinds at once. \<open>Relay\<close> puts them together: the theorems below take a stream from the input of a worker through a
    proxy output, and over RTP into a second instance.
  \<^item> \<open>Supervisor\<close>, \<open>Supervisor_Props\<close>, \<open>Http_Api\<close>, \<open>Management\<close> (\<open>supervisor.rs\<close>, \<open>misc.rs\<close>, \<open>api_client.rs\<close>): the state and operations, step by step where they
    interleave, with the invariant that no worker is owned twice; the routes and who is let in; the status loop, the messages to
    the server and the statistics.
  \<^item> \<open>Probe\<close>, \<open>Epg\<close>, \<open>Http_Router\<close>, \<open>Hls\<close>: the remaining components. The probe finds the programs of a stream, a guide loses no packet between its
    rounds, a router follows the database, the HLS client asks for no segment twice.

  \<^bold>\<open>Loops and bounds.\<close> Recursion that is not structural has a measure: the buffer for the search of the raster and the packets, the waiting
  packets together with the tables that are due for the loops that drain a handler. The one loop of the program that may run for ever, the count of zeros of
  an Exp-Golomb code, is a partial function, and it is shown when it ends. Loops of tasks are runs over lists of events, so no bound is
  chosen for them. Operations of the supervisor have a bounded number of steps, which \<open>run_op\<close> is given.

  \<^bold>\<open>What the theorems show beside correctness.\<close> Some lemmas show behaviour the code surely does not intend, among them
  \<open>silent_source_unnoticed\<close>, \<open>monitor_gives_up\<close>, \<open>start_race\<close>, \<open>long_playlist_replayed\<close>, \<open>pacing_keeps_channel\<close>, \<open>interrupted_save_stops_program\<close>,
  \<open>bad_address_ends_status\<close>, \<open>adts_misread\<close> and \<open>bad_network_panics\<close>.

  \<^bold>\<open>Not modelled.\<close> The JSON texts themselves (library code), the call of \<open>top\<close> and the figures of the allocator, the set up of
  loggers in \<open>main.rs\<close>, memory management of the cipher library, the size limits of channels other than the
  lag that is reported, and the build script. Locks that are taken twice and the order of atomic operations within one method are not visible in
  the model, which takes a method as one step.
\<close>

section \<open>A stream from end to end\<close>

text \<open>
  C12. A proxy without a program is transparent: whatever kind of input without a key feeds the worker and whatever happens to it, a proxy
  output of any kind that gets every chunk of the channel and whose sends succeed does not panic, and what its datagrams or
  pieces carry is exactly, in order and without a byte more or less, what the input accepted from its source.
\<close>

theorem relay_transparent:
  assumes "it_biss s = None" "it_tx s = []" "input_run (remote_step ikind ienv) s ies = Some s'"
    and "passes st" "list_all relays es" "chunks_of es = it_tx s'"
  shows "\<exists>st' ds. output_run (output_step okind shut env) st es = Some st' \<and> ou_out st' = ou_out st @ ds
    \<and> map (carried okind) ds = it_tx s'
    \<and> concat (map (carried okind) ds) = run_accepted (remote_step ikind ienv) (accepted_bytes ikind) s ies"
proof -
  obtain st' ds where run: "output_run (output_step okind shut env) st es = Some st'" "ou_out st' = ou_out st @ ds"
      "packed_all okind (ou_rtp st) (chunks_of es) ds"
    using output_run_relays [OF assms(4,5)] by blast
  have "concat (it_tx s') = run_accepted (remote_step ikind ienv) (accepted_bytes ikind) s ies"
    using inputs.run_plain [OF assms(1), of ikind ienv ies] assms(2,3) by auto
  then show ?thesis using run packed_all_carried [OF run(3)] assms(6) by auto
qed

definition pass_output :: output_state where
  "pass_output = ready_output\<lparr>ou_handler := example_ready\<lparr>ph_output := (ph_output example_ready)\<lparr>o_proxy := True, o_programs := []\<rparr>\<rparr>\<rparr>"

lemma pass_output_passes: "passes pass_output"
  by (simp add: passes_def pass_output_def ready_output_def is_some_program_def)

theorem relay_transparent_witness:
  "\<exists>s' st' ds. input_run (remote_step InUdp plain_env) udp_start [(0, Connected), (1, Data [71, 1]), (2, Data [71, 2])] = Some s'
     \<and> output_run (output_step OutRtp (True, True) example_env) pass_output (map (\<lambda>c. OChunk 0 c all_sent) (it_tx s')) = Some st'
     \<and> ou_out st' = ds \<and> concat (map (carried OutRtp) ds) = [71, 1, 71, 2]"
proof -
  let ?ies = "[(0, Connected), (1, Data [71, 1]), (2, Data [71, 2])]"
  obtain s' where s': "input_run (remote_step InUdp plain_env) udp_start ?ies = Some s'"
    using inputs.run_plain [OF udp_start_biss] by blast
  let ?es = "map (\<lambda>c. OChunk 0 c all_sent) (it_tx s')"
  have es: "list_all relays ?es" "chunks_of ?es = it_tx s'"
    by (auto simp: list_all_iff all_sent_def chunks_of_def comp_def)
  have start: "it_tx udp_start = []" "ou_out pass_output = []"
    "run_accepted (remote_step InUdp plain_env) (accepted_bytes InUdp) udp_start ?ies = [71, 1, 71, 2]"
    by (code_simp, simp add: pass_output_def ready_output_def, code_simp)
  show ?thesis
    using relay_transparent [OF udp_start_biss start(1) s' pass_output_passes es, of OutRtp "(True, True)" example_env] s' start by auto
qed

text \<open>
  C13. Two instances can be chained over RTP: when a udp input feeds a proxy output over RTP in one instance and its datagrams arrive, each
  once and in order, at the RTP input of another one that has not heard of a source yet, the other instance publishes exactly the chunks of the first, stays
  connected, and together they are what arrived at the first. The random source identifiers must not be 0, which both sides take for unset.
\<close>

theorem rtp_link:
  assumes "it_biss s = None" "it_tx s = []" "input_run (remote_step InUdp ienv) s ies = Some s'"
    and "passes st" "rtp_plain (ou_rtp st)" "list_all relays es" "chunks_of es = it_tx s'"
    and "it_phase r = Receiving" "it_biss r = None" "rtp_plain (it_rtp r)" "rtp_ssrc (it_rtp r) = 0"
  shows "\<exists>st' ds. output_run (output_step OutRtp shut env) st es = Some st' \<and> ou_out st' = ou_out st @ ds
    \<and> (\<forall>ts. length ts = length ds \<longrightarrow> (\<exists>r'. input_run (remote_step InRtp renv) r (zip ts (map Data ds)) = Some r'
        \<and> it_phase r' = Receiving \<and> it_tx r' = it_tx r @ it_tx s'))
    \<and> concat (it_tx s') = run_accepted (remote_step InUdp ienv) (accepted_bytes InUdp) s ies"
proof -
  obtain st' ds where run: "output_run (output_step OutRtp shut env) st es = Some st'" "ou_out st' = ou_out st @ ds"
      "packed_all OutRtp (ou_rtp st) (it_tx s') ds"
    using output_run_relays [OF assms(4,6)] assms(7) by metis
  have "concat (it_tx s') = run_accepted (remote_step InUdp ienv) (accepted_bytes InUdp) s ies"
    using inputs.run_plain [OF assms(1), of InUdp ienv ies] assms(2,3) by auto
  moreover have "\<forall>c \<in> set (it_tx s'). length c \<le> UDP_READ_CHUNK_SIZE"
    using udp_run_sizes [OF assms(1,3)] assms(2) by simp
  moreover have "receives r" "linked (ou_rtp st) (it_rtp r)"
    using assms(5,8-11) by (simp_all add: receives_def linked_def)
  ultimately show ?thesis
    using run rtp_run_receives [OF run(3), of r _ renv] by (auto simp: receives_def)
qed

theorem rtp_link_witness:
  "\<exists>s' st' ds r'. input_run (remote_step InUdp plain_env) udp_start [(0, Connected), (1, Data [71, 1]), (2, Data [71, 2])] = Some s'
     \<and> output_run (output_step OutRtp (True, True) example_env) pass_output (map (\<lambda>c. OChunk 0 c all_sent) (it_tx s')) = Some st'
     \<and> ou_out st' = ds \<and> input_run (remote_step InRtp plain_env) (udp_start\<lparr>it_phase := Receiving\<rparr>) (zip [0..<length ds] (map Data ds)) = Some r'
     \<and> concat (it_tx r') = [71, 1, 71, 2]"
proof -
  let ?ies = "[(0, Connected), (1, Data [71, 1]), (2, Data [71, 2])]"
  let ?r = "udp_start\<lparr>it_phase := Receiving\<rparr>"
  obtain s' where s': "input_run (remote_step InUdp plain_env) udp_start ?ies = Some s'"
    using inputs.run_plain [OF udp_start_biss] by blast
  let ?es = "map (\<lambda>c. OChunk 0 c all_sent) (it_tx s')"
  have es: "list_all relays ?es" "chunks_of ?es = it_tx s'"
    by (auto simp: list_all_iff all_sent_def chunks_of_def comp_def)
  have start: "it_tx udp_start = []" "ou_out pass_output = []" "rtp_plain (ou_rtp pass_output)"
    "run_accepted (remote_step InUdp plain_env) (accepted_bytes InUdp) udp_start ?ies = [71, 1, 71, 2]"
    by (code_simp, simp_all add: pass_output_def ready_output_def rtp_plain_def rtp_new_def, code_simp)
  have r: "it_phase ?r = Receiving" "it_biss ?r = None" "rtp_plain (it_rtp ?r)" "rtp_ssrc (it_rtp ?r) = 0"
    using udp_start_biss by (simp_all add: udp_start_def remote_new_def Let_def split_beta rtp_plain_def rtp_new_def)
  show ?thesis
    using rtp_link [OF udp_start_biss start(1) s' pass_output_passes start(3) es r, of "(True, True)" example_env plain_env] s' start
    by (auto dest!: spec [of _ "[0..<_]"])
qed

end
